(* ===== verification/Prelude.thy ===== *)
theory Prelude
  imports Complex_Main "HOL-Library.Sublist" "HOL-Library.AList" "HOL-Library.Multiset"
begin

text \<open>
  Shared vocabulary of the development.

  \<^item> Go's scalar types: \<open>int\<close> on a 64-bit platform (its range, \<open>math.MaxInt\<close>), durations and
    times in nanoseconds, with the saturating \<open>time.Time.Sub\<close>.
  \<^item> Reachable states of a step relation, and the locale \<open>step_invariant\<close> through which every
    component with interleaved operations proves its invariants.
  \<^item> The locale \<open>run_invariant\<close> for components whose operations are a function of an event.
  \<^item> Boolean masks over message lists, which the trimming code uses, and the list lemmas that
    several components share.
  \<^item> The collections \<open>go_arith\<close> and \<open>mask_simps\<close>.
\<close>

named_theorems go_arith \<open>ranges of Go integers\<close>
named_theorems mask_simps \<open>boolean keep masks over lists\<close>

section \<open>Go integers, durations and times\<close>

definition MaxInt :: int where
  "MaxInt = 9223372036854775807"

definition MinInt :: int where
  "MinInt = -9223372036854775808"

definition is_int64 :: "int \<Rightarrow> bool" where
  "is_int64 n \<longleftrightarrow> MinInt \<le> n \<and> n \<le> MaxInt"

text \<open>\<open>len\<close>: no Go string or slice is longer than \<open>MaxInt\<close>.\<close>

definition go_len :: "'a list \<Rightarrow> int" where
  "go_len xs = min MaxInt (int (length xs))"

text \<open>
  Durations are \<open>int64\<close> nanoseconds. A \<open>time.Time\<close> is a number of nanoseconds since the zero
  time, so that the zero value \<open>time.Time{}\<close> is 0. \<open>Sub\<close> saturates at the range of a duration.
\<close>

type_synonym duration = int
type_synonym gotime = int

definition zero_time :: gotime where
  "zero_time = 0"

definition nanosecond_per_second :: duration where
  "nanosecond_per_second = 1000000000"

definition time_sub :: "gotime \<Rightarrow> gotime \<Rightarrow> duration" where
  "time_sub a b = max MinInt (min MaxInt (a - b))"

lemma MaxInt_pos [simp, go_arith]: "0 < MaxInt" "0 \<le> MaxInt"
  by (simp_all add: MaxInt_def)

lemma MinInt_neg [simp, go_arith]: "MinInt < 0"
  by (simp add: MinInt_def)

lemma go_len_bounds [simp, go_arith]: "0 \<le> go_len xs" "go_len xs \<le> MaxInt" "go_len [] = 0"
  by (simp_all add: go_len_def MaxInt_def)

lemma go_len_pos [simp]: "0 < go_len xs \<longleftrightarrow> xs \<noteq> []"
  by (simp add: go_len_def MaxInt_def)

lemma is_int64_0 [simp]: "is_int64 0"
  by (simp add: is_int64_def MaxInt_def MinInt_def)

lemma is_int64_between: "is_int64 a \<Longrightarrow> is_int64 b \<Longrightarrow> a \<le> n \<Longrightarrow> n \<le> b \<Longrightarrow> is_int64 n"
  by (simp add: is_int64_def)

lemma time_sub_exact: "is_int64 (a - b) \<Longrightarrow> time_sub a b = a - b"
  by (simp add: time_sub_def is_int64_def)

lemma time_sub_ge_iff: "d \<le> MaxInt \<Longrightarrow> MinInt < d \<Longrightarrow> d \<le> time_sub a b \<longleftrightarrow> b + d \<le> a"
  by (auto simp: time_sub_def)

lemma time_sub_gt_iff: "MinInt \<le> d \<Longrightarrow> d < MaxInt \<Longrightarrow> d < time_sub a b \<longleftrightarrow> b + d < a"
  by (auto simp: time_sub_def)

section \<open>Reachability and invariants\<close>

inductive reach :: "('s \<Rightarrow> bool) \<Rightarrow> ('s \<Rightarrow> 's \<Rightarrow> bool) \<Rightarrow> 's \<Rightarrow> bool"
  for init :: "'s \<Rightarrow> bool" and step :: "'s \<Rightarrow> 's \<Rightarrow> bool" where
  reach_init: "init s \<Longrightarrow> reach init step s"
| reach_step: "reach init step s \<Longrightarrow> step s t \<Longrightarrow> reach init step t"

text \<open>The contract of an invariant of an interleaved component.\<close>

locale step_invariant =
  fixes init :: "'s \<Rightarrow> bool" and step :: "'s \<Rightarrow> 's \<Rightarrow> bool" and inv :: "'s \<Rightarrow> bool"
  assumes inv_init: "init s \<Longrightarrow> inv s"
    and inv_step: "step s t \<Longrightarrow> inv s \<Longrightarrow> inv t"
begin

lemma inv_reach: "reach init step s \<Longrightarrow> inv s"
  by (induction rule: reach.induct) (auto intro: inv_init inv_step)

lemma inv_steps: "step\<^sup>*\<^sup>* s t \<Longrightarrow> inv s \<Longrightarrow> inv t"
  by (induction rule: rtranclp_induct) (auto intro: inv_step)

end

text \<open>The contract of an invariant of a component driven by events, one function per event.\<close>

locale run_invariant =
  fixes apply_event :: "'e \<Rightarrow> 's \<Rightarrow> 's" and inv :: "'s \<Rightarrow> bool"
  assumes inv_event: "inv s \<Longrightarrow> inv (apply_event e s)"
begin

lemma inv_run: "inv s \<Longrightarrow> inv (fold apply_event es s)"
  by (induction es arbitrary: s) (auto intro: inv_event)

end

section \<open>Keep masks\<close>

text \<open>\<open>masked keep xs\<close> is the list of the elements whose flag is set, in order.\<close>

fun masked :: "bool list \<Rightarrow> 'a list \<Rightarrow> 'a list" where
  "masked (k # ks) (x # xs) = (if k then x # masked ks xs else masked ks xs)"
| "masked _ _ = []"

lemma masked_Nil [simp]: "masked [] xs = []" "masked ks [] = []"
  by (cases ks; simp)+

lemma subseq_masked [intro, mask_simps]: "subseq (masked ks xs) xs"
  by (induction ks xs rule: masked.induct) auto

lemma set_masked:
  "set (masked ks xs) = {xs ! i | i. i < length xs \<and> i < length ks \<and> ks ! i}"
proof (induction ks xs rule: masked.induct)
  case (1 k ks x xs)
  have "{(x # xs) ! i | i. i < length (x # xs) \<and> i < length (k # ks) \<and> (k # ks) ! i}
      = (if k then {x} else {}) \<union> {xs ! i | i. i < length xs \<and> i < length ks \<and> ks ! i}"
    (is "?L = ?R")
  proof
    show "?L \<subseteq> ?R" by (auto simp: less_Suc_eq_0_disj)
    show "?R \<subseteq> ?L" by (auto split: if_splits) force+
  qed
  with 1 show ?case by auto
qed auto

lemma masked_all: "length ks = length xs \<Longrightarrow> \<forall>k \<in> set ks. k \<Longrightarrow> masked ks xs = xs"
  by (induction ks xs rule: masked.induct) auto

section \<open>Lists\<close>

lemma sum_list_nonneg_int: "(\<And>x. x \<in> set xs \<Longrightarrow> 0 \<le> f x) \<Longrightarrow> 0 \<le> (\<Sum>x\<leftarrow>xs. f x :: int)"
  by (induction xs) auto

lemma sum_list_filter_le:
  "(\<And>x. x \<in> set xs \<Longrightarrow> 0 \<le> f x) \<Longrightarrow> (\<Sum>x\<leftarrow>filter P xs. f x) \<le> (\<Sum>x\<leftarrow>xs. f x :: int)"
  by (induction xs) (auto simp: add_increasing)

lemma alist_filter_lookup:
  "distinct (map fst al) \<Longrightarrow> map_of (filter Q al) key = Some x \<longleftrightarrow> map_of al key = Some x \<and> Q (key, x)"
proof (induction al)
  case (Cons p al)
  obtain a b where p: "p = (a, b)" by (cases p)
  with Cons.prems have "map_of al a = None" by (simp add: map_of_eq_None_iff)
  with Cons p show ?case by auto
qed simp

lemma distinct_fst_filter: "distinct (map fst xs) \<Longrightarrow> distinct (map fst (filter P xs))"
  by (induction xs) auto

lemma length_delete_in:
  "distinct (map fst xs) \<Longrightarrow> k \<in> fst ` set xs \<Longrightarrow> Suc (length (AList.delete k xs)) = length xs"
proof (induction xs)
  case (Cons x xs)
  show ?case
  proof (cases "fst x = k")
    case True
    with Cons.prems have "k \<notin> fst ` set xs" by auto
    then have "AList.delete k xs = xs" by (simp add: delete_idem)
    with True show ?thesis by (cases x) simp
  next
    case False
    with Cons show ?thesis by (cases x) auto
  qed
qed simp

lemma set_alist_update: "set (AList.update k v al) \<subseteq> insert (k, v) (set al)"
  by (induction al) auto

lemma set_alist_delete: "set (AList.delete k al) \<subseteq> set al"
  by (induction al) auto

lemma length_alist_update:
  "length (AList.update k v al) = (if k \<in> fst ` set al then length al else Suc (length al))"
  by (induction al) auto

lemmas alist_simps = update_conv' delete_conv' distinct_update distinct_delete

lemmas alist_sets = set_alist_update [THEN subsetD] set_alist_delete [THEN subsetD]

text \<open>Counting the elements of a list that satisfy a predicate, under an update at one index.\<close>

definition count_if :: "('a \<Rightarrow> bool) \<Rightarrow> 'a list \<Rightarrow> int" where
  "count_if Q xs = int (length (filter Q xs))"

lemma count_if_nonneg [simp]: "0 \<le> count_if Q xs"
  by (simp add: count_if_def)

lemma count_if_simps [simp]:
  "count_if Q [] = 0"
  "count_if Q (x # xs) = (if Q x then 1 else 0) + count_if Q xs"
  "count_if Q (xs @ ys) = count_if Q xs + count_if Q ys"
  by (simp_all add: count_if_def)

lemma count_if_update:
  "i < length xs \<Longrightarrow>
   count_if Q (xs[i := y]) = count_if Q xs - (if Q (xs ! i) then 1 else 0) + (if Q y then 1 else 0)"
  by (induction xs arbitrary: i) (auto split: nat.splits)

lemma count_if_pos_iff: "0 < count_if Q xs \<longleftrightarrow> (\<exists>i < length xs. Q (xs ! i))"
  by (auto simp: count_if_def filter_empty_conv in_set_conv_nth Bex_def)

lemma distinct_map_sort_key: "distinct (map f (sort_key g xs)) \<longleftrightarrow> distinct (map f xs)"
  by (rule mset_eq_imp_distinct_iff) (simp add: mset_map)

end
