(* ===== verification/Token_Arith.thy ===== *)
theory Token_Arith
  imports Prelude
begin

text \<open>
  The arithmetic boundary of \<open>agent/context_manager.go\<close>: overflow-checked and saturating addition
  and subtraction of token counts. Go's \<open>int\<close> is an integer in the range \<open>is_int64\<close>; on
  arguments in that range the tests below never overflow themselves, so they are the Go tests.
\<close>

definition checkedTokenAdd :: "int \<Rightarrow> int \<Rightarrow> int \<times> bool" where
  "checkedTokenAdd a b =
     (if (b > 0 \<and> a > MaxInt - b) \<or> (b < 0 \<and> a < MinInt - b) then (MaxInt, False)
      else (a + b, True))"

definition checkedTokenSub :: "int \<Rightarrow> int \<Rightarrow> int \<times> bool" where
  "checkedTokenSub a b =
     (if (b > 0 \<and> a < MinInt + b) \<or> (b < 0 \<and> a > MaxInt + b) then (MaxInt, False)
      else (a - b, True))"

definition saturatedTokenAdd :: "int \<Rightarrow> int \<Rightarrow> int" where
  "saturatedTokenAdd a b = fst (checkedTokenAdd a b)"

lemma checkedTokenAdd_ok [simp]:
  "checkedTokenAdd a b = (n, True) \<longleftrightarrow> n = a + b \<and> (b > 0 \<longrightarrow> a + b \<le> MaxInt) \<and> (b < 0 \<longrightarrow> MinInt \<le> a + b)"
  by (auto simp: checkedTokenAdd_def)

lemma checkedTokenAdd_fail [simp]:
  "checkedTokenAdd a b = (n, False) \<longleftrightarrow> n = MaxInt \<and> ((b > 0 \<and> MaxInt < a + b) \<or> (b < 0 \<and> a + b < MinInt))"
  by (auto simp: checkedTokenAdd_def)

lemma checkedTokenSub_ok [simp]:
  "checkedTokenSub a b = (n, True) \<longleftrightarrow> n = a - b \<and> (b > 0 \<longrightarrow> MinInt \<le> a - b) \<and> (b < 0 \<longrightarrow> a - b \<le> MaxInt)"
  by (auto simp: checkedTokenSub_def)

lemma checkedTokenSub_fail [simp]:
  "checkedTokenSub a b = (n, False) \<longleftrightarrow> n = MaxInt \<and> ((b > 0 \<and> a - b < MinInt) \<or> (b < 0 \<and> MaxInt < a - b))"
  by (auto simp: checkedTokenSub_def)

lemma checkedTokenAdd_nonneg: "0 \<le> b \<Longrightarrow> a + b \<le> MaxInt \<Longrightarrow> checkedTokenAdd a b = (a + b, True)"
  by simp

lemma checkedTokenSub_nonneg: "0 \<le> b \<Longrightarrow> 0 \<le> a - b \<Longrightarrow> checkedTokenSub a b = (a - b, True)"
  using less_le_trans[OF MinInt_neg, of "a - b"] by auto

lemma saturatedTokenAdd_eq:
  "is_int64 a \<Longrightarrow> is_int64 b \<Longrightarrow>
   saturatedTokenAdd a b = (if is_int64 (a + b) then a + b else MaxInt)"
  by (auto simp: saturatedTokenAdd_def checkedTokenAdd_def is_int64_def)

lemma saturatedTokenAdd_nonneg: "0 \<le> a \<Longrightarrow> 0 \<le> b \<Longrightarrow> saturatedTokenAdd a b = min MaxInt (a + b)" if "a \<le> MaxInt"
  using that by (auto simp: saturatedTokenAdd_def checkedTokenAdd_def)

lemma saturatedTokenAdd_0 [simp]: "saturatedTokenAdd a 0 = a"
  by (simp add: saturatedTokenAdd_def checkedTokenAdd_def)

section \<open>Properties\<close>

text \<open>On 64-bit arguments the checked operations report success exactly when the true sum or
  difference is representable, and then return it; on failure they return \<open>math.MaxInt\<close>, so a
  wrapped negative never passes for spare capacity. Every result is a 64-bit integer.\<close>

theorem checked_arith_exact:
  assumes "is_int64 a" and "is_int64 b"
  shows "checkedTokenAdd a b = (if is_int64 (a + b) then (a + b, True) else (MaxInt, False))
    \<and> checkedTokenSub a b = (if is_int64 (a - b) then (a - b, True) else (MaxInt, False))
    \<and> is_int64 (fst (checkedTokenAdd a b)) \<and> is_int64 (fst (checkedTokenSub a b))
    \<and> is_int64 (saturatedTokenAdd a b)"
  using assms
  by (auto simp: checkedTokenAdd_def checkedTokenSub_def saturatedTokenAdd_def is_int64_def MaxInt_def MinInt_def)

theorem checked_arith_exact_witness:
  "checkedTokenAdd 9223372036854775807 1 = (9223372036854775807, False)
   \<and> checkedTokenAdd 40 2 = (42, True)"
  using checked_arith_exact [of 9223372036854775807 1] checked_arith_exact [of 40 2]
  by (simp add: is_int64_def MaxInt_def MinInt_def)

end
