(* ===== verification/Go_Float.thy ===== *)
theory Go_Float
  imports Prelude "HOL-Library.Log_Nat"
begin

text \<open>
  Go's \<open>float64\<close> as far as the modelled code uses it: comparisons, \<open>math.Min\<close>, \<open>math.Max\<close>,
  conversion from \<open>int\<close>, multiplication and division of converted integers, truncation back
  to \<open>int\<close>. A finite value is the rational number it denotes; results of arithmetic are rounded
  to the nearest number with a 53-bit significand, ties to even. The two zeros are identified,
  which no modelled operation distinguishes, and the exponent is unbounded: quotients and
  products of 64-bit integers and fractions below one neither overflow nor, after truncation to
  an integer, differ in the subnormal range.
\<close>

datatype f64 = F_NaN | F_NegInf | F_Fin rat | F_PosInf

fun f_lt :: "f64 \<Rightarrow> f64 \<Rightarrow> bool" where
  "f_lt (F_Fin a) (F_Fin b) = (a < b)"
| "f_lt F_NegInf (F_Fin _) = True"
| "f_lt F_NegInf F_PosInf = True"
| "f_lt (F_Fin _) F_PosInf = True"
| "f_lt _ _ = False"

fun f_eq :: "f64 \<Rightarrow> f64 \<Rightarrow> bool" where
  "f_eq (F_Fin a) (F_Fin b) = (a = b)"
| "f_eq F_NegInf F_NegInf = True"
| "f_eq F_PosInf F_PosInf = True"
| "f_eq _ _ = False"

definition f_le :: "f64 \<Rightarrow> f64 \<Rightarrow> bool" where
  "f_le a b \<longleftrightarrow> f_lt a b \<or> f_eq a b"

text \<open>\<open>math.Min\<close> and \<open>math.Max\<close>: an infinity of the right sign wins, then a NaN is returned.\<close>

definition f_min :: "f64 \<Rightarrow> f64 \<Rightarrow> f64" where
  "f_min a b = (if a = F_NegInf \<or> b = F_NegInf then F_NegInf
                else if a = F_NaN \<or> b = F_NaN then F_NaN
                else if f_lt a b then a else b)"

definition f_max :: "f64 \<Rightarrow> f64 \<Rightarrow> f64" where
  "f_max a b = (if a = F_PosInf \<or> b = F_PosInf then F_PosInf
                else if a = F_NaN \<or> b = F_NaN then F_NaN
                else if f_lt b a then a else b)"

text \<open>Rounding of a rational to 53 significant bits.\<close>

definition round_half_even :: "rat \<Rightarrow> int" where
  "round_half_even q =
     (let f = \<lfloor>q\<rfloor>; r = q - of_int f
      in if r < 1 / 2 then f else if r > 1 / 2 then f + 1 else if even f then f else f + 1)"

definition exponent_of :: "rat \<Rightarrow> int" where
  "exponent_of q =
     (case quotient_of \<bar>q\<bar> of (n, d) \<Rightarrow>
        let e = bitlen n - bitlen d in if 2 powi e \<le> \<bar>q\<bar> then e else e - 1)"

definition fl :: "rat \<Rightarrow> rat" where
  "fl q = (if q = 0 then 0
           else let u = 2 powi (exponent_of q - 52) in of_int (round_half_even (q / u)) * u)"

text \<open>\<open>float64(n)\<close>, and \<open>float64(a) / float64(b)\<close> for \<open>b > 0\<close>.\<close>

definition f_of_int :: "int \<Rightarrow> rat" where
  "f_of_int n = fl (of_int n)"

definition f_div_int :: "int \<Rightarrow> int \<Rightarrow> f64" where
  "f_div_int a b = F_Fin (fl (f_of_int a / f_of_int b))"

text \<open>\<open>int(f)\<close> for a finite \<open>f\<close> in range: truncation towards zero.\<close>

definition trunc_int :: "rat \<Rightarrow> int" where
  "trunc_int q = (if 0 \<le> q then \<lfloor>q\<rfloor> else \<lceil>q\<rceil>)"

lemma f_lt_irrefl [simp]: "\<not> f_lt a a"
  by (cases a) auto

lemma f_lt_trans: "f_lt a b \<Longrightarrow> f_lt b c \<Longrightarrow> f_lt a c"
  by (cases a; cases b; cases c) auto

lemma f_le_trans: "f_le a b \<Longrightarrow> f_le b c \<Longrightarrow> f_le a c"
  by (cases a; cases b; cases c) (auto simp: f_le_def)

lemma f_le_refl_iff: "f_le a a \<longleftrightarrow> a \<noteq> F_NaN"
  by (cases a) (auto simp: f_le_def)

lemma f_le_Fin [simp]: "f_le (F_Fin a) (F_Fin b) \<longleftrightarrow> a \<le> b"
  by (auto simp: f_le_def)

lemma round_half_even_of_int [simp]: "round_half_even (of_int n) = n"
  by (simp add: round_half_even_def)

lemma round_half_even_mono: "a \<le> b \<Longrightarrow> round_half_even a \<le> round_half_even b"
proof -
  assume ab: "a \<le> b"
  then have f: "\<lfloor>a\<rfloor> \<le> \<lfloor>b\<rfloor>" by (rule floor_mono)
  show ?thesis
  proof (cases "\<lfloor>a\<rfloor> = \<lfloor>b\<rfloor>")
    case True
    then show ?thesis using ab by (auto simp: round_half_even_def Let_def)
  next
    case False
    with f have "\<lfloor>a\<rfloor> + 1 \<le> \<lfloor>b\<rfloor>" by simp
    then show ?thesis by (auto simp: round_half_even_def Let_def)
  qed
qed

lemma fl_0 [simp]: "fl 0 = 0"
  by (simp add: fl_def)

lemma exponent_of_le:
  assumes "q \<noteq> 0"
  shows "2 powi exponent_of q \<le> \<bar>q\<bar>"
proof -
  obtain n d where nd: "quotient_of \<bar>q\<bar> = (n, d)" by fastforce
  have d: "0 < d" using nd by (rule quotient_of_denom_pos)
  have q: "\<bar>q\<bar> = of_int n / of_int d" using nd by (rule quotient_of_div)
  have n: "0 < n" using assms d q zero_less_abs_iff[of q] by (simp add: zero_less_divide_iff)
  have len: "1 \<le> bitlen n" "1 \<le> bitlen d" using n d by (simp_all add: bitlen_alt_def)
  have "of_int ((2::int) ^ nat (bitlen n - 1)) \<le> (of_int n :: rat)" "of_int d \<le> (of_int ((2::int) ^ nat (bitlen d)) :: rat)"
    using bitlen_bounds[OF n] bitlen_bounds[OF d] unfolding of_int_le_iff by linarith+
  then have le: "2 powi (bitlen n - 1) \<le> (of_int n :: rat)" "(of_int d :: rat) \<le> 2 powi bitlen d"
    using len by (simp_all add: power_int_def)
  have "2 powi (bitlen n - bitlen d - 1) = (2 powi (bitlen n - 1) / 2 powi bitlen d :: rat)"
    by (simp add: power_int_diff[symmetric] algebra_simps)
  also have "\<dots> \<le> of_int n / of_int d"
    using le n d by (intro frac_le) simp_all
  finally have "2 powi (bitlen n - bitlen d - 1) \<le> \<bar>q\<bar>" by (simp add: q)
  then show ?thesis by (auto simp: exponent_of_def nd Let_def)
qed

lemma fl_nonneg: "0 \<le> q \<Longrightarrow> 0 \<le> fl q"
  using round_half_even_mono[of 0] round_half_even_of_int[of 0] by (simp add: fl_def Let_def)

text \<open>An integer of at most 53 bits bounds the rounding of everything below it.\<close>

lemma fl_le_int:
  assumes "0 \<le> q" and "q \<le> of_int n" and n: "n \<le> 2 ^ 53"
  shows "fl q \<le> of_int n"
proof (cases "q = 0")
  case False
  let ?e = "exponent_of q" and ?u = "2 powi (exponent_of q - 52) :: rat"
  have e: "2 powi ?e \<le> q" using exponent_of_le[OF False] assms(1) by simp
  have u: "0 < ?u" by simp
  have "?e \<le> 53"
  proof (rule ccontr)
    assume "\<not> ?e \<le> 53"
    then have "(2::rat) powi 54 \<le> 2 powi ?e" by (intro power_int_increasing) auto
    also have "\<dots> \<le> of_int n" using e assms(2) by simp
    also have "\<dots> \<le> of_int (2 ^ 53)" using n by (simp only: of_int_le_iff)
    finally show False by simp
  qed
  have "\<exists>k. of_int n / ?u = of_int k"
  proof (cases "?e \<le> 52")
    case True
    then have "of_int n / ?u = of_int (n * 2 ^ nat (52 - ?e))"
      by (simp add: power_int_def field_simps power_inverse)
    then show ?thesis by blast
  next
    case False
    with \<open>?e \<le> 53\<close> have "?e = 53" by simp
    with e assms(2) n have "of_int n = (of_int (2 ^ 53) :: rat)"
      by (intro order_antisym) (simp_all only: of_int_le_iff, simp)
    then show ?thesis using \<open>?e = 53\<close> by (intro exI[of _ "2 ^ 52"]) simp
  qed
  then obtain k where k: "of_int n / ?u = of_int k" by blast
  have "round_half_even (q / ?u) \<le> k"
    using round_half_even_mono[OF divide_right_mono[OF assms(2), of ?u]] u k by simp
  then have "of_int (round_half_even (q / ?u)) * ?u \<le> of_int k * ?u" using u by simp
  with k u show ?thesis using False by (simp add: fl_def Let_def field_simps)
qed (use assms in simp)

lemma trunc_product_le:
  assumes "0 \<le> n" "n \<le> 2 ^ 53" "0 \<le> q" "q \<le> 1"
  shows "trunc_int (fl (f_of_int n * q)) \<le> n"
proof -
  have f: "0 \<le> f_of_int n" "f_of_int n \<le> of_int n"
    using assms(1,2) by (auto simp: f_of_int_def intro: fl_nonneg fl_le_int)
  then have "f_of_int n * q \<le> of_int n * 1" using assms by (intro mult_mono) auto
  then have "fl (f_of_int n * q) \<le> of_int n" using f assms by (intro fl_le_int) auto
  moreover have "0 \<le> fl (f_of_int n * q)" using f assms by (intro fl_nonneg) auto
  ultimately show ?thesis by (simp add: trunc_int_def floor_le_iff)
qed

section \<open>Monotonicity of rounding\<close>

lemma exponent_of_gt:
  assumes "q \<noteq> 0"
  shows "\<bar>q\<bar> < 2 powi (exponent_of q + 1)"
proof -
  obtain n d where nd: "quotient_of \<bar>q\<bar> = (n, d)" by fastforce
  have d: "0 < d" using nd by (rule quotient_of_denom_pos)
  have q: "\<bar>q\<bar> = of_int n / of_int d" using nd by (rule quotient_of_div)
  have n: "0 < n" using assms d q zero_less_abs_iff[of q] by (simp add: zero_less_divide_iff)
  have len: "1 \<le> bitlen n" "1 \<le> bitlen d" using n d by (simp_all add: bitlen_alt_def)
  have "of_int n < (of_int ((2::int) ^ nat (bitlen n)) :: rat)" "of_int ((2::int) ^ nat (bitlen d - 1)) \<le> (of_int d :: rat)"
    using bitlen_bounds[OF n] bitlen_bounds[OF d] unfolding of_int_less_iff of_int_le_iff by linarith+
  then have lt: "(of_int n :: rat) < 2 powi bitlen n" "2 powi (bitlen d - 1) \<le> (of_int d :: rat)"
    using len by (simp_all add: power_int_def)
  have "of_int n / of_int d < (2 powi bitlen n / 2 powi (bitlen d - 1) :: rat)"
    using lt n d by (intro frac_less) simp_all
  also have "\<dots> = 2 powi (bitlen n - bitlen d + 1)"
    by (simp add: power_int_diff[symmetric] algebra_simps)
  finally have "\<bar>q\<bar> < 2 powi (bitlen n - bitlen d + 1)" by (simp add: q)
  then show ?thesis by (auto simp: exponent_of_def nd Let_def)
qed

lemma exponent_of_mono:
  assumes "0 < a" "a \<le> b"
  shows "exponent_of a \<le> exponent_of b"
proof (rule ccontr)
  assume "\<not> exponent_of a \<le> exponent_of b"
  then have "(2::rat) powi (exponent_of b + 1) \<le> 2 powi exponent_of a" by (intro power_int_increasing) auto
  moreover have "2 powi exponent_of a \<le> a" "b < 2 powi (exponent_of b + 1)"
    using exponent_of_le[of a] exponent_of_gt[of b] assms by auto
  ultimately show False using assms by linarith
qed

lemma fl_between:
  assumes "0 < q"
  shows "2 powi exponent_of q \<le> fl q" "fl q \<le> 2 powi (exponent_of q + 1)"
proof -
  let ?e = "exponent_of q" and ?u = "2 powi (exponent_of q - 52) :: rat"
  have u: "0 < ?u" by simp
  have e: "2 powi ?e = of_int (2 ^ 52) * ?u" "2 powi (?e + 1) = of_int (2 ^ 53) * ?u"
    by (simp_all add: power_int_diff power_int_add)
  have lo: "of_int (2 ^ 52) \<le> q / ?u" and hi: "q / ?u \<le> of_int (2 ^ 53)"
    using exponent_of_le[of q] exponent_of_gt[of q] assms unfolding e by (simp_all add: pos_le_divide_eq pos_divide_le_eq)
  have "2 ^ 52 \<le> round_half_even (q / ?u)" "round_half_even (q / ?u) \<le> 2 ^ 53"
    using round_half_even_mono[OF lo] round_half_even_mono[OF hi] by (simp_all only: round_half_even_of_int)
  then have "(of_int (2 ^ 52) :: rat) \<le> of_int (round_half_even (q / ?u))" "(of_int (round_half_even (q / ?u)) :: rat) \<le> of_int (2 ^ 53)"
    by (simp_all only: of_int_le_iff)
  then have "of_int (2 ^ 52) * ?u \<le> of_int (round_half_even (q / ?u)) * ?u"
      "of_int (round_half_even (q / ?u)) * ?u \<le> of_int (2 ^ 53) * ?u"
    using u by (auto intro: mult_right_mono)
  then show "2 powi exponent_of q \<le> fl q" "fl q \<le> 2 powi (exponent_of q + 1)"
    using assms unfolding e by (simp_all add: fl_def Let_def)
qed

lemma fl_mono_nonneg:
  assumes "0 \<le> a" "a \<le> b"
  shows "fl a \<le> fl b"
proof (cases "a = 0")
  case False
  with assms have ab: "0 < a" "0 < b" by auto
  show ?thesis
  proof (cases "exponent_of a = exponent_of b")
    case True
    have "a / 2 powi (exponent_of b - 52) \<le> b / 2 powi (exponent_of b - 52)"
      using assms by (intro divide_right_mono) auto
    from round_half_even_mono[OF this] show ?thesis using ab True by (simp add: fl_def Let_def)
  next
    case False
    with exponent_of_mono[OF ab(1) assms(2)] have "exponent_of a + 1 \<le> exponent_of b" by simp
    then have "(2::rat) powi (exponent_of a + 1) \<le> 2 powi exponent_of b" by (intro power_int_increasing) auto
    with fl_between(2)[OF ab(1)] fl_between(1)[OF ab(2)] show ?thesis by linarith
  qed
qed (use assms in \<open>simp add: fl_nonneg\<close>)

lemma round_half_even_minus: "round_half_even (- q) = - round_half_even q"
proof (cases "q = of_int \<lfloor>q\<rfloor>")
  case True
  then show ?thesis by (metis of_int_minus round_half_even_of_int)
next
  case False
  then have "\<lfloor>- q\<rfloor> = - \<lfloor>q\<rfloor> - 1" by linarith
  then show ?thesis by (auto simp: round_half_even_def Let_def)
qed

lemma fl_minus: "fl (- q) = - fl q"
  by (simp add: fl_def Let_def exponent_of_def round_half_even_minus)

lemma fl_mono: "a \<le> b \<Longrightarrow> fl a \<le> fl b"
proof -
  assume ab: "a \<le> b"
  consider "0 \<le> a" | "a < 0" "0 \<le> b" | "b < 0" using ab by linarith
  then show ?thesis
  proof cases
    case 1
    with ab show ?thesis by (intro fl_mono_nonneg)
  next
    case 2
    then have "fl a \<le> 0" "0 \<le> fl b" using fl_nonneg[of "- a"] fl_nonneg[of b] fl_minus[of a] by auto
    then show ?thesis by simp
  next
    case 3
    then show ?thesis using ab fl_mono_nonneg[of "- b" "- a"] by (simp add: fl_minus)
  qed
qed

lemma fl_const: "fl 1 = 1" "fl (1 / 2) = 1 / 2" "fl 2 = 2"
  by code_simp+

text \<open>Integer multiples of a power of two with at most 53 bits are represented exactly.\<close>

lemma fl_dyadic:
  assumes "0 \<le> m" "m \<le> 2 ^ 53"
  shows "fl (of_int m * 2 powi e) = of_int m * 2 powi e"
proof (cases "m = 0")
  case False
  let ?q = "of_int m * 2 powi e :: rat"
  let ?E = "exponent_of ?q" and ?u = "2 powi (exponent_of ?q - 52) :: rat"
  have q: "0 < ?q" using False assms by simp
  have E: "2 powi ?E \<le> ?q" using exponent_of_le[of ?q] q False by simp
  have m: "(of_int m :: rat) \<le> 2 powi 53" using assms(2) of_int_le_iff[of m "2 ^ 53", where 'a = rat] by simp
  have "2 powi ?E \<le> (2 powi 53 * 2 powi e :: rat)" by (rule order_trans[OF E mult_right_mono[OF m]]) simp
  then have "(2::rat) powi ?E \<le> 2 powi (53 + e)" by (simp add: power_int_add)
  then have le: "?E \<le> 53 + e"
    using power_int_strict_increasing[of "53 + e" ?E "2::rat"] by (meson linorder_not_le one_less_numeral_iff semiring_norm(76) order_less_le_trans order_less_irrefl)
  have "\<exists>k. ?q / ?u = of_int k"
  proof (cases "?E \<le> e + 52")
    case True
    have "?q / ?u = of_int m * 2 powi (e - (?E - 52))" by (simp add: power_int_diff)
    also have "\<dots> = of_int (m * 2 ^ nat (e - (?E - 52)))" using True by (simp add: power_int_def)
    finally show ?thesis by blast
  next
    case False
    with le have Eq: "?E = e + 53" by simp
    then have "2 powi 53 * 2 powi e \<le> (of_int m :: rat) * 2 powi e" using E by (simp add: power_int_add mult.commute)
    then have "of_int m = (2 powi 53 :: rat)" using m by simp
    then have "?q / ?u = of_int (2 ^ 52)" unfolding Eq by (simp add: power_int_add power_int_diff)
    then show ?thesis by blast
  qed
  then obtain k where k: "?q / ?u = of_int k" by blast
  then have "of_int k * ?u = ?q" by (simp add: field_simps)
  then show ?thesis using q unfolding fl_def Let_def k by simp
qed simp

lemma fl_idem_nonneg:
  assumes "0 \<le> q"
  shows "fl (fl q) = fl q"
proof (cases "q = 0")
  case False
  let ?k = "round_half_even (q / 2 powi (exponent_of q - 52))"
  have eq: "fl q = of_int ?k * 2 powi (exponent_of q - 52)" using False by (simp add: fl_def Let_def)
  have q: "0 < q" using False assms by simp
  have "2 powi (exponent_of q + 1) = (of_int (2 ^ 53) * 2 powi (exponent_of q - 52) :: rat)"
    by (simp add: power_int_diff power_int_add)
  with fl_between(2)[OF q] have "of_int ?k * 2 powi (exponent_of q - 52) \<le> (of_int (2 ^ 53) * 2 powi (exponent_of q - 52) :: rat)"
    unfolding eq by simp
  then have "(of_int ?k :: rat) \<le> of_int (2 ^ 53)" by (rule mult_right_le_imp_le) simp
  then have "?k \<le> 2 ^ 53" by (simp only: of_int_le_iff)
  moreover have "0 \<le> ?k" using round_half_even_mono[of 0] round_half_even_of_int[of 0] q by simp
  ultimately show ?thesis unfolding eq by (intro fl_dyadic)
qed simp

lemma f_of_int_exact: "0 \<le> n \<Longrightarrow> n \<le> 2 ^ 53 \<Longrightarrow> f_of_int n = of_int n"
  using fl_dyadic[of n 0] by (simp add: f_of_int_def)

section \<open>Arithmetic\<close>

text \<open>The four operations with the special values; overflow to an infinity is not represented.\<close>

definition f_neg_sign :: "f64 \<Rightarrow> bool" where
  "f_neg_sign a \<longleftrightarrow> f_lt a (F_Fin 0)"

fun f_add :: "f64 \<Rightarrow> f64 \<Rightarrow> f64" where
  "f_add (F_Fin a) (F_Fin b) = F_Fin (fl (a + b))"
| "f_add F_PosInf b = (if b = F_NaN \<or> b = F_NegInf then F_NaN else F_PosInf)"
| "f_add F_NegInf b = (if b = F_NaN \<or> b = F_PosInf then F_NaN else F_NegInf)"
| "f_add F_NaN b = F_NaN"
| "f_add (F_Fin a) b = b"

fun f_neg :: "f64 \<Rightarrow> f64" where
  "f_neg (F_Fin a) = F_Fin (- a)"
| "f_neg F_PosInf = F_NegInf"
| "f_neg F_NegInf = F_PosInf"
| "f_neg F_NaN = F_NaN"

definition f_sub :: "f64 \<Rightarrow> f64 \<Rightarrow> f64" where
  "f_sub a b = f_add a (f_neg b)"

definition f_mul :: "f64 \<Rightarrow> f64 \<Rightarrow> f64" where
  "f_mul a b = (case (a, b) of (F_Fin x, F_Fin y) \<Rightarrow> F_Fin (fl (x * y))
     | _ \<Rightarrow> if a = F_NaN \<or> b = F_NaN \<or> a = F_Fin 0 \<or> b = F_Fin 0 then F_NaN
            else if f_neg_sign a = f_neg_sign b then F_PosInf else F_NegInf)"

definition f_div :: "f64 \<Rightarrow> f64 \<Rightarrow> f64" where
  "f_div a b =
     (if a = F_NaN \<or> b = F_NaN then F_NaN
      else case (a, b) of
             (F_Fin x, F_Fin y) \<Rightarrow> if y = 0 then (if x = 0 then F_NaN else if x > 0 then F_PosInf else F_NegInf) else F_Fin (fl (x / y))
           | (F_Fin x, _) \<Rightarrow> F_Fin 0
           | (_, F_Fin y) \<Rightarrow> if f_neg_sign a = f_neg_sign b then F_PosInf else F_NegInf
           | _ \<Rightarrow> F_NaN)"

abbreviation f_int :: "int \<Rightarrow> f64" where "f_int n \<equiv> F_Fin (f_of_int n)"

lemma f_sub_Fin [simp]: "f_sub (F_Fin a) (F_Fin b) = F_Fin (fl (a - b))"
  by (simp add: f_sub_def)

lemma f_mul_Fin [simp]: "f_mul (F_Fin a) (F_Fin b) = F_Fin (fl (a * b))"
  by (simp add: f_mul_def)

lemma f_div_Fin [simp]: "b \<noteq> 0 \<Longrightarrow> f_div (F_Fin a) (F_Fin b) = F_Fin (fl (a / b))"
  by (simp add: f_div_def)

text \<open>A value between two numbers is a number.\<close>

definition f_in :: "rat \<Rightarrow> rat \<Rightarrow> f64 \<Rightarrow> bool" where
  "f_in lo hi v = (case v of F_Fin q \<Rightarrow> lo \<le> q \<and> q \<le> hi | _ \<Rightarrow> False)"

lemma f_in_Fin [simp]: "f_in lo hi (F_Fin q) \<longleftrightarrow> lo \<le> q \<and> q \<le> hi"
  by (simp add: f_in_def)

lemma f_inE: "f_in lo hi v \<Longrightarrow> (\<And>q. v = F_Fin q \<Longrightarrow> lo \<le> q \<Longrightarrow> q \<le> hi \<Longrightarrow> thesis) \<Longrightarrow> thesis"
  by (auto simp: f_in_def split: f64.splits)

lemma f_of_int_mono: "m \<le> n \<Longrightarrow> f_of_int m \<le> f_of_int n"
  by (simp add: f_of_int_def fl_mono)

lemma f_of_int_nonneg: "0 \<le> n \<Longrightarrow> 0 \<le> f_of_int n"
  by (simp add: f_of_int_def fl_nonneg)

lemma f_of_int_pos: "0 < n \<Longrightarrow> 1 \<le> f_of_int n"
  using fl_mono[of 1 "of_int n"] by (simp add: f_of_int_def fl_const)

end
