(* ===== verification/Context_Depth.thy ===== *)
theory Context_Depth
  imports Prelude "HOL-Library.Word"
begin

text \<open>
  The fidelity ladder of \<open>contextdepth/contextdepth.go\<close>: depths and representation kinds as the 8-bit values they
  are, so that out-of-range values exist, and the descriptors of subjects and alternatives.
\<close>

type_synonym Depth = "8 word"

definition DepthInvalid :: Depth where "DepthInvalid = 0"
definition DepthL0 :: Depth where "DepthL0 = 1"
definition DepthL1 :: Depth where "DepthL1 = 2"
definition DepthL2 :: Depth where "DepthL2 = 3"

definition Depth_Valid :: "Depth \<Rightarrow> bool" where
  "Depth_Valid d \<longleftrightarrow> d \<ge> DepthL0 \<and> d \<le> DepthL2"

definition Depth_String :: "Depth \<Rightarrow> string" where
  "Depth_String d = (if d = DepthL0 then ''L0'' else if d = DepthL1 then ''L1'' else if d = DepthL2 then ''L2'' else ''invalid'')"

type_synonym RepresentationKind = "8 word"

definition RepresentationInvalid :: RepresentationKind where "RepresentationInvalid = 0"
definition RepresentationMetadata :: RepresentationKind where "RepresentationMetadata = 1"
definition RepresentationGenerated :: RepresentationKind where "RepresentationGenerated = 2"
definition RepresentationCompact :: RepresentationKind where "RepresentationCompact = 3"
definition RepresentationVerbatim :: RepresentationKind where "RepresentationVerbatim = 4"

definition RepresentationKind_Valid :: "RepresentationKind \<Rightarrow> bool" where
  "RepresentationKind_Valid k \<longleftrightarrow> k \<ge> RepresentationMetadata \<and> k \<le> RepresentationVerbatim"

definition RepresentationKind_String :: "RepresentationKind \<Rightarrow> string" where
  "RepresentationKind_String k =
     (if k = RepresentationMetadata then ''metadata'' else if k = RepresentationGenerated then ''generated''
      else if k = RepresentationCompact then ''compact'' else if k = RepresentationVerbatim then ''verbatim'' else ''invalid'')"

record SubjectRef =
  sr_Domain :: string
  sr_ID :: string

definition DomainRAG :: string where "DomainRAG = ''rag''"
definition DomainConversation :: string where "DomainConversation = ''conversation''"
definition DomainMemory :: string where "DomainMemory = ''memory''"

record RepresentationDesc =
  rd_Depth :: Depth
  rd_Kind :: RepresentationKind

record AlternativeDesc =
  ad_Representations :: "RepresentationDesc list"

definition AlternativeDesc_Valid :: "AlternativeDesc \<Rightarrow> bool" where
  "AlternativeDesc_Valid a =
     (ad_Representations a \<noteq> [] \<and> (\<forall>r \<in> set (ad_Representations a). \<not> (\<not> Depth_Valid (rd_Depth r) \<or> \<not> RepresentationKind_Valid (rd_Kind r))))"

definition AlternativeDesc_Depth :: "AlternativeDesc \<Rightarrow> Depth" where
  "AlternativeDesc_Depth a =
     (if \<not> AlternativeDesc_Valid a then DepthInvalid
      else foldl (\<lambda>m r. if rd_Depth r > m then rd_Depth r else m) DepthInvalid (ad_Representations a))"

record GroupDesc =
  gd_Subject :: SubjectRef
  gd_Lane :: int
  gd_Rank :: int

end
