(* ===== verification/Agent_Types.thy ===== *)
theory Agent_Types
  imports Token_Arith Go_Float Context_Depth
begin

text \<open>
  The data of the agent runtime: chat messages and tool calls of \<open>provider/types.go\<close>, and the
  transcript, budget and pressure types of \<open>agent/types.go\<close> and \<open>agent/pressure.go\<close>; the history
  validation of \<open>agent/history.go\<close>; the structured payload of a tool result of \<open>agent/context_set.go\<close>,
  which only mixed assembly reads. Byte slices and raw JSON are strings; clones are equal values.
\<close>

section \<open>Chat messages\<close>

record ToolCallFunction =
  tcf_Index :: int
  tcf_Name :: string
  tcf_Arguments :: string

record ToolCall =
  tc_ID :: string
  tc_Type :: string
  tc_Function :: ToolCallFunction

record ChatMessage =
  cm_Role :: string
  cm_Content :: string
  cm_ToolCalls :: "ToolCall list"
  cm_ToolName :: string
  cm_ToolCallID :: string

section \<open>Transcript\<close>

datatype Segment = Elastic | Pinned

record RetrievedSource =
  src_StableKey :: string
  src_Source :: string
  src_StartLine :: int
  src_EndLine :: int
  src_Score :: f64

record RetrievalAttribution =
  ra_Sources :: "RetrievedSource list"

record ContextAlternative =
  ca_Desc :: AlternativeDesc
  ca_Content :: string
  ca_Attrib :: "RetrievalAttribution option"

record ContextGroup =
  cg_Desc :: GroupDesc
  cg_Alternatives :: "ContextAlternative list"

record ContextSet =
  cs_Groups :: "ContextGroup list"
  cs_MinVerbatim :: int

record Message =
  m_chat :: ChatMessage
  m_Segment :: Segment
  m_Attrib :: "RetrievalAttribution option"
  m_Context :: "ContextSet option"
  m_OutputCap :: int
  m_fence :: string
  m_idx :: nat

record State =
  st_System :: string
  st_DurableSummary :: string
  st_Messages :: "Message list"
  st_systemKeys :: "string list"

abbreviation m_Role :: "Message \<Rightarrow> string" where "m_Role m \<equiv> cm_Role (m_chat m)"
abbreviation m_Content :: "Message \<Rightarrow> string" where "m_Content m \<equiv> cm_Content (m_chat m)"
abbreviation m_ToolCalls :: "Message \<Rightarrow> ToolCall list" where "m_ToolCalls m \<equiv> cm_ToolCalls (m_chat m)"

text \<open>The message of a literal \<open>Message{ChatMessage: cm, Segment: seg}\<close>: every other field is zero.\<close>

definition mk_Message :: "ChatMessage \<Rightarrow> Segment \<Rightarrow> Message" where
  "mk_Message cm seg = \<lparr>m_chat = cm, m_Segment = seg, m_Attrib = None, m_Context = None, m_OutputCap = 0, m_fence = [], m_idx = 0\<rparr>"

definition mk_ChatMessage :: "string \<Rightarrow> string \<Rightarrow> ChatMessage" where
  "mk_ChatMessage role content =
     \<lparr>cm_Role = role, cm_Content = content, cm_ToolCalls = [], cm_ToolName = [], cm_ToolCallID = []\<rparr>"

section \<open>Budgets and pressure\<close>

record PressureThresholds =
  pt_Watch :: f64
  pt_Warn :: f64
  pt_Critical :: f64

record Budget =
  bu_InputCeiling :: int
  bu_OutputReserve :: int
  bu_TotalTokens :: int
  bu_Pressure :: PressureThresholds

definition DefaultInputCeiling :: int where
  "DefaultInputCeiling = 8192"

record TokenBudget =
  tb_Input :: int
  tb_Thresholds :: PressureThresholds
  tb_ToolResultOverhead :: int
  tb_LowWaterFraction :: f64

datatype PressureLevel = LevelOK | LevelWatch | LevelWarn | LevelCritical

datatype PressureCause = CauseUnknown | CausePinned | CauseToolSchema | CauseHistory | CauseToolOutput | CauseRetrieval

datatype PressureMitigation = MitigationNone | MitigationWarn | MitigationEvict | MitigationHalt

record PressureBuckets =
  pb_Available :: bool
  pb_Pinned :: int
  pb_ToolSchema :: int
  pb_History :: int
  pb_ToolOutput :: int
  pb_Retrieval :: int

record Pressure =
  pr_UsedPct :: f64
  pr_Evicted :: int
  pr_Compactions :: int
  pr_AnchorOmissions :: int
  pr_InputTokens :: int
  pr_InputBudget :: int
  pr_Level :: PressureLevel
  pr_Cause :: PressureCause
  pr_Mitigation :: PressureMitigation
  pr_Buckets :: PressureBuckets

section \<open>Token usage\<close>

record Usage =
  us_PromptTokens :: int
  us_CompletionTokens :: int
  us_TotalTokens :: int
  us_ReasoningTokens :: int
  us_ReasoningTokensReported :: bool
  us_CachedPromptTokens :: int
  us_CachedPromptTokensReported :: bool
  us_CacheWriteTokens :: int
  us_CacheWriteTokensReported :: bool

definition zero_usage :: Usage where
  "zero_usage = \<lparr>us_PromptTokens = 0, us_CompletionTokens = 0, us_TotalTokens = 0, us_ReasoningTokens = 0,
     us_ReasoningTokensReported = False, us_CachedPromptTokens = 0, us_CachedPromptTokensReported = False,
     us_CacheWriteTokens = 0, us_CacheWriteTokensReported = False\<rparr>"

text \<open>The expected output of a use case (\<open>provider/routing_request.go\<close>).\<close>

definition DefaultExpectedOutput :: "string \<Rightarrow> int" where
  "DefaultExpectedOutput useCase =
     (if useCase = ''fim'' then 200 else if useCase = ''embedding'' then 0
      else if useCase = ''code-review'' \<or> useCase = ''reasoning'' then 4096 else 2048)"

section \<open>History\<close>

text \<open>
  The \<open>history\<close> errors name the offending entry and the rule it breaks.
\<close>

datatype history_error =
    HistBadRole nat string
  | HistEmptyContent nat
  | HistToolCalls nat
  | HistToolMetadata nat

fun validateHistory_from :: "nat \<Rightarrow> ChatMessage list \<Rightarrow> history_error option" where
  "validateHistory_from i [] = None"
| "validateHistory_from i (m # ms) =
     (if \<not> (cm_Role m = ''user'' \<or> cm_Role m = ''assistant'') then Some (HistBadRole i (cm_Role m))
      else if cm_Content m = [] then Some (HistEmptyContent i)
      else if cm_ToolCalls m \<noteq> [] then Some (HistToolCalls i)
      else if cm_ToolName m \<noteq> [] \<or> cm_ToolCallID m \<noteq> [] then Some (HistToolMetadata i)
      else validateHistory_from (Suc i) ms)"

definition validateHistory :: "ChatMessage list \<Rightarrow> history_error option" where
  "validateHistory history = validateHistory_from 0 history"

text \<open>An accepted history entry is plain user or assistant text.\<close>

definition plain_turn :: "ChatMessage \<Rightarrow> bool" where
  "plain_turn m \<longleftrightarrow> cm_Role m \<in> {''user'', ''assistant''} \<and> cm_Content m \<noteq> [] \<and>
     cm_ToolCalls m = [] \<and> cm_ToolName m = [] \<and> cm_ToolCallID m = []"

lemma validateHistory_from_None: "validateHistory_from i ms = None \<longleftrightarrow> (\<forall>m \<in> set ms. plain_turn m)"
  by (induction ms arbitrary: i) (auto simp: plain_turn_def)

lemma validateHistory_None: "validateHistory ms = None \<longleftrightarrow> (\<forall>m \<in> set ms. plain_turn m)"
  by (simp add: validateHistory_def validateHistory_from_None)

end
