(* ===== verification/Compactor.thy ===== *)
theory Compactor
  imports Agent_Types
begin

text \<open>
  The recency compactor of \<open>agent/compactor.go\<close>: token costs of messages, the partition of a
  transcript into groups that are kept or dropped as a whole, and the fit that drops the oldest
  prior history first, then completed tool chains, then plain messages of the current run.
\<close>

record RecencyCompactor =
  rc_Estimate :: "(string \<Rightarrow> int) option"
  rc_toolResultOverhead :: int

record CompactionReport =
  cr_Strategy :: string
  cr_DroppedCount :: int
  cr_TokensBefore :: int
  cr_TokensAfter :: int

datatype agent_error = ErrContextExhausted | ErrMixedCompactor | ErrOpaque string

section \<open>Costs\<close>

definition default_estimate :: "string \<Rightarrow> int" where
  "default_estimate s = (if s = [] then 0 else 1 + (go_len s - 1) div 4)"

definition rc_estimate :: "RecencyCompactor \<Rightarrow> string \<Rightarrow> int" where
  "rc_estimate rc s = (case rc_Estimate rc of Some f \<Rightarrow> f s | None \<Rightarrow> default_estimate s)"

text \<open>
  \<open>add\<close> of the Go closure: it updates \<open>n\<close> and reports whether the sum was exact; a caller that
  sees a failure returns the saturated \<open>n\<close>.
\<close>

fun add_costs :: "int \<Rightarrow> int list \<Rightarrow> int \<times> bool" where
  "add_costs n [] = (n, True)"
| "add_costs n (c # cs) =
     (case checkedTokenAdd n c of (n', ok) \<Rightarrow> if ok then add_costs n' cs else (n', False))"

definition tool_call_costs :: "RecencyCompactor \<Rightarrow> ToolCall \<Rightarrow> int list" where
  "tool_call_costs rc tc =
     [rc_estimate rc (tc_ID tc), rc_estimate rc (tc_Type tc),
      rc_estimate rc (tcf_Name (tc_Function tc)), rc_estimate rc (tcf_Arguments (tc_Function tc))]"

definition checkedMessageCost :: "RecencyCompactor \<Rightarrow> Message \<Rightarrow> int \<times> bool" where
  "checkedMessageCost rc m =
     add_costs (rc_estimate rc (m_Content m))
       (concat (map (tool_call_costs rc) (m_ToolCalls m))
        @ [rc_estimate rc (cm_ToolName (m_chat m)), rc_estimate rc (cm_ToolCallID (m_chat m))]
        @ (if m_Role m = ''tool'' then [rc_toolResultOverhead rc] else []))"

definition messageCost :: "RecencyCompactor \<Rightarrow> Message \<Rightarrow> int" where
  "messageCost rc m = fst (checkedMessageCost rc m)"

fun checkedTotal_from :: "RecencyCompactor \<Rightarrow> int \<Rightarrow> Message list \<Rightarrow> int \<times> bool" where
  "checkedTotal_from rc n [] = (n, True)"
| "checkedTotal_from rc n (m # ms) =
     (case checkedMessageCost rc m of (cost, costOK) \<Rightarrow>
        if \<not> costOK then (cost, False)
        else case checkedTokenAdd n cost of (n', ok) \<Rightarrow>
          if \<not> ok then (n', False) else checkedTotal_from rc n' ms)"

definition checkedTotal :: "RecencyCompactor \<Rightarrow> State \<Rightarrow> int \<times> bool" where
  "checkedTotal rc st = checkedTotal_from rc (rc_estimate rc (st_System st)) (st_Messages st)"

section \<open>Groups\<close>

datatype compactionGroupKind = groupPinned | groupHistory | groupCompletedTool | groupUnresolvedTool | groupPlainElastic

record compactionGroup =
  g_msgs :: "Message list"
  g_tokens :: int
  g_kind :: compactionGroupKind
  g_drop :: bool
  g_overflow :: bool

definition pairableExchange :: "Message list \<Rightarrow> nat \<Rightarrow> bool" where
  "pairableExchange msgs i \<longleftrightarrow>
     (if i + 1 \<ge> length msgs then False
      else let u = msgs ! i; a = msgs ! (i + 1)
           in m_Segment u = Elastic \<and> m_Segment a = Elastic \<and>
              m_Role u = ''user'' \<and> m_Role a = ''assistant'' \<and>
              m_ToolCalls u = [] \<and> m_ToolCalls a = [])"

function chain_end :: "Message list \<Rightarrow> nat \<Rightarrow> nat" where
  "chain_end msgs e =
     (if e + 1 < length msgs \<and> m_Role (msgs ! (e + 1)) = ''tool'' then chain_end msgs (e + 1) else e)"
  by pat_completeness auto
termination by (relation "measure (\<lambda>(msgs, e). length msgs - e)") auto

declare chain_end.simps [simp del]

definition chainAt :: "Message list \<Rightarrow> nat \<Rightarrow> nat" where
  "chainAt msgs i = (if m_ToolCalls (msgs ! i) = [] then i else chain_end msgs i)"

fun firstPinned_from :: "nat \<Rightarrow> nat \<Rightarrow> Message list \<Rightarrow> int" where
  "firstPinned_from leading i [] = -1"
| "firstPinned_from leading i (m # ms) =
     (if m_Segment m \<noteq> Pinned then firstPinned_from leading (Suc i) ms
      else if m_Role m = ''system'' \<and> i = leading then firstPinned_from (Suc leading) (Suc i) ms
      else int i)"

definition firstPinnedIndex :: "Message list \<Rightarrow> int" where
  "firstPinnedIndex msgs = firstPinned_from 0 0 msgs"

definition priorHistoryGroup :: "nat \<Rightarrow> nat \<Rightarrow> int \<Rightarrow> bool" where
  "priorHistoryGroup start e firstPinned \<longleftrightarrow> firstPinned \<ge> 0 \<and> int e < firstPinned"

text \<open>The slice \<open>msgs[i : e+1]\<close>.\<close>

definition slice :: "'a list \<Rightarrow> nat \<Rightarrow> nat \<Rightarrow> 'a list" where
  "slice msgs i e = take (e + 1 - i) (drop i msgs)"

definition classifyGroup :: "Message list \<Rightarrow> nat \<Rightarrow> nat \<Rightarrow> int \<Rightarrow> compactionGroupKind" where
  "classifyGroup msgs start e firstPinned =
     (if \<exists>m \<in> set (slice msgs start e). m_Segment m = Pinned then groupPinned
      else if priorHistoryGroup start e firstPinned \<and> m_ToolCalls (msgs ! start) = [] then groupHistory
      else if m_ToolCalls (msgs ! start) = [] then groupPlainElastic
      else if e - start \<ge> length (m_ToolCalls (msgs ! start)) then groupCompletedTool
      else groupUnresolvedTool)"

text \<open>The token loop of one group: \<open>None\<close> is an overflow, after which the group costs \<open>MaxInt\<close>.\<close>

fun group_tokens :: "RecencyCompactor \<Rightarrow> int \<Rightarrow> Message list \<Rightarrow> int option" where
  "group_tokens rc n [] = Some n"
| "group_tokens rc n (m # ms) =
     (case checkedMessageCost rc m of (cost, costOK) \<Rightarrow>
        case checkedTokenAdd n cost of (n', addOK) \<Rightarrow>
          if \<not> costOK \<or> \<not> addOK then None else group_tokens rc n' ms)"

definition group_end :: "Message list \<Rightarrow> nat \<Rightarrow> nat" where
  "group_end msgs i =
     (let e = chainAt msgs i in if e = i \<and> pairableExchange msgs i then i + 1 else e)"

definition mk_group :: "RecencyCompactor \<Rightarrow> Message list \<Rightarrow> int \<Rightarrow> nat \<Rightarrow> nat \<Rightarrow> compactionGroup" where
  "mk_group rc msgs firstPinned i e =
     \<lparr>g_msgs = slice msgs i e,
      g_tokens = (case group_tokens rc 0 (slice msgs i e) of Some n \<Rightarrow> n | None \<Rightarrow> MaxInt),
      g_kind = classifyGroup msgs i e firstPinned,
      g_drop = False,
      g_overflow = (group_tokens rc 0 (slice msgs i e) = None)\<rparr>"

lemma chain_end_ge: "e \<le> chain_end msgs e"
proof (induction msgs e rule: chain_end.induct)
  case (1 msgs e)
  then show ?case by (subst chain_end.simps) auto
qed

lemma chain_end_less: "e < length msgs \<Longrightarrow> chain_end msgs e < length msgs"
proof (induction msgs e rule: chain_end.induct)
  case (1 msgs e)
  then show ?case by (subst chain_end.simps) auto
qed

lemma group_end_bounds: "i \<le> group_end msgs i" "i < length msgs \<Longrightarrow> group_end msgs i < length msgs"
  by (auto simp: group_end_def chainAt_def chain_end_ge chain_end_less pairableExchange_def Let_def)

function groups_from :: "RecencyCompactor \<Rightarrow> Message list \<Rightarrow> int \<Rightarrow> nat \<Rightarrow> compactionGroup list" where
  "groups_from rc msgs firstPinned i =
     (if i < length msgs
      then let e = group_end msgs i
           in mk_group rc msgs firstPinned i e # groups_from rc msgs firstPinned (e + 1)
      else [])"
  by pat_completeness auto
termination
proof (relation "measure (\<lambda>(rc, msgs, fp, i). length msgs - i)", goal_cases)
  case (2 rc msgs fp i e)
  then show ?case using group_end_bounds(1)[of i msgs] by simp
qed simp

declare groups_from.simps [simp del]

definition groups :: "RecencyCompactor \<Rightarrow> State \<Rightarrow> compactionGroup list" where
  "groups rc st = groups_from rc (st_Messages st) (firstPinnedIndex (st_Messages st)) 0"

text \<open>\<open>newestCurrentRunGroup\<close> scans from the newest group back to the last pinned one.\<close>

fun newest_scan :: "compactionGroup list \<Rightarrow> int \<Rightarrow> int" where
  "newest_scan [] i = -1"
| "newest_scan (g # gs) i =
     (case g_kind g of
        groupPinned \<Rightarrow> -1
      | groupCompletedTool \<Rightarrow> i
      | groupPlainElastic \<Rightarrow> i
      | _ \<Rightarrow> newest_scan gs (i - 1))"

definition newestCurrentRunGroup :: "compactionGroup list \<Rightarrow> int" where
  "newestCurrentRunGroup gs = newest_scan (rev gs) (int (length gs) - 1)"

definition lowWaterMark :: "int \<Rightarrow> f64 \<Rightarrow> int \<times> bool" where
  "lowWaterMark input fraction =
     (if \<not> (f_lt (F_Fin 0) fraction \<and> f_lt fraction (F_Fin 1)) then (input, False)
      else case fraction of F_Fin q \<Rightarrow> (trunc_int (fl (f_of_int input * q)), True) | _ \<Rightarrow> (input, False))"

section \<open>The fit\<close>

record drop_acc =
  da_remaining :: int
  da_dropped :: int
  da_ok :: bool

fun dropKind :: "compactionGroupKind \<Rightarrow> int \<Rightarrow> int \<Rightarrow> int \<Rightarrow> compactionGroup list \<Rightarrow> drop_acc
    \<Rightarrow> compactionGroup list \<times> drop_acc" where
  "dropKind kind target keep i [] acc = ([], acc)"
| "dropKind kind target keep i (g # gs) acc =
     (if \<not> da_ok acc \<or> da_remaining acc \<le> target then (g # gs, acc)
      else if g_kind g = kind \<and> i \<noteq> keep
      then case checkedTokenSub (da_remaining acc) (g_tokens g) of (remaining, ok) \<Rightarrow>
             case dropKind kind target keep (i + 1) gs
                    \<lparr>da_remaining = remaining, da_dropped = da_dropped acc + 1, da_ok = ok\<rparr> of
               (gs', acc') \<Rightarrow> (g\<lparr>g_drop := True\<rparr> # gs', acc')
      else case dropKind kind target keep (i + 1) gs acc of (gs', acc') \<Rightarrow> (g # gs', acc'))"

definition drop_all :: "int \<Rightarrow> int \<Rightarrow> compactionGroup list \<Rightarrow> int \<Rightarrow> compactionGroup list \<times> drop_acc" where
  "drop_all target keep gs before =
     (let (gs, acc) = dropKind groupHistory target keep 0 gs \<lparr>da_remaining = before, da_dropped = 0, da_ok = True\<rparr>;
          (gs, acc) = dropKind groupCompletedTool target keep 0 gs acc;
          (gs, acc) = dropKind groupPlainElastic target keep 0 gs acc
      in (gs, acc))"

definition kept_messages :: "compactionGroup list \<Rightarrow> Message list" where
  "kept_messages gs = concat (map g_msgs (filter (\<lambda>g. \<not> g_drop g) gs))"

definition recency_report :: "int \<Rightarrow> int \<Rightarrow> int \<Rightarrow> CompactionReport" where
  "recency_report dropped before after =
     \<lparr>cr_Strategy = ''recency'', cr_DroppedCount = dropped, cr_TokensBefore = before, cr_TokensAfter = after\<rparr>"

text \<open>The tail of \<open>Compact\<close> once the groups to drop are marked.\<close>

definition finish_fit :: "RecencyCompactor \<Rightarrow> State \<Rightarrow> int \<Rightarrow> compactionGroup list \<Rightarrow> drop_acc
    \<Rightarrow> State \<times> CompactionReport \<times> agent_error option" where
  "finish_fit rc st before gs acc =
     (if \<not> da_ok acc
      then (st, recency_report (da_dropped acc) before MaxInt, Some ErrContextExhausted)
      else let out = \<lparr>st_System = st_System st, st_DurableSummary = [],
                      st_Messages = kept_messages gs, st_systemKeys = []\<rparr>
           in case checkedTotal rc out of (after, ok) \<Rightarrow>
                if \<not> ok then (out, recency_report (da_dropped acc) before MaxInt, Some ErrContextExhausted)
                else (out, recency_report (da_dropped acc) before after, None))"

function Compact :: "RecencyCompactor \<Rightarrow> State \<Rightarrow> TokenBudget \<Rightarrow> State \<times> CompactionReport \<times> agent_error option" where
  "Compact rc0 st b =
     (let rc = rc0\<lparr>rc_toolResultOverhead := tb_ToolResultOverhead b\<rparr>;
          (before, ok) = checkedTotal rc st
      in if \<not> ok then (st, recency_report 0 before before, Some ErrContextExhausted)
         else if before \<le> tb_Input b then (st, recency_report 0 before before, None)
         else let gs = groups rc st
              in if \<exists>g \<in> set gs. g_overflow g
                 then (st, recency_report 0 before MaxInt, Some ErrContextExhausted)
                 else let mark = lowWaterMark (tb_Input b) (tb_LowWaterFraction b);
                          keep = (if snd mark then newestCurrentRunGroup gs else -1);
                          fit = drop_all (fst mark) keep gs before
                      in if snd mark \<and> da_remaining (snd fit) > fst mark
                         then Compact rc st (b\<lparr>tb_LowWaterFraction := F_Fin 0\<rparr>)
                         else finish_fit rc st before (fst fit) (snd fit))"
  by pat_completeness auto
termination
  by (relation "measure (\<lambda>(rc, st, b). if snd (lowWaterMark (tb_Input b) (tb_LowWaterFraction b)) then 1 else 0)")
     (auto simp: lowWaterMark_def)

declare Compact.simps [simp del]

section \<open>Costs are exact sums\<close>

definition exact_cost :: "RecencyCompactor \<Rightarrow> Message \<Rightarrow> int" where
  "exact_cost rc m =
     rc_estimate rc (m_Content m) + (\<Sum>tc\<leftarrow>m_ToolCalls m. sum_list (tool_call_costs rc tc))
     + rc_estimate rc (cm_ToolName (m_chat m)) + rc_estimate rc (cm_ToolCallID (m_chat m))
     + (if m_Role m = ''tool'' then rc_toolResultOverhead rc else 0)"

definition state_cost :: "RecencyCompactor \<Rightarrow> State \<Rightarrow> int" where
  "state_cost rc st = rc_estimate rc (st_System st) + (\<Sum>m\<leftarrow>st_Messages st. exact_cost rc m)"

text \<open>An estimator returns a Go integer that is never negative, and so does the transport.\<close>

definition nonneg_costs :: "RecencyCompactor \<Rightarrow> bool" where
  "nonneg_costs rc \<longleftrightarrow> (\<forall>s. 0 \<le> rc_estimate rc s \<and> rc_estimate rc s \<le> MaxInt) \<and> 0 \<le> rc_toolResultOverhead rc"

lemma add_costs_ok: "add_costs n cs = (k, True) \<Longrightarrow> k = n + sum_list cs"
proof (induction cs arbitrary: n)
  case (Cons c cs)
  from Cons.prems have "add_costs (n + c) cs = (k, True)" by (auto split: prod.splits if_splits)
  from Cons.IH[OF this] show ?case by simp
qed simp

lemma sum_list_concat_map: "sum_list (concat (map f xs)) = (\<Sum>x\<leftarrow>xs. sum_list (f x))" for f :: "'a \<Rightarrow> int list"
  by (induction xs) auto

lemma checkedMessageCost_ok: "checkedMessageCost rc m = (c, True) \<Longrightarrow> c = exact_cost rc m"
  unfolding checkedMessageCost_def exact_cost_def by (drule add_costs_ok) (simp add: sum_list_concat_map)

lemma checkedTotal_from_ok:
  "checkedTotal_from rc n ms = (k, True) \<Longrightarrow>
   k = n + (\<Sum>m\<leftarrow>ms. exact_cost rc m) \<and> (\<forall>m \<in> set ms. checkedMessageCost rc m = (exact_cost rc m, True))"
proof (induction ms arbitrary: n)
  case (Cons m ms)
  from Cons.prems have c: "checkedMessageCost rc m = (exact_cost rc m, True)"
    and t: "checkedTotal_from rc (n + exact_cost rc m) ms = (k, True)"
    by (auto split: prod.splits if_splits dest: checkedMessageCost_ok)
  from c Cons.IH[OF t] show ?case by simp
qed simp

lemma checkedTotal_ok:
  "checkedTotal rc st = (k, True) \<Longrightarrow>
   k = state_cost rc st \<and> (\<forall>m \<in> set (st_Messages st). checkedMessageCost rc m = (exact_cost rc m, True))"
  unfolding checkedTotal_def state_cost_def by (drule checkedTotal_from_ok) simp

lemma checkedTotal_le:
  assumes "checkedTotal rc st = (k, True)" and "rc_estimate rc (st_System st) \<le> MaxInt"
  shows "k \<le> MaxInt"
proof -
  have "checkedTotal_from rc n ms = (k, True) \<Longrightarrow> n \<le> MaxInt \<Longrightarrow> k \<le> MaxInt" for n ms
    by (induction ms arbitrary: n) (auto split: prod.splits if_splits)
  from this[OF assms[unfolded checkedTotal_def]] show ?thesis .
qed

lemma group_tokens_ok: "group_tokens rc n ms = Some k \<Longrightarrow> k = n + (\<Sum>m\<leftarrow>ms. exact_cost rc m)"
proof (induction ms arbitrary: n)
  case (Cons m ms)
  from Cons.prems have "group_tokens rc (n + exact_cost rc m) ms = Some k"
    by (auto split: prod.splits if_splits dest: checkedMessageCost_ok)
  from Cons.IH[OF this] show ?case by simp
qed simp

lemma exact_cost_nonneg: "nonneg_costs rc \<Longrightarrow> 0 \<le> exact_cost rc m"
  unfolding exact_cost_def nonneg_costs_def
  by (intro add_nonneg_nonneg sum_list_nonneg) (auto simp: tool_call_costs_def)

lemma nonneg_sum_costs: "nonneg_costs rc \<Longrightarrow> 0 \<le> (\<Sum>m\<leftarrow>ms. exact_cost rc m)"
  by (intro sum_list_nonneg_int exact_cost_nonneg)

lemma state_cost_nonneg: "nonneg_costs rc \<Longrightarrow> 0 \<le> state_cost rc st"
  by (simp add: state_cost_def nonneg_sum_costs nonneg_costs_def)

lemma add_costs_nonneg:
  "\<forall>c \<in> set cs. 0 \<le> c \<Longrightarrow> n \<le> MaxInt \<Longrightarrow>
   add_costs n cs = (if n + sum_list cs \<le> MaxInt then (n + sum_list cs, True) else (MaxInt, False))"
proof (induction cs arbitrary: n)
  case (Cons c cs)
  have "0 \<le> sum_list cs" using Cons.prems by (intro sum_list_nonneg) auto
  with Cons show ?case
    by (cases "n + c \<le> MaxInt") (auto simp: checkedTokenAdd_nonneg checkedTokenAdd_def add.assoc)
qed simp

lemma checkedMessageCost_nonneg:
  assumes "nonneg_costs rc"
  shows "checkedMessageCost rc m = (if exact_cost rc m \<le> MaxInt then (exact_cost rc m, True) else (MaxInt, False))"
  unfolding checkedMessageCost_def exact_cost_def using assms
  by (subst add_costs_nonneg) (auto simp: nonneg_costs_def tool_call_costs_def sum_list_concat_map add.assoc)

lemma checkedTotal_from_nonneg:
  assumes "nonneg_costs rc" and "0 \<le> n" and "n \<le> MaxInt"
  shows "checkedTotal_from rc n ms =
    (if n + (\<Sum>m\<leftarrow>ms. exact_cost rc m) \<le> MaxInt then (n + (\<Sum>m\<leftarrow>ms. exact_cost rc m), True) else (MaxInt, False))"
  using assms(2,3)
proof (induction ms arbitrary: n)
  case (Cons m ms)
  have "0 \<le> exact_cost rc m" "0 \<le> (\<Sum>m\<leftarrow>ms. exact_cost rc m)"
    using assms(1) by (auto intro: exact_cost_nonneg nonneg_sum_costs)
  with Cons show ?case
    by (cases "n + exact_cost rc m \<le> MaxInt")
       (auto simp: checkedMessageCost_nonneg[OF assms(1)] checkedTokenAdd_nonneg checkedTokenAdd_def add.assoc)
qed simp

lemma checkedTotal_nonneg:
  "nonneg_costs rc \<Longrightarrow>
   checkedTotal rc st = (if state_cost rc st \<le> MaxInt then (state_cost rc st, True) else (MaxInt, False))"
  by (simp add: checkedTotal_def state_cost_def nonneg_costs_def checkedTotal_from_nonneg)

section \<open>Groups partition the transcript\<close>

lemma slice_drop:
  assumes "i \<le> e"
  shows "slice msgs i e @ drop (e + 1) msgs = drop i msgs"
proof -
  have "drop (e + 1) msgs = drop (e + 1 - i) (drop i msgs)" using assms by simp
  then show ?thesis by (simp only: slice_def append_take_drop_id)
qed

lemma groups_from_concat: "concat (map g_msgs (groups_from rc msgs fp i)) = drop i msgs"
proof (induction rc msgs fp i rule: groups_from.induct)
  case (1 rc msgs fp i)
  show ?case
  proof (cases "i < length msgs")
    case True
    with 1 have "concat (map g_msgs (groups_from rc msgs fp (group_end msgs i + 1))) = drop (group_end msgs i + 1) msgs"
      by simp
    then show ?thesis
      by (subst groups_from.simps) (simp add: True Let_def mk_group_def slice_drop[OF group_end_bounds(1), simplified])
  qed (simp add: groups_from.simps)
qed

lemma groups_concat: "concat (map g_msgs (groups rc st)) = st_Messages st"
  by (simp add: groups_def groups_from_concat)

definition made_group :: "RecencyCompactor \<Rightarrow> Message list \<Rightarrow> compactionGroup \<Rightarrow> bool" where
  "made_group rc msgs g \<longleftrightarrow> (\<exists>i fp. i < length msgs \<and> g = mk_group rc msgs fp i (group_end msgs i))"

lemma groups_from_made: "g \<in> set (groups_from rc msgs fp i) \<Longrightarrow> made_group rc msgs g"
proof (induction rc msgs fp i rule: groups_from.induct)
  case (1 rc msgs fp i)
  then show ?case
    by (subst (asm) groups_from.simps) (auto simp: Let_def made_group_def split: if_splits)
qed

lemma groups_made: "g \<in> set (groups rc st) \<Longrightarrow> made_group rc (st_Messages st) g"
  by (auto simp: groups_def dest: groups_from_made)

lemma made_group_facts:
  assumes "made_group rc msgs g"
  shows "\<not> g_drop g"
    and "\<not> g_overflow g \<Longrightarrow> g_tokens g = (\<Sum>m\<leftarrow>g_msgs g. exact_cost rc m)"
    and "g_kind g = groupPinned \<longleftrightarrow> (\<exists>m \<in> set (g_msgs g). m_Segment m = Pinned)"
proof -
  obtain i fp where g: "g = mk_group rc msgs fp i (group_end msgs i)"
    using assms by (auto simp: made_group_def)
  show "\<not> g_drop g" by (simp add: g mk_group_def)
  show "\<not> g_overflow g \<Longrightarrow> g_tokens g = (\<Sum>m\<leftarrow>g_msgs g. exact_cost rc m)"
    using group_tokens_ok[of rc 0] by (fastforce simp: g mk_group_def)
  show "g_kind g = groupPinned \<longleftrightarrow> (\<exists>m \<in> set (g_msgs g). m_Segment m = Pinned)"
    by (simp add: g mk_group_def classifyGroup_def)
qed

section \<open>The fit as a greedy choice\<close>

text \<open>
  The reference for the fit: the candidates in the order in which they yield, each with its
  index and cost, and the shortest prefix of them that brings the total down to the target.
\<close>

fun candidates :: "compactionGroupKind \<Rightarrow> int \<Rightarrow> int \<Rightarrow> compactionGroup list \<Rightarrow> (int \<times> int) list" where
  "candidates kind keep i [] = []"
| "candidates kind keep i (g # gs) =
     (if g_kind g = kind \<and> i \<noteq> keep then [(i, g_tokens g)] else []) @ candidates kind keep (i + 1) gs"

fun greedy :: "int \<Rightarrow> int \<Rightarrow> (int \<times> int) list \<Rightarrow> (int \<times> int) list" where
  "greedy target remaining [] = []"
| "greedy target remaining (c # cs) =
     (if remaining \<le> target then [] else c # greedy target (remaining - snd c) cs)"

fun mark :: "int set \<Rightarrow> int \<Rightarrow> compactionGroup list \<Rightarrow> compactionGroup list" where
  "mark D i [] = []"
| "mark D i (g # gs) = (if i \<in> D then g\<lparr>g_drop := True\<rparr> else g) # mark D (i + 1) gs"

definition drop_order :: "int \<Rightarrow> compactionGroup list \<Rightarrow> (int \<times> int) list" where
  "drop_order keep gs = candidates groupHistory keep 0 gs @ candidates groupCompletedTool keep 0 gs
     @ candidates groupPlainElastic keep 0 gs"

abbreviation cand_cost :: "(int \<times> int) list \<Rightarrow> int" where
  "cand_cost cs \<equiv> (\<Sum>c\<leftarrow>cs. snd c)"

lemma greedy_met [simp]: "remaining \<le> target \<Longrightarrow> greedy target remaining cs = []"
  by (cases cs) auto

lemma greedy_append:
  "greedy target r (xs @ ys) = greedy target r xs @ greedy target (r - cand_cost (greedy target r xs)) ys"
  by (induction xs arbitrary: r) (auto simp: diff_diff_eq)

lemma greedy_prefix: "prefix (greedy target r cs) cs"
  by (induction cs arbitrary: r) auto

lemma greedy_enough: "r - cand_cost (greedy target r cs) \<le> target \<or> greedy target r cs = cs"
proof (induction cs arbitrary: r)
  case (Cons c cs)
  from Cons.IH[of "r - snd c"] show ?case by (auto simp: diff_diff_eq)
qed simp

lemma greedy_least:
  "k < length (greedy target r cs) \<Longrightarrow> target < r - cand_cost (take k cs)"
proof (induction cs arbitrary: r k)
  case (Cons c cs)
  then show ?case using Cons.IH[of "k - 1" "r - snd c"]
    by (cases k) (auto simp: diff_diff_eq split: if_splits)
qed simp

lemma candidates_index: "c \<in> set (candidates kind keep i gs) \<Longrightarrow> i \<le> fst c \<and> fst c < i + int (length gs)"
  by (induction gs arbitrary: i) (fastforce split: if_splits)+

lemma candidates_nth:
  "c \<in> set (candidates kind keep i gs) \<Longrightarrow>
   g_kind (gs ! nat (fst c - i)) = kind \<and> snd c = g_tokens (gs ! nat (fst c - i)) \<and> fst c \<noteq> keep"
proof (induction gs arbitrary: i)
  case (Cons g gs)
  show ?case
  proof (cases "c \<in> set (candidates kind keep (i + 1) gs)")
    case True
    then have "nat (fst c - i) = Suc (nat (fst c - (i + 1)))" using candidates_index by fastforce
    with Cons.IH[OF True] show ?thesis by simp
  next
    case False
    with Cons.prems show ?thesis by (auto split: if_splits)
  qed
qed simp

lemma candidates_complete:
  "j < length gs \<Longrightarrow> g_kind (gs ! j) = kind \<Longrightarrow> i + int j \<noteq> keep \<Longrightarrow>
   (i + int j, g_tokens (gs ! j)) \<in> set (candidates kind keep i gs)"
proof (induction gs arbitrary: i j)
  case (Cons g gs)
  show ?case
  proof (cases j)
    case 0
    with Cons.prems show ?thesis by simp
  next
    case (Suc k)
    have e: "i + int (Suc k) = i + 1 + int k" by simp
    have "(i + 1 + int k, g_tokens (gs ! k)) \<in> set (candidates kind keep (i + 1) gs)"
      using Cons.IH[of k "i + 1"] Cons.prems unfolding Suc e by simp
    then show ?thesis unfolding Suc e by simp
  qed
qed simp

lemma mark_outside: "(\<And>j. j \<in> D \<Longrightarrow> j < i) \<Longrightarrow> mark D i gs = gs"
proof (induction gs arbitrary: i)
  case (Cons g gs)
  have "i \<notin> D" using Cons.prems[of i] by auto
  moreover have "mark D (i + 1) gs = gs" by (rule Cons.IH) (use Cons.prems in force)
  ultimately show ?case by simp
qed simp

lemma mark_insert_less: "j < i \<Longrightarrow> mark (insert j D) i gs = mark D i gs"
  by (induction gs arbitrary: i) auto

lemma mark_mark: "mark D i (mark E i gs) = mark (D \<union> E) i gs"
  by (induction gs arbitrary: i) auto

lemma mark_empty [simp]: "mark {} i gs = gs"
  by (rule mark_outside) simp

lemma candidates_mark [simp]: "candidates kind keep i (mark D i gs) = candidates kind keep i gs"
  by (induction gs arbitrary: i) auto

lemma nth_mark: "j < length gs \<Longrightarrow> mark D i gs ! j = (if i + int j \<in> D then (gs ! j)\<lparr>g_drop := True\<rparr> else gs ! j)"
proof (induction gs arbitrary: i j)
  case (Cons g gs)
  then show ?case by (cases j) (auto simp: add.assoc)
qed simp

lemma length_mark [simp]: "length (mark D i gs) = length gs"
  by (induction gs arbitrary: i) auto

text \<open>One pass of \<open>dropKind\<close> whose arithmetic stays in range is one greedy choice.\<close>

lemma dropKind_stopped: "\<not> da_ok acc \<Longrightarrow> dropKind kind target keep i gs acc = (gs, acc)"
  by (cases gs) auto

lemma dropKind_greedy:
  assumes "dropKind kind target keep i gs acc = (gs', acc')" and "da_ok acc" and "da_ok acc'"
    and "ds = greedy target (da_remaining acc) (candidates kind keep i gs)"
  shows "gs' = mark (fst ` set ds) i gs \<and> da_remaining acc' = da_remaining acc - cand_cost ds
    \<and> da_dropped acc' = da_dropped acc + int (length ds)"
  using assms
proof (induction gs arbitrary: i acc gs' acc' ds)
  case (Cons g gs)
  show ?case
  proof (cases "da_remaining acc \<le> target")
    case True
    with Cons.prems show ?thesis by simp
  next
    case False
    show ?thesis
    proof (cases "g_kind g = kind \<and> i \<noteq> keep")
      case dropped: True
      let ?acc = "\<lparr>da_remaining = da_remaining acc - g_tokens g, da_dropped = da_dropped acc + 1, da_ok = True\<rparr>"
      let ?ds = "greedy target (da_remaining acc - g_tokens g) (candidates kind keep (i + 1) gs)"
      obtain n ok where sub: "checkedTokenSub (da_remaining acc) (g_tokens g) = (n, ok)" by fastforce
      have ok: ok
        using Cons.prems(1-3) False dropped sub by (cases ok) (auto simp: dropKind_stopped split: prod.splits)
      obtain gs1 where rec: "dropKind kind target keep (i + 1) gs ?acc = (gs1, acc')"
        and gs': "gs' = g\<lparr>g_drop := True\<rparr> # gs1"
        using Cons.prems(1,2) False dropped sub ok by (auto split: prod.splits)
      from Cons.IH[OF rec _ Cons.prems(3) refl] have IH:
        "gs1 = mark (fst ` set ?ds) (i + 1) gs" "da_remaining acc' = da_remaining acc - g_tokens g - cand_cost ?ds"
        "da_dropped acc' = da_dropped acc + 1 + int (length ?ds)" by auto
      have "ds = (i, g_tokens g) # ?ds" using Cons.prems(4) False dropped by simp
      with IH gs' show ?thesis by (simp add: mark_insert_less)
    next
      case kept: False
      obtain gs1 where rec: "dropKind kind target keep (i + 1) gs acc = (gs1, acc')" and gs': "gs' = g # gs1"
        using Cons.prems(1,2) False kept by (auto split: prod.splits)
      have ds: "ds = greedy target (da_remaining acc) (candidates kind keep (i + 1) gs)"
        using Cons.prems(4) kept by auto
      have "i \<notin> fst ` set ds"
        using ds set_mono_prefix[OF greedy_prefix] candidates_index by fastforce
      with Cons.IH[OF rec Cons.prems(2,3) ds] gs' show ?thesis by simp
    qed
  qed
qed simp

lemma drop_all_greedy:
  assumes "drop_all target keep gs before = (gs', acc)" and "da_ok acc"
    and ds: "ds = greedy target before (drop_order keep gs)"
  shows "gs' = mark (fst ` set ds) 0 gs \<and> da_remaining acc = before - cand_cost ds
    \<and> da_dropped acc = int (length ds)"
proof -
  let ?a0 = "\<lparr>da_remaining = before, da_dropped = 0, da_ok = True\<rparr>"
  let ?h = "candidates groupHistory keep 0 gs" and ?t = "candidates groupCompletedTool keep 0 gs"
    and ?p = "candidates groupPlainElastic keep 0 gs"
  obtain g1 a1 where 1: "dropKind groupHistory target keep 0 gs ?a0 = (g1, a1)" by fastforce
  obtain g2 a2 where 2: "dropKind groupCompletedTool target keep 0 g1 a1 = (g2, a2)" by fastforce
  have 3: "dropKind groupPlainElastic target keep 0 g2 a2 = (gs', acc)"
    using assms(1) 1 2 by (simp add: drop_all_def)
  have ok2: "da_ok a2" using 3 assms(2) dropKind_stopped by fastforce
  then have ok1: "da_ok a1" using 2 dropKind_stopped by fastforce
  let ?d1 = "greedy target before ?h"
  let ?d2 = "greedy target (before - cand_cost ?d1) ?t"
  let ?d3 = "greedy target (before - cand_cost ?d1 - cand_cost ?d2) ?p"
  from dropKind_greedy[OF 1 _ ok1 refl] have e1: "g1 = mark (fst ` set ?d1) 0 gs"
    "da_remaining a1 = before - cand_cost ?d1" "da_dropped a1 = int (length ?d1)" by auto
  from dropKind_greedy[OF 2 ok1 ok2 refl] e1 have e2: "g2 = mark (fst ` set ?d2 \<union> fst ` set ?d1) 0 gs"
    "da_remaining a2 = before - cand_cost ?d1 - cand_cost ?d2"
    "da_dropped a2 = int (length ?d1) + int (length ?d2)" by (auto simp: mark_mark)
  have "ds = ?d1 @ ?d2 @ ?d3" by (simp add: ds drop_order_def greedy_append diff_diff_eq)
  with dropKind_greedy[OF 3 ok2 assms(2) refl] e2 show ?thesis
    by (simp add: mark_mark Un_assoc image_Un diff_diff_eq Un_commute Un_left_commute)
qed

lemma prefix_cand_cost:
  "prefix xs ys \<Longrightarrow> \<forall>c \<in> set ys. 0 \<le> snd c \<Longrightarrow> cand_cost xs \<le> cand_cost ys"
  by (auto simp: prefix_def intro!: sum_list_nonneg_int)

lemma candidates_nonneg:
  "\<forall>g \<in> set gs. 0 \<le> g_tokens g \<Longrightarrow> \<forall>c \<in> set (candidates kind keep i gs). 0 \<le> snd c"
  by (induction gs arbitrary: i) auto

lemma cand_cost_nonneg: "\<forall>g \<in> set gs. 0 \<le> g_tokens g \<Longrightarrow> 0 \<le> cand_cost (candidates kind keep i gs)"
  by (rule sum_list_nonneg_int) (use candidates_nonneg in blast)

lemma drop_order_cost:
  assumes "\<forall>g \<in> set gs. 0 \<le> g_tokens g"
  shows "cand_cost (drop_order keep gs) \<le> (\<Sum>g\<leftarrow>gs. g_tokens g)"
proof -
  have "cand_cost (candidates groupHistory keep i gs) + cand_cost (candidates groupCompletedTool keep i gs)
     + cand_cost (candidates groupPlainElastic keep i gs) \<le> (\<Sum>g\<leftarrow>gs. g_tokens g)" for i
    using assms
  proof (induction gs arbitrary: i)
    case (Cons g gs)
    from Cons.IH[of "i + 1"] Cons.prems show ?case by auto
  qed simp
  from this[of 0] show ?thesis by (simp add: drop_order_def)
qed

lemma dropKind_in_range:
  assumes "dropKind kind target keep i gs acc = (gs', acc')" and "da_ok acc"
    and "\<forall>g \<in> set gs. 0 \<le> g_tokens g" and "cand_cost (candidates kind keep i gs) \<le> da_remaining acc"
  shows "da_ok acc'"
  using assms
proof (induction gs arbitrary: i acc gs' acc')
  case (Cons g gs)
  have rest: "0 \<le> cand_cost (candidates kind keep (i + 1) gs)" using Cons.prems(3) by (simp add: cand_cost_nonneg)
  show ?case
  proof (cases "da_remaining acc \<le> target")
    case False
    show ?thesis
    proof (cases "g_kind g = kind \<and> i \<noteq> keep")
      case True
      have room: "g_tokens g + cand_cost (candidates kind keep (i + 1) gs) \<le> da_remaining acc"
        using Cons.prems(4) True by simp
      then have "MinInt \<le> da_remaining acc - g_tokens g" using rest MinInt_neg by linarith
      then have sub: "checkedTokenSub (da_remaining acc) (g_tokens g) = (da_remaining acc - g_tokens g, True)"
        using Cons.prems(3) by simp
      show ?thesis using Cons.prems Cons.IH[of "i + 1"] True False sub room
        by (auto split: prod.splits)
    next
      case kept: False
      then have "cand_cost (candidates kind keep (i + 1) gs) \<le> da_remaining acc" using Cons.prems(4) by auto
      with kept Cons.prems Cons.IH[of "i + 1" acc] show ?thesis by (auto split: prod.splits if_splits)
    qed
  qed (use Cons.prems in simp)
qed simp

lemma drop_all_in_range:
  assumes fit: "drop_all target keep gs before = (gs', acc)"
    and nonneg: "\<forall>g \<in> set gs. 0 \<le> g_tokens g" and cost: "cand_cost (drop_order keep gs) \<le> before"
  shows "da_ok acc"
proof -
  let ?a0 = "\<lparr>da_remaining = before, da_dropped = 0, da_ok = True\<rparr>"
  let ?c = "\<lambda>k. candidates k keep 0 gs"
  obtain g1 a1 where 1: "dropKind groupHistory target keep 0 gs ?a0 = (g1, a1)" by fastforce
  obtain g2 a2 where 2: "dropKind groupCompletedTool target keep 0 g1 a1 = (g2, a2)" by fastforce
  have 3: "dropKind groupPlainElastic target keep 0 g2 a2 = (gs', acc)" using fit 1 2 by (simp add: drop_all_def)
  have sum: "cand_cost (?c groupHistory) + cand_cost (?c groupCompletedTool) + cand_cost (?c groupPlainElastic) \<le> before"
    and pos: "0 \<le> cand_cost (?c k)" for k
    using cost nonneg cand_cost_nonneg by (auto simp: drop_order_def)
  have le: "cand_cost (greedy target r (?c k)) \<le> cand_cost (?c k)" for r k
    by (rule prefix_cand_cost[OF greedy_prefix candidates_nonneg[OF nonneg]])
  have tokens_mark: "\<forall>g \<in> set (mark D 0 gs). 0 \<le> g_tokens g" for D
    using nonneg by (simp add: all_set_conv_all_nth nth_mark)
  have "cand_cost (?c groupHistory) \<le> before"
    using sum pos[of groupCompletedTool] pos[of groupPlainElastic] by linarith
  then have ok1: "da_ok a1" by (intro dropKind_in_range[OF 1 _ nonneg]) simp_all
  from dropKind_greedy[OF 1 _ ok1 refl] le[of before groupHistory] obtain D1 where
    e1: "g1 = mark D1 0 gs" "before - cand_cost (?c groupHistory) \<le> da_remaining a1" by auto
  then have ok2: "da_ok a2" using sum pos[of groupPlainElastic] tokens_mark
    by (intro dropKind_in_range[OF 2 ok1]) auto
  from dropKind_greedy[OF 2 ok1 ok2 refl] e1 le[of "da_remaining a1" groupCompletedTool] obtain D2 where
    "g2 = mark D2 0 gs" "before - cand_cost (?c groupHistory) - cand_cost (?c groupCompletedTool) \<le> da_remaining a2"
    by (auto simp: mark_mark)
  then show ?thesis using sum tokens_mark by (intro dropKind_in_range[OF 3 ok2]) auto
qed

section \<open>The whole operation\<close>

abbreviation priced :: "RecencyCompactor \<Rightarrow> TokenBudget \<Rightarrow> RecencyCompactor" where
  "priced rc b \<equiv> rc\<lparr>rc_toolResultOverhead := tb_ToolResultOverhead b\<rparr>"

lemma Compact_unfold:
  "Compact rc0 st b =
     (let rc = priced rc0 b; (before, ok) = checkedTotal rc st
      in if \<not> ok then (st, recency_report 0 before before, Some ErrContextExhausted)
         else if before \<le> tb_Input b then (st, recency_report 0 before before, None)
         else let gs = groups rc st
              in if \<exists>g \<in> set gs. g_overflow g
                 then (st, recency_report 0 before MaxInt, Some ErrContextExhausted)
                 else let water = lowWaterMark (tb_Input b) (tb_LowWaterFraction b);
                          fit = drop_all (fst water) (newestCurrentRunGroup gs) gs before;
                          fit = (if snd water \<and> da_remaining (snd fit) \<le> fst water then fit
                                 else drop_all (tb_Input b) (-1) gs before)
                      in finish_fit rc st before (fst fit) (snd fit))"
proof -
  have off: "lowWaterMark n (F_Fin 0) = (n, False)" for n by (simp add: lowWaterMark_def)
  have none: "\<not> snd (lowWaterMark n f) \<Longrightarrow> fst (lowWaterMark n f) = n" for n f
    by (auto simp: lowWaterMark_def split: f64.splits if_splits)
  show ?thesis
    by (subst Compact.simps) (simp add: Compact.simps[of _ _ "b\<lparr>tb_LowWaterFraction := F_Fin 0\<rparr>"] off none Let_def
        split: prod.split)
qed

lemma groups_no_overflow:
  assumes nn: "nonneg_costs rc" and total: "checkedTotal rc st = (n, True)" and g: "g \<in> set (groups rc st)"
  shows "\<not> g_overflow g"
proof -
  have ok: "group_tokens rc k ms \<noteq> None"
    if "\<forall>m \<in> set ms. snd (checkedMessageCost rc m)" "k + (\<Sum>m\<leftarrow>ms. exact_cost rc m) \<le> MaxInt" for k ms
    using that
  proof (induction ms arbitrary: k)
    case (Cons m ms)
    have c: "checkedMessageCost rc m = (exact_cost rc m, True)"
      using Cons.prems(1) checkedMessageCost_ok[of rc m] by (cases "checkedMessageCost rc m") auto
    have "0 \<le> exact_cost rc m" "0 \<le> (\<Sum>m\<leftarrow>ms. exact_cost rc m)"
      using nn by (auto intro: exact_cost_nonneg nonneg_sum_costs)
    with c Cons show ?case by (simp add: checkedTokenAdd_nonneg add.assoc)
  qed simp
  have n: "n = state_cost rc st" and cost: "\<forall>m \<in> set (st_Messages st). snd (checkedMessageCost rc m)"
    using checkedTotal_ok[OF total] by auto
  obtain xs ys where split: "groups rc st = xs @ g # ys" using split_list[OF g] by auto
  have msgs: "st_Messages st = concat (map g_msgs xs) @ g_msgs g @ concat (map g_msgs ys)"
    by (simp add: groups_concat[of rc st, symmetric] split)
  have "n \<le> MaxInt" using checkedTotal_le[OF total] nn by (simp add: nonneg_costs_def)
  moreover have "(\<Sum>m\<leftarrow>g_msgs g. exact_cost rc m) \<le> n"
    using nn nonneg_sum_costs[OF nn, of "concat (map g_msgs xs)"] nonneg_sum_costs[OF nn, of "concat (map g_msgs ys)"]
    by (simp add: n state_cost_def msgs nonneg_costs_def)
  ultimately have "group_tokens rc 0 (g_msgs g) \<noteq> None" using cost by (intro ok) (auto simp: msgs)
  with groups_made[OF g] show ?thesis by (auto simp: made_group_def mk_group_def)
qed

lemma groups_no_overflow':
  "nonneg_costs rc \<Longrightarrow> state_cost rc st \<le> MaxInt \<Longrightarrow> \<forall>g \<in> set (groups rc st). \<not> g_overflow g"
  using groups_no_overflow[of rc st "state_cost rc st"] checkedTotal_nonneg[of rc st] by simp

lemma distinct_candidates: "distinct (map fst (candidates kind keep i gs))"
proof (induction gs arbitrary: i)
  case (Cons g gs)
  moreover have "i \<notin> fst ` set (candidates kind keep (i + 1) gs)" using candidates_index by fastforce
  ultimately show ?case by (auto simp del: map_append split: if_splits)
qed simp

lemma drop_order_nth:
  assumes "c \<in> set (drop_order keep gs)"
  shows "0 \<le> fst c" "nat (fst c) < length gs" "snd c = g_tokens (gs ! nat (fst c))" "fst c \<noteq> keep"
    "g_kind (gs ! nat (fst c)) \<in> {groupHistory, groupCompletedTool, groupPlainElastic}"
  using assms by (auto simp: drop_order_def dest: candidates_index candidates_nth)

lemma distinct_drop_order: "distinct (map fst (drop_order keep gs))"
proof -
  have "fst ` set (candidates k keep 0 gs) \<inter> fst ` set (candidates k' keep 0 gs) = {}" if "k \<noteq> k'" for k k'
    using that by (auto dest!: candidates_nth)
  then show ?thesis by (auto simp: drop_order_def distinct_candidates)
qed

text \<open>What the groups left unmarked cost is the total less the cost of the candidates taken.\<close>

definition kept_tokens :: "compactionGroup list \<Rightarrow> int" where
  "kept_tokens gs = (\<Sum>g\<leftarrow>filter (\<lambda>g. \<not> g_drop g) gs. g_tokens g)"

lemma cand_cost_indices:
  assumes "prefix ds (drop_order keep gs)"
  shows "cand_cost ds = (\<Sum>j \<in> {j. j < length gs \<and> int j \<in> fst ` set ds}. g_tokens (gs ! j))"
proof -
  have sub: "c \<in> set (drop_order keep gs)" if "c \<in> set ds" for c
    using set_mono_prefix[OF assms] that by auto
  have dist: "distinct (map fst ds)"
    using assms distinct_drop_order[of keep gs] by (auto simp: prefix_def)
  have idx: "{j. j < length gs \<and> int j \<in> fst ` set ds} = (\<lambda>c. nat (fst c)) ` set ds"
  proof (intro set_eqI iffI)
    fix j assume "j \<in> {j. j < length gs \<and> int j \<in> fst ` set ds}"
    then obtain c where "c \<in> set ds" "int j = fst c" by auto
    then show "j \<in> (\<lambda>c. nat (fst c)) ` set ds" by (intro image_eqI[of _ _ c]) auto
  next
    fix j assume "j \<in> (\<lambda>c. nat (fst c)) ` set ds"
    then obtain c where c: "c \<in> set ds" "j = nat (fst c)" by auto
    from drop_order_nth(1,2)[OF sub[OF c(1)]] c show "j \<in> {j. j < length gs \<and> int j \<in> fst ` set ds}" by simp
  qed
  have inj: "inj_on (\<lambda>c. nat (fst c)) (set ds)"
  proof (rule inj_onI)
    fix c d assume cd: "c \<in> set ds" "d \<in> set ds" "nat (fst c) = nat (fst d)"
    then have "fst c = fst d" using drop_order_nth(1)[OF sub] by (metis eq_nat_nat_iff)
    with cd dist show "c = d" by (auto simp: distinct_map inj_on_def)
  qed
  have "(\<Sum>c \<in> set ds. g_tokens (gs ! nat (fst c))) = (\<Sum>c \<in> set ds. snd c)"
    using drop_order_nth(3)[OF sub] by (intro sum.cong) auto
  with dist show ?thesis
    by (simp add: idx sum.reindex[OF inj] sum_list_distinct_conv_sum_set distinct_map)
qed

lemma kept_tokens_mark:
  assumes "prefix ds (drop_order keep gs)" and fresh: "\<forall>g \<in> set gs. \<not> g_drop g"
  shows "kept_tokens (mark (fst ` set ds) 0 gs) = (\<Sum>g\<leftarrow>gs. g_tokens g) - cand_cost ds"
proof -
  let ?D = "fst ` set ds" and ?t = "\<lambda>j. g_tokens (gs ! j)"
  have "kept_tokens (mark ?D 0 gs) = (\<Sum>j<length gs. if int j \<in> ?D then 0 else ?t j)"
    unfolding kept_tokens_def sum_list_map_filter' using fresh
    by (subst sum_list_sum_nth) (auto intro!: sum.cong simp: nth_mark atLeast0LessThan all_set_conv_all_nth)
  moreover have "(\<Sum>j<length gs. ?t j) = (\<Sum>g\<leftarrow>gs. g_tokens g)"
    by (simp add: sum_list_sum_nth atLeast0LessThan)
  moreover have "(\<Sum>j<length gs. ?t j) = (\<Sum>j<length gs. if int j \<in> ?D then 0 else ?t j)
      + (\<Sum>j<length gs. if int j \<in> ?D then ?t j else 0)"
    by (subst sum.distrib[symmetric]) (rule sum.cong, auto)
  moreover have "(\<Sum>j<length gs. if int j \<in> ?D then ?t j else 0) = cand_cost ds"
    unfolding cand_cost_indices[OF assms(1)] by (subst sum.inter_filter[symmetric]) (auto intro!: sum.cong)
  ultimately show ?thesis by linarith
qed

lemma kept_messages_cost:
  assumes "\<forall>g \<in> set gs. g_tokens g = (\<Sum>m\<leftarrow>g_msgs g. exact_cost rc m)"
  shows "(\<Sum>m\<leftarrow>kept_messages gs. exact_cost rc m) = kept_tokens gs"
  using assms by (induction gs) (auto simp: kept_messages_def kept_tokens_def)

text \<open>The reference: one greedy choice over the yielding order, exact costs, no intermediate state.\<close>

definition fit_choice :: "TokenBudget \<Rightarrow> compactionGroup list \<Rightarrow> int \<Rightarrow> (int \<times> int) list" where
  "fit_choice b gs before =
     (let water = lowWaterMark (tb_Input b) (tb_LowWaterFraction b);
          low = greedy (fst water) before (drop_order (newestCurrentRunGroup gs) gs)
      in if snd water \<and> before - cand_cost low \<le> fst water then low
         else greedy (tb_Input b) before (drop_order (-1) gs))"

definition fit_state :: "State \<Rightarrow> compactionGroup list \<Rightarrow> (int \<times> int) list \<Rightarrow> State" where
  "fit_state st gs ds =
     \<lparr>st_System = st_System st, st_DurableSummary = [],
      st_Messages = kept_messages (mark (fst ` set ds) 0 gs), st_systemKeys = []\<rparr>"

definition compact_spec :: "RecencyCompactor \<Rightarrow> State \<Rightarrow> TokenBudget \<Rightarrow> State \<times> CompactionReport \<times> agent_error option" where
  "compact_spec rc st b =
     (let before = state_cost rc st
      in if before > MaxInt then (st, recency_report 0 MaxInt MaxInt, Some ErrContextExhausted)
         else if before \<le> tb_Input b then (st, recency_report 0 before before, None)
         else let gs = groups rc st; ds = fit_choice b gs before
              in (fit_state st gs ds, recency_report (int (length ds)) before (before - cand_cost ds), None))"

lemma fit_choice_prefix: "\<exists>keep. prefix (fit_choice b gs before) (drop_order keep gs)"
  unfolding fit_choice_def Let_def using greedy_prefix by (auto split: if_splits)

lemma groups_total:
  assumes "\<forall>g \<in> set (groups rc st). \<not> g_overflow g"
  shows "(\<Sum>g\<leftarrow>groups rc st. g_tokens g) = (\<Sum>m\<leftarrow>st_Messages st. exact_cost rc m)"
proof -
  have "(\<Sum>g\<leftarrow>gs. g_tokens g) = (\<Sum>m\<leftarrow>concat (map g_msgs gs). exact_cost rc m)"
    if "\<forall>g \<in> set gs. g_tokens g = (\<Sum>m\<leftarrow>g_msgs g. exact_cost rc m)" for gs
    using that by (induction gs) auto
  from this[of "groups rc st"] show ?thesis using assms groups_made made_group_facts(2) groups_concat[of rc st] by metis
qed

lemma fit_state_cost:
  assumes "\<forall>g \<in> set (groups rc st). \<not> g_overflow g" and "prefix ds (drop_order keep (groups rc st))"
  shows "state_cost rc (fit_state st (groups rc st) ds) = state_cost rc st - cand_cost ds"
proof -
  let ?gs = "groups rc st"
  have fresh: "\<forall>g \<in> set ?gs. \<not> g_drop g"
    and tok: "\<forall>g \<in> set ?gs. g_tokens g = (\<Sum>m\<leftarrow>g_msgs g. exact_cost rc m)"
    using assms(1) groups_made made_group_facts(1,2) by blast+
  have "\<forall>g \<in> set (mark D 0 ?gs). g_tokens g = (\<Sum>m\<leftarrow>g_msgs g. exact_cost rc m)" for D
    using tok by (simp add: all_set_conv_all_nth nth_mark)
  then show ?thesis
    by (simp add: fit_state_def state_cost_def kept_messages_cost kept_tokens_mark[OF assms(2) fresh]
        groups_total[OF assms(1)])
qed

lemma finish_fit_spec:
  assumes ok: "da_ok acc" and acc: "da_dropped acc = int (length ds)" and pre: "prefix ds (drop_order keep (groups rc st))"
    and nov: "\<forall>g \<in> set (groups rc st). \<not> g_overflow g" and nn: "nonneg_costs rc" and le: "state_cost rc st \<le> MaxInt"
  shows "finish_fit rc st before (mark (fst ` set ds) 0 (groups rc st)) acc
    = (fit_state st (groups rc st) ds,
       recency_report (int (length ds)) before (state_cost rc st - cand_cost ds), None)"
proof -
  let ?gs = "groups rc st"
  have "\<forall>g \<in> set ?gs. 0 \<le> g_tokens g"
    using nov groups_made made_group_facts(2) nonneg_sum_costs[OF nn] by metis
  then have "\<forall>c \<in> set ds. 0 \<le> snd c"
    using set_mono_prefix[OF pre] drop_order_nth(2,3) by (metis nth_mem subsetD)
  then have "0 \<le> cand_cost ds" by (intro sum_list_nonneg_int) auto
  then have "checkedTotal rc (fit_state st ?gs ds) = (state_cost rc st - cand_cost ds, True)"
    using le by (simp add: checkedTotal_nonneg[OF nn] fit_state_cost[OF nov pre])
  then show ?thesis using ok acc by (simp add: finish_fit_def fit_state_def)
qed

lemma Compact_eq_spec:
  assumes nn: "nonneg_costs (priced rc b)"
  shows "Compact rc st b = compact_spec (priced rc b) st b"
proof (cases "tb_Input b < state_cost (priced rc b) st \<and> state_cost (priced rc b) st \<le> MaxInt")
  case False
  then show ?thesis using nn by (auto simp: Compact_unfold compact_spec_def checkedTotal_nonneg Let_def)
next
  case True
  let ?rc = "priced rc b" and ?n = "state_cost (priced rc b) st"
  let ?gs = "groups ?rc st" and ?w = "lowWaterMark (tb_Input b) (tb_LowWaterFraction b)"
  have total: "checkedTotal ?rc st = (?n, True)" using True checkedTotal_nonneg[OF nn] by simp
  have nov: "\<forall>g \<in> set ?gs. \<not> g_overflow g" using groups_no_overflow[OF nn total] by blast
  then have tok: "\<forall>g \<in> set ?gs. 0 \<le> g_tokens g"
    using groups_made made_group_facts(2) nonneg_sum_costs[OF nn] by metis
  have room: "cand_cost (drop_order keep ?gs) \<le> ?n" for keep
    using order_trans[OF drop_order_cost[OF tok]] groups_total[OF nov] nn
    by (simp add: state_cost_def nonneg_costs_def)
  have fit: "\<exists>acc. drop_all t keep ?gs ?n = (mark (fst ` set ds) 0 ?gs, acc) \<and> da_ok acc
      \<and> da_remaining acc = ?n - cand_cost ds \<and> da_dropped acc = int (length ds)"
    if "ds = greedy t ?n (drop_order keep ?gs)" for t keep ds
    using drop_all_greedy[OF _ _ that] drop_all_in_range[OF _ tok room] by (metis prod.exhaust)
  let ?low = "greedy (fst ?w) ?n (drop_order (newestCurrentRunGroup ?gs) ?gs)"
  let ?full = "greedy (tb_Input b) ?n (drop_order (-1) ?gs)"
  obtain a1 where a1: "drop_all (fst ?w) (newestCurrentRunGroup ?gs) ?gs ?n = (mark (fst ` set ?low) 0 ?gs, a1)"
    "da_ok a1" "da_remaining a1 = ?n - cand_cost ?low" "da_dropped a1 = int (length ?low)" using fit[OF refl] by blast
  obtain a2 where a2: "drop_all (tb_Input b) (-1) ?gs ?n = (mark (fst ` set ?full) 0 ?gs, a2)"
    "da_ok a2" "da_dropped a2 = int (length ?full)" using fit[OF refl] by blast
  have 1: "finish_fit ?rc st ?n (mark (fst ` set ?low) 0 ?gs) a1 =
      (fit_state st ?gs ?low, recency_report (int (length ?low)) ?n (?n - cand_cost ?low), None)"
    by (rule finish_fit_spec[OF a1(2,4) greedy_prefix nov nn]) (use True in simp)
  have 2: "finish_fit ?rc st ?n (mark (fst ` set ?full) 0 ?gs) a2 =
      (fit_state st ?gs ?full, recency_report (int (length ?full)) ?n (?n - cand_cost ?full), None)"
    by (rule finish_fit_spec[OF a2(2,3) greedy_prefix nov nn]) (use True in simp)
  have "\<not> ?n \<le> tb_Input b" "\<not> MaxInt < ?n" "\<not> (\<exists>g \<in> set ?gs. g_overflow g)" using True nov by auto
  then show ?thesis
    by (simp add: Compact_unfold total compact_spec_def fit_choice_def a1(1,3) a2(1) 1 2 Let_def)
qed

lemma kept_messages_masked:
  "\<forall>g \<in> set gs. \<not> g_drop g \<Longrightarrow>
   kept_messages (mark D i gs) = concat (map g_msgs (masked (map (\<lambda>j. i + int j \<notin> D) [0..<length gs]) gs))"
proof (induction gs arbitrary: i)
  case (Cons g gs)
  have "map (\<lambda>j. i + int j \<notin> D) [0..<length (g # gs)] = (i \<notin> D) # map (\<lambda>j. (i + 1) + int j \<notin> D) [0..<length gs]"
    by (simp add: upt_rec[of 0] map_Suc_upt[symmetric] add.assoc del: upt_Suc)
  with Cons show ?case by (auto simp: kept_messages_def)
qed (simp add: kept_messages_def)

text \<open>The state of a result, whether or not the arithmetic succeeded.\<close>

lemma finish_fit_state:
  assumes "finish_fit rc st before (fst fit) (snd fit) = (out, rep, err)" and "drop_all t keep (groups rc st) before = fit"
  shows "out = st \<or> (\<exists>ds. prefix ds (drop_order keep (groups rc st)) \<and> out = fit_state st (groups rc st) ds)"
proof (cases "da_ok (snd fit)")
  case True
  obtain gs acc where f: "fit = (gs, acc)" by fastforce
  let ?ds = "greedy t before (drop_order keep (groups rc st))"
  from drop_all_greedy[OF _ _ refl] assms(2) True f have "gs = mark (fst ` set ?ds) 0 (groups rc st)" by auto
  then have "out = fit_state st (groups rc st) ?ds" using assms(1) True f
    by (auto simp: finish_fit_def fit_state_def Let_def split: prod.splits if_splits)
  then show ?thesis using greedy_prefix by blast
qed (use assms(1) in \<open>simp add: finish_fit_def\<close>)

lemma Compact_state:
  assumes "Compact rc st b = (out, rep, err)"
  shows "out = st \<or> (\<exists>ds keep. prefix ds (drop_order keep (groups (priced rc b) st))
    \<and> out = fit_state st (groups (priced rc b) st) ds)"
  using assms unfolding Compact_unfold Let_def
  by (auto split: prod.splits if_splits dest: finish_fit_state[OF _ refl])

section \<open>The contract of a compactor\<close>

abbreviation pinned_of :: "State \<Rightarrow> Message list" where
  "pinned_of st \<equiv> filter (\<lambda>m. m_Segment m = Pinned) (st_Messages st)"

text \<open>What the context manager may rely on from any compactor plugged into it.\<close>

locale compactor =
  fixes compact :: "State \<Rightarrow> TokenBudget \<Rightarrow> State \<times> CompactionReport \<times> agent_error option"
  assumes keeps_system: "st_System (fst (compact st b)) = st_System st"
    and keeps_order: "subseq (st_Messages (fst (compact st b))) (st_Messages st)"
    and keeps_pinned: "pinned_of (fst (compact st b)) = pinned_of st"
begin

text \<open>Any number of fits over shrinking budgets never loses pinned content.\<close>

lemma compact_all:
  assumes "out = fold (\<lambda>b st. fst (compact st b)) bs st"
  shows "st_System out = st_System st \<and> pinned_of out = pinned_of st \<and> subseq (st_Messages out) (st_Messages st)"
  using assms
proof (induction bs arbitrary: st)
  case (Cons b bs)
  then show ?case
    using keeps_system[of st b] keeps_pinned[of st b] keeps_order[of st b]
    by (auto intro: subseq_order.order_trans)
qed simp

lemma messages_subset: "set (st_Messages (fst (compact st b))) \<subseteq> set (st_Messages st)"
  using keeps_order[of st b] by (auto elim: list_emb_set)

end

definition group_flags :: "(int \<times> int) list \<Rightarrow> compactionGroup list \<Rightarrow> bool list" where
  "group_flags ds gs = map (\<lambda>j. int j \<notin> fst ` set ds) [0..<length gs]"

lemma subseq_concat_masked: "subseq (concat (map f (masked ks xs))) (concat (map f xs))"
  by (induction ks xs rule: masked.induct) (auto intro: list_emb_append_mono)

lemma filter_concat_masked:
  assumes "length ks = length xs" and "\<And>i. i < length xs \<Longrightarrow> \<not> ks ! i \<Longrightarrow> filter Q (f (xs ! i)) = []"
  shows "filter Q (concat (map f (masked ks xs))) = filter Q (concat (map f xs))"
  using assms
proof (induction ks xs rule: masked.induct)
  case (1 k ks x xs)
  have "filter Q (concat (map f (masked ks xs))) = filter Q (concat (map f xs))"
    using 1 by (metis length_Cons Suc_inject Suc_less_eq nth_Cons_Suc)
  moreover have "\<not> k \<Longrightarrow> filter Q (f x) = []" using "1.prems"(2)[of 0] by simp
  ultimately show ?case by simp
qed auto

lemma fit_state_flags:
  assumes pre: "prefix ds (drop_order keep (groups rc st))"
  shows "st_Messages (fit_state st (groups rc st) ds) = concat (map g_msgs (masked (group_flags ds (groups rc st)) (groups rc st)))"
    and "i < length (groups rc st) \<Longrightarrow> g_kind (groups rc st ! i) \<in> {groupPinned, groupUnresolvedTool} \<Longrightarrow>
      group_flags ds (groups rc st) ! i"
proof -
  have fresh: "\<forall>g \<in> set (groups rc st). \<not> g_drop g" using groups_made made_group_facts(1) by blast
  then show "st_Messages (fit_state st (groups rc st) ds) = concat (map g_msgs (masked (group_flags ds (groups rc st)) (groups rc st)))"
    using kept_messages_masked[OF fresh, of _ 0] by (simp add: fit_state_def group_flags_def)
  assume i: "i < length (groups rc st)" "g_kind (groups rc st ! i) \<in> {groupPinned, groupUnresolvedTool}"
  have "int i \<notin> fst ` set ds"
  proof
    assume "int i \<in> fst ` set ds"
    then obtain c where c: "c \<in> set ds" "fst c = int i" by auto
    then have "c \<in> set (drop_order keep (groups rc st))" using set_mono_prefix[OF pre] by auto
    from drop_order_nth(5)[OF this] c i(2) show False by auto
  qed
  then show "group_flags ds (groups rc st) ! i" using i(1) by (simp add: group_flags_def)
qed

lemma masked_replicate [simp]: "masked (replicate (length xs) True) xs = xs"
  by (rule masked_all) auto

lemma Compact_flags:
  assumes "Compact rc st b = (out, rep, err)"
  defines "gs \<equiv> groups (priced rc b) st"
  obtains flags where "length flags = length gs" and "st_Messages out = concat (map g_msgs (masked flags gs))"
    and "\<And>i. i < length gs \<Longrightarrow> g_kind (gs ! i) \<in> {groupPinned, groupUnresolvedTool} \<Longrightarrow> flags ! i"
    and "st_System out = st_System st"
proof -
  consider "out = st" | ds keep where "prefix ds (drop_order keep gs)" "out = fit_state st gs ds"
    using Compact_state[OF assms(1)] unfolding gs_def by blast
  then show thesis
  proof cases
    case 1
    then show thesis
      by (intro that[of "replicate (length gs) True"]) (simp_all add: gs_def groups_concat)
  next
    case 2
    show thesis
    proof (rule that[of "group_flags ds gs"])
      show "st_Messages out = concat (map g_msgs (masked (group_flags ds gs) gs))"
        using fit_state_flags(1) 2 unfolding gs_def by blast
      show "group_flags ds gs ! i" if "i < length gs" "g_kind (gs ! i) \<in> {groupPinned, groupUnresolvedTool}" for i
        using fit_state_flags(2) 2(1) that unfolding gs_def by blast
    qed (simp_all add: 2(2) fit_state_def group_flags_def)
  qed
qed

lemma pinned_group_filter:
  assumes "i < length (groups rc st)" and "g_kind (groups rc st ! i) \<noteq> groupPinned"
  shows "filter (\<lambda>m. m_Segment m = Pinned) (g_msgs (groups rc st ! i)) = []"
  using assms made_group_facts(3)[OF groups_made[OF nth_mem[OF assms(1)]]] by (auto simp: filter_empty_conv)

interpretation recency: compactor "Compact rc" for rc
proof
  fix st b
  obtain out rep err where c: "Compact rc st b = (out, rep, err)" by (metis prod.exhaust)
  let ?gs = "groups (priced rc b) st"
  obtain flags where flags: "length flags = length ?gs" "st_Messages out = concat (map g_msgs (masked flags ?gs))"
    "\<And>i. i < length ?gs \<Longrightarrow> g_kind (?gs ! i) \<in> {groupPinned, groupUnresolvedTool} \<Longrightarrow> flags ! i"
    "st_System out = st_System st"
    using Compact_flags[OF c] by blast
  show "st_System (fst (Compact rc st b)) = st_System st" using c flags(4) by simp
  show "subseq (st_Messages (fst (Compact rc st b))) (st_Messages st)"
    using c flags(2) subseq_concat_masked[of g_msgs flags ?gs] by (simp add: groups_concat)
  show "pinned_of (fst (Compact rc st b)) = pinned_of st"
    using c flags(2) filter_concat_masked[OF flags(1), of "\<lambda>m. m_Segment m = Pinned" g_msgs] flags(3) pinned_group_filter
    by (simp add: groups_concat) blast
qed

lemma default_costs_nonneg: "0 \<le> k \<Longrightarrow> nonneg_costs \<lparr>rc_Estimate = None, rc_toolResultOverhead = k\<rparr>"
proof -
  assume "0 \<le> k"
  moreover have "0 \<le> default_estimate s \<and> default_estimate s \<le> MaxInt" for s
  proof (cases "s = []")
    case False
    then have "0 < go_len s" by simp
    with go_len_bounds(2)[of s] have "0 \<le> 1 + (go_len s - 1) div 4" "1 + (go_len s - 1) div 4 \<le> MaxInt" by linarith+
    with False show ?thesis by (simp add: default_estimate_def)
  qed (simp add: default_estimate_def)
  ultimately show ?thesis by (simp add: nonneg_costs_def rc_estimate_def)
qed

lemma all_dropped_messages:
  assumes "ds = drop_order (-1) (groups rc st)"
  shows "st_Messages (fit_state st (groups rc st) ds)
    = concat (map g_msgs (filter (\<lambda>g. g_kind g \<in> {groupPinned, groupUnresolvedTool}) (groups rc st)))"
proof -
  let ?gs = "groups rc st"
  have flag: "group_flags ds ?gs ! i \<longleftrightarrow> g_kind (?gs ! i) \<in> {groupPinned, groupUnresolvedTool}" if "i < length ?gs" for i
  proof (cases "g_kind (?gs ! i) \<in> {groupPinned, groupUnresolvedTool}")
    case True
    with fit_state_flags(2)[of ds "-1" rc st] assms that show ?thesis by simp
  next
    case False
    then have "g_kind (?gs ! i) \<in> {groupHistory, groupCompletedTool, groupPlainElastic}"
      by (cases "g_kind (?gs ! i)") auto
    with candidates_complete[OF that refl, of 0 "-1"] have "int i \<in> fst ` set ds"
      by (force simp: assms drop_order_def)
    with False that show ?thesis by (simp add: group_flags_def)
  qed
  then have "group_flags ds ?gs = map (\<lambda>g. g_kind g \<in> {groupPinned, groupUnresolvedTool}) ?gs"
    by (intro nth_equalityI) (auto simp: group_flags_def)
  moreover have "masked (map Q xs) xs = filter Q xs" for Q and xs :: "compactionGroup list"
    by (induction xs) auto
  ultimately show ?thesis using fit_state_flags(1)[of ds "-1" rc st] assms by simp
qed

lemma fit_choice_enough:
  assumes "0 \<le> tb_Input b" and "tb_Input b \<le> 2 ^ 53"
  shows "n - cand_cost (fit_choice b gs n) \<le> tb_Input b \<or> fit_choice b gs n = drop_order (-1) gs"
proof -
  have "fst (lowWaterMark (tb_Input b) f) \<le> tb_Input b" for f
    using trunc_product_le[OF assms] by (auto simp: lowWaterMark_def split: f64.splits)
  then show ?thesis unfolding fit_choice_def Let_def
    using greedy_enough[of n "tb_Input b" "drop_order (-1) gs"] by (auto intro: order_trans)
qed

lemma fit_choice_cost_nonneg:
  assumes "nonneg_costs rc" and "\<forall>g \<in> set (groups rc st). \<not> g_overflow g"
  shows "0 \<le> cand_cost (fit_choice b (groups rc st) n)"
proof -
  have "\<forall>g \<in> set (groups rc st). 0 \<le> g_tokens g"
    using assms(2) groups_made made_group_facts(2) nonneg_sum_costs[OF assms(1)] by metis
  moreover obtain keep where "prefix (fit_choice b (groups rc st) n) (drop_order keep (groups rc st))"
    using fit_choice_prefix by blast
  ultimately have "\<forall>c \<in> set (fit_choice b (groups rc st) n). 0 \<le> snd c"
    using set_mono_prefix drop_order_nth(2,3) by (metis nth_mem subsetD)
  then show ?thesis by (intro sum_list_nonneg_int) auto
qed

lemma newest_in_range: "newestCurrentRunGroup gs = int i \<Longrightarrow> i < length gs"
proof -
  have "newest_scan xs k \<le> k \<or> newest_scan xs k = -1" for xs k
    by (induction xs arbitrary: k) (force split: compactionGroupKind.splits)+
  from this[of "rev gs" "int (length gs) - 1"] show "newestCurrentRunGroup gs = int i \<Longrightarrow> i < length gs"
    by (auto simp: newestCurrentRunGroup_def)
qed

lemma kept_not_dropped: "i < length gs \<Longrightarrow> group_flags (greedy t n (drop_order (int i) gs)) gs ! i"
  using set_mono_prefix[OF greedy_prefix, of t n "drop_order (int i) gs"] drop_order_nth(4)
  by (fastforce simp: group_flags_def)

lemma Compact_fit_cases:
  assumes "nonneg_costs (priced rc b)" and "state_cost (priced rc b) st \<le> MaxInt"
    and "0 \<le> tb_Input b" and "tb_Input b \<le> 2 ^ 53"
  shows "\<exists>out rep. Compact rc st b = (out, rep, None)
    \<and> cr_TokensBefore rep = state_cost (priced rc b) st \<and> cr_TokensAfter rep = state_cost (priced rc b) out
    \<and> cr_TokensAfter rep \<le> cr_TokensBefore rep
    \<and> (cr_TokensAfter rep \<le> tb_Input b
       \<or> st_Messages out = concat (map g_msgs
           (filter (\<lambda>g. g_kind g \<in> {groupPinned, groupUnresolvedTool}) (groups (priced rc b) st))))"
proof (cases "state_cost (priced rc b) st \<le> tb_Input b")
  case True
  then show ?thesis
    using assms(2) by (simp add: Compact_eq_spec[OF assms(1)] compact_spec_def recency_report_def Let_def)
next
  case False
  let ?rc = "priced rc b" and ?n = "state_cost (priced rc b) st" and ?gs = "groups (priced rc b) st"
  let ?ds = "fit_choice b ?gs ?n"
  have c: "Compact rc st b = (fit_state st ?gs ?ds, recency_report (int (length ?ds)) ?n (?n - cand_cost ?ds), None)"
    using False assms(2) by (simp add: Compact_eq_spec[OF assms(1)] compact_spec_def Let_def)
  have nov: "\<forall>g \<in> set ?gs. \<not> g_overflow g"
    using groups_no_overflow'[OF assms(1,2)] .
  obtain keep where pre: "prefix ?ds (drop_order keep ?gs)" using fit_choice_prefix by blast
  have cost: "state_cost ?rc (fit_state st ?gs ?ds) = ?n - cand_cost ?ds" by (rule fit_state_cost[OF nov pre])
  show ?thesis
    using c cost fit_choice_enough[OF assms(3,4), of ?n ?gs] fit_choice_cost_nonneg[OF assms(1) nov]
      all_dropped_messages[of _ ?rc st] by (auto simp: recency_report_def)
qed

lemma Compact_error: "snd (snd (Compact rc st b)) = Some e \<Longrightarrow> e = ErrContextExhausted"
  unfolding Compact_unfold Let_def finish_fit_def by (auto split: prod.splits if_splits)

section \<open>Properties\<close>

text \<open>A small transcript: the pinned goal, a completed tool chain, and a later plain answer.\<close>

definition sample_rc :: RecencyCompactor where
  "sample_rc = \<lparr>rc_Estimate = None, rc_toolResultOverhead = 0\<rparr>"

definition sample_call :: ToolCall where
  "sample_call = \<lparr>tc_ID = ''c'', tc_Type = [], tc_Function = \<lparr>tcf_Index = 0, tcf_Name = ''f'', tcf_Arguments = []\<rparr>\<rparr>"

definition sample_msgs :: "Message list" where
  "sample_msgs =
     [mk_Message (mk_ChatMessage ''user'' ''goal'') Pinned,
      mk_Message ((mk_ChatMessage ''assistant'' [])\<lparr>cm_ToolCalls := [sample_call]\<rparr>) Elastic,
      mk_Message ((mk_ChatMessage ''tool'' ''result'')\<lparr>cm_ToolCallID := ''c''\<rparr>) Elastic,
      mk_Message (mk_ChatMessage ''assistant'' ''next'') Elastic]"

definition sample_state :: State where
  "sample_state = \<lparr>st_System = ''sys'', st_DurableSummary = [], st_Messages = sample_msgs, st_systemKeys = []\<rparr>"

definition sample_thresholds :: PressureThresholds where
  "sample_thresholds = \<lparr>pt_Watch = F_Fin 0, pt_Warn = F_Fin 0, pt_Critical = F_Fin 0\<rparr>"

definition sample_budget :: "int \<Rightarrow> f64 \<Rightarrow> TokenBudget" where
  "sample_budget n low = \<lparr>tb_Input = n, tb_Thresholds = sample_thresholds, tb_ToolResultOverhead = 1, tb_LowWaterFraction = low\<rparr>"

definition sample_low :: TokenBudget where
  "sample_low = sample_budget 8 (F_Fin (1 / 2))"

lemma sample_nonneg: "nonneg_costs (priced sample_rc (sample_budget n low))"
  using default_costs_nonneg[of 1] by (simp add: sample_rc_def sample_budget_def)

text \<open>C20: The fit is the reference greedy choice: with an estimator that is never negative,
  \<open>Compact\<close> drops the shortest prefix of the yielding order (prior history, then completed tool
  chains, then plain messages, oldest first) that reaches the low-water mark, or, when the mark
  cannot be reached without the newest group of the run, the shortest one that reaches the budget;
  its report states exact costs; only a total beyond \<open>MaxInt\<close> is an error.\<close>

theorem compact_refines_greedy:
  assumes "nonneg_costs (priced rc b)"
  shows "Compact rc st b = compact_spec (priced rc b) st b"
  using assms by (rule Compact_eq_spec)

theorem compact_refines_greedy_witness:
  "st_Messages (fst (Compact sample_rc sample_state (sample_budget 3 (F_Fin 0)))) = [sample_msgs ! 0, sample_msgs ! 3]"
proof -
  have "st_Messages (fst (compact_spec (priced sample_rc (sample_budget 3 (F_Fin 0))) sample_state (sample_budget 3 (F_Fin 0))))
      = [sample_msgs ! 0, sample_msgs ! 3]" by code_simp
  then show ?thesis by (simp only: compact_refines_greedy[OF sample_nonneg])
qed

text \<open>Whatever the estimator and the budget, \<open>Compact\<close> keeps or drops whole groups: the result
  is the concatenation of a selection of the groups of the transcript, in order, that includes every
  group with pinned content and every tool chain still missing results. So no tool result is
  separated from its call, no question from its answer, and pinned messages and the system prompt
  survive unchanged and in order.\<close>

theorem compact_keeps_whole_groups:
  "(\<exists>flags. length flags = length (groups (priced rc b) st)
      \<and> st_Messages (fst (Compact rc st b)) = concat (map g_msgs (masked flags (groups (priced rc b) st)))
      \<and> (\<forall>i < length flags. flags ! i
           \<or> g_kind (groups (priced rc b) st ! i) \<in> {groupHistory, groupCompletedTool, groupPlainElastic}))
   \<and> concat (map g_msgs (groups (priced rc b) st)) = st_Messages st
   \<and> st_System (fst (Compact rc st b)) = st_System st
   \<and> pinned_of (fst (Compact rc st b)) = pinned_of st
   \<and> subseq (st_Messages (fst (Compact rc st b))) (st_Messages st)"
proof (intro conjI)
  let ?gs = "groups (priced rc b) st"
  obtain out rep err where c: "Compact rc st b = (out, rep, err)" by (metis prod.exhaust)
  have kinds: "g_kind g \<in> {groupPinned, groupUnresolvedTool} \<or> g_kind g \<in> {groupHistory, groupCompletedTool, groupPlainElastic}"
    for g by (cases "g_kind g") auto
  show "\<exists>flags. length flags = length ?gs
      \<and> st_Messages (fst (Compact rc st b)) = concat (map g_msgs (masked flags ?gs))
      \<and> (\<forall>i < length flags. flags ! i \<or> g_kind (?gs ! i) \<in> {groupHistory, groupCompletedTool, groupPlainElastic})"
    using Compact_flags[OF c] kinds c by (metis fst_conv)
  show "concat (map g_msgs ?gs) = st_Messages st" by (rule groups_concat)
qed (rule recency.keeps_system recency.keeps_pinned recency.keeps_order)+

theorem compact_keeps_whole_groups_witness:
  "subseq (st_Messages (fst (Compact sample_rc sample_state (sample_budget 3 (F_Fin 0))))) sample_msgs
   \<and> pinned_of (fst (Compact sample_rc sample_state (sample_budget 3 (F_Fin 0)))) = [sample_msgs ! 0]"
proof -
  have "pinned_of sample_state = [sample_msgs ! 0]" by code_simp
  then show ?thesis
    using compact_keeps_whole_groups[where rc = sample_rc and b = "sample_budget 3 (F_Fin 0)" and st = sample_state]
    by (simp add: sample_state_def)
qed

text \<open>A successful fit either brings the transcript within the budget or has nothing left to drop:
  every remaining group is pinned or an unresolved tool chain. The reported costs are the exact costs
  of the transcript before and after, and the fit never grows it.\<close>

theorem compact_fits:
  assumes "nonneg_costs (priced rc b)" and "state_cost (priced rc b) st \<le> MaxInt"
    and "0 \<le> tb_Input b" and "tb_Input b \<le> 2 ^ 53"
  shows "\<exists>out rep. Compact rc st b = (out, rep, None)
    \<and> cr_TokensBefore rep = state_cost (priced rc b) st \<and> cr_TokensAfter rep = state_cost (priced rc b) out
    \<and> cr_TokensAfter rep \<le> cr_TokensBefore rep
    \<and> (cr_TokensAfter rep \<le> tb_Input b
       \<or> st_Messages out = concat (map g_msgs
           (filter (\<lambda>g. g_kind g \<in> {groupPinned, groupUnresolvedTool}) (groups (priced rc b) st))))"
  using assms by (rule Compact_fit_cases)

theorem compact_fits_witness:
  "\<exists>out rep. Compact sample_rc sample_state (sample_budget 3 (F_Fin 0)) = (out, rep, None)
     \<and> cr_TokensAfter rep \<le> cr_TokensBefore rep"
proof -
  have "state_cost (priced sample_rc (sample_budget 3 (F_Fin 0))) sample_state \<le> MaxInt" by code_simp
  from compact_fits[OF sample_nonneg this] show ?thesis by (auto simp: sample_budget_def)
qed

text \<open>A low-water fit never costs the run its newest observation: with the mark on, the result is
  either exactly the fit without a mark, or it is at most the mark and still holds the newest
  completed tool chain or plain message of the current run.\<close>

theorem low_water_keeps_newest:
  assumes "nonneg_costs (priced rc b)" and "state_cost (priced rc b) st \<le> MaxInt"
    and "newestCurrentRunGroup (groups (priced rc b) st) = int i"
  shows "Compact rc st b = Compact rc st (b\<lparr>tb_LowWaterFraction := F_Fin 0\<rparr>)
    \<or> (\<exists>flags. length flags = length (groups (priced rc b) st) \<and> i < length flags \<and> flags ! i
         \<and> st_Messages (fst (Compact rc st b)) = concat (map g_msgs (masked flags (groups (priced rc b) st)))
         \<and> state_cost (priced rc b) (fst (Compact rc st b)) \<le> fst (lowWaterMark (tb_Input b) (tb_LowWaterFraction b)))"
proof -
  let ?rc = "priced rc b" and ?n = "state_cost (priced rc b) st" and ?gs = "groups (priced rc b) st"
  let ?w = "lowWaterMark (tb_Input b) (tb_LowWaterFraction b)"
  let ?low = "greedy (fst ?w) ?n (drop_order (int i) ?gs)"
  let ?b0 = "b\<lparr>tb_LowWaterFraction := F_Fin 0\<rparr>"
  have spec: "Compact rc st b = compact_spec ?rc st b" "Compact rc st ?b0 = compact_spec ?rc st ?b0"
    using Compact_eq_spec[OF assms(1)] Compact_eq_spec[where rc = rc and b = ?b0] assms(1) by simp_all
  show ?thesis
  proof (cases "tb_Input b < ?n \<and> snd ?w \<and> ?n - cand_cost ?low \<le> fst ?w")
    case False
    then have "compact_spec ?rc st b = compact_spec ?rc st ?b0"
      using assms(3) by (auto simp: compact_spec_def fit_choice_def Let_def lowWaterMark_def)
    with spec show ?thesis by simp
  next
    case True
    then have "fst (Compact rc st b) = fit_state st ?gs ?low"
      using assms(2,3) by (simp add: spec compact_spec_def fit_choice_def Let_def)
    moreover have nov: "\<forall>g \<in> set ?gs. \<not> g_overflow g"
      using groups_no_overflow'[OF assms(1,2)] .
    moreover have "state_cost ?rc (fit_state st ?gs ?low) \<le> fst ?w"
      using True fit_state_cost[OF nov greedy_prefix, of "fst ?w" ?n] by simp
    moreover have "i < length ?gs" using newest_in_range[OF assms(3)] .
    moreover have "group_flags ?low ?gs ! i" using kept_not_dropped[OF \<open>i < length ?gs\<close>] .
    ultimately show ?thesis using fit_state_flags(1)[OF greedy_prefix]
      by (intro disjI2 exI[of _ "group_flags ?low ?gs"]) (simp add: group_flags_def)
  qed
qed

theorem low_water_keeps_newest_witness:
  "newestCurrentRunGroup (groups (priced sample_rc sample_low) sample_state) = int 2
    \<and> (Compact sample_rc sample_state sample_low = Compact sample_rc sample_state (sample_low\<lparr>tb_LowWaterFraction := F_Fin 0\<rparr>)
       \<or> (\<exists>flags. length flags = 3 \<and> flags ! 2
         \<and> st_Messages (fst (Compact sample_rc sample_state sample_low))
           = concat (map g_msgs (masked flags (groups (priced sample_rc sample_low) sample_state)))))"
proof -
  have newest: "newestCurrentRunGroup (groups (priced sample_rc sample_low) sample_state) = int 2"
    and cost: "state_cost (priced sample_rc sample_low) sample_state \<le> MaxInt"
    and len: "length (groups (priced sample_rc sample_low) sample_state) = 3"
    unfolding sample_low_def by code_simp+
  have nn: "nonneg_costs (priced sample_rc sample_low)" unfolding sample_low_def by (rule sample_nonneg)
  show ?thesis
    using low_water_keeps_newest[where rc = sample_rc and st = sample_state and b = sample_low and i = 2, OF nn cost newest] newest
    by (auto simp: len)
qed

end
