(* ===== verification/Pressure_Levels.thy ===== *)
theory Pressure_Levels
  imports Agent_Types
begin

text \<open>
  Classification of context pressure, \<open>agent/pressure.go\<close>: names of levels, causes and
  mitigations, the threshold bands and their normalisation, the classification of a used
  fraction, and the choice of the dominant bucket.
\<close>

fun PressureLevel_String :: "PressureLevel \<Rightarrow> string" where
  "PressureLevel_String LevelOK = ''ok''"
| "PressureLevel_String LevelWatch = ''watch''"
| "PressureLevel_String LevelWarn = ''warn''"
| "PressureLevel_String LevelCritical = ''critical''"

fun PressureCause_String :: "PressureCause \<Rightarrow> string" where
  "PressureCause_String CausePinned = ''pinned''"
| "PressureCause_String CauseToolSchema = ''tool_schema''"
| "PressureCause_String CauseHistory = ''history''"
| "PressureCause_String CauseToolOutput = ''tool_output''"
| "PressureCause_String CauseRetrieval = ''retrieval''"
| "PressureCause_String CauseUnknown = ''unknown''"

fun PressureMitigation_String :: "PressureMitigation \<Rightarrow> string" where
  "PressureMitigation_String MitigationWarn = ''warn''"
| "PressureMitigation_String MitigationEvict = ''evict''"
| "PressureMitigation_String MitigationHalt = ''halt''"
| "PressureMitigation_String MitigationNone = ''none''"

text \<open>Levels compare by their position in the enumeration.\<close>

fun level_rank :: "PressureLevel \<Rightarrow> nat" where
  "level_rank LevelOK = 0"
| "level_rank LevelWatch = 1"
| "level_rank LevelWarn = 2"
| "level_rank LevelCritical = 3"

instantiation PressureLevel :: linorder
begin

definition less_eq_PressureLevel :: "PressureLevel \<Rightarrow> PressureLevel \<Rightarrow> bool" where
  "less_eq_PressureLevel a b \<longleftrightarrow> level_rank a \<le> level_rank b"

definition less_PressureLevel :: "PressureLevel \<Rightarrow> PressureLevel \<Rightarrow> bool" where
  "less_PressureLevel a b \<longleftrightarrow> level_rank a < level_rank b"

instance
proof
  fix a b :: PressureLevel
  show "a \<le> b \<Longrightarrow> b \<le> a \<Longrightarrow> a = b"
    by (cases a; cases b) (auto simp: less_eq_PressureLevel_def)
qed (auto simp: less_eq_PressureLevel_def less_PressureLevel_def)

end

section \<open>Buckets\<close>

text \<open>The loop over the candidate buckets, in declaration order.\<close>

fun best_bucket :: "PressureCause \<Rightarrow> int \<Rightarrow> (PressureCause \<times> int) list \<Rightarrow> PressureCause" where
  "best_bucket best bestTokens [] = best"
| "best_bucket best bestTokens ((cause, tokens) # cs) =
     (if tokens > bestTokens then best_bucket cause tokens cs else best_bucket best bestTokens cs)"

definition bucket_list :: "PressureBuckets \<Rightarrow> (PressureCause \<times> int) list" where
  "bucket_list b =
     [(CausePinned, pb_Pinned b), (CauseToolSchema, pb_ToolSchema b), (CauseHistory, pb_History b),
      (CauseToolOutput, pb_ToolOutput b), (CauseRetrieval, pb_Retrieval b)]"

definition buckets_dominantCause :: "PressureBuckets \<Rightarrow> PressureCause" where
  "buckets_dominantCause b = best_bucket CauseUnknown 0 (bucket_list b)"

section \<open>Thresholds\<close>

definition defaultPressureThresholds :: PressureThresholds where
  "defaultPressureThresholds =
     \<lparr>pt_Watch = F_Fin (fl (60 / 100)), pt_Warn = F_Fin (fl (75 / 100)), pt_Critical = F_Fin (fl (90 / 100))\<rparr>"

definition valid_bands :: "PressureThresholds \<Rightarrow> bool" where
  "valid_bands t \<longleftrightarrow> f_lt (F_Fin 0) (pt_Watch t) \<and> f_le (pt_Watch t) (pt_Warn t)
     \<and> f_le (pt_Warn t) (pt_Critical t) \<and> f_le (pt_Critical t) (F_Fin 1)"

definition thresholds_normalize :: "PressureThresholds \<Rightarrow> PressureThresholds" where
  "thresholds_normalize t =
     (let def = defaultPressureThresholds
      in if f_eq (pt_Watch t) (F_Fin 0) \<and> f_eq (pt_Warn t) (F_Fin 0) \<and> f_eq (pt_Critical t) (F_Fin 0) then def
         else let t = (if f_eq (pt_Watch t) (F_Fin 0) then t\<lparr>pt_Watch := pt_Watch def\<rparr> else t);
                  t = (if f_eq (pt_Warn t) (F_Fin 0) then t\<lparr>pt_Warn := pt_Warn def\<rparr> else t);
                  t = (if f_eq (pt_Critical t) (F_Fin 0) then t\<lparr>pt_Critical := pt_Critical def\<rparr> else t)
              in if \<not> valid_bands t then def else t)"

definition classify_level :: "PressureThresholds \<Rightarrow> f64 \<Rightarrow> PressureLevel" where
  "classify_level t usedPct =
     (if f_le (pt_Critical t) usedPct then LevelCritical
      else if f_le (pt_Warn t) usedPct then LevelWarn
      else if f_le (pt_Watch t) usedPct then LevelWatch
      else LevelOK)"

definition Classify :: "PressureThresholds \<Rightarrow> f64 \<Rightarrow> bool \<Rightarrow> bool \<Rightarrow> PressureLevel \<times> PressureMitigation" where
  "Classify t usedPct exhausted evicted =
     (if exhausted then (LevelCritical, MitigationHalt)
      else let level = classify_level (thresholds_normalize t) usedPct
           in if evicted then (level, MitigationEvict)
              else if level \<ge> LevelWarn then (level, MitigationWarn)
              else (level, MitigationNone))"

definition PressureThresholdsForWarn :: "f64 \<Rightarrow> PressureThresholds" where
  "PressureThresholdsForWarn warn =
     (let def = defaultPressureThresholds
      in thresholds_normalize \<lparr>pt_Watch = f_min (pt_Watch def) warn, pt_Warn = warn, pt_Critical = f_max (pt_Critical def) warn\<rparr>)"

section \<open>Lemmas\<close>

lemma default_values:
  "0 < fl (3 / 5)" "fl (3 / 5) \<le> fl (3 / 4)" "fl (3 / 4) \<le> fl (9 / 10)" "fl (9 / 10) \<le> 1" "fl (3 / 5) < 1"
  "0 < fl (9 / 10)" "0 < fl (3 / 4)" "fl (3 / 5) \<le> fl (9 / 10)"
  by code_simp+

lemma default_bands: "valid_bands defaultPressureThresholds"
  using default_values by (simp add: valid_bands_def defaultPressureThresholds_def)

lemma normalize_valid: "valid_bands (thresholds_normalize t)"
  by (simp add: thresholds_normalize_def default_bands Let_def)

lemma f_eq_0: "f_eq x (F_Fin 0) \<longleftrightarrow> x = F_Fin 0"
  by (cases x) auto

lemma valid_bands_nonzero:
  assumes "valid_bands t"
  shows "pt_Watch t \<noteq> F_Fin 0" "pt_Warn t \<noteq> F_Fin 0" "pt_Critical t \<noteq> F_Fin 0"
  using assms by (cases "pt_Watch t"; cases "pt_Warn t"; cases "pt_Critical t"; auto simp: valid_bands_def f_le_def)+

lemma normalize_of_valid: "valid_bands t \<Longrightarrow> thresholds_normalize t = t"
  using valid_bands_nonzero[of t] by (simp add: thresholds_normalize_def f_eq_0 Let_def)

lemma f_le_trans_not: "f_le x y \<Longrightarrow> \<not> f_le x z \<Longrightarrow> \<not> f_le y z"
  using f_le_trans by blast

lemma classify_level_mono:
  assumes "f_le u v"
  shows "classify_level t u \<le> classify_level t v"
  using assms f_le_trans[of _ u v]
  by (auto simp: classify_level_def less_eq_PressureLevel_def)

lemma best_bucket_max:
  assumes "best_bucket c n cs = d"
  shows "(d = c \<and> (\<forall>x \<in> set cs. snd x \<le> n))
    \<or> (\<exists>us t vs. cs = us @ (d, t) # vs \<and> n < t \<and> (\<forall>x \<in> set us. snd x < t) \<and> (\<forall>x \<in> set vs. snd x \<le> t))"
  using assms
proof (induction cs arbitrary: c n)
  case (Cons x cs)
  obtain c' t' where x: "x = (c', t')" by fastforce
  let ?post = "\<lambda>ys n. \<exists>us t vs. ys = us @ (d, t) # vs \<and> n < t \<and> (\<forall>x \<in> set us. snd x < t) \<and> (\<forall>x \<in> set vs. snd x \<le> t)"
  show ?case
  proof (cases "n < t'")
    case True
    then have "best_bucket c' t' cs = d" using Cons.prems x by simp
    from Cons.IH[OF this] show ?thesis
    proof
      assume "d = c' \<and> (\<forall>x \<in> set cs. snd x \<le> t')"
      then show ?thesis using True x by (intro disjI2 exI[of _ "[]"]) auto
    next
      assume "?post cs t'"
      then obtain us t vs where "cs = us @ (d, t) # vs" "t' < t" "\<forall>x \<in> set us. snd x < t" "\<forall>x \<in> set vs. snd x \<le> t" by blast
      then show ?thesis using True x by (intro disjI2 exI[of _ "x # us"] exI[of _ t] exI[of _ vs]) auto
    qed
  next
    case False
    then have "best_bucket c n cs = d" using Cons.prems x by simp
    from Cons.IH[OF this] show ?thesis
    proof
      assume "?post cs n"
      then obtain us t vs where "cs = us @ (d, t) # vs" "n < t" "\<forall>x \<in> set us. snd x < t" "\<forall>x \<in> set vs. snd x \<le> t" by blast
      then show ?thesis using False x by (intro disjI2 exI[of _ "x # us"] exI[of _ t] exI[of _ vs]) auto
    qed (use False x in auto)
  qed
qed simp

section \<open>Properties\<close>

text \<open>The bands used for classification are always a valid triplet
  (\<open>0 < Watch \<le> Warn \<le> Critical \<le> 1\<close>), whatever the configuration, NaN included; a valid triplet is
  used as it is; so the level is monotone in the used fraction, critical from the critical band on
  and OK below the watch band, and exhaustion overrides everything.\<close>

theorem classify_sound:
  "valid_bands (thresholds_normalize t)
   \<and> (valid_bands t \<longrightarrow> thresholds_normalize t = t)
   \<and> (f_le u v \<longrightarrow> fst (Classify t u False e) \<le> fst (Classify t v False e'))
   \<and> (fst (Classify t u False e) = LevelCritical \<longleftrightarrow> f_le (pt_Critical (thresholds_normalize t)) u)
   \<and> (fst (Classify t u False e) = LevelOK \<longleftrightarrow> \<not> f_le (pt_Watch (thresholds_normalize t)) u)
   \<and> Classify t u True e = (LevelCritical, MitigationHalt)
   \<and> (snd (Classify t u x e) = MitigationHalt \<longleftrightarrow> x)"
proof -
  let ?t = "thresholds_normalize t"
  have v: "valid_bands ?t" by (rule normalize_valid)
  then have le: "f_le (pt_Watch ?t) (pt_Warn ?t)" "f_le (pt_Warn ?t) (pt_Critical ?t)" by (auto simp: valid_bands_def)
  have fst: "fst (Classify t w False k) = classify_level ?t w" for w k by (simp add: Classify_def Let_def)
  have "classify_level ?t u = LevelOK \<longleftrightarrow> \<not> f_le (pt_Watch ?t) u"
    using le f_le_trans[of "pt_Watch ?t" "pt_Warn ?t" u] f_le_trans[of "pt_Warn ?t" "pt_Critical ?t" u]
    by (auto simp: classify_level_def)
  moreover have "classify_level ?t u = LevelCritical \<longleftrightarrow> f_le (pt_Critical ?t) u" by (simp add: classify_level_def)
  moreover have "snd (Classify t u x e) = MitigationHalt \<longleftrightarrow> x" by (simp add: Classify_def Let_def)
  ultimately show ?thesis
    using v normalize_of_valid classify_level_mono by (simp add: fst) (simp add: Classify_def)
qed

theorem classify_sound_witness:
  "fst (Classify defaultPressureThresholds (F_Fin (1 / 2)) False True) \<le> fst (Classify defaultPressureThresholds (F_Fin 1) False False)"
  using classify_sound[of defaultPressureThresholds "F_Fin (1 / 2)" "F_Fin 1" True False] by simp

text \<open>Tuning only the warn band keeps it: for a fraction in \<open>(0, 1]\<close> the resulting triplet warns
  exactly there, widening the other bands only as needed; any other value, NaN and the infinities
  included, yields the defaults.\<close>

theorem thresholds_for_warn:
  "PressureThresholdsForWarn w =
     (case w of F_Fin q \<Rightarrow> if 0 < q \<and> q \<le> 1
        then \<lparr>pt_Watch = F_Fin (min (fl (60 / 100)) q), pt_Warn = F_Fin q, pt_Critical = F_Fin (max (fl (90 / 100)) q)\<rparr>
        else defaultPressureThresholds
      | _ \<Rightarrow> defaultPressureThresholds)"
proof (cases w)
  case (F_Fin q)
  then show ?thesis using default_values
    by (auto simp: PressureThresholdsForWarn_def thresholds_normalize_def valid_bands_def defaultPressureThresholds_def
        f_min_def f_max_def Let_def min_def max_def)
qed (use default_values in \<open>auto simp: PressureThresholdsForWarn_def thresholds_normalize_def valid_bands_def
  defaultPressureThresholds_def f_min_def f_max_def f_le_def Let_def\<close>)

end
