(* ===== verification/Go_Strings.thy ===== *)
theory Go_Strings
  imports Go_Float
begin

text \<open>
  The functions of Go's \<open>strings\<close>, \<open>strconv\<close> and \<open>fmt\<close> packages that the modelled code calls. A string is the list of its bytes.
\<close>

definition newline :: string where
  "newline = [CHR 0x0A]"

text \<open>
  \<open>strings.TrimSpace\<close>: the UTF-8 encodings of the runes with the Unicode property White Space,
  stripped from the front and from the back while there are any.
\<close>

definition space_encodings :: "string list" where
  "space_encodings =
     map (\<lambda>c. [c]) [CHR 0x09, CHR 0x0A, CHR 0x0B, CHR 0x0C, CHR 0x0D, CHR 0x20]
     @ [[CHR 0xC2, CHR 0x85], [CHR 0xC2, CHR 0xA0], [CHR 0xE1, CHR 0x9A, CHR 0x80]]
     @ map (\<lambda>c. [CHR 0xE2, CHR 0x80, c])
         [CHR 0x80, CHR 0x81, CHR 0x82, CHR 0x83, CHR 0x84, CHR 0x85, CHR 0x86, CHR 0x87, CHR 0x88,
          CHR 0x89, CHR 0x8A, CHR 0xA8, CHR 0xA9, CHR 0xAF]
     @ [[CHR 0xE2, CHR 0x81, CHR 0x9F], [CHR 0xE3, CHR 0x80, CHR 0x80]]"

fun strip_one :: "string list \<Rightarrow> string \<Rightarrow> string option" where
  "strip_one [] s = None"
| "strip_one (e # es) s = (if e \<noteq> [] \<and> take (length e) s = e then Some (drop (length e) s) else strip_one es s)"

lemma strip_one_shorter: "strip_one es s = Some t \<Longrightarrow> length t < length s"
proof (induction es)
  case (Cons e es)
  show ?case
  proof (cases "e \<noteq> [] \<and> take (length e) s = e")
    case True
    then have "s \<noteq> []" by (cases s) auto
    with True Cons.prems show ?thesis by auto
  qed (use Cons in auto)
qed simp

function trim_left :: "string list \<Rightarrow> string \<Rightarrow> string" where
  "trim_left es s = (case strip_one es s of Some t \<Rightarrow> trim_left es t | None \<Rightarrow> s)"
  by pat_completeness auto
termination by (relation "measure (\<lambda>(es, s). length s)") (auto dest: strip_one_shorter)

declare trim_left.simps [simp del]

definition TrimSpace :: "string \<Rightarrow> string" where
  "TrimSpace s = rev (trim_left (map rev space_encodings) (rev (trim_left space_encodings s)))"

lemma trim_left_fixed: "strip_one es (trim_left es s) = None"
proof (induction es s rule: trim_left.induct)
  case (1 es s)
  show ?case
  proof (cases "strip_one es s")
    case None
    then show ?thesis by (subst trim_left.simps) simp
  next
    case (Some t)
    with 1 show ?thesis by (subst trim_left.simps) simp
  qed
qed

lemma trim_left_suffix: "suffix (trim_left es s) s"
proof (induction es s rule: trim_left.induct)
  case (1 es s)
  have "strip_one es' s = Some t \<Longrightarrow> suffix t s" for es' t
    by (induction es') (auto simp: suffix_drop split: if_splits)
  with 1 show ?case by (subst trim_left.simps) (auto split: option.split intro: suffix_order.order_trans)
qed

lemma TrimSpace_Nil [simp]: "TrimSpace [] = []"
proof -
  have "strip_one es [] = None" for es by (induction es) auto
  then have "trim_left es [] = []" for es by (subst trim_left.simps) simp
  then show ?thesis by (simp add: TrimSpace_def)
qed

section \<open>Numbers as text\<close>

definition digit :: "int \<Rightarrow> char" where
  "digit d = char_of (48 + d)"

function digits :: "int \<Rightarrow> string" where
  "digits n = (if n < 10 then [digit n] else digits (n div 10) @ [digit (n mod 10)])"
  by pat_completeness auto
termination by (relation "measure nat") auto

declare digits.simps [simp del]

text \<open>\<open>strconv.Itoa\<close> and the verb \<open>%d\<close>.\<close>

definition itoa :: "int \<Rightarrow> string" where
  "itoa i = (if i < 0 then CHR ''-'' # digits (- i) else digits i)"

text \<open>The verb \<open>%.pf\<close>: the exact value rounded to \<open>p\<close> decimals, ties to even.\<close>

definition fmt_fixed :: "nat \<Rightarrow> f64 \<Rightarrow> string" where
  "fmt_fixed p v =
     (case v of F_NaN \<Rightarrow> ''NaN'' | F_PosInf \<Rightarrow> ''+Inf'' | F_NegInf \<Rightarrow> ''-Inf''
      | F_Fin q \<Rightarrow>
          let n = round_half_even (\<bar>q\<bar> * 10 ^ p); f = digits (n mod 10 ^ p)
          in (if q < 0 then ''-'' else []) @ digits (n div 10 ^ p)
             @ (if p = 0 then [] else ''.'' @ replicate (p - length f) (CHR ''0'') @ f))"

text \<open>\<open>strings.Join\<close> and \<open>strings.Cut\<close>.\<close>

fun strings_Join :: "string list \<Rightarrow> string \<Rightarrow> string" where
  "strings_Join [] sep = []"
| "strings_Join [x] sep = x"
| "strings_Join (x # xs) sep = x @ sep @ strings_Join xs sep"

definition cut_at :: "char \<Rightarrow> string \<Rightarrow> string \<times> string \<times> bool" where
  "cut_at c s = (if c \<in> set s then (takeWhile (\<lambda>x. x \<noteq> c) s, tl (dropWhile (\<lambda>x. x \<noteq> c) s), True) else (s, [], False))"

lemma cut_at_append: "c \<notin> set a \<Longrightarrow> cut_at c (a @ c # b) = (a, b, True)"
  by (simp add: cut_at_def takeWhile_append dropWhile_append)

end
