(* ===== verification/Run_Budget.thy ===== *)
theory Run_Budget
  imports Agent_Types
begin

text \<open>
  The token allowance of a run, \<open>agent/run_budget.go\<close>. Runs form a forest: a run started inside
  another one draws on the allowances of all its ancestors. The store lists the budgets in creation
  order, so a parent has a smaller number than its child, and the reservations in the order they were
  granted. One mutex per tree guards every operation, so each operation is one step. Contexts enter as
  the error they report, model results as the fields that \<open>settle\<close> reads.
\<close>

record runBudget =
  rb_parent :: "nat option"
  rb_input :: int
  rb_generation :: int
  rb_steps :: int
  rb_limit :: int
  rb_finite :: bool
  rb_charged :: int
  rb_reserved :: int
  rb_closed :: bool
  rb_overrun :: bool
  rb_descendants :: Usage
  rb_descendantSucceeded :: bool

record tokenReservation =
  tr_run :: nat
  tr_prompt :: int
  tr_tokens :: int
  tr_settled :: bool

record budget_store =
  bs_nodes :: "runBudget list"
  bs_res :: "tokenReservation list"

text \<open>The fields of a request that the budget reads and resolves.\<close>

record budget_request =
  br_InputCeiling :: int
  br_OutputReserve :: int
  br_TotalTokens :: int
  br_MaxSteps :: int
  br_NumPredict :: int

record route_outcome =
  ro_Attempts :: nat
  ro_FallbacksUsed :: int

record ModelResult =
  mr_Usage :: Usage
  mr_RouteOutcome :: "route_outcome option"
  mr_ResponseOutcome :: "route_outcome option"

datatype call_error = ErrContentDenied | ErrCall string

datatype budget_error = ErrRunBudgetExhausted | ErrContext string

definition defaultMaxSteps :: int where
  "defaultMaxSteps = 16"

section \<open>Operations\<close>

text \<open>The walk from a node to its root.\<close>

function ancestors :: "runBudget list \<Rightarrow> nat \<Rightarrow> nat list" where
  "ancestors ns b =
     b # (case rb_parent (ns ! b) of Some p \<Rightarrow> if p < b then ancestors ns p else [] | None \<Rightarrow> [])"
  by pat_completeness auto
termination by (relation "measure snd") auto

declare ancestors.simps [simp del]

text \<open>
  \<open>newRunBudget\<close> with the parent found in the context: the resolved ceiling, step count and
  generation cap, the node, and the request as it is handed on.
\<close>

definition new_finite :: "runBudget option \<Rightarrow> budget_request \<Rightarrow> bool" where
  "new_finite par req \<longleftrightarrow> br_TotalTokens req > 0 \<or> (case par of Some p \<Rightarrow> rb_finite p | None \<Rightarrow> False)"

definition new_ceiling :: "runBudget option \<Rightarrow> budget_request \<Rightarrow> int" where
  "new_ceiling par req =
     (let ceiling = (if br_InputCeiling req \<le> 0 then DefaultInputCeiling else br_InputCeiling req)
      in case par of Some p \<Rightarrow> min ceiling (rb_input p) | None \<Rightarrow> ceiling)"

definition new_steps :: "runBudget option \<Rightarrow> budget_request \<Rightarrow> int" where
  "new_steps par req =
     (let maxSteps = (if br_MaxSteps req \<le> 0 then defaultMaxSteps else br_MaxSteps req)
      in case par of Some p \<Rightarrow> min maxSteps (rb_steps p) | None \<Rightarrow> maxSteps)"

definition new_generation :: "runBudget option \<Rightarrow> budget_request \<Rightarrow> int" where
  "new_generation par req =
     (let generation = br_OutputReserve req;
          generation = (if generation \<le> 0 then br_NumPredict req else generation);
          generation = (if generation \<le> 0 \<and> new_finite par req then DefaultExpectedOutput ''chat'' else generation)
      in case par of
           Some p \<Rightarrow> if rb_generation p > 0 \<and> (generation \<le> 0 \<or> generation > rb_generation p) then rb_generation p else generation
         | None \<Rightarrow> generation)"

definition new_node :: "nat option \<Rightarrow> runBudget option \<Rightarrow> budget_request \<Rightarrow> runBudget" where
  "new_node parent par req =
     \<lparr>rb_parent = parent, rb_input = new_ceiling par req, rb_generation = max 0 (new_generation par req),
      rb_steps = new_steps par req, rb_limit = br_TotalTokens req, rb_finite = new_finite par req,
      rb_charged = 0, rb_reserved = 0, rb_closed = False, rb_overrun = False,
      rb_descendants = zero_usage, rb_descendantSucceeded = False\<rparr>"

definition resolved_request :: "runBudget option \<Rightarrow> budget_request \<Rightarrow> budget_request" where
  "resolved_request par req0 =
     (let generation = new_generation par req0;
          req = req0\<lparr>br_InputCeiling := new_ceiling par req0, br_MaxSteps := new_steps par req0\<rparr>
      in if generation > 0
         then req\<lparr>br_NumPredict := generation,
                  br_OutputReserve := (if br_OutputReserve req > 0 then generation else br_OutputReserve req)\<rparr>
         else req)"

definition newRunBudget :: "budget_store \<Rightarrow> nat option \<Rightarrow> budget_request \<Rightarrow> budget_store \<times> budget_request \<times> nat" where
  "newRunBudget s parent req =
     (let par = map_option (\<lambda>p. bs_nodes s ! p) parent
      in (s\<lparr>bs_nodes := bs_nodes s @ [new_node parent par req]\<rparr>, resolved_request par req, length (bs_nodes s)))"

definition node_stopped :: "runBudget \<Rightarrow> bool" where
  "node_stopped n \<longleftrightarrow> rb_closed n \<or> rb_overrun n \<or> (rb_limit n > 0 \<and> rb_charged n \<ge> rb_limit n)"

text \<open>The admission test of one node of the walk.\<close>

definition node_admits :: "int \<Rightarrow> runBudget \<Rightarrow> bool" where
  "node_admits need n \<longleftrightarrow>
     (if node_stopped n then False
      else if rb_limit n \<le> 0 then True
      else let (used, usedOK) = checkedTokenAdd (rb_charged n) (rb_reserved n);
               (total, totalOK) = checkedTokenAdd used need
           in usedOK \<and> totalOK \<and> total \<le> rb_limit n)"

text \<open>Apply a change to every node of a walk; a walk visits a node once.\<close>

definition on_walk :: "nat list \<Rightarrow> (nat \<Rightarrow> runBudget \<Rightarrow> runBudget) \<Rightarrow> runBudget list \<Rightarrow> runBudget list" where
  "on_walk ids f ns = map (\<lambda>i. if i \<in> set ids then f i (ns ! i) else ns ! i) [0..<length ns]"

definition reserve :: "budget_store \<Rightarrow> nat \<Rightarrow> string option \<Rightarrow> int \<Rightarrow> budget_store \<times> (budget_error + nat)" where
  "reserve s b ctxErr promptTokens =
     (case ctxErr of
        Some e \<Rightarrow> (s, Inl (ErrContext e))
      | None \<Rightarrow>
          let n = bs_nodes s ! b; (need, ok) = checkedTokenAdd promptTokens (rb_generation n)
          in if rb_finite n \<and> (promptTokens < 0 \<or> \<not> ok) then (s, Inl ErrRunBudgetExhausted)
             else let walk = ancestors (bs_nodes s) b
                  in if \<not> (\<forall>i \<in> set walk. node_admits need (bs_nodes s ! i)) then (s, Inl ErrRunBudgetExhausted)
                     else (s\<lparr>bs_nodes := on_walk walk
                                (\<lambda>i n. if rb_limit n > 0 then n\<lparr>rb_reserved := rb_reserved n + need\<rparr> else n) (bs_nodes s),
                             bs_res := bs_res s @ [\<lparr>tr_run = b, tr_prompt = promptTokens, tr_tokens = need, tr_settled = False\<rparr>]\<rparr>,
                           Inr (length (bs_res s))))"

definition valid_usage :: "Usage \<Rightarrow> bool" where
  "valid_usage u \<longleftrightarrow>
     (let (sum, sumOK) = checkedTokenAdd (max 0 (us_PromptTokens u)) (max 0 (us_CompletionTokens u))
      in us_PromptTokens u \<ge> 0 \<and> us_CompletionTokens u \<ge> 0 \<and> us_TotalTokens u \<ge> 0 \<and>
         us_ReasoningTokens u \<ge> 0 \<and> us_CachedPromptTokens u \<ge> 0 \<and> us_CacheWriteTokens u \<ge> 0 \<and> sumOK \<and>
         (us_TotalTokens u = 0 \<or> us_TotalTokens u = sum \<or> (us_PromptTokens u = 0 \<and> us_CompletionTokens u = 0)))"

definition multi_attempt :: "route_outcome option \<Rightarrow> bool" where
  "multi_attempt ro = (case ro of Some r \<Rightarrow> ro_Attempts r > 1 \<or> ro_FallbacksUsed r > 0 | None \<Rightarrow> False)"

text \<open>The tokens a settled call is charged.\<close>

definition settle_charge :: "tokenReservation \<Rightarrow> ModelResult \<Rightarrow> call_error option \<Rightarrow> int" where
  "settle_charge r mr callErr =
     (let u = mr_Usage mr;
          logical = saturatedTokenAdd (max (tr_prompt r) (us_PromptTokens u)) (max 0 (us_CompletionTokens u));
          charge = max logical (us_TotalTokens u);
          multiAttempt = (multi_attempt (mr_RouteOutcome mr) \<or> multi_attempt (mr_ResponseOutcome mr));
          charge = (if callErr \<noteq> None \<or> \<not> valid_usage u \<or> us_PromptTokens u = 0 \<or> multiAttempt
                    then max charge (tr_tokens r) else charge)
      in if callErr = Some ErrContentDenied then 0 else charge)"

definition add_descendant :: "Usage \<Rightarrow> Usage \<Rightarrow> Usage" where
  "add_descendant d u = d\<lparr>
     us_PromptTokens := saturatedTokenAdd (us_PromptTokens d) (us_PromptTokens u),
     us_CompletionTokens := saturatedTokenAdd (us_CompletionTokens d) (us_CompletionTokens u),
     us_TotalTokens := saturatedTokenAdd (us_TotalTokens d) (us_TotalTokens u),
     us_CachedPromptTokens := saturatedTokenAdd (us_CachedPromptTokens d) (us_CachedPromptTokens u),
     us_CachedPromptTokensReported := us_CachedPromptTokensReported d \<or> us_CachedPromptTokensReported u,
     us_CacheWriteTokens := saturatedTokenAdd (us_CacheWriteTokens d) (us_CacheWriteTokens u),
     us_CacheWriteTokensReported := us_CacheWriteTokensReported d \<or> us_CacheWriteTokensReported u\<rparr>"

definition settle_node :: "tokenReservation \<Rightarrow> ModelResult \<Rightarrow> call_error option \<Rightarrow> int \<Rightarrow> nat \<Rightarrow> runBudget \<Rightarrow> runBudget" where
  "settle_node r mr callErr charge i n =
     (let n = (if rb_limit n > 0
               then n\<lparr>rb_reserved := rb_reserved n - tr_tokens r, rb_charged := saturatedTokenAdd (rb_charged n) charge\<rparr>
               else n);
          n = (if i \<noteq> tr_run r \<and> callErr = None then n\<lparr>rb_descendantSucceeded := True\<rparr> else n)
      in if i \<noteq> tr_run r \<and> valid_usage (mr_Usage mr)
         then n\<lparr>rb_descendants := add_descendant (rb_descendants n) (mr_Usage mr)\<rparr> else n)"

definition mark_overrun :: "tokenReservation \<Rightarrow> ModelResult \<Rightarrow> int \<Rightarrow> runBudget \<Rightarrow> runBudget" where
  "mark_overrun r mr charge n =
     (if rb_finite n \<and> charge - max (tr_prompt r) (us_PromptTokens (mr_Usage mr)) > rb_generation n
      then n\<lparr>rb_overrun := True\<rparr> else n)"

definition settle :: "budget_store \<Rightarrow> nat \<Rightarrow> ModelResult \<Rightarrow> call_error option \<Rightarrow> budget_store" where
  "settle s ri mr callErr =
     (let r = bs_res s ! ri
      in if tr_settled r then s
         else let charge = settle_charge r mr callErr;
                  ns = (bs_nodes s)[tr_run r := mark_overrun r mr charge (bs_nodes s ! tr_run r)]
              in s\<lparr>bs_res := (bs_res s)[ri := r\<lparr>tr_settled := True\<rparr>],
                   bs_nodes := on_walk (ancestors (bs_nodes s) (tr_run r)) (settle_node r mr callErr charge) ns\<rparr>)"

definition budget_stopped :: "budget_store \<Rightarrow> nat \<Rightarrow> bool" where
  "budget_stopped s b \<longleftrightarrow> (\<exists>i \<in> set (ancestors (bs_nodes s) b). node_stopped (bs_nodes s ! i))"

definition checkRunBudget :: "budget_store \<Rightarrow> nat option \<Rightarrow> string option \<Rightarrow> budget_error option" where
  "checkRunBudget s b ctxErr =
     (case ctxErr of
        Some e \<Rightarrow> Some (ErrContext e)
      | None \<Rightarrow> (case b of Some i \<Rightarrow> if budget_stopped s i then Some ErrRunBudgetExhausted else None | None \<Rightarrow> None))"

definition close_budget :: "budget_store \<Rightarrow> nat \<Rightarrow> budget_store \<times> Usage option" where
  "close_budget s b =
     (let n = bs_nodes s ! b
      in (s\<lparr>bs_nodes := (bs_nodes s)[b := n\<lparr>rb_closed := True\<rparr>]\<rparr>,
          if rb_descendants n = zero_usage \<and> \<not> rb_descendantSucceeded n then None else Some (rb_descendants n)))"

section \<open>Interleavings\<close>

text \<open>
  Runs start, reserve, settle and close in any order. The predicate limits which model results a
  reservation may be settled with.
\<close>

inductive budget_step :: "(tokenReservation \<Rightarrow> ModelResult \<Rightarrow> call_error option \<Rightarrow> bool) \<Rightarrow> budget_store \<Rightarrow> budget_store \<Rightarrow> bool"
  for allowed :: "tokenReservation \<Rightarrow> ModelResult \<Rightarrow> call_error option \<Rightarrow> bool" where
  step_new: "(case parent of Some p \<Rightarrow> p < length (bs_nodes s) | None \<Rightarrow> True) \<Longrightarrow> br_TotalTokens req \<le> MaxInt \<Longrightarrow>
     budget_step allowed s (fst (newRunBudget s parent req))"
| step_reserve: "b < length (bs_nodes s) \<Longrightarrow> budget_step allowed s (fst (reserve s b ctxErr promptTokens))"
| step_settle: "r < length (bs_res s) \<Longrightarrow> allowed (bs_res s ! r) mr callErr \<Longrightarrow> budget_step allowed s (settle s r mr callErr)"
| step_close: "b < length (bs_nodes s) \<Longrightarrow> budget_step allowed s (fst (close_budget s b))"

inductive_cases budget_step_cases: "budget_step allowed s t"

definition empty_store :: "budget_store \<Rightarrow> bool" where
  "empty_store s \<longleftrightarrow> bs_nodes s = [] \<and> bs_res s = []"

section \<open>Walks\<close>

definition wf_nodes :: "runBudget list \<Rightarrow> bool" where
  "wf_nodes ns \<longleftrightarrow> (\<forall>i < length ns.
     (\<forall>p. rb_parent (ns ! i) = Some p \<longrightarrow> p < i \<and> (rb_finite (ns ! p) \<longrightarrow> rb_finite (ns ! i)))
     \<and> (rb_limit (ns ! i) > 0 \<longrightarrow> rb_finite (ns ! i))
     \<and> 0 \<le> rb_generation (ns ! i) \<and> rb_limit (ns ! i) \<le> MaxInt)"

lemma ancestors_iff:
  "i \<in> set (ancestors ns b) \<longleftrightarrow> i = b \<or> (\<exists>p. rb_parent (ns ! b) = Some p \<and> p < b \<and> i \<in> set (ancestors ns p))"
  by (subst ancestors.simps) (auto split: option.splits)

lemma ancestors_self [simp]: "b \<in> set (ancestors ns b)"
  using ancestors_iff by blast

lemma ancestors_le: "i \<in> set (ancestors ns b) \<Longrightarrow> i \<le> b"
proof (induction b rule: less_induct)
  case (less b)
  consider "i = b" | p where "p < b" "i \<in> set (ancestors ns p)" using less.prems ancestors_iff by blast
  then show ?case
  proof cases
    case 2
    then show ?thesis using less.IH[of p] by simp
  qed simp
qed

lemma ancestors_trans: "a \<in> set (ancestors ns b) \<Longrightarrow> i \<in> set (ancestors ns a) \<Longrightarrow> i \<in> set (ancestors ns b)"
proof (induction b rule: less_induct)
  case (less b)
  consider "a = b" | p where "rb_parent (ns ! b) = Some p" "p < b" "a \<in> set (ancestors ns p)"
    using less.prems(1) ancestors_iff by blast
  then show ?case
  proof cases
    case 2
    with less.IH[of p] less.prems(2) have "i \<in> set (ancestors ns p)" by simp
    with 2(1,2) show ?thesis using ancestors_iff[of i ns b] by blast
  qed (use less.prems in simp)
qed

text \<open>Walks only read the parents of the nodes below their start.\<close>

lemma ancestors_cong: "(\<And>i. i \<le> b \<Longrightarrow> rb_parent (ns' ! i) = rb_parent (ns ! i)) \<Longrightarrow> ancestors ns' b = ancestors ns b"
proof (induction ns b rule: ancestors.induct)
  case (1 ns b)
  have "ancestors ns' p = ancestors ns p" if "rb_parent (ns ! b) = Some p" "p < b" for p
    using 1 that by auto
  then show ?case using "1.prems"[of b] by (subst (1 2) ancestors.simps) (auto split: option.splits)
qed

lemma ancestors_finite:
  assumes "wf_nodes ns" and "b < length ns" and "i \<in> set (ancestors ns b)" and "rb_finite (ns ! i)"
  shows "rb_finite (ns ! b)"
  using assms(2,3)
proof (induction b rule: less_induct)
  case (less b)
  consider "i = b" | p where "rb_parent (ns ! b) = Some p" "p < b" "i \<in> set (ancestors ns p)"
    using less.prems(2) ancestors_iff by blast
  then show ?case
  proof cases
    case 2
    then have "rb_finite (ns ! p)" using less by simp
    with 2(1) less.prems(1) assms(1) show ?thesis by (auto simp: wf_nodes_def)
  qed (use assms(4) in simp)
qed

lemma length_on_walk [simp]: "length (on_walk ids f ns) = length ns"
  by (simp add: on_walk_def)

lemma nth_on_walk [simp]: "i < length ns \<Longrightarrow> on_walk ids f ns ! i = (if i \<in> set ids then f i (ns ! i) else ns ! i)"
  by (simp add: on_walk_def)

section \<open>Accounting invariant\<close>

definition weight :: "runBudget list \<Rightarrow> nat \<Rightarrow> tokenReservation \<Rightarrow> int" where
  "weight ns i r = (if \<not> tr_settled r \<and> i \<in> set (ancestors ns (tr_run r)) then tr_tokens r else 0)"

definition outstanding :: "budget_store \<Rightarrow> nat \<Rightarrow> int" where
  "outstanding s i = (\<Sum>r\<leftarrow>bs_res s. weight (bs_nodes s) i r)"

definition wf_reservation :: "runBudget list \<Rightarrow> tokenReservation \<Rightarrow> bool" where
  "wf_reservation ns r \<longleftrightarrow> tr_run r < length ns \<and>
     (rb_finite (ns ! tr_run r) \<longrightarrow> 0 \<le> tr_prompt r \<and> tr_prompt r \<le> tr_tokens r)"

definition node_inv :: "budget_store \<Rightarrow> nat \<Rightarrow> bool" where
  "node_inv s i \<longleftrightarrow> rb_reserved (bs_nodes s ! i) = outstanding s i
     \<and> 0 \<le> rb_reserved (bs_nodes s ! i) \<and> rb_reserved (bs_nodes s ! i) \<le> rb_limit (bs_nodes s ! i)
     \<and> 0 \<le> rb_charged (bs_nodes s ! i) \<and> rb_charged (bs_nodes s ! i) \<le> MaxInt"

definition budget_inv :: "budget_store \<Rightarrow> bool" where
  "budget_inv s \<longleftrightarrow> wf_nodes (bs_nodes s) \<and> (\<forall>r \<in> set (bs_res s). wf_reservation (bs_nodes s) r)
     \<and> (\<forall>i < length (bs_nodes s). rb_limit (bs_nodes s ! i) > 0 \<longrightarrow> node_inv s i)"

lemma sum_list_update_int:
  "k < length xs \<Longrightarrow> (\<Sum>x\<leftarrow>xs[k := y]. f x) = (\<Sum>x\<leftarrow>xs. f x) - f (xs ! k) + (f y :: int)"
  by (induction xs arbitrary: k) (auto split: nat.splits)

lemma nonneg_member_le: "x \<in> set xs \<Longrightarrow> (\<And>y. y \<in> set xs \<Longrightarrow> 0 \<le> f y) \<Longrightarrow> f x \<le> (\<Sum>y\<leftarrow>xs. f y :: int)"
proof (induction xs)
  case (Cons y ys)
  have "0 \<le> (\<Sum>y\<leftarrow>ys. f y)" using Cons.prems(2) by (intro sum_list_nonneg_int) auto
  with Cons show ?case by (auto simp: add_increasing)
qed simp

text \<open>A reservation that weighs on a limited node was checked against a finite allowance.\<close>

lemma weight_nonneg:
  assumes "budget_inv s" and "r \<in> set (bs_res s)" and "rb_limit (bs_nodes s ! i) > 0" and "i < length (bs_nodes s)"
  shows "0 \<le> weight (bs_nodes s) i r"
proof -
  have wf: "wf_nodes (bs_nodes s)" "wf_reservation (bs_nodes s) r" using assms by (auto simp: budget_inv_def)
  have "rb_finite (bs_nodes s ! tr_run r)" if "i \<in> set (ancestors (bs_nodes s) (tr_run r))"
    using ancestors_finite[OF wf(1) _ that] wf assms(3,4) by (auto simp: wf_reservation_def wf_nodes_def)
  with wf(2) show ?thesis by (auto simp: weight_def wf_reservation_def)
qed

text \<open>A change of nodes that keeps their static fields keeps walks and well-formedness.\<close>

definition same_static :: "runBudget list \<Rightarrow> runBudget list \<Rightarrow> bool" where
  "same_static ns' ns \<longleftrightarrow> length ns' = length ns \<and> (\<forall>i < length ns.
     rb_parent (ns' ! i) = rb_parent (ns ! i) \<and> rb_limit (ns' ! i) = rb_limit (ns ! i)
     \<and> rb_finite (ns' ! i) = rb_finite (ns ! i) \<and> rb_generation (ns' ! i) = rb_generation (ns ! i))"

lemma same_static_ancestors: "same_static ns' ns \<Longrightarrow> b < length ns \<Longrightarrow> ancestors ns' b = ancestors ns b"
  by (rule ancestors_cong) (auto simp: same_static_def)

lemma same_static_wf: "same_static ns' ns \<Longrightarrow> wf_nodes ns \<Longrightarrow> wf_nodes ns'"
  unfolding same_static_def wf_nodes_def by (metis less_trans)

lemma same_static_res: "same_static ns' ns \<Longrightarrow> wf_reservation ns r \<Longrightarrow> wf_reservation ns' r"
  by (auto simp: same_static_def wf_reservation_def)

lemma same_static_weight: "same_static ns' ns \<Longrightarrow> tr_run r < length ns \<Longrightarrow> weight ns' i r = weight ns i r"
  by (simp add: weight_def same_static_ancestors)

lemma same_static_sum:
  assumes "same_static ns' ns" and "\<forall>r \<in> set rs. wf_reservation ns r"
  shows "(\<Sum>r\<leftarrow>rs. weight ns' i r) = (\<Sum>r\<leftarrow>rs. weight ns i r)"
  using assms by (intro arg_cong[of _ _ sum_list] map_cong) (auto simp: same_static_weight wf_reservation_def)

section \<open>Preservation\<close>

lemma inv_new:
  assumes inv: "budget_inv s" and par: "case parent of Some p \<Rightarrow> p < length (bs_nodes s) | None \<Rightarrow> True"
    and lim: "br_TotalTokens req \<le> MaxInt"
  shows "budget_inv (fst (newRunBudget s parent req))"
proof -
  let ?ns = "bs_nodes s"
  define b where "b = new_node parent (map_option (\<lambda>p. ?ns ! p) parent) req"
  have s': "fst (newRunBudget s parent req) = s\<lparr>bs_nodes := ?ns @ [b]\<rparr>" by (simp add: newRunBudget_def Let_def b_def)
  have b: "rb_parent b = parent" "rb_limit b = br_TotalTokens req" "rb_charged b = 0" "rb_reserved b = 0"
      "0 \<le> rb_generation b" "rb_finite b \<longleftrightarrow> br_TotalTokens req > 0 \<or> (\<exists>p. parent = Some p \<and> rb_finite (?ns ! p))"
    by (auto simp: b_def new_node_def new_finite_def split: option.splits)
  have anc: "ancestors (?ns @ [b]) j = ancestors ?ns j" if "j < length ?ns" for j
    using that by (intro ancestors_cong) (auto simp: nth_append)
  have res: "r \<in> set (bs_res s) \<Longrightarrow> tr_run r < length ?ns" for r using inv by (auto simp: budget_inv_def wf_reservation_def)
  have w: "(\<Sum>r\<leftarrow>bs_res s. weight (?ns @ [b]) i r) = (\<Sum>r\<leftarrow>bs_res s. weight ?ns i r)" for i
    using res anc by (intro arg_cong[of _ _ sum_list] map_cong) (auto simp: weight_def)
  have "weight ?ns (length ?ns) r = 0" if "r \<in> set (bs_res s)" for r
    using res[OF that] ancestors_le[of "length ?ns" ?ns "tr_run r"] by (auto simp: weight_def)
  then have new: "(\<Sum>r\<leftarrow>bs_res s. weight ?ns (length ?ns) r) = 0"
    by (simp cong: map_cong)
  have wf: "wf_nodes (?ns @ [b])"
    using inv par lim b by (auto simp: budget_inv_def wf_nodes_def nth_append less_Suc_eq split: option.splits)
  moreover have "\<forall>r \<in> set (bs_res s). wf_reservation (?ns @ [b]) r"
    using inv by (auto simp: budget_inv_def wf_reservation_def nth_append)
  moreover have "node_inv (s\<lparr>bs_nodes := ?ns @ [b]\<rparr>) i" if "i < Suc (length ?ns)" "rb_limit ((?ns @ [b]) ! i) > 0" for i
    using inv that b w new by (auto simp: budget_inv_def node_inv_def outstanding_def nth_append less_Suc_eq)
  ultimately show ?thesis by (simp add: s' budget_inv_def)
qed

lemma inv_close: "budget_inv s \<Longrightarrow> b < length (bs_nodes s) \<Longrightarrow> budget_inv (fst (close_budget s b))"
proof -
  assume inv: "budget_inv s" and b: "b < length (bs_nodes s)"
  let ?ns' = "(bs_nodes s)[b := (bs_nodes s ! b)\<lparr>rb_closed := True\<rparr>]"
  have st: "same_static ?ns' (bs_nodes s)" using b by (auto simp: same_static_def nth_list_update)
  from inv b same_static_sum[OF st, of "bs_res s"] show ?thesis
    by (auto simp: close_budget_def Let_def budget_inv_def node_inv_def outstanding_def nth_list_update
        intro: same_static_wf[OF st] same_static_res[OF st])
qed

lemma node_admits_limit:
  assumes "node_admits need n" and "rb_limit n > 0"
  shows "rb_charged n + rb_reserved n + need \<le> rb_limit n"
  using assms by (auto simp: node_admits_def Let_def split: if_splits prod.splits)

text \<open>A granted reservation and what it changes.\<close>

lemma reserve_cases:
  assumes "reserve s b ctxErr prompt = (s', res)"
  obtains (refused) e where "s' = s" "res = Inl e"
  | (granted) need where "ctxErr = None" "res = Inr (length (bs_res s))"
      "rb_finite (bs_nodes s ! b) \<Longrightarrow> 0 \<le> prompt \<and> need = prompt + rb_generation (bs_nodes s ! b)"
      "\<forall>i \<in> set (ancestors (bs_nodes s) b). node_admits need (bs_nodes s ! i)"
      "s' = s\<lparr>bs_nodes := on_walk (ancestors (bs_nodes s) b)
                (\<lambda>i n. if rb_limit n > 0 then n\<lparr>rb_reserved := rb_reserved n + need\<rparr> else n) (bs_nodes s),
             bs_res := bs_res s @ [\<lparr>tr_run = b, tr_prompt = prompt, tr_tokens = need, tr_settled = False\<rparr>]\<rparr>"
proof (cases ctxErr)
  case None
  obtain need ok where need: "checkedTokenAdd prompt (rb_generation (bs_nodes s ! b)) = (need, ok)" by fastforce
  let ?bad = "rb_finite (bs_nodes s ! b) \<and> (prompt < 0 \<or> \<not> ok)"
  let ?adm = "\<forall>i \<in> set (ancestors (bs_nodes s) b). node_admits need (bs_nodes s ! i)"
  have eq: "(s', res) = (if ?bad then (s, Inl ErrRunBudgetExhausted) else if \<not> ?adm then (s, Inl ErrRunBudgetExhausted)
      else (s\<lparr>bs_nodes := on_walk (ancestors (bs_nodes s) b)
                (\<lambda>i n. if rb_limit n > 0 then n\<lparr>rb_reserved := rb_reserved n + need\<rparr> else n) (bs_nodes s),
             bs_res := bs_res s @ [\<lparr>tr_run = b, tr_prompt = prompt, tr_tokens = need, tr_settled = False\<rparr>]\<rparr>,
            Inr (length (bs_res s))))"
    using assms None need by (simp only: reserve_def option.case Let_def prod.case)
  show thesis
  proof (cases "?bad \<or> \<not> ?adm")
    case True
    then have "(s', res) = (s, Inl ErrRunBudgetExhausted)" using eq by presburger
    then show thesis using refused by blast
  next
    case False
    then have adm: "?adm" and bad: "\<not> ?bad" by blast+
    have need': "rb_finite (bs_nodes s ! b) \<Longrightarrow> 0 \<le> prompt \<and> need = prompt + rb_generation (bs_nodes s ! b)"
      using bad need by (cases ok) auto
    from eq[unfolded if_not_P[OF bad] if_not_P[of "\<not> ?adm", simplified not_not, OF adm]] show thesis
      by (intro granted[OF None _ need' adm]) simp_all
  qed
qed (use assms refused in \<open>auto simp: reserve_def\<close>)

lemma reserve_static:
  "same_static (on_walk ids (\<lambda>i n. if rb_limit n > 0 then n\<lparr>rb_reserved := rb_reserved n + need\<rparr> else n) ns) ns"
  by (simp add: same_static_def)

lemma limited_walk_finite:
  "wf_nodes ns \<Longrightarrow> b < length ns \<Longrightarrow> i \<in> set (ancestors ns b) \<Longrightarrow> rb_limit (ns ! i) > 0 \<Longrightarrow> rb_finite (ns ! b)"
  using ancestors_finite[of ns b i] ancestors_le[of i ns b] by (auto simp: wf_nodes_def)

lemma inv_reserve:
  assumes inv: "budget_inv s" and b: "b < length (bs_nodes s)"
  shows "budget_inv (fst (reserve s b ctxErr prompt))"
proof -
  let ?ns = "bs_nodes s" and ?walk = "ancestors (bs_nodes s) b"
  obtain s' res where r: "reserve s b ctxErr prompt = (s', res)" by fastforce
  from r show ?thesis
  proof (cases rule: reserve_cases)
    case (granted need)
    define ns' where "ns' = on_walk ?walk (\<lambda>i n. if rb_limit n > 0 then n\<lparr>rb_reserved := rb_reserved n + need\<rparr> else n) ?ns"
    define rs where "rs = \<lparr>tr_run = b, tr_prompt = prompt, tr_tokens = need, tr_settled = False\<rparr>"
    have s': "s' = s\<lparr>bs_nodes := ns', bs_res := bs_res s @ [rs]\<rparr>" using granted(5) by (simp add: ns'_def rs_def)
    have st: "same_static ns' ?ns" unfolding ns'_def by (rule reserve_static)
    have wf: "wf_nodes ?ns" "\<forall>r \<in> set (bs_res s). wf_reservation ?ns r" using inv by (auto simp: budget_inv_def)
    have gen: "0 \<le> rb_generation (?ns ! b)" using wf(1) b by (simp add: wf_nodes_def)
    have wr: "wf_reservation ?ns rs" using granted(3) b gen by (simp add: wf_reservation_def rs_def)
    have out: "outstanding s' i = outstanding s i + (if i \<in> set ?walk then need else 0)" for i
      using same_static_sum[OF st wf(2)] same_static_weight[OF st, of rs i] b
      by (simp add: outstanding_def s') (simp add: weight_def rs_def)
    have "node_inv s' i" if i: "i < length ?ns" and lim: "rb_limit (ns' ! i) > 0" for i
    proof -
      have lim': "rb_limit (?ns ! i) > 0" using lim st i by (simp add: same_static_def)
      then have old: "node_inv s i" using inv i by (simp add: budget_inv_def)
      show ?thesis
      proof (cases "i \<in> set ?walk")
        case True
        have "rb_finite (?ns ! b)" using limited_walk_finite[OF wf(1) b True lim'] .
        then have "0 \<le> need" using granted(3) gen by simp
        then show ?thesis using old True lim' i node_admits_limit[of need "?ns ! i"] granted(4) out[of i]
          by (auto simp: node_inv_def s' ns'_def)
      next
        case False
        then show ?thesis using old i out[of i] by (simp add: node_inv_def s' ns'_def)
      qed
    qed
    then show ?thesis using r wf wr same_static_wf[OF st] same_static_res[OF st] st
      by (auto simp: budget_inv_def s' same_static_def)
  qed (use inv r in simp)
qed

section \<open>Settling\<close>

lemma settle_charge_nonneg: "0 \<le> tr_prompt r \<Longrightarrow> 0 \<le> settle_charge r mr e"
proof -
  assume p: "0 \<le> tr_prompt r"
  have "0 \<le> saturatedTokenAdd (max (tr_prompt r) a) (max 0 c)" for a c
    using p by (auto simp: saturatedTokenAdd_def checkedTokenAdd_def)
  then have "0 \<le> max (saturatedTokenAdd (max (tr_prompt r) a) (max 0 c)) d" for a c d by (simp add: le_max_iff_disj)
  then show ?thesis by (simp add: settle_charge_def Let_def le_max_iff_disj)
qed

lemma saturatedTokenAdd_range:
  "0 \<le> c \<Longrightarrow> c \<le> MaxInt \<Longrightarrow> 0 \<le> d \<Longrightarrow> c \<le> saturatedTokenAdd c d \<and> saturatedTokenAdd c d \<le> MaxInt"
  by (auto simp: saturatedTokenAdd_def checkedTokenAdd_def)

lemma settle_node_fields [simp]:
  "rb_parent (settle_node r mr e c i n) = rb_parent n" "rb_limit (settle_node r mr e c i n) = rb_limit n"
  "rb_finite (settle_node r mr e c i n) = rb_finite n" "rb_generation (settle_node r mr e c i n) = rb_generation n"
  "rb_closed (settle_node r mr e c i n) = rb_closed n" "rb_overrun (settle_node r mr e c i n) = rb_overrun n"
  "rb_reserved (settle_node r mr e c i n) = (if rb_limit n > 0 then rb_reserved n - tr_tokens r else rb_reserved n)"
  "rb_charged (settle_node r mr e c i n) = (if rb_limit n > 0 then saturatedTokenAdd (rb_charged n) c else rb_charged n)"
  by (simp_all add: settle_node_def Let_def)

lemma mark_overrun_fields [simp]:
  "rb_parent (mark_overrun r mr c n) = rb_parent n" "rb_limit (mark_overrun r mr c n) = rb_limit n"
  "rb_finite (mark_overrun r mr c n) = rb_finite n" "rb_generation (mark_overrun r mr c n) = rb_generation n"
  "rb_closed (mark_overrun r mr c n) = rb_closed n" "rb_overrun n \<Longrightarrow> rb_overrun (mark_overrun r mr c n)"
  "rb_reserved (mark_overrun r mr c n) = rb_reserved n" "rb_charged (mark_overrun r mr c n) = rb_charged n"
  by (simp_all add: mark_overrun_def)

text \<open>The nodes after a settlement, one at a time.\<close>

definition settled_nodes :: "runBudget list \<Rightarrow> tokenReservation \<Rightarrow> ModelResult \<Rightarrow> call_error option \<Rightarrow> runBudget list" where
  "settled_nodes ns r mr e =
     on_walk (ancestors ns (tr_run r)) (settle_node r mr e (settle_charge r mr e))
       (ns[tr_run r := mark_overrun r mr (settle_charge r mr e) (ns ! tr_run r)])"

lemma settle_eq:
  "settle s ri mr e = (if tr_settled (bs_res s ! ri) then s
     else s\<lparr>bs_nodes := settled_nodes (bs_nodes s) (bs_res s ! ri) mr e,
            bs_res := (bs_res s)[ri := (bs_res s ! ri)\<lparr>tr_settled := True\<rparr>]\<rparr>)"
  by (simp add: settle_def settled_nodes_def Let_def)

definition charged_walk :: "runBudget list \<Rightarrow> tokenReservation \<Rightarrow> nat \<Rightarrow> bool" where
  "charged_walk ns r i \<longleftrightarrow> i \<in> set (ancestors ns (tr_run r)) \<and> rb_limit (ns ! i) > 0"

lemma settled_node:
  assumes "i < length ns"
  shows "rb_parent (settled_nodes ns r mr e ! i) = rb_parent (ns ! i)"
    "rb_limit (settled_nodes ns r mr e ! i) = rb_limit (ns ! i)"
    "rb_finite (settled_nodes ns r mr e ! i) = rb_finite (ns ! i)"
    "rb_generation (settled_nodes ns r mr e ! i) = rb_generation (ns ! i)"
    "rb_closed (settled_nodes ns r mr e ! i) = rb_closed (ns ! i)"
    "rb_overrun (ns ! i) \<Longrightarrow> rb_overrun (settled_nodes ns r mr e ! i)"
    "rb_reserved (settled_nodes ns r mr e ! i) = rb_reserved (ns ! i) - (if charged_walk ns r i then tr_tokens r else 0)"
    "rb_charged (settled_nodes ns r mr e ! i)
       = (if charged_walk ns r i then saturatedTokenAdd (rb_charged (ns ! i)) (settle_charge r mr e) else rb_charged (ns ! i))"
  using assms by (cases "i = tr_run r"; auto simp: charged_walk_def settled_nodes_def)+

lemma settled_static: "same_static (settled_nodes ns r mr e) ns"
  by (simp add: same_static_def settled_node) (simp add: settled_nodes_def)

lemma wf_settled:
  assumes "\<forall>r \<in> set rs. wf_reservation ns r" and "ri < length rs"
  shows "\<forall>r \<in> set (rs[ri := (rs ! ri)\<lparr>tr_settled := True\<rparr>]). wf_reservation ns r"
  using assms by (simp add: all_set_conv_all_nth nth_list_update wf_reservation_def)

lemma settled_outstanding:
  assumes inv: "budget_inv s" and ri: "ri < length (bs_res s)" and un: "\<not> tr_settled (bs_res s ! ri)"
    and i: "i < length (bs_nodes s)" and lim: "rb_limit (bs_nodes s ! i) > 0"
  shows "outstanding (settle s ri mr e) i
      = outstanding s i - (if charged_walk (bs_nodes s) (bs_res s ! ri) i then tr_tokens (bs_res s ! ri) else 0)"
    and "0 \<le> outstanding (settle s ri mr e) i"
proof -
  let ?ns = "bs_nodes s" and ?r = "bs_res s ! ri"
  let ?rs = "(bs_res s)[ri := ?r\<lparr>tr_settled := True\<rparr>]"
  note st = settled_static[of ?ns ?r mr e]
  have wfr: "\<forall>r \<in> set (bs_res s). wf_reservation ?ns r" using inv by (simp add: budget_inv_def)
  then have wfr': "\<forall>r \<in> set ?rs. wf_reservation ?ns r" using ri by (rule wf_settled)
  have sum: "outstanding (settle s ri mr e) i = (\<Sum>r\<leftarrow>?rs. weight ?ns i r)"
    using un same_static_sum[OF st wfr'] by (simp add: outstanding_def settle_eq)
  also have "\<dots> = outstanding s i - weight ?ns i ?r"
    using ri by (simp add: sum_list_update_int outstanding_def) (simp add: weight_def)
  finally show "outstanding (settle s ri mr e) i
      = outstanding s i - (if charged_walk ?ns ?r i then tr_tokens ?r else 0)"
    using un lim by (simp add: weight_def charged_walk_def)
  have "0 \<le> weight ?ns i r" if "r \<in> set ?rs" for r
  proof (cases "r \<in> set (bs_res s)")
    case True
    then show ?thesis using weight_nonneg[OF inv _ lim i] by simp
  next
    case False
    with that have "r = ?r\<lparr>tr_settled := True\<rparr>" using set_update_subset_insert[of "bs_res s" ri] by auto
    then show ?thesis by (simp add: weight_def)
  qed
  then show "0 \<le> outstanding (settle s ri mr e) i" unfolding sum by (intro sum_list_nonneg_int) auto
qed

lemma settle_prompt_nonneg:
  assumes inv: "budget_inv s" and ri: "ri < length (bs_res s)" and walk: "charged_walk (bs_nodes s) (bs_res s ! ri) i"
  shows "0 \<le> tr_prompt (bs_res s ! ri)"
proof -
  have "wf_reservation (bs_nodes s) (bs_res s ! ri)" "wf_nodes (bs_nodes s)" using inv ri by (auto simp: budget_inv_def)
  then show ?thesis using limited_walk_finite[of "bs_nodes s" "tr_run (bs_res s ! ri)" i] walk
    by (auto simp: charged_walk_def wf_reservation_def)
qed

lemma inv_settle:
  assumes inv: "budget_inv s" and ri: "ri < length (bs_res s)"
  shows "budget_inv (settle s ri mr e)"
proof (cases "tr_settled (bs_res s ! ri)")
  case False
  let ?ns = "bs_nodes s" and ?r = "bs_res s ! ri" and ?s = "settle s ri mr e"
  note st = settled_static[of ?ns ?r mr e]
  have nodes: "bs_nodes ?s = settled_nodes ?ns ?r mr e"
    and res: "bs_res ?s = (bs_res s)[ri := ?r\<lparr>tr_settled := True\<rparr>]" using False by (simp_all add: settle_eq)
  have wf: "wf_nodes ?ns" "\<forall>r \<in> set (bs_res s). wf_reservation ?ns r" using inv by (auto simp: budget_inv_def)
  have "\<forall>r \<in> set (bs_res ?s). wf_reservation ?ns r" unfolding res using wf(2) ri by (rule wf_settled)
  moreover have "node_inv ?s i" if i: "i < length ?ns" and lim: "rb_limit (settled_nodes ?ns ?r mr e ! i) > 0" for i
  proof -
    have lim': "rb_limit (?ns ! i) > 0" using lim i by (simp add: settled_node)
    then have old: "node_inv s i" using inv i by (simp add: budget_inv_def)
    have ch: "charged_walk ?ns ?r i \<Longrightarrow> 0 \<le> settle_charge ?r mr e"
      using settle_prompt_nonneg[OF inv ri] settle_charge_nonneg by blast
    have tok: "charged_walk ?ns ?r i \<Longrightarrow> 0 \<le> tr_tokens ?r"
      using weight_nonneg[OF inv nth_mem[OF ri] lim' i] False by (simp add: weight_def charged_walk_def)
    show ?thesis
      using old settled_outstanding[OF inv ri False i lim', of mr e] ch tok saturatedTokenAdd_range
      by (auto simp: node_inv_def nodes settled_node[OF i] intro: order_trans)
  qed
  ultimately show ?thesis using wf same_static_wf[OF st] same_static_res[OF st] st
    by (auto simp: budget_inv_def nodes same_static_def)
qed (use inv in \<open>simp add: settle_eq\<close>)

lemma inv_budget_step: "budget_step allowed s t \<Longrightarrow> budget_inv s \<Longrightarrow> budget_inv t"
  by (elim budget_step_cases) (auto intro: inv_new inv_reserve inv_settle inv_close)

interpretation budgets: step_invariant empty_store "budget_step allowed" budget_inv for allowed
proof
  show "empty_store s \<Longrightarrow> budget_inv s" for s by (simp add: empty_store_def budget_inv_def wf_nodes_def)
qed (rule inv_budget_step)

section \<open>Conforming providers\<close>

text \<open>A call whose reported usage stays within what was reserved for it.\<close>

definition conforming :: "tokenReservation \<Rightarrow> ModelResult \<Rightarrow> call_error option \<Rightarrow> bool" where
  "conforming r mr e \<longleftrightarrow> us_PromptTokens (mr_Usage mr) \<le> tr_prompt r
     \<and> tr_prompt r + max 0 (us_CompletionTokens (mr_Usage mr)) \<le> tr_tokens r
     \<and> us_TotalTokens (mr_Usage mr) \<le> tr_tokens r \<and> tr_tokens r \<le> MaxInt"

definition within_limits :: "budget_store \<Rightarrow> bool" where
  "within_limits s \<longleftrightarrow> budget_inv s \<and> (\<forall>i < length (bs_nodes s). rb_limit (bs_nodes s ! i) > 0 \<longrightarrow>
     rb_charged (bs_nodes s ! i) + rb_reserved (bs_nodes s ! i) \<le> rb_limit (bs_nodes s ! i))"

lemma conforming_charge:
  assumes "conforming r mr e" and "0 \<le> tr_prompt r"
  shows "settle_charge r mr e \<le> tr_tokens r"
proof -
  have m: "max (tr_prompt r) (us_PromptTokens (mr_Usage mr)) = tr_prompt r" using assms(1) by (simp add: conforming_def max_def)
  have "saturatedTokenAdd (tr_prompt r) (max 0 (us_CompletionTokens (mr_Usage mr))) \<le> tr_tokens r"
    using assms by (auto simp: conforming_def saturatedTokenAdd_def checkedTokenAdd_def)
  moreover have "0 \<le> tr_tokens r" using assms by (auto simp: conforming_def max_def split: if_splits)
  ultimately show ?thesis using assms(1) by (simp add: settle_charge_def Let_def m conforming_def)
qed

lemma within_new:
  assumes "within_limits s" and "case parent of Some p \<Rightarrow> p < length (bs_nodes s) | None \<Rightarrow> True" and "br_TotalTokens req \<le> MaxInt"
  shows "within_limits (fst (newRunBudget s parent req))"
  using assms inv_new[of s parent req]
  by (auto simp: within_limits_def newRunBudget_def new_node_def Let_def nth_append less_Suc_eq)

lemma within_close: "within_limits s \<Longrightarrow> b < length (bs_nodes s) \<Longrightarrow> within_limits (fst (close_budget s b))"
  using inv_close[of s b] by (auto simp: within_limits_def close_budget_def Let_def nth_list_update)

lemma within_reserve:
  assumes "within_limits s" and b: "b < length (bs_nodes s)"
  shows "within_limits (fst (reserve s b ctxErr prompt))"
proof -
  obtain s' res where r: "reserve s b ctxErr prompt = (s', res)" by fastforce
  have inv: "budget_inv s'" using inv_reserve[OF _ b, of ctxErr prompt] assms(1) r by (simp add: within_limits_def)
  from r show ?thesis
  proof (cases rule: reserve_cases)
    case (granted need)
    have "rb_charged (bs_nodes s' ! i) + rb_reserved (bs_nodes s' ! i) \<le> rb_limit (bs_nodes s' ! i)"
      if "i < length (bs_nodes s')" "rb_limit (bs_nodes s' ! i) > 0" for i
      using that assms(1) granted(4) node_admits_limit[of need "bs_nodes s ! i"]
      by (auto simp: granted(5) within_limits_def split: if_splits)
    with inv r show ?thesis by (simp add: within_limits_def)
  qed (use assms r in simp)
qed

lemma within_settle:
  assumes w: "within_limits s" and ri: "ri < length (bs_res s)" and c: "conforming (bs_res s ! ri) mr e"
  shows "within_limits (settle s ri mr e)"
proof (cases "tr_settled (bs_res s ! ri)")
  case False
  let ?ns = "bs_nodes s" and ?r = "bs_res s ! ri"
  have inv: "budget_inv s" using w by (simp add: within_limits_def)
  have "rb_charged (settled_nodes ?ns ?r mr e ! i) + rb_reserved (settled_nodes ?ns ?r mr e ! i) \<le> rb_limit (?ns ! i)"
    if i: "i < length ?ns" and lim: "rb_limit (?ns ! i) > 0" for i
  proof (cases "charged_walk ?ns ?r i")
    case True
    have p: "0 \<le> tr_prompt ?r" using settle_prompt_nonneg[OF inv ri True] .
    have "saturatedTokenAdd (rb_charged (?ns ! i)) (settle_charge ?r mr e) \<le> rb_charged (?ns ! i) + settle_charge ?r mr e"
      using settle_charge_nonneg[OF p, of mr e] by (auto simp: saturatedTokenAdd_def checkedTokenAdd_def)
    then show ?thesis using True conforming_charge[OF c p] w i lim by (auto simp: settled_node[OF i] within_limits_def)
  next
    case False
    then show ?thesis using w i lim by (simp add: settled_node[OF i] within_limits_def)
  qed
  moreover have "length (settled_nodes ?ns ?r mr e) = length ?ns" using settled_static by (simp add: same_static_def)
  ultimately show ?thesis using inv_settle[OF inv ri, of mr e] False by (auto simp: within_limits_def settle_eq settled_node)
qed (use w in \<open>simp add: settle_eq\<close>)

interpretation conforming_budgets: step_invariant empty_store "budget_step conforming" within_limits
proof
  show "empty_store s \<Longrightarrow> within_limits s" for s
    by (simp add: empty_store_def within_limits_def budget_inv_def wf_nodes_def)
  show "budget_step conforming s t \<Longrightarrow> within_limits s \<Longrightarrow> within_limits t" for s t
    by (elim budget_step_cases) (auto intro: within_new within_reserve within_settle within_close)
qed

section \<open>A stop is final\<close>

lemma stopped_refuses:
  assumes "budget_stopped s b"
  shows "\<exists>e. reserve s b ctxErr prompt = (s, Inl e)"
proof -
  obtain s' res where r: "reserve s b ctxErr prompt = (s', res)" by fastforce
  from r show ?thesis
  proof (cases rule: reserve_cases)
    case (granted need)
    with assms show ?thesis by (auto simp: budget_stopped_def node_admits_def)
  qed (use r in auto)
qed

text \<open>No step takes a node out of the stopped states, or changes the walk of an existing node.\<close>

definition stop_kept :: "budget_store \<Rightarrow> budget_store \<Rightarrow> bool" where
  "stop_kept s t \<longleftrightarrow> length (bs_nodes s) \<le> length (bs_nodes t) \<and> (\<forall>i < length (bs_nodes s).
     rb_parent (bs_nodes t ! i) = rb_parent (bs_nodes s ! i) \<and> (node_stopped (bs_nodes s ! i) \<longrightarrow> node_stopped (bs_nodes t ! i)))"

lemma stop_kept_step:
  assumes "budget_step allowed s t" and inv: "budget_inv s"
  shows "stop_kept s t"
  using assms(1)
proof (cases rule: budget_step.cases)
  case (step_new parent req)
  then show ?thesis by (simp add: stop_kept_def newRunBudget_def Let_def nth_append)
next
  case (step_reserve b ctxErr prompt)
  obtain s' res where r: "reserve s b ctxErr prompt = (s', res)" by fastforce
  have t: "t = s'" using step_reserve(1) r by simp
  from r show ?thesis unfolding t
    by (cases rule: reserve_cases) (auto simp: stop_kept_def node_stopped_def)
next
  case (step_settle ri mr e)
  let ?ns = "bs_nodes s" and ?r = "bs_res s ! ri"
  have "node_stopped (settled_nodes ?ns ?r mr e ! i)" if "i < length ?ns" "node_stopped (?ns ! i)" for i
  proof -
    have "rb_charged (?ns ! i) \<le> rb_charged (settled_nodes ?ns ?r mr e ! i)"
      if "rb_limit (?ns ! i) > 0"
    proof (cases "charged_walk ?ns ?r i")
      case True
      have "node_inv s i" using inv that \<open>i < length ?ns\<close> by (simp add: budget_inv_def)
      then show ?thesis
        using saturatedTokenAdd_range[of "rb_charged (?ns ! i)" "settle_charge ?r mr e"] True
          settle_charge_nonneg[OF settle_prompt_nonneg[OF inv step_settle(2) True]]
        by (simp add: settled_node[OF \<open>i < length ?ns\<close>] node_inv_def)
    qed (simp add: settled_node[OF \<open>i < length ?ns\<close>])
    with \<open>node_stopped (?ns ! i)\<close> show ?thesis
      using settled_node(2,5,6)[OF \<open>i < length ?ns\<close>, of ?r mr e] by (auto simp: node_stopped_def)
  qed
  moreover have "length (settled_nodes ?ns ?r mr e) = length ?ns" using settled_static by (simp add: same_static_def)
  ultimately show ?thesis by (simp add: step_settle(1) settle_eq stop_kept_def settled_node)
next
  case (step_close b)
  then show ?thesis by (auto simp: stop_kept_def close_budget_def Let_def nth_list_update node_stopped_def)
qed

lemma stop_kept_stopped:
  assumes "stop_kept s t" and "budget_stopped s b" and "b < length (bs_nodes s)"
  shows "budget_stopped t b"
proof -
  have "ancestors (bs_nodes t) b = ancestors (bs_nodes s) b"
    using assms(1,3) by (intro ancestors_cong) (auto simp: stop_kept_def)
  moreover obtain i where i: "i \<in> set (ancestors (bs_nodes s) b)" "node_stopped (bs_nodes s ! i)"
    using assms(2) by (auto simp: budget_stopped_def)
  moreover have "i < length (bs_nodes s)" using ancestors_le[OF i(1)] assms(3) by simp
  ultimately show ?thesis using assms(1) by (auto simp: budget_stopped_def stop_kept_def)
qed

lemma stopped_run:
  assumes "(budget_step allowed)\<^sup>*\<^sup>* s t" and "budget_inv s" and "budget_stopped s b" and "b < length (bs_nodes s)"
  shows "budget_stopped t b"
proof -
  have "budget_inv t \<and> budget_stopped t b \<and> b < length (bs_nodes t)"
    using assms(1)
  proof (induction rule: rtranclp_induct)
    case (step t u)
    then have "stop_kept t u" using stop_kept_step by blast
    with step show ?case
      using stop_kept_stopped inv_budget_step by (auto simp: stop_kept_def)
  qed (use assms in simp)
  then show ?thesis by simp
qed

section \<open>Properties\<close>

definition sample_request :: "int \<Rightarrow> budget_request" where
  "sample_request limit = \<lparr>br_InputCeiling = 100, br_OutputReserve = 10, br_TotalTokens = limit, br_MaxSteps = 4, br_NumPredict = 0\<rparr>"

definition sample_store :: budget_store where
  "sample_store = fst (newRunBudget \<lparr>bs_nodes = [], bs_res = []\<rparr> None (sample_request 50))"

definition sample_child :: budget_store where
  "sample_child = fst (newRunBudget sample_store (Some 0) (sample_request 0))"

definition sample_reserved :: budget_store where
  "sample_reserved = fst (reserve sample_child 1 None 20)"

lemma sample_reach: "reach empty_store (budget_step allowed) sample_reserved"
proof -
  let ?R = "reach empty_store (budget_step allowed)"
  have new: "?R (fst (newRunBudget s parent (sample_request n)))"
    if "?R s" "case parent of Some p \<Rightarrow> p < length (bs_nodes s) | None \<Rightarrow> True" "n \<le> 50" for s parent n
    using reach_step[OF that(1), of "fst (newRunBudget s parent (sample_request n))"] step_new[OF that(2), of "sample_request n"] that(3)
    by (simp add: sample_request_def MaxInt_def)
  have "?R \<lparr>bs_nodes = [], bs_res = []\<rparr>" by (rule reach_init) (simp add: empty_store_def)
  then have "?R sample_store" unfolding sample_store_def by (rule new) simp_all
  moreover have "length (bs_nodes sample_store) = 1" by code_simp
  ultimately have "?R sample_child" unfolding sample_child_def by (intro new) simp_all
  moreover have "length (bs_nodes sample_child) = 2" by code_simp
  ultimately show ?thesis
    unfolding sample_reserved_def using reach_step[of empty_store "budget_step allowed" sample_child] step_reserve[of 1 sample_child] by simp
qed

text \<open>C17: In every interleaving of runs that start, reserve, settle and close, and whatever usage
  the providers report, the reserved tokens of a limited run are exactly the sum of the unsettled
  reservations of that run and its descendants, and stay between 0 and its limit: nothing is released
  twice or lost. What has been charged is never negative and never wraps.\<close>

theorem run_budget_exact:
  assumes "reach empty_store (budget_step allowed) s" and "i < length (bs_nodes s)" and "rb_limit (bs_nodes s ! i) > 0"
  shows "rb_reserved (bs_nodes s ! i)
      = (\<Sum>r\<leftarrow>filter (\<lambda>r. \<not> tr_settled r \<and> i \<in> set (ancestors (bs_nodes s) (tr_run r))) (bs_res s). tr_tokens r)
    \<and> 0 \<le> rb_reserved (bs_nodes s ! i) \<and> rb_reserved (bs_nodes s ! i) \<le> rb_limit (bs_nodes s ! i)
    \<and> 0 \<le> rb_charged (bs_nodes s ! i) \<and> rb_charged (bs_nodes s ! i) \<le> MaxInt"
proof -
  have "node_inv s i" using budgets.inv_reach[OF assms(1)] assms(2,3) by (simp add: budget_inv_def)
  moreover have "outstanding s i
      = (\<Sum>r\<leftarrow>filter (\<lambda>r. \<not> tr_settled r \<and> i \<in> set (ancestors (bs_nodes s) (tr_run r))) (bs_res s). tr_tokens r)"
    by (simp add: outstanding_def weight_def sum_list_map_filter')
  ultimately show ?thesis by (simp add: node_inv_def)
qed

theorem run_budget_exact_witness:
  "rb_reserved (bs_nodes sample_reserved ! 0) \<le> 50 \<and> rb_reserved (bs_nodes sample_reserved ! 0) = 30"
proof -
  have "0 < length (bs_nodes sample_reserved)" "rb_limit (bs_nodes sample_reserved ! 0) = 50"
    "rb_reserved (bs_nodes sample_reserved ! 0) = 30" by code_simp+
  then show ?thesis using run_budget_exact[OF sample_reach, of 0] by simp
qed

text \<open>C40: When every provider reports a prompt no larger than the estimate and completion and total tokens within what was reserved for the call, no run in the tree
  ever spends more than its allowance: charged and reserved tokens together stay within the limit of
  every limited run, across all interleavings of nested runs.\<close>

theorem conforming_run_within_limit:
  assumes "reach empty_store (budget_step conforming) s" and "i < length (bs_nodes s)" and "rb_limit (bs_nodes s ! i) > 0"
  shows "rb_charged (bs_nodes s ! i) + rb_reserved (bs_nodes s ! i) \<le> rb_limit (bs_nodes s ! i)"
  using conforming_budgets.inv_reach[OF assms(1)] assms(2,3) by (simp add: within_limits_def)

theorem conforming_run_within_limit_witness:
  "rb_charged (bs_nodes sample_reserved ! 0) + rb_reserved (bs_nodes sample_reserved ! 0) \<le> 50"
proof -
  have "0 < length (bs_nodes sample_reserved)" "rb_limit (bs_nodes sample_reserved ! 0) = 50" by code_simp+
  then show ?thesis using conforming_run_within_limit[OF sample_reach, of 0] by simp
qed

text \<open>C26: A stop is final and reaches every descendant: once a run is closed, overrun or has spent its
  limit, then in every later state no run below it, however deep and whenever it was started, is granted a
  reservation, and a refused reservation changes nothing.\<close>

theorem stop_is_final:
  assumes "reach empty_store (budget_step allowed) s" and "a < length (bs_nodes s)" and "budget_stopped s a"
    and "(budget_step allowed)\<^sup>*\<^sup>* s t" and "a \<in> set (ancestors (bs_nodes t) b)"
  shows "budget_stopped t b \<and> (\<exists>e. reserve t b ctxErr prompt = (t, Inl e))"
proof -
  have "budget_stopped t a" using stopped_run[OF assms(4) budgets.inv_reach[OF assms(1)] assms(3,2)] .
  then have "budget_stopped t b" using ancestors_trans[OF assms(5)] by (auto simp: budget_stopped_def)
  then show ?thesis using stopped_refuses by blast
qed

definition sample_closed :: budget_store where
  "sample_closed = fst (close_budget sample_reserved 0)"

theorem stop_is_final_witness:
  "\<exists>e. reserve sample_closed 1 None 1 = (sample_closed, Inl e)"
proof -
  have "0 < length (bs_nodes sample_reserved)" by code_simp
  then have "reach empty_store (budget_step (\<lambda>_ _ _. True)) sample_closed"
    unfolding sample_closed_def using reach_step[OF sample_reach] step_close[of 0 sample_reserved] by blast
  moreover have "0 < length (bs_nodes sample_closed)" "budget_stopped sample_closed 0"
    "0 \<in> set (ancestors (bs_nodes sample_closed) 1)" by code_simp+
  ultimately show ?thesis using stop_is_final[OF _ _ _ rtranclp.rtrancl_refl] by blast
qed

text \<open>A nested run never widens what it inherits: its input ceiling and step count are at most
  its parent's, its generation cap is positive and at most the parent's when the parent has one, and it is
  accounted against a finite allowance whenever the parent is; the request handed on carries exactly
  these values.\<close>

theorem nested_run_inherits:
  "let n = bs_nodes (fst (newRunBudget s (Some p) req)) ! length (bs_nodes s);
             r = fst (snd (newRunBudget s (Some p) req)); par = bs_nodes s ! p
    in rb_input n \<le> rb_input par \<and> rb_steps n \<le> rb_steps par \<and> (rb_finite par \<longrightarrow> rb_finite n)
       \<and> (rb_generation par > 0 \<longrightarrow> 0 < rb_generation n \<and> rb_generation n \<le> rb_generation par)
       \<and> br_InputCeiling r = rb_input n \<and> br_MaxSteps r = rb_steps n
       \<and> (rb_generation n > 0 \<longrightarrow> br_NumPredict r = rb_generation n)"
  by (auto simp: newRunBudget_def new_node_def new_ceiling_def new_steps_def new_finite_def new_generation_def
      resolved_request_def Let_def)

theorem nested_run_inherits_witness:
  "rb_input (bs_nodes sample_child ! 1) \<le> rb_input (bs_nodes sample_store ! 0)"
proof -
  have "length (bs_nodes sample_store) = 1" by code_simp
  then show ?thesis using nested_run_inherits[of sample_store 0 "sample_request 0"] by (simp add: sample_child_def Let_def)
qed

end
