(* ===== verification/Cache_Interface.thy ===== *)
theory Cache_Interface
  imports Prelude
begin

text \<open>
  What the clients of the bounded caches (the sticky routes of the router, the warm results of
  the prefetcher) rely on: a bound on the number of entries, and that a lookup only ever sees
  the value last stored under its key, or nothing.
\<close>

text \<open>The last value that a sequence of puts stores under a key.\<close>

fun last_put :: "('v \<Rightarrow> 'k) \<Rightarrow> 'k \<Rightarrow> ('env \<times> 'v) list \<Rightarrow> 'v option" where
  "last_put key_of k [] = None"
| "last_put key_of k ((e, v) # ps) =
     (case last_put key_of k ps of Some w \<Rightarrow> Some w | None \<Rightarrow> if key_of v = k then Some v else None)"

text \<open>
  The operations a client calls: \<open>content\<close> is what is stored, \<open>entry_count\<close> the number of
  entries, \<open>bound\<close> the configured bound, \<open>put\<close> an insertion at a time (and in an iteration order)
  given by its environment argument, of a value that carries its key. \<open>ok\<close> is the provider's invariant, \<open>env_ok\<close> what it needs
  of the environment.
\<close>

locale bounded_cache =
  fixes key_of :: "'v \<Rightarrow> 'k"
    and content :: "'c \<Rightarrow> 'k \<Rightarrow> 'v option"
    and entry_count :: "'c \<Rightarrow> nat"
    and bound :: "'c \<Rightarrow> nat"
    and put :: "'env \<Rightarrow> 'v \<Rightarrow> 'c \<Rightarrow> 'c"
    and ok :: "'c \<Rightarrow> bool"
    and env_ok :: "'env \<Rightarrow> bool"
  assumes put_ok: "ok c \<Longrightarrow> env_ok e \<Longrightarrow> ok (put e v c)"
    and put_bound: "bound (put e v c) = bound c"
    and put_count: "ok c \<Longrightarrow> env_ok e \<Longrightarrow> entry_count c \<le> bound c \<Longrightarrow> entry_count (put e v c) \<le> bound c"
    and put_same: "ok c \<Longrightarrow> env_ok e \<Longrightarrow> content (put e v c) (key_of v) \<in> {None, Some v}"
    and put_other: "ok c \<Longrightarrow> env_ok e \<Longrightarrow> j \<noteq> key_of v \<Longrightarrow> content (put e v c) j \<in> {None, content c j}"
begin

abbreviation puts :: "('env \<times> 'v) list \<Rightarrow> 'c \<Rightarrow> 'c" where
  "puts ps c \<equiv> fold (\<lambda>(e, v). put e v) ps c"

lemma puts_bound: "bound (puts ps c) = bound c"
  by (induction ps arbitrary: c) (auto simp: put_bound)

lemma puts_count:
  assumes "ok c" and "\<And>e v. (e, v) \<in> set ps \<Longrightarrow> env_ok e" and "entry_count c \<le> bound c"
  shows "ok (puts ps c) \<and> entry_count (puts ps c) \<le> bound c"
  using assms
proof (induction ps arbitrary: c)
  case (Cons p ps)
  obtain e v where p: "p = (e, v)" by (cases p)
  with Cons.prems have e: "env_ok e" by auto
  have "ok (puts ps (put e v c)) \<and> entry_count (puts ps (put e v c)) \<le> bound (put e v c)"
    using Cons.prems e by (intro Cons.IH) (auto simp: put_ok put_bound put_count)
  then show ?case by (simp add: p put_bound)
qed simp

text \<open>No stale reads: after any sequence of puts a key is absent, or has its last value.\<close>

lemma puts_coherent:
  assumes "ok c" and "\<And>e v. (e, v) \<in> set ps \<Longrightarrow> env_ok e"
  shows "content (puts ps c) j
    \<in> {None, (case last_put key_of j ps of Some v \<Rightarrow> Some v | None \<Rightarrow> content c j)}"
  using assms
proof (induction ps arbitrary: c)
  case (Cons p ps)
  obtain e v where p: "p = (e, v)" by (cases p)
  with Cons.prems have e: "env_ok e" by auto
  have "content (puts ps (put e v c)) j
      \<in> {None, (case last_put key_of j ps of Some w \<Rightarrow> Some w | None \<Rightarrow> content (put e v c) j)}"
    using Cons.prems e by (intro Cons.IH) (auto simp: put_ok)
  moreover have "content (put e v c) j \<in> {None, (if key_of v = j then Some v else content c j)}"
    using Cons.prems(1) e put_same[of c e v] put_other[of c e j v] by auto
  ultimately show ?case by (auto simp: p split: option.splits)
qed simp

end

end
