(* ===== verification/Sticky_Cache.thy ===== *)
theory Sticky_Cache
  imports Cache_Interface Go_Float
begin

text \<open>
  The sticky route cache of \<open>provider/router_sticky.go\<close>: a map of routing decisions with a
  time to live that is extended on use, bounded by evicting expired entries first and then the
  least recently used one.

  The Go map is an association list with distinct keys. Ranging over a Go map visits its entries
  in an unspecified order: the operations that range over it take that order as the argument
  \<open>iter\<close>, a function that permutes the entries. The time read by \<open>time.Now\<close> is an argument too.
\<close>

record ModelKey =
  mk_Provider :: string
  mk_Model :: string

record routeSticky =
  rs_key :: string
  rs_providerKey :: ModelKey
  rs_score :: f64
  rs_reason :: string
  rs_createdAt :: gotime
  rs_lastUsedAt :: gotime
  rs_expiresAt :: gotime

record StickyRouteInfo =
  si_Key :: ModelKey
  si_Score :: f64
  si_Reason :: string
  si_CreatedAt :: gotime
  si_LastUsedAt :: gotime
  si_ExpiresAt :: gotime

type_synonym sticky_entries = "(string \<times> routeSticky) list"

record stickyCache =
  sc_entries :: sticky_entries
  sc_ttl :: duration
  sc_maxEntries :: int

type_synonym map_order = "sticky_entries \<Rightarrow> sticky_entries"

definition newStickyCache :: "duration \<Rightarrow> int \<Rightarrow> stickyCache" where
  "newStickyCache ttl maxEntries = \<lparr>sc_entries = [], sc_ttl = ttl, sc_maxEntries = maxEntries\<rparr>"

definition sticky_get :: "gotime \<Rightarrow> string \<Rightarrow> stickyCache \<Rightarrow> routeSticky option \<times> stickyCache" where
  "sticky_get now key sc = (case map_of (sc_entries sc) key of
     None \<Rightarrow> (None, sc)
   | Some entry \<Rightarrow>
       if now > rs_expiresAt entry
       then (None, sc\<lparr>sc_entries := AList.delete key (sc_entries sc)\<rparr>)
       else (Some entry, sc))"

text \<open>
  The scan for the oldest entry: \<open>acc\<close> is \<open>None\<close> while \<open>first\<close> is true, then the key and time
  found so far.
\<close>

fun oldest_scan :: "sticky_entries \<Rightarrow> (string \<times> gotime) option \<Rightarrow> (string \<times> gotime) option" where
  "oldest_scan [] acc = acc"
| "oldest_scan ((k, entry) # es) acc =
     (case acc of
        None \<Rightarrow> oldest_scan es (Some (k, rs_lastUsedAt entry))
      | Some (oldestKey, oldestTime) \<Rightarrow>
          if rs_lastUsedAt entry < oldestTime
          then oldest_scan es (Some (k, rs_lastUsedAt entry))
          else oldest_scan es acc)"

definition evictLocked :: "gotime \<Rightarrow> map_order \<Rightarrow> stickyCache \<Rightarrow> stickyCache" where
  "evictLocked now iter sc =
     (let live = filter (\<lambda>(k, entry). \<not> now > rs_expiresAt entry) (sc_entries sc);
          sc = sc\<lparr>sc_entries := live\<rparr>
      in if int (length (sc_entries sc)) \<ge> sc_maxEntries sc
         then (case oldest_scan (iter (sc_entries sc)) None of
                 None \<Rightarrow> sc
               | Some (oldestKey, _) \<Rightarrow> sc\<lparr>sc_entries := AList.delete oldestKey (sc_entries sc)\<rparr>)
         else sc)"

definition sticky_put :: "gotime \<Rightarrow> map_order \<Rightarrow> routeSticky \<Rightarrow> stickyCache \<Rightarrow> stickyCache" where
  "sticky_put now iter entry sc =
     (if map_of (sc_entries sc) (rs_key entry) \<noteq> None
      then sc\<lparr>sc_entries := AList.update (rs_key entry) entry (sc_entries sc)\<rparr>
      else let sc = (if int (length (sc_entries sc)) \<ge> sc_maxEntries sc then evictLocked now iter sc else sc)
           in sc\<lparr>sc_entries := AList.update (rs_key entry) entry (sc_entries sc)\<rparr>)"

definition sticky_touch :: "gotime \<Rightarrow> string \<Rightarrow> stickyCache \<Rightarrow> stickyCache" where
  "sticky_touch now key sc = (case map_of (sc_entries sc) key of
     None \<Rightarrow> sc
   | Some entry \<Rightarrow>
       sc\<lparr>sc_entries := AList.update key
            (entry\<lparr>rs_lastUsedAt := now, rs_expiresAt := now + sc_ttl sc\<rparr>) (sc_entries sc)\<rparr>)"

definition sticky_invalidate :: "string \<Rightarrow> stickyCache \<Rightarrow> stickyCache" where
  "sticky_invalidate key sc = sc\<lparr>sc_entries := AList.delete key (sc_entries sc)\<rparr>"

definition invalidateProvider :: "string \<Rightarrow> stickyCache \<Rightarrow> stickyCache" where
  "invalidateProvider provider sc =
     sc\<lparr>sc_entries := filter (\<lambda>(k, entry). mk_Provider (rs_providerKey entry) \<noteq> provider) (sc_entries sc)\<rparr>"

definition sticky_snapshot :: "gotime \<Rightarrow> stickyCache \<Rightarrow> (string \<times> StickyRouteInfo) list" where
  "sticky_snapshot now sc =
     map (\<lambda>(k, entry). (k, \<lparr>si_Key = rs_providerKey entry, si_Score = rs_score entry,
            si_Reason = rs_reason entry, si_CreatedAt = rs_createdAt entry,
            si_LastUsedAt = rs_lastUsedAt entry, si_ExpiresAt = rs_expiresAt entry\<rparr>))
       (filter (\<lambda>(k, entry). \<not> now > rs_expiresAt entry) (sc_entries sc))"

section \<open>Invariant\<close>

definition sticky_wf :: "stickyCache \<Rightarrow> bool" where
  "sticky_wf sc \<longleftrightarrow> distinct (map fst (sc_entries sc)) \<and> (\<forall>(k, e) \<in> set (sc_entries sc). rs_key e = k)"

definition iter_ok :: "map_order \<Rightarrow> bool" where
  "iter_ok iter \<longleftrightarrow> (\<forall>es. set (iter es) = set es)"

definition sticky_bound :: "stickyCache \<Rightarrow> nat" where
  "sticky_bound sc = max 1 (nat (sc_maxEntries sc))"

lemma oldest_scan_Some: "\<exists>j u. oldest_scan es (Some (k, t)) = Some (j, u)"
  by (induction es arbitrary: k t) auto

lemma oldest_scan_None: "es \<noteq> [] \<Longrightarrow> \<exists>j u. oldest_scan es None = Some (j, u)"
  by (cases es) (auto simp: oldest_scan_Some)

lemma oldest_scan_min:
  "oldest_scan es acc = Some (k, t) \<Longrightarrow>
   ((\<exists>e. (k, e) \<in> set es \<and> rs_lastUsedAt e = t) \<or> acc = Some (k, t))
   \<and> (\<forall>(j, e) \<in> set es. t \<le> rs_lastUsedAt e)
   \<and> (\<forall>j u. acc = Some (j, u) \<longrightarrow> t \<le> u)"
proof (induction es arbitrary: acc)
  case (Cons p es)
  obtain j e where p: "p = (j, e)" by (cases p)
  show ?case
  proof (cases acc)
    case None
    with Cons.prems p have "oldest_scan es (Some (j, rs_lastUsedAt e)) = Some (k, t)" by simp
    from Cons.IH[OF this] None p show ?thesis by auto
  next
    case (Some a)
    obtain ok ot where a: "a = (ok, ot)" by (cases a)
    let ?acc = "if rs_lastUsedAt e < ot then Some (j, rs_lastUsedAt e) else acc"
    from Cons.prems p Some a have "oldest_scan es ?acc = Some (k, t)" by (auto split: if_splits)
    from Cons.IH[OF this] p Some a show ?thesis by (auto split: if_splits)
  qed
qed auto

definition live_entries :: "gotime \<Rightarrow> stickyCache \<Rightarrow> sticky_entries" where
  "live_entries now sc = filter (\<lambda>(k, entry). \<not> now > rs_expiresAt entry) (sc_entries sc)"

lemma evictLocked_cases:
  "evictLocked now iter sc = sc\<lparr>sc_entries :=
     (if int (length (live_entries now sc)) \<ge> sc_maxEntries sc
      then (case oldest_scan (iter (live_entries now sc)) None of
              None \<Rightarrow> live_entries now sc
            | Some (oldestKey, _) \<Rightarrow> AList.delete oldestKey (live_entries now sc))
      else live_entries now sc)\<rparr>"
  by (auto simp: evictLocked_def live_entries_def Let_def split: option.splits)

lemma sticky_wf_filter: "sticky_wf sc \<Longrightarrow> sticky_wf (sc\<lparr>sc_entries := filter P (sc_entries sc)\<rparr>)"
  by (auto simp: sticky_wf_def distinct_fst_filter)

lemma sticky_wf_delete:
  "sticky_wf sc \<Longrightarrow> sticky_wf (sc\<lparr>sc_entries := AList.delete k (sc_entries sc)\<rparr>)"
  by (auto simp: sticky_wf_def distinct_delete dest: alist_sets)

lemma sticky_wf_update:
  "sticky_wf sc \<Longrightarrow> rs_key e = k \<Longrightarrow> sticky_wf (sc\<lparr>sc_entries := AList.update k e (sc_entries sc)\<rparr>)"
  by (auto simp: sticky_wf_def distinct_update dest: alist_sets)

lemmas sticky_wf_intros = sticky_wf_filter sticky_wf_delete sticky_wf_update

lemma sticky_wf_evict: "sticky_wf sc \<Longrightarrow> sticky_wf (evictLocked now iter sc)"
  using sticky_wf_delete [of "sc\<lparr>sc_entries := live_entries now sc\<rparr>"]
    sticky_wf_filter [of sc "\<lambda>(k, entry). \<not> now > rs_expiresAt entry"]
  by (auto simp: evictLocked_cases live_entries_def split: option.splits)

lemma sticky_wf_put: "sticky_wf sc \<Longrightarrow> sticky_wf (sticky_put now iter e sc)"
  by (auto simp: sticky_put_def Let_def intro: sticky_wf_update sticky_wf_evict)

lemma evict_maxEntries [simp]: "sc_maxEntries (evictLocked now iter sc) = sc_maxEntries sc"
  "sc_ttl (evictLocked now iter sc) = sc_ttl sc"
  by (simp_all add: evictLocked_cases)

lemma put_maxEntries [simp]: "sc_maxEntries (sticky_put now iter e sc) = sc_maxEntries sc"
  by (simp add: sticky_put_def Let_def)

lemma wf_lookup_key: "sticky_wf sc \<Longrightarrow> map_of (sc_entries sc) k = Some e \<Longrightarrow> rs_key e = k"
  by (auto simp: sticky_wf_def dest: map_of_SomeD)

text \<open>Eviction only removes entries, and makes room for one more.\<close>

lemma evict_subset:
  assumes "sticky_wf sc"
  shows "map_of (sc_entries (evictLocked now iter sc)) k \<in> {None, map_of (sc_entries sc) k}"
proof -
  have "map_of (live_entries now sc) k \<in> {None, map_of (sc_entries sc) k}"
    using assms alist_filter_lookup [of "sc_entries sc" _ k]
    by (cases "map_of (live_entries now sc) k") (auto simp: live_entries_def sticky_wf_def)
  then show ?thesis
    by (auto simp: evictLocked_cases delete_conv' split: option.splits)
qed

lemma evict_room:
  assumes wf: "sticky_wf sc" and it: "iter_ok iter" and le: "length (sc_entries sc) \<le> sticky_bound sc"
  shows "length (sc_entries (evictLocked now iter sc)) < sticky_bound sc"
proof (cases "int (length (live_entries now sc)) \<ge> sc_maxEntries sc \<and> live_entries now sc \<noteq> []")
  case True
  then have "iter (live_entries now sc) \<noteq> []" using it by (auto simp: iter_ok_def) (metis list.set_sel(1) empty_iff empty_set)
  then obtain j u where scan: "oldest_scan (iter (live_entries now sc)) None = Some (j, u)"
    using oldest_scan_None by blast
  with it have "j \<in> fst ` set (live_entries now sc)"
    using oldest_scan_min[OF scan] by (force simp: iter_ok_def)
  moreover have "distinct (map fst (live_entries now sc))"
    using wf by (simp add: live_entries_def sticky_wf_def distinct_fst_filter)
  ultimately have "Suc (length (AList.delete j (live_entries now sc))) = length (live_entries now sc)"
    by (rule length_delete_in [rotated])
  moreover have "length (live_entries now sc) \<le> length (sc_entries sc)"
    by (simp add: live_entries_def)
  ultimately show ?thesis using True scan le by (simp add: evictLocked_cases)
next
  case False
  then show ?thesis
    by (cases "live_entries now sc = []")
       (auto simp: evictLocked_cases sticky_bound_def split: option.splits)
qed

lemma put_count_bound:
  assumes wf: "sticky_wf sc" and it: "iter_ok iter" and le: "length (sc_entries sc) \<le> sticky_bound sc"
  shows "length (sc_entries (sticky_put now iter e sc)) \<le> sticky_bound sc"
proof (cases "map_of (sc_entries sc) (rs_key e)")
  case (Some e')
  then have "rs_key e \<in> fst ` set (sc_entries sc)" by (force dest: map_of_SomeD)
  with Some le show ?thesis by (simp add: sticky_put_def length_alist_update)
next
  case None
  show ?thesis
  proof (cases "int (length (sc_entries sc)) \<ge> sc_maxEntries sc")
    case True
    then show ?thesis using None evict_room[OF assms, of now]
      by (simp add: sticky_put_def Let_def length_alist_update)
  next
    case False
    then have "Suc (length (sc_entries sc)) \<le> sticky_bound sc" by (auto simp: sticky_bound_def)
    with None False show ?thesis
      by (simp add: sticky_put_def Let_def length_alist_update)
  qed
qed

lemma put_lookup_same: "map_of (sc_entries (sticky_put now iter e sc)) (rs_key e) = Some e"
  by (simp add: sticky_put_def Let_def update_conv')

lemma put_lookup_other:
  assumes "sticky_wf sc" and "k \<noteq> rs_key e"
  shows "map_of (sc_entries (sticky_put now iter e sc)) k \<in> {None, map_of (sc_entries sc) k}"
  using assms evict_subset[OF assms(1), of now iter k]
  by (simp add: sticky_put_def Let_def update_conv')

interpretation sticky: bounded_cache
  rs_key "\<lambda>sc. map_of (sc_entries sc)" "\<lambda>sc. length (sc_entries sc)" sticky_bound
  "\<lambda>(now, iter). sticky_put now iter" sticky_wf "\<lambda>(now, iter). iter_ok iter"
proof (unfold_locales, goal_cases)
  case (1 c e v)
  then show ?case by (auto intro: sticky_wf_put)
next
  case (2 e v c)
  show ?case by (simp add: sticky_bound_def split: prod.splits)
next
  case (3 c e v)
  then show ?case by (auto intro: put_count_bound)
next
  case (4 c e v)
  then show ?case by (simp add: put_lookup_same split: prod.splits)
next
  case (5 c e j v)
  then show ?case using put_lookup_other[OF 5(1,3)] by (simp split: prod.splits)
qed

section \<open>Histories\<close>

datatype sticky_event =
    SGet gotime string
  | SPut gotime map_order routeSticky
  | STouch gotime string
  | SInvalidate string
  | SInvalidateProvider string

fun sticky_apply :: "sticky_event \<Rightarrow> stickyCache \<Rightarrow> stickyCache" where
  "sticky_apply (SGet now key) sc = snd (sticky_get now key sc)"
| "sticky_apply (SPut now iter e) sc = sticky_put now iter e sc"
| "sticky_apply (STouch now key) sc = sticky_touch now key sc"
| "sticky_apply (SInvalidate key) sc = sticky_invalidate key sc"
| "sticky_apply (SInvalidateProvider provider) sc = invalidateProvider provider sc"

fun sticky_event_ok :: "sticky_event \<Rightarrow> bool" where
  "sticky_event_ok (SPut now iter e) = iter_ok iter"
| "sticky_event_ok _ = True"

definition sticky_inv :: "int \<Rightarrow> stickyCache \<Rightarrow> bool" where
  "sticky_inv m sc \<longleftrightarrow> sticky_wf sc \<and> sc_maxEntries sc = m \<and> length (sc_entries sc) \<le> sticky_bound sc"

lemma sticky_inv_shrink:
  "sticky_inv m sc \<Longrightarrow> sticky_wf (sc\<lparr>sc_entries := es\<rparr>) \<Longrightarrow> length es \<le> length (sc_entries sc) \<Longrightarrow>
   sticky_inv m (sc\<lparr>sc_entries := es\<rparr>)"
  by (auto simp: sticky_inv_def sticky_bound_def intro: le_trans)

lemma sticky_inv_touch: "sticky_inv m sc \<Longrightarrow> sticky_inv m (sticky_touch now key sc)"
proof (cases "map_of (sc_entries sc) key")
  case (Some e)
  assume inv: "sticky_inv m sc"
  then have "rs_key e = key" using Some by (auto simp: sticky_inv_def wf_lookup_key)
  moreover have "key \<in> fst ` set (sc_entries sc)"
    using Some by (metis domI dom_map_of_conv_image_fst)
  moreover have "sticky_wf sc" using inv by (simp add: sticky_inv_def)
  ultimately have "sticky_inv m (sc\<lparr>sc_entries := AList.update key
      (e\<lparr>rs_lastUsedAt := now, rs_expiresAt := now + sc_ttl sc\<rparr>) (sc_entries sc)\<rparr>)"
    using inv by (intro sticky_inv_shrink sticky_wf_update) (simp_all add: length_alist_update)
  with Some show ?thesis by (simp add: sticky_touch_def)
qed (simp add: sticky_touch_def)

lemma sticky_inv_apply:
  assumes "sticky_inv m sc" and "sticky_event_ok ev"
  shows "sticky_inv m (sticky_apply ev sc)"
proof -
  have wf: "sticky_wf sc" using assms(1) by (simp add: sticky_inv_def)
  show ?thesis
  proof (cases ev)
    case (SGet now key)
    then show ?thesis using assms wf
      by (auto simp: sticky_get_def split: option.splits
          intro!: sticky_inv_shrink sticky_wf_delete length_delete_le)
  next
    case (SPut now iter e)
    then show ?thesis using assms put_count_bound[of sc iter now e] sticky_wf_put[OF wf, of now iter e]
      by (simp add: sticky_inv_def) (simp add: sticky_bound_def)
  next
    case (STouch now key)
    then show ?thesis using assms by (simp add: sticky_inv_touch)
  next
    case (SInvalidate key)
    then show ?thesis using assms wf
      by (auto simp: sticky_invalidate_def intro!: sticky_inv_shrink sticky_wf_delete length_delete_le)
  next
    case (SInvalidateProvider provider)
    then show ?thesis using assms wf
      by (auto simp: invalidateProvider_def intro!: sticky_inv_shrink sticky_wf_filter)
  qed
qed

interpretation sticky_run: run_invariant
  "\<lambda>ev sc. if sticky_event_ok ev then sticky_apply ev sc else sc" "sticky_inv m"
  by unfold_locales (simp add: sticky_inv_apply)

lemma sticky_run_guard:
  "(\<forall>ev \<in> set evs. sticky_event_ok ev) \<Longrightarrow>
   fold (\<lambda>ev sc. if sticky_event_ok ev then sticky_apply ev sc else sc) evs sc = fold sticky_apply evs sc"
  by (induction evs arbitrary: sc) auto

section \<open>Properties\<close>

text \<open>C25: In every history of operations on a new sticky cache, whatever the map iteration orders,
  the keys stay distinct, every entry is stored under its own key, and the cache never holds
  more than \<open>max 1 maxEntries\<close> entries.\<close>

theorem sticky_cache_bounded:
  assumes "\<forall>ev \<in> set evs. sticky_event_ok ev"
  shows "sticky_wf (fold sticky_apply evs (newStickyCache ttl m))
    \<and> length (sc_entries (fold sticky_apply evs (newStickyCache ttl m))) \<le> max 1 (nat m)"
proof -
  have "sticky_inv m (newStickyCache ttl m)"
    by (simp add: sticky_inv_def newStickyCache_def sticky_wf_def)
  from sticky_run.inv_run [OF this, of evs] show ?thesis
    using assms by (auto simp: sticky_run_guard sticky_inv_def sticky_bound_def)
qed

definition route_ex :: "string \<Rightarrow> gotime \<Rightarrow> gotime \<Rightarrow> routeSticky" where
  "route_ex k used expires = \<lparr>rs_key = k, rs_providerKey = \<lparr>mk_Provider = ''p'', mk_Model = ''m''\<rparr>,
     rs_score = F_Fin 1, rs_reason = [], rs_createdAt = used, rs_lastUsedAt = used, rs_expiresAt = expires\<rparr>"

lemma iter_ok_rev [simp]: "iter_ok rev" "iter_ok id"
  by (simp_all add: iter_ok_def)

theorem sticky_cache_bounded_witness:
  "length (sc_entries (fold sticky_apply
     [SPut 1 rev (route_ex ''a'' 1 100), SPut 2 id (route_ex ''b'' 2 100), SGet 3 ''a'',
      SPut 4 rev (route_ex ''c'' 4 100)] (newStickyCache 60 2))) \<le> 2"
  using sticky_cache_bounded [of "[SPut 1 rev (route_ex ''a'' 1 100), SPut 2 id (route_ex ''b'' 2 100),
      SGet 3 ''a'', SPut 4 rev (route_ex ''c'' 4 100)]" 60 2]
  by simp

text \<open>Eviction prefers expired entries: storing a new route in a cache within its bound drops a
  live entry only if no entry has expired, and then it drops exactly one, an entry whose last use
  is the oldest; every other live entry stays.\<close>

theorem put_evicts_lru:
  assumes wf: "sticky_wf sc" and it: "iter_ok iter"
    and new: "map_of (sc_entries sc) (rs_key e) = None"
    and cap: "0 < sc_maxEntries sc" "int (length (sc_entries sc)) \<le> sc_maxEntries sc"
    and live: "map_of (sc_entries sc) k = Some v" "\<not> now > rs_expiresAt v"
    and gone: "map_of (sc_entries (sticky_put now iter e sc)) k = None"
  shows "(\<forall>(j, w) \<in> set (sc_entries sc). \<not> now > rs_expiresAt w \<and> rs_lastUsedAt v \<le> rs_lastUsedAt w)
    \<and> (\<forall>j. j \<noteq> k \<and> j \<noteq> rs_key e \<longrightarrow>
         map_of (sc_entries (sticky_put now iter e sc)) j = map_of (sc_entries sc) j)"
proof -
  let ?live = "live_entries now sc"
  have dist: "distinct (map fst (sc_entries sc))" using wf by (simp add: sticky_wf_def)
  have kl: "map_of ?live k = Some v"
    using live dist by (simp add: live_entries_def alist_filter_lookup)
  have ke: "k \<noteq> rs_key e" using live(1) new by auto
  have full: "int (length (sc_entries sc)) \<ge> sc_maxEntries sc"
    using gone live ke new by (auto simp: sticky_put_def Let_def update_conv' split: if_splits)
  with gone new ke have ev: "map_of (sc_entries (evictLocked now iter sc)) k = None"
    by (simp add: sticky_put_def Let_def update_conv')
  then have liveFull: "int (length ?live) \<ge> sc_maxEntries sc"
    using kl by (auto simp: evictLocked_cases split: if_splits)
  have "length ?live \<le> length (sc_entries sc)" by (simp add: live_entries_def)
  with liveFull cap have len: "length ?live = length (sc_entries sc)" by simp
  then have all: "\<forall>x \<in> set (sc_entries sc). (\<lambda>(k, entry). \<not> now > rs_expiresAt entry) x"
    by (metis length_filter_less live_entries_def less_irrefl)
  then have same: "?live = sc_entries sc" by (simp add: live_entries_def)
  from ev liveFull kl obtain j u where scan: "oldest_scan (iter (sc_entries sc)) None = Some (j, u)"
      and "map_of (AList.delete j (sc_entries sc)) k = None"
    by (auto simp: evictLocked_cases same split: option.splits)
  with live(1) have jk: "j = k" by (auto simp: delete_conv' split: if_splits)
  from oldest_scan_min [OF scan] it jk obtain v' where
      v': "(k, v') \<in> set (sc_entries sc)" "rs_lastUsedAt v' = u"
      and min: "\<forall>(j, w) \<in> set (sc_entries sc). u \<le> rs_lastUsedAt w"
    by (auto simp: iter_ok_def)
  with dist live(1) have "v' = v" by (metis map_of_is_SomeI option.inject)
  then have "\<forall>(j, w) \<in> set (sc_entries sc). \<not> now > rs_expiresAt w \<and> rs_lastUsedAt v \<le> rs_lastUsedAt w"
    using min v'(2) all by auto
  moreover have "\<forall>j. j \<noteq> k \<and> j \<noteq> rs_key e \<longrightarrow>
      map_of (sc_entries (sticky_put now iter e sc)) j = map_of (sc_entries sc) j"
    using new full liveFull scan jk
    by (auto simp: sticky_put_def Let_def update_conv' evictLocked_cases same delete_conv')
  ultimately show ?thesis by simp
qed

theorem put_evicts_lru_witness:
  "let sc = (newStickyCache 60 2)\<lparr>sc_entries := [(''a'', route_ex ''a'' 5 100), (''b'', route_ex ''b'' 2 100)]\<rparr>
   in map_of (sc_entries (sticky_put 9 rev (route_ex ''c'' 9 100) sc)) ''a'' = Some (route_ex ''a'' 5 100)"
proof -
  let ?sc = "(newStickyCache 60 2)\<lparr>sc_entries := [(''a'', route_ex ''a'' 5 100), (''b'', route_ex ''b'' 2 100)]\<rparr>"
  have "map_of (sc_entries ?sc) ''a'' =
      map_of (sc_entries (sticky_put 9 rev (route_ex ''c'' 9 100) ?sc)) ''a''"
  proof -
    have "\<forall>j. j \<noteq> ''b'' \<and> j \<noteq> rs_key (route_ex ''c'' 9 100) \<longrightarrow>
        map_of (sc_entries (sticky_put 9 rev (route_ex ''c'' 9 100) ?sc)) j = map_of (sc_entries ?sc) j"
      by (rule put_evicts_lru [of ?sc rev _ "''b''" "route_ex ''b'' 2 100" 9, THEN conjunct2])
         (simp_all add: sticky_wf_def newStickyCache_def route_ex_def sticky_put_def evictLocked_def Let_def)
    then show ?thesis by (simp add: route_ex_def)
  qed
  then show ?thesis by (simp add: Let_def)
qed

text \<open>No stale route: after any sequence of puts a key is either absent or carries exactly the
  decision that was stored last under it.\<close>

theorem sticky_cache_coherent:
  assumes "\<forall>((now, iter), v) \<in> set ps. iter_ok iter"
  shows "map_of (sc_entries (fold (\<lambda>((now, iter), v). sticky_put now iter v) ps (newStickyCache ttl m))) j
    \<in> {None, last_put rs_key j ps}"
proof -
  have "sticky_wf (newStickyCache ttl m)"
    by (simp add: sticky_wf_def newStickyCache_def)
  moreover from assms have "\<And>e v. (e, v) \<in> set ps \<Longrightarrow> (\<lambda>(now, iter). iter_ok iter) e" by fastforce
  ultimately have "map_of (sc_entries (fold (\<lambda>(e, v). (\<lambda>(now, iter). sticky_put now iter) e v) ps
      (newStickyCache ttl m))) j \<in> {None, (case last_put rs_key j ps of Some v \<Rightarrow> Some v
        | None \<Rightarrow> map_of (sc_entries (newStickyCache ttl m)) j)}"
    by (rule sticky.puts_coherent)
  then show ?thesis
    by (auto simp: newStickyCache_def case_prod_unfold split: option.splits)
qed

theorem sticky_cache_coherent_witness:
  "map_of (sc_entries (fold (\<lambda>((now, iter), v). sticky_put now iter v)
      [((1, rev), route_ex ''a'' 1 9), ((2, rev), route_ex ''a'' 2 9)] (newStickyCache 5 4))) ''a''
   \<in> {None, Some (route_ex ''a'' 2 9)}"
  using sticky_cache_coherent [of "[((1, rev), route_ex ''a'' 1 9), ((2, rev), route_ex ''a'' 2 9)]" 5 4 "''a''"]
  by (simp add: route_ex_def)

text \<open>A lookup never returns an expired route, a miss on an expired route removes it, and a route
  that was touched is found again for a full time to live after the touch.\<close>

theorem sticky_get_fresh:
  assumes "sticky_wf sc"
  shows "(\<forall>e. fst (sticky_get now k sc) = Some e \<longrightarrow> now \<le> rs_expiresAt e \<and> rs_key e = k)
    \<and> (fst (sticky_get now k sc) = None \<longrightarrow> map_of (sc_entries (snd (sticky_get now k sc))) k = None)
    \<and> (\<forall>e t. map_of (sc_entries sc) k = Some e \<and> t \<le> now + sc_ttl sc \<longrightarrow>
         fst (sticky_get t k (sticky_touch now k sc))
           = Some (e\<lparr>rs_lastUsedAt := now, rs_expiresAt := now + sc_ttl sc\<rparr>))"
  using assms wf_lookup_key [OF assms, of k]
  by (auto simp: sticky_get_def sticky_touch_def update_conv' delete_conv' split: option.splits if_splits)

theorem sticky_get_fresh_witness:
  "fst (sticky_get 60 ''a'' (sticky_touch 10 ''a''
     ((newStickyCache 50 2)\<lparr>sc_entries := [(''a'', route_ex ''a'' 1 5)]\<rparr>)))
   = Some ((route_ex ''a'' 1 5)\<lparr>rs_lastUsedAt := 10, rs_expiresAt := 60\<rparr>)"
proof -
  let ?sc = "(newStickyCache 50 2)\<lparr>sc_entries := [(''a'', route_ex ''a'' 1 5)]\<rparr>"
  have "sticky_wf ?sc" by (simp add: sticky_wf_def newStickyCache_def route_ex_def)
  from sticky_get_fresh [OF this, of 10 "''a''"] show ?thesis
    by (simp add: newStickyCache_def)
qed

end
