(* ===== verification/Slot_Admission.thy ===== *)
theory Slot_Admission
  imports Sticky_Cache "HOL-Library.List_Lexorder" "HOL-Library.Char_ord" "HOL-Library.Product_Lexorder"
begin

text \<open>
  The slot-aware admission gate of \<open>provider/admission.go\<close>: a permit counter per model key whose
  capacity is read anew on every decision, with callers that queue on a broadcast channel.

  \<open>acquire_locked\<close>, \<open>release\<close> and \<open>exitWait\<close> are the three critical sections; each runs under
  \<open>sa.mu\<close> and is one function of the gate table. \<open>acquire\<close> itself is not atomic: it is a program
  with the locations of \<open>acq_pc\<close>, and any number of callers interleave their steps with each
  other, with cancellations of their contexts and with \<open>Close\<close> of the router. The two hooks of
  the Go struct are test seams and are left out.

  The wake channel of a gate is replaced on every release: \<open>sg_wake\<close> numbers the channels of one
  gate, and a channel is closed exactly when a later one exists. The counters \<open>admitted\<close>,
  \<open>queued\<close> and \<open>rejected\<close> are \<open>uint64\<close> in Go and natural numbers here.
\<close>

section \<open>Gates and critical sections\<close>

record slotGateState =
  sg_inflight :: int
  sg_waiting :: int
  sg_wake :: nat
  sg_admitted :: nat
  sg_queued :: nat
  sg_rejected :: nat

type_synonym gate_table = "(ModelKey \<times> slotGateState) list"

definition new_gate :: slotGateState where
  "new_gate = \<lparr>sg_inflight = 0, sg_waiting = 0, sg_wake = 0, sg_admitted = 0, sg_queued = 0, sg_rejected = 0\<rparr>"

definition gate_or_new :: "gate_table \<Rightarrow> ModelKey \<Rightarrow> slotGateState" where
  "gate_or_new gates key = (case map_of gates key of Some g \<Rightarrow> g | None \<Rightarrow> new_gate)"

text \<open>
  The locked part of one iteration of \<open>acquire\<close>: \<open>Inl wake\<close> is the channel to wait on, \<open>Inr ()\<close>
  an admission.
\<close>

definition acquire_locked :: "int \<Rightarrow> bool \<Rightarrow> ModelKey \<Rightarrow> gate_table \<Rightarrow> (nat + unit) \<times> gate_table" where
  "acquire_locked n first key gates =
     (let g = gate_or_new gates key
      in if sg_inflight g < n
         then let g = g\<lparr>sg_inflight := sg_inflight g + 1, sg_admitted := sg_admitted g + 1\<rparr>;
                  g = (if \<not> first then g\<lparr>sg_waiting := sg_waiting g - 1\<rparr> else g)
              in (Inr (), AList.update key g gates)
         else let g = (if first then g\<lparr>sg_queued := sg_queued g + 1, sg_waiting := sg_waiting g + 1\<rparr> else g)
              in (Inl (sg_wake g), AList.update key g gates))"

definition release :: "ModelKey \<Rightarrow> gate_table \<Rightarrow> gate_table" where
  "release key gates = (case map_of gates key of
     None \<Rightarrow> gates
   | Some g \<Rightarrow>
       let g = (if sg_inflight g > 0 then g\<lparr>sg_inflight := sg_inflight g - 1\<rparr> else g);
           g = g\<lparr>sg_wake := Suc (sg_wake g)\<rparr>
       in AList.update key g gates)"

definition exitWait :: "ModelKey \<Rightarrow> bool \<Rightarrow> gate_table \<Rightarrow> gate_table" where
  "exitWait key rejected gates = (case map_of gates key of
     None \<Rightarrow> gates
   | Some g \<Rightarrow>
       let g = g\<lparr>sg_waiting := sg_waiting g - 1\<rparr>;
           g = (if rejected then g\<lparr>sg_rejected := sg_rejected g + 1\<rparr> else g)
       in AList.update key g gates)"

record SlotAdmissionInfo =
  sai_Provider :: string
  sai_Model :: string
  sai_Capacity :: int
  sai_InFlight :: int
  sai_Waiting :: int
  sai_Admitted :: nat
  sai_Queued :: nat
  sai_Rejected :: nat

definition slot_info :: "(ModelKey \<Rightarrow> int \<times> bool) \<Rightarrow> ModelKey \<times> slotGateState \<Rightarrow> SlotAdmissionInfo" where
  "slot_info Capacity p = (case p of (key, g) \<Rightarrow>
     \<lparr>sai_Provider = mk_Provider key, sai_Model = mk_Model key,
      sai_Capacity = fst (Capacity \<lparr>mk_Provider = mk_Provider key, mk_Model = mk_Model key\<rparr>),
      sai_InFlight = sg_inflight g, sai_Waiting = sg_waiting g, sai_Admitted = sg_admitted g,
      sai_Queued = sg_queued g, sai_Rejected = sg_rejected g\<rparr>)"

definition snapshot :: "(ModelKey \<Rightarrow> int \<times> bool) \<Rightarrow> gate_table \<Rightarrow> SlotAdmissionInfo list" where
  "snapshot Capacity gates =
     sort_key (\<lambda>info. (sai_Provider info, sai_Model info)) (map (slot_info Capacity) gates)"

section \<open>Callers of \<open>acquire\<close>\<close>

datatype acq_error = CtxErr | ErrRouterClosed

text \<open>
  The locations of a caller: \<open>LoopTop first\<close> before the checks of an iteration, \<open>HaveCap first n\<close>
  with a capacity read and the mutex not yet taken, \<open>Blocked w\<close> in the \<open>select\<close> on channel \<open>w\<close>,
  \<open>Leaving r o\<close> about to call \<open>exitWait\<close> and return (\<open>None\<close> is the no-op release). A caller that
  was admitted is \<open>Held\<close> until it runs its release closure; the closure is \<open>Once\<close>-guarded, so a
  \<open>Released\<close> caller releases nothing any more.
\<close>

datatype acq_pc =
    NotCalled
  | LoopTop bool
  | HaveCap bool int
  | Blocked nat
  | Leaving bool "acq_error option"
  | Held
  | Released
  | Passed
  | Failed acq_error

record caller =
  c_key :: ModelKey
  c_pc :: acq_pc
  c_cancelled :: bool

record adm_state =
  ad_gates :: gate_table
  ad_done :: bool
  ad_callers :: "caller list"

text \<open>The check at the top of an iteration after the first: cancellation before close.\<close>

definition post_queue_exit :: "caller \<Rightarrow> bool \<Rightarrow> acq_error option" where
  "post_queue_exit c done =
     (if c_cancelled c then Some CtxErr else if done then Some ErrRouterClosed else None)"

text \<open>
  One iteration up to the lock, given the answer \<open>(n, ok)\<close> of the slot source: the location it
  leads to.
\<close>

definition acquire_top :: "int \<times> bool \<Rightarrow> bool \<Rightarrow> caller \<Rightarrow> bool \<Rightarrow> acq_pc" where
  "acquire_top cap done c first =
     (case (if first then None else post_queue_exit c done) of
        Some e \<Rightarrow> Leaving True (Some e)
      | None \<Rightarrow>
          case cap of (n, ok) \<Rightarrow>
            if \<not> ok then (if first then Passed else Leaving False None)
            else if first \<and> c_cancelled c then Failed CtxErr
            else HaveCap first (if n < 1 then 1 else n))"

definition set_pc :: "nat \<Rightarrow> acq_pc \<Rightarrow> adm_state \<Rightarrow> adm_state" where
  "set_pc i pc s = s\<lparr>ad_callers := (ad_callers s)[i := (ad_callers s ! i)\<lparr>c_pc := pc\<rparr>]\<rparr>"

text \<open>
  \<open>cap_max\<close> bounds what the slot source may answer; it may answer differently every time.
\<close>

inductive adm_step :: "(ModelKey \<Rightarrow> int) \<Rightarrow> adm_state \<Rightarrow> adm_state \<Rightarrow> bool" for cap_max where
  new_caller: "adm_step cap_max s
      (s\<lparr>ad_callers := ad_callers s @ [\<lparr>c_key = k, c_pc = LoopTop True, c_cancelled = b\<rparr>]\<rparr>)"
| cancel: "i < length (ad_callers s) \<Longrightarrow>
    adm_step cap_max s (s\<lparr>ad_callers := (ad_callers s)[i := (ad_callers s ! i)\<lparr>c_cancelled := True\<rparr>]\<rparr>)"
| close: "adm_step cap_max s (s\<lparr>ad_done := True\<rparr>)"
| top: "i < length (ad_callers s) \<Longrightarrow> c = ad_callers s ! i \<Longrightarrow> c_pc c = LoopTop first \<Longrightarrow>
    n \<le> cap_max (c_key c) \<Longrightarrow>
    adm_step cap_max s (set_pc i (acquire_top (n, ok) (ad_done s) c first) s)"
| lock: "i < length (ad_callers s) \<Longrightarrow> c = ad_callers s ! i \<Longrightarrow> c_pc c = HaveCap first n \<Longrightarrow>
    acquire_locked n first (c_key c) (ad_gates s) = (r, gates) \<Longrightarrow>
    adm_step cap_max s
      ((set_pc i (case r of Inl w \<Rightarrow> Blocked w | Inr _ \<Rightarrow> Held) s)\<lparr>ad_gates := gates\<rparr>)"
| woken: "i < length (ad_callers s) \<Longrightarrow> c = ad_callers s ! i \<Longrightarrow> c_pc c = Blocked w \<Longrightarrow>
    w < sg_wake (gate_or_new (ad_gates s) (c_key c)) \<Longrightarrow>
    adm_step cap_max s (set_pc i (LoopTop False) s)"
| blocked_cancel: "i < length (ad_callers s) \<Longrightarrow> c = ad_callers s ! i \<Longrightarrow> c_pc c = Blocked w \<Longrightarrow>
    c_cancelled c \<Longrightarrow>
    adm_step cap_max s (set_pc i (Leaving True (Some CtxErr)) s)"
| blocked_close: "i < length (ad_callers s) \<Longrightarrow> c = ad_callers s ! i \<Longrightarrow> c_pc c = Blocked w \<Longrightarrow>
    ad_done s \<Longrightarrow>
    adm_step cap_max s (set_pc i (Leaving True (Some ErrRouterClosed)) s)"
| leave: "i < length (ad_callers s) \<Longrightarrow> c = ad_callers s ! i \<Longrightarrow> c_pc c = Leaving rejected res \<Longrightarrow>
    adm_step cap_max s
      ((set_pc i (case res of Some e \<Rightarrow> Failed e | None \<Rightarrow> Passed) s)
        \<lparr>ad_gates := exitWait (c_key c) rejected (ad_gates s)\<rparr>)"
| run_release: "i < length (ad_callers s) \<Longrightarrow> c = ad_callers s ! i \<Longrightarrow> c_pc c = Held \<Longrightarrow>
    adm_step cap_max s ((set_pc i Released s)\<lparr>ad_gates := release (c_key c) (ad_gates s)\<rparr>)"

definition adm_init :: "adm_state \<Rightarrow> bool" where
  "adm_init s \<longleftrightarrow> s = \<lparr>ad_gates = [], ad_done = False, ad_callers = []\<rparr>"

section \<open>Invariant\<close>

fun in_queue :: "acq_pc \<Rightarrow> bool" where
  "in_queue (LoopTop first) \<longleftrightarrow> \<not> first"
| "in_queue (HaveCap first n) \<longleftrightarrow> \<not> first"
| "in_queue (Blocked w) \<longleftrightarrow> True"
| "in_queue (Leaving r res) \<longleftrightarrow> True"
| "in_queue _ \<longleftrightarrow> False"

definition held_on :: "ModelKey \<Rightarrow> caller \<Rightarrow> bool" where
  "held_on k c \<longleftrightarrow> c_key c = k \<and> c_pc c = Held"

definition done_on :: "ModelKey \<Rightarrow> caller \<Rightarrow> bool" where
  "done_on k c \<longleftrightarrow> c_key c = k \<and> c_pc c = Released"

definition queued_on :: "ModelKey \<Rightarrow> caller \<Rightarrow> bool" where
  "queued_on k c \<longleftrightarrow> c_key c = k \<and> in_queue (c_pc c)"

text \<open>What the gate of a key says about the callers of that key.\<close>

definition gate_agrees :: "int \<Rightarrow> slotGateState \<Rightarrow> ModelKey \<Rightarrow> caller list \<Rightarrow> bool" where
  "gate_agrees cap g k cs \<longleftrightarrow>
     sg_inflight g = count_if (held_on k) cs \<and>
     sg_waiting g = count_if (queued_on k) cs \<and>
     int (sg_admitted g) = count_if (held_on k) cs + count_if (done_on k) cs \<and>
     count_if (held_on k) cs \<le> max 1 cap"

text \<open>What a caller may assume at its location, given the gate of its key.\<close>

fun caller_agrees :: "int \<Rightarrow> slotGateState \<Rightarrow> acq_pc \<Rightarrow> bool" where
  "caller_agrees cap g (HaveCap first n) \<longleftrightarrow> 1 \<le> n \<and> n \<le> max 1 cap"
| "caller_agrees cap g (Blocked w) \<longleftrightarrow> w < sg_wake g \<or> (w = sg_wake g \<and> 1 \<le> sg_inflight g)"
| "caller_agrees cap g _ \<longleftrightarrow> True"

definition adm_inv :: "(ModelKey \<Rightarrow> int) \<Rightarrow> adm_state \<Rightarrow> bool" where
  "adm_inv cap_max s \<longleftrightarrow>
     (\<forall>k. gate_agrees (cap_max k) (gate_or_new (ad_gates s) k) k (ad_callers s)) \<and>
     (\<forall>c \<in> set (ad_callers s). caller_agrees (cap_max (c_key c)) (gate_or_new (ad_gates s) (c_key c)) (c_pc c)) \<and>
     (\<forall>c \<in> set (ad_callers s). held_on (c_key c) c \<or> queued_on (c_key c) c \<longrightarrow> map_of (ad_gates s) (c_key c) \<noteq> None)"

lemmas on_defs = held_on_def done_on_def queued_on_def

lemma gate_or_new_update [simp]:
  "gate_or_new (AList.update k g gates) k' = (if k' = k then g else gate_or_new gates k')"
  by (simp add: gate_or_new_def update_conv')

lemma gate_or_new_Some: "map_of gates k = Some g \<Longrightarrow> gate_or_new gates k = g"
  by (simp add: gate_or_new_def)

subsection \<open>A caller moves without touching the gates\<close>

lemma adm_inv_set_pc:
  assumes inv: "adm_inv C s" and i: "i < length (ad_callers s)" and c: "c = ad_callers s ! i"
    and same: "in_queue pc = in_queue (c_pc c)" "c_pc c \<noteq> Held" "c_pc c \<noteq> Released" "pc \<noteq> Held" "pc \<noteq> Released"
    and agrees: "caller_agrees (C (c_key c)) (gate_or_new (ad_gates s) (c_key c)) pc"
  shows "adm_inv C (set_pc i pc s)"
proof -
  let ?cs = "ad_callers s" and ?c' = "c\<lparr>c_pc := pc\<rparr>"
  have counts: "count_if (held_on k) (?cs[i := ?c']) = count_if (held_on k) ?cs"
      "count_if (done_on k) (?cs[i := ?c']) = count_if (done_on k) ?cs"
      "count_if (queued_on k) (?cs[i := ?c']) = count_if (queued_on k) ?cs" for k
    using i c same by (auto simp: count_if_update on_defs)
  have "c \<in> set ?cs" using i c by simp
  then have "queued_on (c_key c) ?c' \<longrightarrow> map_of (ad_gates s) (c_key c) \<noteq> None"
    using inv same(1) by (auto simp: adm_inv_def on_defs)
  then show ?thesis
    using inv agrees same
    by (auto simp: adm_inv_def set_pc_def c [symmetric] gate_agrees_def counts on_defs
        dest!: set_update_subset_insert [THEN subsetD])
qed

lemma adm_inv_grow: "adm_inv C s \<Longrightarrow> c_pc c = LoopTop True \<Longrightarrow>
    adm_inv C (s\<lparr>ad_callers := ad_callers s @ [c]\<rparr>)"
  by (auto simp: adm_inv_def gate_agrees_def on_defs)

lemma adm_inv_cancel:
  assumes "adm_inv C s" and "i < length (ad_callers s)"
  shows "adm_inv C (s\<lparr>ad_callers := (ad_callers s)[i := (ad_callers s ! i)\<lparr>c_cancelled := True\<rparr>]\<rparr>)"
proof -
  let ?cs = "ad_callers s" and ?c = "ad_callers s ! i"
  have counts: "count_if (held_on k) (?cs[i := ?c\<lparr>c_cancelled := True\<rparr>]) = count_if (held_on k) ?cs"
      "count_if (done_on k) (?cs[i := ?c\<lparr>c_cancelled := True\<rparr>]) = count_if (done_on k) ?cs"
      "count_if (queued_on k) (?cs[i := ?c\<lparr>c_cancelled := True\<rparr>]) = count_if (queued_on k) ?cs" for k
    using assms(2) by (auto simp: count_if_update on_defs)
  have "?c \<in> set ?cs" using assms(2) by simp
  with assms(1) show ?thesis
    by (auto simp: adm_inv_def gate_agrees_def counts on_defs
        dest!: set_update_subset_insert [THEN subsetD])
qed

subsection \<open>A caller moves and the gate of its key changes\<close>

lemma adm_inv_gate:
  assumes inv: "adm_inv C s" and i: "i < length (ad_callers s)" and c: "c = ad_callers s ! i"
    and gate: "gate_agrees (C (c_key c)) g (c_key c) ((ad_callers s)[i := c\<lparr>c_pc := pc\<rparr>])"
    and mono: "\<And>q. caller_agrees (C (c_key c)) (gate_or_new (ad_gates s) (c_key c)) q \<Longrightarrow>
        caller_agrees (C (c_key c)) g q"
    and agrees: "caller_agrees (C (c_key c)) g pc"
  shows "adm_inv C ((set_pc i pc s)\<lparr>ad_gates := AList.update (c_key c) g (ad_gates s)\<rparr>)"
proof -
  let ?cs = "ad_callers s" and ?c' = "c\<lparr>c_pc := pc\<rparr>"
  have counts: "count_if (held_on k) (?cs[i := ?c']) = count_if (held_on k) ?cs"
      "count_if (done_on k) (?cs[i := ?c']) = count_if (done_on k) ?cs"
      "count_if (queued_on k) (?cs[i := ?c']) = count_if (queued_on k) ?cs" if "k \<noteq> c_key c" for k
    using i c that by (auto simp: count_if_update on_defs)
  show ?thesis
    using inv agrees gate mono
    by (auto simp: adm_inv_def set_pc_def c [symmetric] gate_agrees_def counts on_defs update_conv'
        dest!: set_update_subset_insert [THEN subsetD])
qed

lemma adm_inv_lock:
  assumes inv: "adm_inv C s" and i: "i < length (ad_callers s)" and c: "c = ad_callers s ! i"
    and pc: "c_pc c = HaveCap first n"
    and acq: "acquire_locked n first (c_key c) (ad_gates s) = (r, gates)"
  shows "adm_inv C ((set_pc i (case r of Inl w \<Rightarrow> Blocked w | Inr _ \<Rightarrow> Held) s)\<lparr>ad_gates := gates\<rparr>)"
proof -
  let ?k = "c_key c" and ?g = "gate_or_new (ad_gates s) (c_key c)"
  have "c \<in> set (ad_callers s)" using i c by simp
  with inv pc have n: "1 \<le> n" "n \<le> max 1 (C ?k)" and g: "gate_agrees (C ?k) ?g ?k (ad_callers s)"
    unfolding adm_inv_def by fastforce+
  show ?thesis
  proof (cases "sg_inflight ?g < n")
    case True
    let ?g' = "?g\<lparr>sg_inflight := sg_inflight ?g + 1, sg_admitted := sg_admitted ?g + 1,
      sg_waiting := sg_waiting ?g - (if first then 0 else 1)\<rparr>"
    have "r = Inr ()" "gates = AList.update ?k ?g' (ad_gates s)"
      using acq True by (auto simp: acquire_locked_def Let_def)
    moreover have "adm_inv C ((set_pc i Held s)\<lparr>ad_gates := AList.update ?k ?g' (ad_gates s)\<rparr>)"
    proof (rule adm_inv_gate [OF inv i c])
      show "gate_agrees (C ?k) ?g' ?k ((ad_callers s)[i := c\<lparr>c_pc := Held\<rparr>])"
        using g True n pc i c by (auto simp: gate_agrees_def count_if_update on_defs)
      show "caller_agrees (C ?k) ?g' q" if "caller_agrees (C ?k) ?g q" for q
        using that g by (cases q) (auto simp: gate_agrees_def)
    qed simp
    ultimately show ?thesis by simp
  next
    case False
    let ?g' = "?g\<lparr>sg_queued := sg_queued ?g + (if first then 1 else 0),
      sg_waiting := sg_waiting ?g + (if first then 1 else 0)\<rparr>"
    have "r = Inl (sg_wake ?g)" "gates = AList.update ?k ?g' (ad_gates s)"
      using acq False by (auto simp: acquire_locked_def Let_def)
    moreover have "adm_inv C ((set_pc i (Blocked (sg_wake ?g)) s)\<lparr>ad_gates := AList.update ?k ?g' (ad_gates s)\<rparr>)"
    proof (rule adm_inv_gate [OF inv i c])
      show "gate_agrees (C ?k) ?g' ?k ((ad_callers s)[i := c\<lparr>c_pc := Blocked (sg_wake ?g)\<rparr>])"
        using g pc i c by (auto simp: gate_agrees_def count_if_update on_defs)
      show "caller_agrees (C ?k) ?g' q" if "caller_agrees (C ?k) ?g q" for q
        using that by (cases q) auto
      show "caller_agrees (C ?k) ?g' (Blocked (sg_wake ?g))"
        using False n by simp
    qed
    ultimately show ?thesis by simp
  qed
qed

lemma adm_inv_leave:
  assumes inv: "adm_inv C s" and i: "i < length (ad_callers s)" and c: "c = ad_callers s ! i"
    and pc: "c_pc c = Leaving rejected res"
  shows "adm_inv C ((set_pc i (case res of Some e \<Rightarrow> Failed e | None \<Rightarrow> Passed) s)
    \<lparr>ad_gates := exitWait (c_key c) rejected (ad_gates s)\<rparr>)"
proof -
  let ?k = "c_key c" and ?pc = "case res of Some e \<Rightarrow> Failed e | None \<Rightarrow> Passed"
  have mem: "c \<in> set (ad_callers s)" using i c by simp
  with inv pc obtain g where g: "map_of (ad_gates s) ?k = Some g"
    by (fastforce simp: adm_inv_def on_defs)
  have agr: "gate_agrees (C ?k) g ?k (ad_callers s)"
    using inv g by (metis adm_inv_def gate_or_new_Some)
  let ?g' = "g\<lparr>sg_waiting := sg_waiting g - 1, sg_rejected := sg_rejected g + (if rejected then 1 else 0)\<rparr>"
  have "exitWait ?k rejected (ad_gates s) = AList.update ?k ?g' (ad_gates s)"
    by (simp add: exitWait_def g Let_def)
  moreover have "adm_inv C ((set_pc i ?pc s)\<lparr>ad_gates := AList.update ?k ?g' (ad_gates s)\<rparr>)"
  proof (rule adm_inv_gate [OF inv i c])
    show "gate_agrees (C ?k) ?g' ?k ((ad_callers s)[i := c\<lparr>c_pc := ?pc\<rparr>])"
      using agr pc i c by (cases res) (auto simp: gate_agrees_def count_if_update on_defs)
    show "caller_agrees (C ?k) ?g' q" if "caller_agrees (C ?k) (gate_or_new (ad_gates s) ?k) q" for q
      using that by (cases q) (auto simp: gate_or_new_Some [OF g])
    show "caller_agrees (C ?k) ?g' ?pc" by (cases res) simp_all
  qed
  ultimately show ?thesis by simp
qed

lemma adm_inv_release:
  assumes inv: "adm_inv C s" and i: "i < length (ad_callers s)" and c: "c = ad_callers s ! i"
    and pc: "c_pc c = Held"
  shows "adm_inv C ((set_pc i Released s)\<lparr>ad_gates := release (c_key c) (ad_gates s)\<rparr>)"
proof -
  let ?k = "c_key c"
  have mem: "c \<in> set (ad_callers s)" using i c by simp
  with inv pc obtain g where g: "map_of (ad_gates s) ?k = Some g"
    by (fastforce simp: adm_inv_def on_defs)
  have agr: "gate_agrees (C ?k) g ?k (ad_callers s)"
    using inv g by (metis adm_inv_def gate_or_new_Some)
  have "0 < count_if (held_on ?k) (ad_callers s)"
    using i c pc by (auto simp: count_if_pos_iff held_on_def)
  with agr have pos: "0 < sg_inflight g" by (simp add: gate_agrees_def)
  let ?g' = "g\<lparr>sg_inflight := sg_inflight g - 1, sg_wake := Suc (sg_wake g)\<rparr>"
  have "release ?k (ad_gates s) = AList.update ?k ?g' (ad_gates s)"
    using pos by (simp add: release_def g Let_def)
  moreover have "adm_inv C ((set_pc i Released s)\<lparr>ad_gates := AList.update ?k ?g' (ad_gates s)\<rparr>)"
  proof (rule adm_inv_gate [OF inv i c])
    show "gate_agrees (C ?k) ?g' ?k ((ad_callers s)[i := c\<lparr>c_pc := Released\<rparr>])"
      using agr pc i c by (auto simp: gate_agrees_def count_if_update on_defs)
    show "caller_agrees (C ?k) ?g' q" if "caller_agrees (C ?k) (gate_or_new (ad_gates s) ?k) q" for q
      using that by (cases q) (auto simp: gate_or_new_Some [OF g])
  qed simp
  ultimately show ?thesis by simp
qed

lemma acquire_top_agrees:
  assumes "n \<le> cap"
  shows "in_queue (acquire_top (n, ok) done c first) = (\<not> first)"
    and "acquire_top (n, ok) done c first \<noteq> Held" and "acquire_top (n, ok) done c first \<noteq> Released"
    and "caller_agrees cap g (acquire_top (n, ok) done c first)"
  using assms by (auto simp: acquire_top_def split: option.splits)

lemma adm_inv_step: "adm_step C s t \<Longrightarrow> adm_inv C s \<Longrightarrow> adm_inv C t"
proof (induction rule: adm_step.induct)
  case (close s)
  then show ?case by (simp add: adm_inv_def)
next
  case (top i s c first n ok)
  then show ?case by (intro adm_inv_set_pc [where c = c]) (simp_all add: acquire_top_agrees)
next
  case (lock i s c first n r gates)
  then show ?case by (intro adm_inv_lock)
next
  case (leave i s c rejected res)
  then show ?case by (intro adm_inv_leave)
next
  case (run_release i s c)
  then show ?case by (intro adm_inv_release)
qed (auto intro!: adm_inv_grow adm_inv_cancel intro: adm_inv_set_pc)

lemma adm_inv_init: "adm_init s \<Longrightarrow> adm_inv C s"
  by (simp add: adm_init_def adm_inv_def gate_agrees_def gate_or_new_def new_gate_def le_max_iff_disj)

interpretation admission: step_invariant adm_init "adm_step C" "adm_inv C"
  by unfold_locales (auto intro: adm_inv_init adm_inv_step)

section \<open>An executable scheduler\<close>

text \<open>A schedule names the step to take; the scheduler takes it if it is enabled.\<close>

datatype sched = SNew ModelKey | STop nat int bool | SLock nat | SWake nat | SLeave nat | SRelease nat | SClose

fun adm_exec :: "(ModelKey \<Rightarrow> int) \<Rightarrow> sched \<Rightarrow> adm_state \<Rightarrow> adm_state option" where
  "adm_exec C (SNew k) s =
     Some (s\<lparr>ad_callers := ad_callers s @ [\<lparr>c_key = k, c_pc = LoopTop True, c_cancelled = False\<rparr>]\<rparr>)"
| "adm_exec C (STop i n ok) s =
     (if i < length (ad_callers s) \<and> n \<le> C (c_key (ad_callers s ! i))
      then case c_pc (ad_callers s ! i) of
             LoopTop first \<Rightarrow> Some (set_pc i (acquire_top (n, ok) (ad_done s) (ad_callers s ! i) first) s)
           | _ \<Rightarrow> None
      else None)"
| "adm_exec C (SLock i) s =
     (if i < length (ad_callers s)
      then case c_pc (ad_callers s ! i) of
             HaveCap first n \<Rightarrow>
               (case acquire_locked n first (c_key (ad_callers s ! i)) (ad_gates s) of (r, gates) \<Rightarrow>
                  Some ((set_pc i (case r of Inl w \<Rightarrow> Blocked w | Inr _ \<Rightarrow> Held) s)\<lparr>ad_gates := gates\<rparr>))
           | _ \<Rightarrow> None
      else None)"
| "adm_exec C (SWake i) s =
     (if i < length (ad_callers s)
      then case c_pc (ad_callers s ! i) of
             Blocked w \<Rightarrow>
               if w < sg_wake (gate_or_new (ad_gates s) (c_key (ad_callers s ! i)))
               then Some (set_pc i (LoopTop False) s) else None
           | _ \<Rightarrow> None
      else None)"
| "adm_exec C (SLeave i) s =
     (if i < length (ad_callers s)
      then case c_pc (ad_callers s ! i) of
             Leaving rejected res \<Rightarrow>
               Some ((set_pc i (case res of Some e \<Rightarrow> Failed e | None \<Rightarrow> Passed) s)
                 \<lparr>ad_gates := exitWait (c_key (ad_callers s ! i)) rejected (ad_gates s)\<rparr>)
           | _ \<Rightarrow> None
      else None)"
| "adm_exec C (SRelease i) s =
     (if i < length (ad_callers s) \<and> c_pc (ad_callers s ! i) = Held
      then Some ((set_pc i Released s)\<lparr>ad_gates := release (c_key (ad_callers s ! i)) (ad_gates s)\<rparr>)
      else None)"
| "adm_exec C SClose s = Some (s\<lparr>ad_done := True\<rparr>)"

fun adm_run :: "(ModelKey \<Rightarrow> int) \<Rightarrow> sched list \<Rightarrow> adm_state \<Rightarrow> adm_state option" where
  "adm_run C [] s = Some s"
| "adm_run C (x # xs) s = (case adm_exec C x s of None \<Rightarrow> None | Some t \<Rightarrow> adm_run C xs t)"

lemma adm_exec_sound: "adm_exec C x s = Some t \<Longrightarrow> adm_step C s t"
  by (cases x)
     (auto split: if_splits acq_pc.splits prod.splits intro: adm_step.intros simp del: split_paired_Ex)

lemma adm_run_sound: "adm_run C xs s = Some t \<Longrightarrow> reach adm_init (adm_step C) s \<Longrightarrow> reach adm_init (adm_step C) t"
proof (induction xs arbitrary: s)
  case (Cons x xs)
  from Cons.prems(1) obtain u where u: "adm_exec C x s = Some u" "adm_run C xs u = Some t"
    by (auto split: option.splits)
  from Cons.prems(2) adm_exec_sound [OF u(1)] have "reach adm_init (adm_step C) u"
    by (rule reach_step)
  with u(2) show ?case by (rule Cons.IH)
qed simp

definition adm_start :: adm_state where
  "adm_start = \<lparr>ad_gates = [], ad_done = False, ad_callers = []\<rparr>"

lemma adm_run_reach: "adm_run C xs adm_start = Some t \<Longrightarrow> reach adm_init (adm_step C) t"
  by (rule adm_run_sound) (auto simp: adm_start_def adm_init_def intro: reach_init)

section \<open>Properties\<close>

text \<open>C18: However many callers interleave, and however often the slot source changes its answer, the
  callers that hold a permit for a key never outnumber the largest capacity it reported for that
  key (at least one).\<close>

theorem permits_within_capacity:
  assumes "reach adm_init (adm_step C) s"
  shows "count_if (held_on k) (ad_callers s) \<le> max 1 (C k)"
  using admission.inv_reach [OF assms] by (simp add: adm_inv_def gate_agrees_def)

definition key_ex :: ModelKey where
  "key_ex = \<lparr>mk_Provider = ''p'', mk_Model = ''m''\<rparr>"

text \<open>Three callers on a two-slot model: two hold permits, the third waits.\<close>

definition sched_ex :: "sched list" where
  "sched_ex = [SNew key_ex, SNew key_ex, SNew key_ex, STop 0 2 True, STop 1 2 True, STop 2 2 True,
     SLock 2, SLock 0, SLock 1]"

definition state_ex :: adm_state where
  "state_ex = the (adm_run (\<lambda>_. 2) sched_ex adm_start)"

lemma state_ex_run: "adm_run (\<lambda>_. 2) sched_ex adm_start = Some state_ex"
proof -
  have "adm_run (\<lambda>_. 2) sched_ex adm_start \<noteq> None" by code_simp
  then show ?thesis by (simp add: state_ex_def)
qed

theorem permits_within_capacity_witness:
  "count_if (held_on key_ex) (ad_callers state_ex) = 2
   \<and> count_if (held_on key_ex) (ad_callers state_ex) \<le> 2"
proof
  show "count_if (held_on key_ex) (ad_callers state_ex) = 2" by code_simp
  show "count_if (held_on key_ex) (ad_callers state_ex) \<le> 2"
    using permits_within_capacity [OF adm_run_reach [OF state_ex_run], of key_ex] by simp
qed

text \<open>The gauges are exact in every reachable state: \<open>inflight\<close> is the number of permits out,
  \<open>waiting\<close> the number of callers in the queue (so neither is ever negative), and \<open>admitted\<close> the
  number of permits granted so far.\<close>

theorem gauges_exact:
  assumes "reach adm_init (adm_step C) s" and "map_of (ad_gates s) k = Some g"
  shows "sg_inflight g = count_if (held_on k) (ad_callers s)
    \<and> sg_waiting g = count_if (queued_on k) (ad_callers s)
    \<and> int (sg_admitted g) = count_if (held_on k) (ad_callers s) + count_if (done_on k) (ad_callers s)
    \<and> 0 \<le> sg_inflight g \<and> 0 \<le> sg_waiting g"
proof -
  have "gate_agrees (C k) (gate_or_new (ad_gates s) k) k (ad_callers s)"
    using admission.inv_reach [OF assms(1)] by (simp add: adm_inv_def)
  then show ?thesis by (simp add: gate_agrees_def gate_or_new_Some [OF assms(2)])
qed

theorem gauges_exact_witness:
  "\<exists>g. map_of (ad_gates state_ex) key_ex = Some g \<and> sg_inflight g = 2 \<and> sg_waiting g = 1"
proof -
  have "map_of (ad_gates state_ex) key_ex \<noteq> None" by code_simp
  then obtain g where g: "map_of (ad_gates state_ex) key_ex = Some g" by blast
  moreover have "count_if (held_on key_ex) (ad_callers state_ex) = 2"
      "count_if (queued_on key_ex) (ad_callers state_ex) = 1"
    by code_simp+
  ultimately show ?thesis
    using gauges_exact [OF adm_run_reach [OF state_ex_run] g] by auto
qed

text \<open>C27: No wakeup is lost: a caller that sleeps on its key's gate either waits on a channel that a
  release has already closed, or some other caller holds a permit for that key, and running that
  caller's release closes the channel.\<close>

theorem no_lost_wakeup:
  assumes "reach adm_init (adm_step C) s" and "i < length (ad_callers s)"
    and "c_pc (ad_callers s ! i) = Blocked w"
  shows "let k = c_key (ad_callers s ! i)
    in w < sg_wake (gate_or_new (ad_gates s) k)
       \<or> ((\<exists>j < length (ad_callers s). held_on k (ad_callers s ! j))
          \<and> w < sg_wake (gate_or_new (release k (ad_gates s)) k))"
proof -
  let ?c = "ad_callers s ! i" and ?g = "gate_or_new (ad_gates s) (c_key (ad_callers s ! i))"
  have inv: "adm_inv C s" by (rule admission.inv_reach [OF assms(1)])
  have mem: "?c \<in> set (ad_callers s)" using assms(2) by simp
  with inv assms(3) have blocked: "w < sg_wake ?g \<or> (w = sg_wake ?g \<and> 1 \<le> sg_inflight ?g)"
    unfolding adm_inv_def by fastforce
  from inv mem assms(3) obtain g where g: "map_of (ad_gates s) (c_key ?c) = Some g"
    by (fastforce simp: adm_inv_def on_defs)
  have "sg_inflight ?g = count_if (held_on (c_key ?c)) (ad_callers s)"
    using inv by (simp add: adm_inv_def gate_agrees_def)
  with blocked show ?thesis
    using count_if_pos_iff [of "held_on (c_key ?c)" "ad_callers s"]
    by (auto simp: Let_def release_def gate_or_new_Some [OF g] g)
qed

theorem no_lost_wakeup_witness:
  "(\<exists>j < length (ad_callers state_ex). held_on key_ex (ad_callers state_ex ! j))
   \<and> c_pc (ad_callers state_ex ! 1) = Blocked 0"
proof -
  have h: "1 < length (ad_callers state_ex)" "c_pc (ad_callers state_ex ! 1) = Blocked 0"
      "c_key (ad_callers state_ex ! 1) = key_ex"
      "\<not> 0 < sg_wake (gate_or_new (ad_gates state_ex) key_ex)"
    by code_simp+
  from no_lost_wakeup [OF adm_run_reach [OF state_ex_run] h(1,2)] h show ?thesis
    by (simp add: Let_def)
qed

text \<open>After its first iteration a caller's exit is deterministic: a cancelled context wins over a
  closed router and both win over whatever the slot source answers. On its first iteration an
  ungoverned key passes even with a dead context, a dead context never reaches the gate of a
  governed key, and a closed router does not refuse a call.\<close>

theorem acquire_exit_priority:
  "acquire_top cap done c False =
     (if c_cancelled c then Leaving True (Some CtxErr)
      else if done then Leaving True (Some ErrRouterClosed)
      else if snd cap then HaveCap False (max 1 (fst cap))
      else Leaving False None)
   \<and> acquire_top cap done c True =
     (if snd cap then if c_cancelled c then Failed CtxErr else HaveCap True (max 1 (fst cap))
      else Passed)"
  by (cases cap) (auto simp: acquire_top_def post_queue_exit_def)

text \<open>The admission snapshot lists every gate exactly once, in strictly increasing order of
  provider and then model.\<close>

theorem snapshot_sorted:
  assumes "distinct (map fst gates)"
  shows "sorted_wrt (<) (map (\<lambda>i. (sai_Provider i, sai_Model i)) (snapshot Capacity gates))
    \<and> length (snapshot Capacity gates) = length gates
    \<and> (\<forall>(k, g) \<in> set gates. \<exists>i \<in> set (snapshot Capacity gates).
         sai_Provider i = mk_Provider k \<and> sai_Model i = mk_Model k \<and> sai_InFlight i = sg_inflight g)"
proof -
  let ?key = "\<lambda>i. (sai_Provider i, sai_Model i)" and ?infos = "map (slot_info Capacity) gates"
  have keys: "map ?key ?infos = map (\<lambda>k. (mk_Provider k, mk_Model k)) (map fst gates)"
    by (simp add: slot_info_def case_prod_unfold comp_def)
  have "inj (\<lambda>k::ModelKey. (mk_Provider k, mk_Model k))"
    by (auto intro!: injI)
  with assms have "distinct (map ?key ?infos)"
    unfolding keys by (simp add: distinct_map inj_on_def)
  then have "distinct (map ?key (snapshot Capacity gates))"
    unfolding snapshot_def by (simp only: distinct_map_sort_key)
  moreover have "sorted (map ?key (snapshot Capacity gates))" by (simp add: snapshot_def)
  ultimately have "sorted_wrt (<) (map ?key (snapshot Capacity gates))"
    by (simp add: strict_sorted_iff)
  moreover have "\<exists>i \<in> set (snapshot Capacity gates).
      sai_Provider i = mk_Provider k \<and> sai_Model i = mk_Model k \<and> sai_InFlight i = sg_inflight g"
    if "(k, g) \<in> set gates" for k g
  proof (rule bexI)
    show "slot_info Capacity (k, g) \<in> set (snapshot Capacity gates)"
      using that by (simp add: snapshot_def)
  qed (simp add: slot_info_def)
  moreover have "length (snapshot Capacity gates) = length gates" by (simp add: snapshot_def)
  ultimately show ?thesis by blast
qed

theorem snapshot_sorted_witness:
  "sorted_wrt (<) (map (\<lambda>i. (sai_Provider i, sai_Model i)) (snapshot (\<lambda>_. (2, True))
     [(\<lparr>mk_Provider = ''q'', mk_Model = ''a''\<rparr>, new_gate), (\<lparr>mk_Provider = ''p'', mk_Model = ''b''\<rparr>, new_gate)]))"
  using snapshot_sorted [of "[(\<lparr>mk_Provider = ''q'', mk_Model = ''a''\<rparr>, new_gate),
      (\<lparr>mk_Provider = ''p'', mk_Model = ''b''\<rparr>, new_gate)]" "\<lambda>_. (2, True)"]
  by simp

end
