(* ===== verification/Go_Int.thy ===== *)
theory Go_Int
  imports Prelude "HOL-Library.Word"
begin

text \<open>
  Wrap-around of Go's \<open>int\<close> on a 64-bit platform: \<open>wrap_int\<close> reads an integer modulo \<open>2 ^ 64\<close> into the
  signed range. Code that adds or subtracts plain ints is modelled with it at every operation, and the
  lemmas here move it outwards, so that a sum which wraps at every step is the wrap of the exact sum.
\<close>

definition wrap_int :: "int \<Rightarrow> int" where
  "wrap_int n = (n - MinInt) mod 18446744073709551616 + MinInt"

lemma wrap_int_range [simp, go_arith]: "is_int64 (wrap_int n)"
  using pos_mod_bound[of 18446744073709551616 "n - MinInt"] pos_mod_sign[of 18446744073709551616 "n - MinInt"]
  unfolding is_int64_def wrap_int_def MaxInt_def MinInt_def by linarith

lemma wrap_int_id [go_arith]: "is_int64 n \<Longrightarrow> wrap_int n = n"
  by (simp add: wrap_int_def is_int64_def MaxInt_def MinInt_def)

lemma wrap_int_nonneg [go_arith]: "0 \<le> n \<Longrightarrow> n \<le> MaxInt \<Longrightarrow> wrap_int n = n"
  by (rule wrap_int_id) (simp add: is_int64_def MinInt_def)

lemma wrap_int_fixed: "wrap_int n = n \<longleftrightarrow> is_int64 n"
  using wrap_int_range[of n] wrap_int_id by metis

lemma wrap_int_0 [simp]: "wrap_int 0 = 0"
  by (simp add: wrap_int_id)

lemma wrap_int_eq_iff: "wrap_int a = wrap_int b \<longleftrightarrow> a mod 18446744073709551616 = b mod 18446744073709551616"
  unfolding wrap_int_def by (simp add: mod_eq_dvd_iff)

lemma wrap_int_mod [simp]: "wrap_int n mod 18446744073709551616 = n mod 18446744073709551616"
  unfolding wrap_int_def by (simp add: mod_simps)

lemma wrap_int_add [simp]:
  "wrap_int (wrap_int a + b) = wrap_int (a + b)" "wrap_int (a + wrap_int b) = wrap_int (a + b)"
  unfolding wrap_int_eq_iff by (metis mod_add_left_eq wrap_int_mod) (metis mod_add_right_eq wrap_int_mod)

lemma wrap_int_diff [simp]:
  "wrap_int (wrap_int a - b) = wrap_int (a - b)" "wrap_int (a - wrap_int b) = wrap_int (a - b)"
  unfolding wrap_int_eq_iff by (metis mod_diff_left_eq wrap_int_mod) (metis mod_diff_right_eq wrap_int_mod)

lemma wrap_int_idem [simp]: "wrap_int (wrap_int n) = wrap_int n"
  by (simp add: wrap_int_id)

lemma wrap_int_add_cong: "wrap_int a = wrap_int a' \<Longrightarrow> wrap_int b = wrap_int b' \<Longrightarrow> wrap_int (a + b) = wrap_int (a' + b')"
  by (metis wrap_int_add)

lemma wrap_int_diff_cong: "wrap_int a = wrap_int a' \<Longrightarrow> wrap_int b = wrap_int b' \<Longrightarrow> wrap_int (a - b) = wrap_int (a' - b')"
  by (metis wrap_int_diff)

text \<open>The same, for the values of 64-bit words.\<close>

lemma sint_plus: "sint (a + b :: 64 word) = wrap_int (sint a + sint b)"
  unfolding wrap_int_def MinInt_def sint_word_ariths(1) signed_take_bit_eq_take_bit_shift take_bit_eq_mod by simp

lemma sint_int64: "is_int64 (sint (a :: 64 word))"
  using sint_range_size[of a] by (simp add: is_int64_def MinInt_def MaxInt_def word_size)

text \<open>An accumulating loop: wrapping at every step is wrapping once.\<close>

lemma wrap_int_sum: "foldl (\<lambda>n x. wrap_int (n + f x)) (wrap_int a) xs = wrap_int (a + (\<Sum>x\<leftarrow>xs. f x))"
proof (induction xs arbitrary: a)
  case (Cons x xs)
  have "foldl (\<lambda>n x. wrap_int (n + f x)) (wrap_int a) (x # xs) = foldl (\<lambda>n x. wrap_int (n + f x)) (wrap_int (a + f x)) xs" by simp
  then show ?case by (simp only: Cons.IH sum_list.Cons list.map add.assoc)
qed simp

lemma wrap_int_sum_0: "foldl (\<lambda>n x. wrap_int (n + f x)) 0 xs = wrap_int (\<Sum>x\<leftarrow>xs. f x)"
  using wrap_int_sum[of f 0 xs] by simp

lemma wrap_int_sum_cong: "(\<And>x. x \<in> set xs \<Longrightarrow> wrap_int (f x) = wrap_int (g x)) \<Longrightarrow> wrap_int (\<Sum>x\<leftarrow>xs. f x) = wrap_int (\<Sum>x\<leftarrow>xs. g x)"
  by (induction xs) (auto intro!: wrap_int_add_cong)

end
