(* ===== verification/Conversation_Trim.thy ===== *)
theory Conversation_Trim
  imports Go_Int
begin

text \<open>
  Trimming of stored conversations, \<open>conversation/trim.go\<close>: token costs, the tool-call chains of a
  transcript, \<open>TrimMessages\<close> (fit into a token budget) and \<open>TrimByExchanges\<close> (keep the last
  exchanges). A nil estimator makes \<open>TrimMessages\<close> panic, which is \<open>None\<close>. The index \<open>-1\<close> that the
  Go code uses for "no unresolved chain" is \<open>None\<close>. Costs are Go ints:
  every addition and subtraction wraps.
\<close>

record CMessage =
  cv_Role :: string
  cv_Content :: string
  cv_ToolCalls :: string
  cv_ToolName :: string
  cv_ToolCallID :: string

record TrimResult =
  tres_Messages :: "CMessage list"
  tres_TrimmedCount :: nat
  tres_EstimatedTokens :: int

type_synonym TokenEstimator = "string \<Rightarrow> int"

definition conv_messageCost :: "TokenEstimator \<Rightarrow> CMessage \<Rightarrow> int" where
  "conv_messageCost est m =
     (let cost = est (cv_Content m);
          cost = (if cv_ToolCalls m \<noteq> [] then wrap_int (cost + est (cv_ToolCalls m)) else cost);
          cost = (if cv_ToolName m \<noteq> [] then wrap_int (cost + est (cv_ToolName m)) else cost)
      in if cv_ToolCallID m \<noteq> [] then wrap_int (cost + est (cv_ToolCallID m)) else cost)"

record toolChain =
  ch_start :: nat
  ch_end :: nat
  ch_completed :: bool
  ch_cost :: int

definition opt_cost :: "TokenEstimator option \<Rightarrow> CMessage \<Rightarrow> int" where
  "opt_cost est m = (case est of Some e \<Rightarrow> conv_messageCost e m | None \<Rightarrow> 0)"

text \<open>The inner loop over the tool results that follow a call.\<close>

function tool_run :: "CMessage list \<Rightarrow> TokenEstimator option \<Rightarrow> nat \<Rightarrow> nat \<Rightarrow> int \<Rightarrow> nat \<times> nat \<times> int" where
  "tool_run msgs est j e cost =
     (if j < length msgs \<and> cv_Role (msgs ! j) = ''tool''
      then tool_run msgs est (j + 1) j (wrap_int (cost + opt_cost est (msgs ! j))) else (j, e, cost))"
  by pat_completeness auto
termination by (relation "measure (\<lambda>(msgs, est, j, e, cost). length msgs - j)") auto

declare tool_run.simps [simp del]

definition starts_chain :: "CMessage \<Rightarrow> bool" where
  "starts_chain m \<longleftrightarrow> cv_Role m = ''assistant'' \<and> cv_ToolCalls m \<noteq> []"

definition plain_answer :: "CMessage \<Rightarrow> bool" where
  "plain_answer m \<longleftrightarrow> cv_Role m = ''assistant'' \<and> cv_ToolCalls m = []"

lemma tool_run_bounds: "tool_run msgs est j e cost = (j', e', c) \<Longrightarrow> j \<le> j' \<and> (j \<le> length msgs \<longrightarrow> j' \<le> length msgs)"
proof (induction msgs est j e cost rule: tool_run.induct)
  case (1 msgs est j e cost)
  then show ?case by (subst (asm) (2) tool_run.simps) (auto split: if_splits)
qed

function chains_from :: "CMessage list \<Rightarrow> TokenEstimator option \<Rightarrow> nat \<Rightarrow> toolChain list" where
  "chains_from msgs est i =
     (if i < length msgs
      then if starts_chain (msgs ! i)
           then case tool_run msgs est (i + 1) i (opt_cost est (msgs ! i)) of (j, e, cost) \<Rightarrow>
                  \<lparr>ch_start = i, ch_end = e, ch_completed = (j < length msgs \<and> plain_answer (msgs ! j)), ch_cost = cost\<rparr>
                  # chains_from msgs est j
           else chains_from msgs est (i + 1)
      else [])"
  by pat_completeness auto
termination
  by (relation "measure (\<lambda>(msgs, est, i). length msgs - i)") (auto dest!: tool_run_bounds[OF sym])

declare chains_from.simps [simp del]

definition identifyToolChains :: "CMessage list \<Rightarrow> TokenEstimator option \<Rightarrow> toolChain list" where
  "identifyToolChains msgs est = chains_from msgs est 0"

section \<open>TrimMessages\<close>

text \<open>Scan down from \<open>n - 1\<close> for a user message.\<close>

fun last_user :: "CMessage list \<Rightarrow> nat \<Rightarrow> nat option" where
  "last_user msgs 0 = None"
| "last_user msgs (Suc k) = (if cv_Role (msgs ! k) = ''user'' then Some k else last_user msgs k)"

definition unresolvedProtectFrom :: "CMessage list \<Rightarrow> toolChain list \<Rightarrow> nat option" where
  "unresolvedProtectFrom ns chs =
     (if chs = [] \<or> ch_completed (last chs) then None
      else Some (case last_user ns (ch_start (last chs)) of Some t \<Rightarrow> t | None \<Rightarrow> ch_start (last chs)))"

definition protected_at :: "nat option \<Rightarrow> nat \<Rightarrow> bool" where
  "protected_at p i = (case p of Some k \<Rightarrow> k \<le> i | None \<Rightarrow> False)"

definition set_range :: "bool list \<Rightarrow> nat \<Rightarrow> nat \<Rightarrow> bool \<Rightarrow> bool list" where
  "set_range keep a b v = map (\<lambda>i. if a \<le> i \<and> i \<le> b then v else keep ! i) [0..<length keep]"

fun tier1 :: "int \<Rightarrow> toolChain list \<Rightarrow> bool list \<times> int \<Rightarrow> bool list \<times> int" where
  "tier1 budget [] (keep, cost) = (keep, cost)"
| "tier1 budget (c # cs) (keep, cost) =
     (if cost \<le> budget then (keep, cost)
      else if \<not> ch_completed c then tier1 budget cs (keep, cost)
      else tier1 budget cs (set_range keep (ch_start c) (ch_end c) False, wrap_int (cost - ch_cost c)))"

function tier2 :: "TokenEstimator \<Rightarrow> CMessage list \<Rightarrow> nat option \<Rightarrow> int \<Rightarrow> nat \<Rightarrow> bool list \<times> int \<Rightarrow> bool list \<times> int" where
  "tier2 est ns p budget i (keep, cost) =
     (if i < length ns \<and> cost > budget
      then if \<not> keep ! i then tier2 est ns p budget (i + 1) (keep, cost)
           else if protected_at p i then tier2 est ns p budget (i + 1) (keep, cost)
           else tier2 est ns p budget (i + 1) (keep[i := False], wrap_int (cost - conv_messageCost est (ns ! i)))
      else (keep, cost))"
  by pat_completeness auto
termination by (relation "measure (\<lambda>(est, ns, p, budget, i, kc). length ns - i)") auto

declare tier2.simps [simp del]

function first_user_rule :: "CMessage list \<Rightarrow> nat option \<Rightarrow> nat \<Rightarrow> bool list \<Rightarrow> bool list" where
  "first_user_rule ns p i keep =
     (if i < length ns
      then if \<not> keep ! i then first_user_rule ns p (i + 1) keep
           else if cv_Role (ns ! i) = ''user'' then keep
           else if protected_at p i then keep
           else first_user_rule ns p (i + 1) (keep[i := False])
      else keep)"
  by pat_completeness auto
termination by (relation "measure (\<lambda>(ns, p, i, keep). length ns - i)") auto

declare first_user_rule.simps [simp del]

definition atomic_chains :: "toolChain list \<Rightarrow> bool list \<Rightarrow> bool list" where
  "atomic_chains chs keep =
     foldl (\<lambda>keep c. set_range keep (ch_start c) (ch_end c) (keep ! ch_start c)) keep chs"

definition ensure_one :: "CMessage list \<Rightarrow> bool list \<Rightarrow> bool list" where
  "ensure_one ns keep =
     (if \<not> (\<exists>k \<in> set keep. k) \<and> length ns > 0
      then keep[(case last_user ns (length ns) of Some j \<Rightarrow> j | None \<Rightarrow> length ns - 1) := True]
      else keep)"

definition trim_keep :: "TokenEstimator \<Rightarrow> CMessage list \<Rightarrow> int \<Rightarrow> bool list" where
  "trim_keep est ns budget =
     (let keep = replicate (length ns) True;
          currentCost = foldl (\<lambda>c m. wrap_int (c + conv_messageCost est m)) 0 ns;
          chs = identifyToolChains ns (Some est);
          p = unresolvedProtectFrom ns chs;
          (keep, currentCost) =
            (if currentCost > budget
             then tier2 est ns p budget 0 (tier1 budget chs (keep, currentCost))
             else (keep, currentCost))
      in ensure_one ns (atomic_chains chs (first_user_rule ns p 0 keep)))"

text \<open>The result loop, which consumes the mask at every non-system message.\<close>

fun build_result :: "TokenEstimator \<Rightarrow> CMessage list \<Rightarrow> bool list \<Rightarrow> int \<Rightarrow> CMessage list \<times> nat \<times> int" where
  "build_result est [] keep keptCost = ([], 0, keptCost)"
| "build_result est (m # ms) keep keptCost =
     (if cv_Role m = ''system''
      then case build_result est ms keep keptCost of (r, t, c) \<Rightarrow> (m # r, t, c)
      else if hd keep
           then case build_result est ms (tl keep) (wrap_int (keptCost + conv_messageCost est m)) of (r, t, c) \<Rightarrow> (m # r, t, c)
           else case build_result est ms (tl keep) keptCost of (r, t, c) \<Rightarrow> (r, t + 1, c))"

definition TrimMessages :: "CMessage list \<Rightarrow> int \<Rightarrow> TokenEstimator option \<Rightarrow> TrimResult option" where
  "TrimMessages msgs maxTokens estimator =
     (case estimator of
        None \<Rightarrow> None
      | Some est \<Rightarrow>
          if msgs = [] then Some \<lparr>tres_Messages = [], tres_TrimmedCount = 0, tres_EstimatedTokens = 0\<rparr>
          else let systemMsgs = filter (\<lambda>m. cv_Role m = ''system'') msgs;
                   nonSystem = filter (\<lambda>m. cv_Role m \<noteq> ''system'') msgs;
                   systemCost = foldl (\<lambda>c m. wrap_int (c + conv_messageCost est m)) 0 systemMsgs
               in if nonSystem = []
                  then Some \<lparr>tres_Messages = systemMsgs, tres_TrimmedCount = 0, tres_EstimatedTokens = systemCost\<rparr>
                  else let budget = wrap_int (maxTokens - systemCost);
                           budget = (if budget < 0 then 0 else budget);
                           keep = trim_keep est nonSystem budget;
                           (result, trimmed, keptCost) = build_result est msgs keep systemCost
                       in Some \<lparr>tres_Messages = result, tres_TrimmedCount = trimmed, tres_EstimatedTokens = keptCost\<rparr>)"

section \<open>TrimByExchanges\<close>

text \<open>\<open>resolvedEnd\<close>: down from the unresolved chain to just before the user message that opened it.\<close>

fun resolved_end :: "CMessage list \<Rightarrow> nat \<Rightarrow> nat" where
  "resolved_end ns 0 = 0"
| "resolved_end ns (Suc k) = (if cv_Role (ns ! k) \<noteq> ''user'' then resolved_end ns k else k)"

text \<open>The inner loop of the exchange scan: the answer that closes the exchange, if there is one.\<close>

function find_answer :: "CMessage list \<Rightarrow> nat \<Rightarrow> nat \<Rightarrow> nat option" where
  "find_answer ns resolvedEnd j =
     (if j < resolvedEnd then if plain_answer (ns ! j) then Some j else find_answer ns resolvedEnd (j + 1) else None)"
  by pat_completeness auto
termination by (relation "measure (\<lambda>(ns, r, j). r - j)") auto

declare find_answer.simps [simp del]

lemma find_answer_bounds: "find_answer ns r j = Some k \<Longrightarrow> j \<le> k \<and> k < r"
proof (induction ns r j rule: find_answer.induct)
  case (1 ns r j)
  then show ?case by (subst (asm) (2) find_answer.simps) (auto split: if_splits)
qed

function exchanges_from :: "CMessage list \<Rightarrow> nat \<Rightarrow> nat \<Rightarrow> (nat \<times> nat) list" where
  "exchanges_from ns resolvedEnd i =
     (if i < resolvedEnd
      then if cv_Role (ns ! i) \<noteq> ''user'' then exchanges_from ns resolvedEnd (i + 1)
           else case find_answer ns resolvedEnd (i + 1) of
                  Some j \<Rightarrow> (i, j) # exchanges_from ns resolvedEnd (j + 1)
                | None \<Rightarrow> []
      else [])"
  by pat_completeness auto
termination by (relation "measure (\<lambda>(ns, r, i). r - i)") (auto dest: find_answer_bounds)

declare exchanges_from.simps [simp del]

definition exchange_keep :: "CMessage list \<Rightarrow> int \<Rightarrow> bool list" where
  "exchange_keep ns maxExchanges =
     (let chs = identifyToolChains ns None;
          unresolvedStart = (if chs = [] \<or> ch_completed (last chs) then None else Some (ch_start (last chs)));
          resolvedEnd = (case unresolvedStart of None \<Rightarrow> length ns | Some u \<Rightarrow> resolved_end ns u);
          exchanges = exchanges_from ns resolvedEnd 0;
          keepFrom = (if maxExchanges \<ge> 0 \<and> maxExchanges < int (length exchanges)
                      then length exchanges - nat maxExchanges else 0);
          keep = foldl (\<lambda>keep (s, e). set_range keep s e True) (replicate (length ns) False) (drop keepFrom exchanges)
      in case unresolvedStart of
           None \<Rightarrow> keep
         | Some u \<Rightarrow> set_range keep (case last_user ns u of Some t \<Rightarrow> t | None \<Rightarrow> u) (length ns) True)"

text \<open>The mask over all messages: system messages are always kept.\<close>

fun merge_keep :: "CMessage list \<Rightarrow> bool list \<Rightarrow> bool list" where
  "merge_keep [] keep = []"
| "merge_keep (m # ms) keep =
     (if cv_Role m = ''system'' then True # merge_keep ms keep else hd keep # merge_keep ms (tl keep))"

definition trimByExchangesKeep :: "CMessage list \<Rightarrow> int \<Rightarrow> bool list" where
  "trimByExchangesKeep msgs maxExchanges =
     merge_keep msgs (exchange_keep (filter (\<lambda>m. cv_Role m \<noteq> ''system'') msgs) maxExchanges)"

definition TrimByExchanges :: "CMessage list \<Rightarrow> int \<Rightarrow> TrimResult" where
  "TrimByExchanges msgs maxExchanges =
     (if msgs = [] then \<lparr>tres_Messages = [], tres_TrimmedCount = 0, tres_EstimatedTokens = 0\<rparr>
      else let keep = trimByExchangesKeep msgs maxExchanges
           in \<lparr>tres_Messages = masked keep msgs, tres_TrimmedCount = length (filter (\<lambda>k. \<not> k) keep), tres_EstimatedTokens = 0\<rparr>)"

section \<open>Structure of chains\<close>

text \<open>
  The chains found from an index on are ordered and disjoint; each is an assistant message with calls
  followed by tool results only; one that reaches the end of the transcript is the last and is not completed.
\<close>

definition chain_ok :: "CMessage list \<Rightarrow> toolChain \<Rightarrow> bool" where
  "chain_ok ns c \<longleftrightarrow> ch_start c \<le> ch_end c \<and> ch_end c < length ns \<and> cv_Role (ns ! ch_start c) = ''assistant''
     \<and> (\<forall>k. ch_start c < k \<and> k \<le> ch_end c \<longrightarrow> cv_Role (ns ! k) = ''tool'')
     \<and> (ch_completed c \<longrightarrow> Suc (ch_end c) < length ns)"

fun chains_ok :: "CMessage list \<Rightarrow> nat \<Rightarrow> toolChain list \<Rightarrow> bool" where
  "chains_ok ns i [] = True"
| "chains_ok ns i (c # cs) \<longleftrightarrow> i \<le> ch_start c \<and> chain_ok ns c \<and> chains_ok ns (Suc (ch_end c)) cs"

lemma chains_ok_mono: "chains_ok ns j cs \<Longrightarrow> i \<le> j \<Longrightarrow> chains_ok ns i cs"
  by (cases cs) auto

lemma tool_run_ok:
  "tool_run ns est j e cost = (j', e', c) \<Longrightarrow> Suc e = j \<Longrightarrow>
   Suc e' = j' \<and> e \<le> e' \<and> (\<forall>k. e < k \<and> k \<le> e' \<longrightarrow> k < length ns \<and> cv_Role (ns ! k) = ''tool'')
   \<and> wrap_int c = wrap_int (cost + (\<Sum>k = j..e'. opt_cost est (ns ! k)))"
proof (induction ns est j e cost rule: tool_run.induct)
  case (1 ns est j e cost)
  show ?case
  proof (cases "j < length ns \<and> cv_Role (ns ! j) = ''tool''")
    case True
    with "1.prems"(1) have rec: "tool_run ns est (j + 1) j (wrap_int (cost + opt_cost est (ns ! j))) = (j', e', c)"
      by (subst (asm) tool_run.simps) simp
    from "1.IH"[OF True rec] have IH: "Suc e' = j'" "j \<le> e'" "\<forall>k. j < k \<and> k \<le> e' \<longrightarrow> k < length ns \<and> cv_Role (ns ! k) = ''tool''"
      "wrap_int c = wrap_int (cost + opt_cost est (ns ! j) + (\<Sum>k = j + 1..e'. opt_cost est (ns ! k)))" by simp_all
    have "(\<Sum>k = j..e'. opt_cost est (ns ! k)) = opt_cost est (ns ! j) + (\<Sum>k = j + 1..e'. opt_cost est (ns ! k))"
      using IH(2) by (simp add: sum.atLeast_Suc_atMost)
    moreover have "k < length ns \<and> cv_Role (ns ! k) = ''tool''" if "e < k" "k \<le> e'" for k
      using IH(3) True that "1.prems"(2) by (cases "k = j") auto
    ultimately show ?thesis using IH "1.prems"(2) by (simp add: add.assoc)
  next
    case False
    with "1.prems" show ?thesis by (auto simp: tool_run.simps[of ns est j])
  qed
qed

lemma chains_from_ok:
  "chains_ok ns i (chains_from ns est i)
   \<and> (\<forall>c \<in> set (chains_from ns est i). wrap_int (ch_cost c) = wrap_int (\<Sum>k = ch_start c..ch_end c. opt_cost est (ns ! k)))"
proof (induction ns est i rule: chains_from.induct)
  case (1 ns est i)
  show ?case
  proof (cases "i < length ns \<and> starts_chain (ns ! i)")
    case True
    obtain j e cost where run: "tool_run ns est (i + 1) i (opt_cost est (ns ! i)) = (j, e, cost)" by (metis prod.exhaust)
    from tool_run_ok[OF run] have r: "Suc e = j" "i \<le> e" "\<forall>k. i < k \<and> k \<le> e \<longrightarrow> k < length ns \<and> cv_Role (ns ! k) = ''tool''"
      "wrap_int cost = wrap_int (\<Sum>k = i..e. opt_cost est (ns ! k))" by (auto simp: sum.atLeast_Suc_atMost)
    have e: "e < length ns" using r(2,3) True by (cases "e = i") auto
    let ?c = "\<lparr>ch_start = i, ch_end = e, ch_completed = (j < length ns \<and> plain_answer (ns ! j)), ch_cost = cost\<rparr>"
    have eq: "chains_from ns est i = ?c # chains_from ns est j" by (subst chains_from.simps) (simp add: True run[simplified])
    have "chain_ok ns ?c" using r True e by (auto simp: chain_ok_def starts_chain_def)
    moreover have "chains_ok ns j (chains_from ns est j)
        \<and> (\<forall>c \<in> set (chains_from ns est j). wrap_int (ch_cost c) = wrap_int (\<Sum>k = ch_start c..ch_end c. opt_cost est (ns ! k)))"
      using "1.IH"(1) True run by auto
    ultimately show ?thesis using eq r by simp
  next
    case False
    with 1 show ?thesis
      by (subst (1 2) chains_from.simps) (auto intro: chains_ok_mono)
  qed
qed

lemma chains_ok_member: "chains_ok ns i cs \<Longrightarrow> c \<in> set cs \<Longrightarrow> i \<le> ch_start c \<and> chain_ok ns c"
  by (induction cs arbitrary: i) (fastforce simp: chain_ok_def)+

lemma chains_ok_last:
  assumes "chains_ok ns i cs" and "c \<in> set cs" and "ch_end c = length ns - 1" and "ns \<noteq> []"
  shows "c = last cs \<and> \<not> ch_completed c"
  using assms
proof (induction cs arbitrary: i)
  case (Cons d cs)
  show ?case
  proof (cases "c \<in> set cs")
    case True
    then show ?thesis using Cons by auto
  next
    case False
    then have "c = d" using Cons.prems(2) by simp
    moreover have "cs = []"
    proof (rule ccontr)
      assume "cs \<noteq> []"
      then obtain x where "x \<in> set cs" by (cases cs) auto
      with Cons.prems(1) chains_ok_member[of ns "Suc (ch_end d)" cs x] have "Suc (ch_end d) \<le> ch_start x" "ch_start x < length ns"
        by (auto simp: chain_ok_def)
      with Cons.prems(3,4) \<open>c = d\<close> show False by simp
    qed
    ultimately show ?thesis using Cons.prems by (auto simp: chain_ok_def)
  qed
qed simp

section \<open>Masks\<close>

lemma length_set_range [simp]: "length (set_range keep a b v) = length keep"
  by (simp add: set_range_def)

lemma nth_set_range [simp]: "i < length keep \<Longrightarrow> set_range keep a b v ! i = (if a \<le> i \<and> i \<le> b then v else keep ! i)"
  by (simp add: set_range_def)

definition in_chain :: "toolChain \<Rightarrow> nat \<Rightarrow> bool" where
  "in_chain c i \<longleftrightarrow> ch_start c \<le> i \<and> i \<le> ch_end c"

lemma chains_ok_disjoint:
  "chains_ok ns i cs \<Longrightarrow> c \<in> set cs \<Longrightarrow> d \<in> set cs \<Longrightarrow> in_chain c k \<Longrightarrow> in_chain d k \<Longrightarrow> c = d"
proof (induction cs arbitrary: i)
  case (Cons x cs)
  have "\<not> in_chain y k" if "y \<in> set cs" "in_chain x k" for y
    using Cons.prems(1) that chains_ok_member[of ns "Suc (ch_end x)" cs y] by (auto simp: in_chain_def)
  with Cons show ?case by auto
qed simp

lemma atomic_chains_snoc [simp]:
  "atomic_chains (cs @ [c]) keep =
   set_range (atomic_chains cs keep) (ch_start c) (ch_end c) (atomic_chains cs keep ! ch_start c)"
  by (simp add: atomic_chains_def)

lemma length_atomic [simp]: "length (atomic_chains cs keep) = length keep"
  by (induction cs rule: rev_induct) (simp_all add: atomic_chains_def[of "[]"])

text \<open>After the pass every chain has one flag, that of its assistant message; the rest is unchanged.\<close>

lemma atomic_chains_nth:
  assumes "chains_ok ns 0 cs" and "length keep = length ns" and "k < length ns"
  shows "((\<forall>c \<in> set cs. \<not> in_chain c k) \<longrightarrow> atomic_chains cs keep ! k = keep ! k)
    \<and> (\<forall>c \<in> set cs. in_chain c k \<longrightarrow> atomic_chains cs keep ! k = keep ! ch_start c)"
proof -
  have "\<lbrakk>set ds \<subseteq> set cs; k < length ns\<rbrakk> \<Longrightarrow> ((\<forall>c \<in> set ds. \<not> in_chain c k) \<longrightarrow> atomic_chains ds keep ! k = keep ! k)
      \<and> (\<forall>c \<in> set ds. in_chain c k \<longrightarrow> atomic_chains ds keep ! k = keep ! ch_start c)" for ds k
  proof (induction ds arbitrary: k rule: rev_induct)
    case Nil
    then show ?case by (simp add: atomic_chains_def)
  next
    case (snoc c ds)
    have c: "c \<in> set cs" "set ds \<subseteq> set cs" "chain_ok ns c" using snoc.prems chains_ok_member[OF assms(1)] by auto
    then have st: "ch_start c < length ns" "in_chain c (ch_start c)" by (auto simp: chain_ok_def in_chain_def)
    have start: "atomic_chains ds keep ! ch_start c = keep ! ch_start c"
    proof (cases "\<exists>d \<in> set ds. in_chain d (ch_start c)")
      case True
      then obtain d where d: "d \<in> set ds" "in_chain d (ch_start c)" by blast
      with chains_ok_disjoint[OF assms(1), of d c] c st have "d = c" by auto
      with snoc.IH[OF c(2) st(1)] d show ?thesis by auto
    next
      case False
      with snoc.IH[OF c(2) st(1)] show ?thesis by simp
    qed
    have "d = c" if "d \<in> set ds" "in_chain d k" "in_chain c k" for d
      using chains_ok_disjoint[OF assms(1), of d c k] c that by auto
    then show ?case
      using snoc.IH[OF c(2) snoc.prems(2)] start snoc.prems(2) assms(2) c(1) by (auto simp: in_chain_def)
  qed
  from this[of cs k] assms(3) show ?thesis by simp
qed

lemma atomic_chains_in:
  assumes "chains_ok ns 0 cs" and "length keep = length ns" and "c \<in> set cs" and "in_chain c k"
  shows "atomic_chains cs keep ! k = keep ! ch_start c"
proof -
  have "k < length ns" using assms chains_ok_member[OF assms(1,3)] by (auto simp: chain_ok_def in_chain_def)
  then show ?thesis using atomic_chains_nth[OF assms(1,2)] assms(3,4) by blast
qed

section \<open>The stages of \<open>TrimMessages\<close>\<close>

definition sub_mask :: "bool list \<Rightarrow> bool list \<Rightarrow> bool" where
  "sub_mask a b \<longleftrightarrow> length a = length b \<and> (\<forall>i < length b. a ! i \<longrightarrow> b ! i)"

lemma sub_mask_refl [simp]: "sub_mask a a"
  by (simp add: sub_mask_def)

lemma sub_mask_trans: "sub_mask a b \<Longrightarrow> sub_mask b c \<Longrightarrow> sub_mask a c"
  by (auto simp: sub_mask_def)

definition mask_cost :: "TokenEstimator \<Rightarrow> CMessage list \<Rightarrow> bool list \<Rightarrow> int" where
  "mask_cost est ns keep = (\<Sum>i<length ns. if keep ! i then conv_messageCost est (ns ! i) else 0)"

text \<open>Only completed chains and unprotected messages are ever dropped.\<close>

definition tail_kept :: "CMessage list \<Rightarrow> toolChain list \<Rightarrow> bool list \<Rightarrow> bool" where
  "tail_kept ns cs keep \<longleftrightarrow> (\<forall>i < length ns. protected_at (unresolvedProtectFrom ns cs) i \<longrightarrow>
     keep ! i \<or> (\<exists>c \<in> set cs. ch_completed c \<and> in_chain c i))"

text \<open>A chain loses its assistant message first.\<close>

definition front_first :: "toolChain list \<Rightarrow> bool list \<Rightarrow> bool" where
  "front_first cs keep \<longleftrightarrow> (\<forall>c \<in> set cs. \<forall>k. in_chain c k \<longrightarrow> keep ! ch_start c \<longrightarrow> keep ! k)"

lemma mask_cost_drop_one:
  assumes "i < length ns" and "length keep = length ns" and "keep ! i"
  shows "mask_cost est ns (keep[i := False]) = mask_cost est ns keep - conv_messageCost est (ns ! i)"
proof -
  let ?f = "\<lambda>keep j. if keep ! j then conv_messageCost est (ns ! j) else (0 :: int)"
  have "mask_cost est ns keep = ?f keep i + (\<Sum>j \<in> {..<length ns} - {i}. ?f keep j)" for keep
    using assms(1) unfolding mask_cost_def by (intro sum.remove) auto
  moreover have "(\<Sum>j \<in> {..<length ns} - {i}. ?f (keep[i := False]) j) = (\<Sum>j \<in> {..<length ns} - {i}. ?f keep j)"
    by (intro sum.cong) auto
  ultimately show ?thesis using assms by simp
qed

lemma mask_cost_drop_chain:
  assumes "chain_ok ns c" and "length keep = length ns" and "\<forall>k. in_chain c k \<longrightarrow> keep ! k"
  shows "mask_cost est ns (set_range keep (ch_start c) (ch_end c) False)
    = mask_cost est ns keep - (\<Sum>k = ch_start c..ch_end c. conv_messageCost est (ns ! k))"
proof -
  let ?f = "\<lambda>keep j. if keep ! j then conv_messageCost est (ns ! j) else (0 :: int)"
  let ?R = "{ch_start c..ch_end c}"
  have sub: "?R \<subseteq> {..<length ns}" using assms(1) by (auto simp: chain_ok_def)
  have split: "mask_cost est ns keep = (\<Sum>j \<in> {..<length ns} - ?R. ?f keep j) + (\<Sum>j \<in> ?R. ?f keep j)" for keep
    unfolding mask_cost_def using sub by (intro sum.subset_diff) auto
  let ?k = "set_range keep (ch_start c) (ch_end c) False"
  have "(\<Sum>j \<in> {..<length ns} - ?R. ?f ?k j) = (\<Sum>j \<in> {..<length ns} - ?R. ?f keep j)"
    using assms(2) by (intro sum.cong) auto
  moreover have "(\<Sum>j \<in> ?R. ?f ?k j) = 0" using assms(2) sub by (intro sum.neutral) auto
  moreover have "(\<Sum>j \<in> ?R. ?f keep j) = (\<Sum>j \<in> ?R. conv_messageCost est (ns ! j))"
    using assms(3) by (intro sum.cong) (auto simp: in_chain_def)
  ultimately show ?thesis using split[of keep] split[of ?k] by simp
qed

lemma mask_cost_mono:
  assumes "\<forall>m \<in> set ns. 0 \<le> conv_messageCost est m" and "sub_mask a b" and "length b = length ns"
  shows "mask_cost est ns a \<le> mask_cost est ns b"
  unfolding mask_cost_def using assms by (intro sum_mono) (auto simp: sub_mask_def)

text \<open>Costs that a mask sums exactly: none is negative, and the whole sum is a Go int.\<close>

definition costs_fit :: "TokenEstimator \<Rightarrow> CMessage list \<Rightarrow> bool" where
  "costs_fit est ns \<longleftrightarrow> (\<forall>m \<in> set ns. 0 \<le> conv_messageCost est m) \<and> (\<Sum>m\<leftarrow>ns. conv_messageCost est m) \<le> MaxInt"

lemma mask_cost_bounds:
  assumes "costs_fit est ns" and "length keep = length ns"
  shows "0 \<le> mask_cost est ns keep" and "mask_cost est ns keep \<le> (\<Sum>m\<leftarrow>ns. conv_messageCost est m)"
proof -
  have "mask_cost est ns keep \<le> mask_cost est ns (replicate (length ns) True)"
    using assms by (intro mask_cost_mono) (auto simp: costs_fit_def sub_mask_def)
  also have "\<dots> = (\<Sum>m\<leftarrow>ns. conv_messageCost est m)" by (simp add: mask_cost_def sum_list_sum_nth atLeast0LessThan)
  finally show "mask_cost est ns keep \<le> (\<Sum>m\<leftarrow>ns. conv_messageCost est m)" .
  show "0 \<le> mask_cost est ns keep" using assms(1) by (auto simp: mask_cost_def costs_fit_def intro!: sum_nonneg)
qed

lemma wrap_mask_cost: "costs_fit est ns \<Longrightarrow> length keep = length ns \<Longrightarrow> wrap_int (mask_cost est ns keep) = mask_cost est ns keep"
  using mask_cost_bounds[of est ns keep] by (intro wrap_int_nonneg) (auto simp: costs_fit_def)

definition drops_chains :: "CMessage list \<Rightarrow> toolChain list \<Rightarrow> bool list \<Rightarrow> bool list \<Rightarrow> bool" where
  "drops_chains ns cs keep keep' \<longleftrightarrow> length keep' = length ns \<and> sub_mask keep' keep
     \<and> (\<forall>k < length ns. keep ! k \<longrightarrow> keep' ! k \<or> (\<exists>c \<in> set cs. ch_completed c \<and> in_chain c k))
     \<and> (\<forall>c \<in> set cs. \<forall>k. in_chain c k \<longrightarrow> keep' ! k = keep' ! ch_start c)"

lemma tier1_spec:
  assumes "tier1 budget cs (keep, cost) = (keep', cost')"
    and "chains_ok ns j cs" and "length keep = length ns" and "cost = wrap_int (mask_cost est ns keep)"
    and "\<forall>k. j \<le> k \<and> k < length ns \<longrightarrow> keep ! k"
    and "\<forall>c \<in> set cs. wrap_int (ch_cost c) = wrap_int (\<Sum>k = ch_start c..ch_end c. conv_messageCost est (ns ! k))"
  shows "drops_chains ns cs keep keep' \<and> cost' = wrap_int (mask_cost est ns keep')"
  using assms
proof (induction cs arbitrary: keep cost j)
  case Nil
  then show ?case by (auto simp: drops_chains_def)
next
  case (Cons c cs)
  have c: "chain_ok ns c" "j \<le> ch_start c" "chains_ok ns (Suc (ch_end c)) cs" using Cons.prems(2) by auto
  have range: "in_chain c k \<Longrightarrow> k < length ns" for k using c(1) by (auto simp: chain_ok_def in_chain_def)
  have later: "\<not> in_chain d k" if "d \<in> set cs" "in_chain c k" for d k
    using chains_ok_member[OF c(3) that(1)] that(2) by (auto simp: in_chain_def)
  have start: "in_chain c (ch_start c)" using c(1) by (auto simp: chain_ok_def in_chain_def)
  have kept: "in_chain c k \<Longrightarrow> keep ! k" for k using Cons.prems(5) c(2) range[of k] by (auto simp: in_chain_def)
  consider (stop) "cost \<le> budget" | (skip) "\<not> cost \<le> budget" "\<not> ch_completed c" | (drop) "\<not> cost \<le> budget" "ch_completed c"
    by blast
  then show ?case
  proof cases
    case stop
    then have eq: "keep' = keep" "cost' = cost" using Cons.prems(1) by auto
    have "keep ! k" if "d \<in> set (c # cs)" "in_chain d k" for d k
      using Cons.prems(5) chains_ok_member[OF Cons.prems(2) that(1)] that(2) by (auto simp: chain_ok_def in_chain_def)
    moreover have "in_chain d (ch_start d)" if "d \<in> set (c # cs)" for d
      using chains_ok_member[OF Cons.prems(2) that] by (auto simp: chain_ok_def in_chain_def)
    ultimately show ?thesis using Cons.prems(3,4) eq unfolding drops_chains_def by (metis sub_mask_refl)
  next
    case skip
    have rec: "tier1 budget cs (keep, cost) = (keep', cost')" using Cons.prems(1) skip by simp
    have IH: "drops_chains ns cs keep keep' \<and> cost' = wrap_int (mask_cost est ns keep')"
      using Cons.IH[OF rec c(3) Cons.prems(3,4)] Cons.prems(5,6) c(1,2) by (simp add: chain_ok_def)
    then have "keep' ! k" if "in_chain c k" for k
      using that range kept later unfolding drops_chains_def by blast
    then show ?thesis using IH start unfolding drops_chains_def by (metis set_ConsD list.set_intros(2))
  next
    case drop
    let ?keep = "set_range keep (ch_start c) (ch_end c) False"
    have rec: "tier1 budget cs (?keep, wrap_int (cost - ch_cost c)) = (keep', cost')" using Cons.prems(1) drop by simp
    have cost: "wrap_int (cost - ch_cost c) = wrap_int (mask_cost est ns ?keep)"
      using mask_cost_drop_chain[OF c(1) Cons.prems(3)] kept Cons.prems(4,6) by (auto intro!: wrap_int_diff_cong)
    have IH: "drops_chains ns cs ?keep keep' \<and> cost' = wrap_int (mask_cost est ns keep')"
      using Cons.IH[OF rec c(3) _ cost] Cons.prems(3,5,6) c(1,2) by (simp add: chain_ok_def)
    have at: "?keep ! k = (\<not> in_chain c k \<and> keep ! k)" if "k < length ns" for k
      using that Cons.prems(3) by (auto simp: in_chain_def)
    have none: "\<not> keep' ! k" if "in_chain c k" for k
      using IH at range that Cons.prems(3) unfolding drops_chains_def sub_mask_def by auto
    have "keep' ! k \<or> (\<exists>d \<in> set (c # cs). ch_completed d \<and> in_chain d k)" if "k < length ns" "keep ! k" for k
      using IH at[OF that(1)] that drop(2) unfolding drops_chains_def by auto
    moreover have "sub_mask keep' keep" using IH at Cons.prems(3) unfolding drops_chains_def sub_mask_def by simp
    ultimately show ?thesis using IH none start unfolding drops_chains_def by (metis set_ConsD)
  qed
qed

text \<open>A pass from the front: whatever it drops is unprotected, and nothing unprotected before it stays.\<close>

definition front_pass :: "nat option \<Rightarrow> bool list \<Rightarrow> bool list \<Rightarrow> bool" where
  "front_pass p keep keep' \<longleftrightarrow> sub_mask keep' keep \<and> (\<forall>k < length keep. keep ! k \<and> \<not> keep' ! k \<longrightarrow>
     \<not> protected_at p k \<and> (\<forall>j \<le> k. keep' ! j \<longrightarrow> protected_at p j))"

lemma protected_mono: "protected_at p i \<Longrightarrow> i \<le> j \<Longrightarrow> protected_at p j"
  by (auto simp: protected_at_def split: option.splits)

lemma front_pass_first:
  assumes "front_pass p keep keep'" and "front_first cs keep" and "\<And>c. c \<in> set cs \<Longrightarrow> ch_end c < length keep"
  shows "front_first cs keep'"
  unfolding front_first_def
proof (intro ballI allI impI)
  fix c k assume c: "c \<in> set cs" "in_chain c k" "keep' ! ch_start c"
  have k: "k < length keep" "ch_start c \<le> k" using assms(3)[OF c(1)] c(2) by (auto simp: in_chain_def)
  with assms(1) c(3) have "keep ! ch_start c" by (auto simp: front_pass_def sub_mask_def)
  then have "keep ! k" using assms(2) c by (auto simp: front_first_def)
  show "keep' ! k"
  proof (rule ccontr)
    assume "\<not> keep' ! k"
    with assms(1) k(1) \<open>keep ! k\<close> have "\<not> protected_at p k" "\<forall>j \<le> k. keep' ! j \<longrightarrow> protected_at p j"
      by (auto simp: front_pass_def)
    with c(3) k(2) protected_mono show False by blast
  qed
qed

lemma front_pass_step:
  assumes "front_pass p (keep[i := False]) keep'" and "i < length keep" and "\<not> protected_at p i"
    and none: "\<And>j. j \<le> i \<Longrightarrow> keep' ! j \<Longrightarrow> protected_at p j"
  shows "front_pass p keep keep'"
proof -
  have "length keep' = length keep" "\<forall>j < length keep. keep' ! j \<longrightarrow> keep[i := False] ! j"
    using assms(1) by (auto simp: front_pass_def sub_mask_def)
  then have "sub_mask keep' keep" using assms(2) by (auto simp: sub_mask_def nth_list_update split: if_splits)
  moreover have "\<not> protected_at p k \<and> (\<forall>j \<le> k. keep' ! j \<longrightarrow> protected_at p j)"
    if "k < length keep" "keep ! k" "\<not> keep' ! k" for k
  proof (cases "k = i")
    case True
    then show ?thesis using assms(3) none by auto
  next
    case False
    then show ?thesis using assms(1,2) that by (auto simp: front_pass_def)
  qed
  ultimately show ?thesis by (simp add: front_pass_def)
qed

lemma front_pass_tail: "front_pass p keep keep' \<Longrightarrow> k < length keep \<Longrightarrow> protected_at p k \<Longrightarrow> keep' ! k = keep ! k"
  by (auto simp: front_pass_def sub_mask_def)

lemma tier2_spec:
  assumes "tier2 est ns p budget i (keep, cost) = (keep', cost')" and "length keep = length ns"
    and "cost = wrap_int (mask_cost est ns keep)" and "\<forall>k < i. k < length ns \<and> keep ! k \<longrightarrow> protected_at p k"
  shows "front_pass p keep keep' \<and> cost' = wrap_int (mask_cost est ns keep')
    \<and> (cost' \<le> budget \<or> (\<forall>k < length ns. keep' ! k \<longrightarrow> protected_at p k))"
  using assms
proof (induction "length ns - i" arbitrary: i keep cost rule: less_induct)
  case less
  show ?case
  proof (cases "i < length ns \<and> cost > budget")
    case False
    then have "keep' = keep" "cost' = cost" using less.prems(1) by (auto simp: tier2.simps[of est ns p budget i])
    then show ?thesis using False less.prems by (auto simp: front_pass_def not_less)
  next
    case True
    show ?thesis
    proof (cases "keep ! i \<and> \<not> protected_at p i")
      case keep: False
      then have rec: "tier2 est ns p budget (i + 1) (keep, cost) = (keep', cost')"
        using less.prems(1) True by (auto simp: tier2.simps[of est ns p budget i] split: if_splits)
      then show ?thesis using less.hyps[OF _ rec] less.prems True keep by (auto simp: less_Suc_eq)
    next
      case drop: True
      let ?keep = "keep[i := False]"
      have rec: "tier2 est ns p budget (i + 1) (?keep, wrap_int (cost - conv_messageCost est (ns ! i))) = (keep', cost')"
        using less.prems(1) True drop by (simp add: tier2.simps[of est ns p budget i])
      have IH: "front_pass p ?keep keep' \<and> cost' = wrap_int (mask_cost est ns keep')
          \<and> (cost' \<le> budget \<or> (\<forall>k < length ns. keep' ! k \<longrightarrow> protected_at p k))"
        using less.hyps[OF _ rec] less.prems True drop mask_cost_drop_one[of i ns keep est]
        by (auto simp: less_Suc_eq nth_list_update)
      have "keep' ! j \<longrightarrow> protected_at p j" if "j \<le> i" for j
        using IH that True less.prems(2,4) by (auto simp: front_pass_def sub_mask_def nth_list_update le_less)
      then have "front_pass p keep keep'"
        using IH drop less.prems(2) True by (intro front_pass_step[of p keep i keep']) auto
      then show ?thesis using IH by blast
    qed
  qed
qed

lemma first_user_spec:
  assumes "length keep = length ns" and "\<forall>k < i. k < length ns \<longrightarrow> \<not> keep ! k"
  shows "front_pass p keep (first_user_rule ns p i keep)
    \<and> (\<forall>k < length ns. first_user_rule ns p i keep ! k \<and> (\<forall>j < k. \<not> first_user_rule ns p i keep ! j) \<longrightarrow>
         cv_Role (ns ! k) = ''user'' \<or> protected_at p k)"
  using assms
proof (induction "length ns - i" arbitrary: i keep rule: less_induct)
  case less
  show ?case
  proof (cases "i < length ns \<and> (\<not> keep ! i \<or> (cv_Role (ns ! i) \<noteq> ''user'' \<and> \<not> protected_at p i))")
    case False
    then have "first_user_rule ns p i keep = keep" by (auto simp: first_user_rule.simps[of ns p i])
    moreover have "cv_Role (ns ! k) = ''user'' \<or> protected_at p k"
      if "k < length ns" "keep ! k" "\<forall>j < k. \<not> keep ! j" for k
    proof -
      have "i \<le> k" using less.prems(2) that(1,2) by (meson not_le)
      then have "k = i" using False that by (auto simp: le_less)
      then show ?thesis using False that by auto
    qed
    ultimately show ?thesis by (auto simp: front_pass_def)
  next
    case True
    let ?keep = "keep[i := False]"
    have rec: "first_user_rule ns p i keep = first_user_rule ns p (i + 1) ?keep"
    proof (cases "keep ! i")
      case False
      then have "?keep = keep" using list_update_id[of keep i] by simp
      with True False show ?thesis by (simp add: first_user_rule.simps[of ns p i keep])
    qed (use True in \<open>simp add: first_user_rule.simps[of ns p i keep]\<close>)
    have IH: "front_pass p ?keep (first_user_rule ns p (i + 1) ?keep)
        \<and> (\<forall>k < length ns. first_user_rule ns p (i + 1) ?keep ! k \<and> (\<forall>j < k. \<not> first_user_rule ns p (i + 1) ?keep ! j) \<longrightarrow>
            cv_Role (ns ! k) = ''user'' \<or> protected_at p k)"
      using less.prems True by (intro less.hyps) (auto simp: less_Suc_eq nth_list_update)
    have none: "\<not> first_user_rule ns p (i + 1) ?keep ! j" if "j \<le> i" for j
      using IH that less.prems True by (auto simp: front_pass_def sub_mask_def nth_list_update le_less)
    have ok: "i < length ns" "keep ! i \<Longrightarrow> \<not> protected_at p i" using True by auto
    have "front_pass p keep (first_user_rule ns p (i + 1) ?keep)"
    proof (cases "keep ! i")
      case True
      then show ?thesis using IH none ok less.prems(1) by (intro front_pass_step[of p keep i]) auto
    next
      case False
      then have "?keep = keep" using list_update_id[of keep i] by simp
      then show ?thesis using IH by simp
    qed
    then show ?thesis unfolding rec using IH by blast
  qed
qed

section \<open>The combined mask\<close>

lemma last_user_props:
  "last_user ns n = Some t \<Longrightarrow> t < n \<and> cv_Role (ns ! t) = ''user'' \<and> (\<forall>k. t < k \<and> k < n \<longrightarrow> cv_Role (ns ! k) \<noteq> ''user'')"
  "last_user ns n = None \<Longrightarrow> (\<forall>k < n. cv_Role (ns ! k) \<noteq> ''user'')"
  by (induction n) (auto simp: less_Suc_eq split: if_splits)

lemma user_not_in_chain: "chain_ok ns c \<Longrightarrow> in_chain c k \<Longrightarrow> cv_Role (ns ! k) \<noteq> ''user''"
  by (cases "k = ch_start c") (auto simp: chain_ok_def in_chain_def)

text \<open>The masks before the atomicity pass.\<close>

definition stage_mask :: "TokenEstimator \<Rightarrow> CMessage list \<Rightarrow> int \<Rightarrow> bool list" where
  "stage_mask est ns budget =
     (let chs = identifyToolChains ns (Some est)
      in if wrap_int (\<Sum>m\<leftarrow>ns. conv_messageCost est m) > budget
         then fst (tier2 est ns (unresolvedProtectFrom ns chs) budget 0
                (tier1 budget chs (replicate (length ns) True, wrap_int (\<Sum>m\<leftarrow>ns. conv_messageCost est m))))
         else replicate (length ns) True)"

lemma trim_keep_eq:
  "trim_keep est ns budget = ensure_one ns (atomic_chains (identifyToolChains ns (Some est))
     (first_user_rule ns (unresolvedProtectFrom ns (identifyToolChains ns (Some est))) 0 (stage_mask est ns budget)))"
  by (simp add: trim_keep_def stage_mask_def wrap_int_sum_0 Let_def split: prod.split)

lemma stage_mask_spec:
  fixes est ns budget
  defines "chs \<equiv> identifyToolChains ns (Some est)"
  defines "keep \<equiv> stage_mask est ns budget"
  shows "length keep = length ns" and "front_first chs keep" and "tail_kept ns chs keep"
    and "wrap_int (mask_cost est ns keep) \<le> budget
      \<or> (\<forall>k < length ns. keep ! k \<longrightarrow> protected_at (unresolvedProtectFrom ns chs) k)"
proof -
  let ?all = "replicate (length ns) True" and ?total = "wrap_int (\<Sum>m\<leftarrow>ns. conv_messageCost est m)"
  let ?p = "unresolvedProtectFrom ns chs"
  have ok: "chains_ok ns 0 chs" and cost: "\<forall>c \<in> set chs. wrap_int (ch_cost c) = wrap_int (\<Sum>k = ch_start c..ch_end c. conv_messageCost est (ns ! k))"
    using chains_from_ok[of ns 0 "Some est"] by (auto simp: chs_def identifyToolChains_def opt_cost_def)
  have total: "?total = wrap_int (mask_cost est ns ?all)" by (simp add: mask_cost_def sum_list_sum_nth atLeast0LessThan)
  have ends: "c \<in> set chs \<Longrightarrow> ch_start c \<le> ch_end c \<and> ch_end c < length ns" for c
    using chains_ok_member[OF ok] by (simp add: chain_ok_def)
  have "k < length ns" if "c \<in> set chs" "in_chain c k" for c k using ends[OF that(1)] that(2) by (simp add: in_chain_def)
  then have all: "front_first chs ?all" "tail_kept ns chs ?all" by (auto simp: front_first_def tail_kept_def)
  have "length keep = length ns \<and> front_first chs keep \<and> tail_kept ns chs keep
    \<and> (wrap_int (mask_cost est ns keep) \<le> budget \<or> (\<forall>k < length ns. keep ! k \<longrightarrow> protected_at ?p k))"
  proof (cases "?total > budget")
    case False
    then show ?thesis using all total by (simp add: keep_def stage_mask_def)
  next
    case True
    obtain k1 c1 where t1: "tier1 budget chs (?all, ?total) = (k1, c1)" by fastforce
    from tier1_spec[OF t1 ok _ total _ cost] have 1: "drops_chains ns chs ?all k1" "c1 = wrap_int (mask_cost est ns k1)" by auto
    obtain k2 c2 where t2: "tier2 est ns ?p budget 0 (k1, c1) = (k2, c2)" by fastforce
    have len1: "length k1 = length ns" using 1 by (simp add: drops_chains_def)
    from tier2_spec[OF t2 len1 1(2)] have 2: "front_pass ?p k1 k2" "c2 = wrap_int (mask_cost est ns k2)"
      "c2 \<le> budget \<or> (\<forall>k < length ns. k2 ! k \<longrightarrow> protected_at ?p k)" by auto
    have keep: "keep = k2" using True t1 t2 by (simp add: keep_def stage_mask_def chs_def[symmetric])
    have "front_first chs k1" using 1(1) by (auto simp: drops_chains_def front_first_def)
    then have "front_first chs k2" using front_pass_first[OF 2(1)] ends len1 by auto
    moreover have "tail_kept ns chs k2"
      using 1(1) front_pass_tail[OF 2(1)] len1 by (auto simp: tail_kept_def drops_chains_def)
    moreover have "length k2 = length ns" using 2(1) len1 by (simp add: front_pass_def sub_mask_def)
    ultimately show ?thesis using 2 keep by simp
  qed
  then show "length keep = length ns" and "front_first chs keep" and "tail_kept ns chs keep"
    and "wrap_int (mask_cost est ns keep) \<le> budget \<or> (\<forall>k < length ns. keep ! k \<longrightarrow> protected_at ?p k)" by auto
qed

text \<open>What the unresolved tail consists of, and that a mask which keeps the tail keeps it.\<close>

lemma tail_members:
  assumes ok: "chains_ok ns 0 chs" and un: "chs \<noteq> []" "\<not> ch_completed (last chs)" and tail: "tail_kept ns chs keep"
  shows "in_chain (last chs) k \<Longrightarrow> keep ! k" and "last_user ns (ch_start (last chs)) = Some t \<Longrightarrow> keep ! t"
proof -
  let ?c = "last chs"
  have c: "?c \<in> set chs" "chain_ok ns ?c" using un chains_ok_member[OF ok] by auto
  have p: "unresolvedProtectFrom ns chs = Some (case last_user ns (ch_start ?c) of Some t \<Rightarrow> t | None \<Rightarrow> ch_start ?c)"
    using un by (simp add: unresolvedProtectFrom_def)
  show "keep ! k" if "in_chain ?c k"
  proof -
    have "k < length ns" "protected_at (unresolvedProtectFrom ns chs) k"
      using that c(2) last_user_props(1)[of ns "ch_start ?c"]
      by (auto simp: p protected_at_def in_chain_def chain_ok_def split: option.splits)
    with tail consider "keep ! k" | d where "d \<in> set chs" "ch_completed d" "in_chain d k" by (auto simp: tail_kept_def)
    then show ?thesis using chains_ok_disjoint[OF ok _ c(1) _ that] un by cases auto
  qed
  show "keep ! t" if t: "last_user ns (ch_start ?c) = Some t"
  proof -
    have "t < length ns" "cv_Role (ns ! t) = ''user''" using last_user_props(1)[OF t] c(2) by (auto simp: chain_ok_def)
    moreover have "protected_at (unresolvedProtectFrom ns chs) t" by (simp add: p t protected_at_def)
    ultimately show ?thesis using tail user_not_in_chain chains_ok_member[OF ok] unfolding tail_kept_def by blast
  qed
qed

text \<open>The contract of a keep mask over the non-system messages of a conversation.\<close>

definition safe_mask :: "CMessage list \<Rightarrow> toolChain list \<Rightarrow> bool list \<Rightarrow> bool" where
  "safe_mask ns chs keep \<longleftrightarrow> length keep = length ns
     \<and> (\<forall>c \<in> set chs. \<forall>k. in_chain c k \<longrightarrow> keep ! k = keep ! ch_start c)
     \<and> (ns \<noteq> [] \<longrightarrow> (\<exists>k < length ns. keep ! k))
     \<and> (chs \<noteq> [] \<and> \<not> ch_completed (last chs) \<longrightarrow>
          keep ! ch_start (last chs) \<and> (\<forall>t. last_user ns (ch_start (last chs)) = Some t \<longrightarrow> keep ! t))
     \<and> (\<forall>k < length ns. keep ! k \<and> (\<forall>j < k. \<not> keep ! j) \<longrightarrow>
          cv_Role (ns ! k) = ''user''
          \<or> (chs \<noteq> [] \<and> \<not> ch_completed (last chs) \<and> k = ch_start (last chs) \<and> last_user ns k = None)
          \<or> (last_user ns (length ns) = None \<and> k = length ns - 1))"

lemma least_kept: "keep ! k \<Longrightarrow> \<exists>i \<le> k. keep ! i \<and> (\<forall>j < i. \<not> keep ! j)" for keep :: "bool list"
  using LeastI[of "\<lambda>i. keep ! i" k] Least_le[of "\<lambda>i. keep ! i" k] not_less_Least[of _ "\<lambda>i. keep ! i"] by blast

text \<open>The mask after the first-user rule, and what the atomicity pass makes of it.\<close>

lemma atomic_sub:
  assumes "chains_ok ns 0 chs" and "length keep = length ns" and "front_first chs keep"
  shows "sub_mask (atomic_chains chs keep) keep"
  unfolding sub_mask_def
proof (intro conjI allI impI)
  fix k assume k: "k < length keep" "atomic_chains chs keep ! k"
  show "keep ! k"
  proof (cases "\<exists>c \<in> set chs. in_chain c k")
    case True
    then obtain c where "c \<in> set chs" "in_chain c k" by blast
    then show ?thesis using atomic_chains_in[OF assms(1,2)] assms(3) k(2) by (auto simp: front_first_def)
  next
    case False
    then show ?thesis using atomic_chains_nth[OF assms(1,2), of k] k assms(2) by auto
  qed
qed simp

lemma atomic_user:
  assumes "chains_ok ns 0 chs" and "length keep = length ns" and "k < length ns" and "cv_Role (ns ! k) = ''user''"
  shows "atomic_chains chs keep ! k = keep ! k"
proof -
  have "\<not> in_chain c k" if "c \<in> set chs" for c using user_not_in_chain chains_ok_member[OF assms(1) that] assms(4) by blast
  then show ?thesis using atomic_chains_nth[OF assms(1-3)] by blast
qed

lemma atomic_first:
  assumes ok: "chains_ok ns 0 chs" and len: "length keep = length ns" and ff: "front_first chs keep" and tail: "tail_kept ns chs keep"
    and first: "\<forall>k < length ns. keep ! k \<and> (\<forall>j < k. \<not> keep ! j) \<longrightarrow>
      cv_Role (ns ! k) = ''user'' \<or> protected_at (unresolvedProtectFrom ns chs) k"
    and k: "k < length ns" "atomic_chains chs keep ! k" "\<forall>j < k. \<not> atomic_chains chs keep ! j"
  shows "cv_Role (ns ! k) = ''user''
    \<or> (chs \<noteq> [] \<and> \<not> ch_completed (last chs) \<and> k = ch_start (last chs) \<and> last_user ns k = None)"
proof -
  let ?M = "atomic_chains chs keep" and ?c = "last chs"
  have sub: "sub_mask ?M keep" using atomic_sub[OF ok len ff] .
  then have "keep ! k" using k len by (auto simp: sub_mask_def)
  then obtain i where i: "i \<le> k" "keep ! i" "\<forall>j < i. \<not> keep ! j" using least_kept by blast
  consider (user) "cv_Role (ns ! i) = ''user''" | (prot) "protected_at (unresolvedProtectFrom ns chs) i"
    using first i le_less_trans[OF i(1) k(1)] by blast
  then show ?thesis
  proof cases
    case user
    then have "?M ! i" using atomic_user[OF ok len] i k(1) by simp
    then have "i = k" using k(3) i(1) by (auto simp: le_less)
    then show ?thesis using user by simp
  next
    case prot
    then have un: "chs \<noteq> []" "\<not> ch_completed ?c"
      and p: "(case last_user ns (ch_start ?c) of Some t \<Rightarrow> t | None \<Rightarrow> ch_start ?c) \<le> i"
      by (auto simp: protected_at_def unresolvedProtectFrom_def split: if_splits)
    have c: "?c \<in> set chs" "chain_ok ns ?c" using un chains_ok_member[OF ok] by auto
    have start: "in_chain ?c (ch_start ?c)" using c(2) by (simp add: chain_ok_def in_chain_def)
    show ?thesis
    proof (cases "last_user ns (ch_start ?c)")
      case (Some t)
      have t: "t \<le> i" "t < length ns" "cv_Role (ns ! t) = ''user''" "keep ! t"
        using p Some last_user_props(1)[OF Some] c(2) tail_members(2)[OF ok un tail Some] by (auto simp: chain_ok_def)
      then have "i = t" using i(3) by (meson le_less not_less)
      moreover have "?M ! t" using atomic_user[OF ok len t(2,3)] t(4) by simp
      ultimately have "k = t" using k(3) i(1) by (auto simp: le_less)
      then show ?thesis using t(3) by simp
    next
      case None
      have "keep ! ch_start ?c" using tail_members(1)[OF ok un tail start] .
      then have "i = ch_start ?c" using p None i(3) by (auto simp: le_less)
      moreover have "?M ! ch_start ?c" using atomic_chains_in[OF ok len c(1) start] \<open>keep ! ch_start ?c\<close> by simp
      ultimately have "k = ch_start ?c" using k(3) i(1) by (auto simp: le_less)
      then show ?thesis using un None by simp
    qed
  qed
qed

lemma ensure_one_cases:
  obtains (kept) "ensure_one ns keep = keep" "\<exists>k \<in> set keep. k"
  | (empty) "ns = []" "ensure_one ns keep = keep"
  | (fallback) f where "ensure_one ns keep = keep[f := True]" "\<forall>k \<in> set keep. \<not> k" "f < length ns"
      "last_user ns (length ns) = Some f \<or> (last_user ns (length ns) = None \<and> f = length ns - 1)"
proof -
  consider "\<exists>k \<in> set keep. k" | "ns = []" | "\<not> (\<exists>k \<in> set keep. k)" "ns \<noteq> []" by blast
  then show thesis
  proof cases
    case 3
    show thesis
    proof (cases "last_user ns (length ns)")
      case None
      then have "ensure_one ns keep = keep[length ns - 1 := True]" using 3 by (auto simp: ensure_one_def)
      then show thesis using 3 None by (intro fallback[of "length ns - 1"]) auto
    next
      case (Some f)
      then have "ensure_one ns keep = keep[f := True]" using 3 by (auto simp: ensure_one_def)
      then show thesis using 3 Some last_user_props(1)[OF Some] by (intro fallback[of f]) auto
    qed
  qed (use kept empty in \<open>simp_all add: ensure_one_def\<close>)
qed

text \<open>A mask that keeps only the fallback message is safe: no chain is unresolved, and none contains it.\<close>

lemma fallback_safe:
  assumes ok: "chains_ok ns 0 chs" and len: "length keep = length ns" and none: "\<forall>k \<in> set keep. \<not> k" and f: "f < length ns"
    and fb: "last_user ns (length ns) = Some f \<or> (last_user ns (length ns) = None \<and> f = length ns - 1)"
    and unres: "chs \<noteq> [] \<Longrightarrow> \<not> ch_completed (last chs) \<Longrightarrow> keep ! ch_start (last chs)"
  shows "safe_mask ns chs (keep[f := True])"
proof -
  have off: "k < length ns \<Longrightarrow> \<not> keep ! k" for k using none len by (simp add: all_set_conv_all_nth)
  have compl: "ch_completed (last chs)" if "chs \<noteq> []"
  proof (rule ccontr)
    assume "\<not> ch_completed (last chs)"
    with unres that have "keep ! ch_start (last chs)" by simp
    moreover have "chain_ok ns (last chs)" using chains_ok_member[OF ok] that by simp
    ultimately show False using off[of "ch_start (last chs)"] by (simp add: chain_ok_def)
  qed
  have out: "\<not> in_chain c f" if "c \<in> set chs" for c
  proof
    assume in_c: "in_chain c f"
    have c: "chain_ok ns c" using chains_ok_member[OF ok that] by simp
    from fb show False
    proof
      assume "last_user ns (length ns) = Some f"
      then show False using last_user_props(1) user_not_in_chain[OF c in_c] by blast
    next
      assume "last_user ns (length ns) = None \<and> f = length ns - 1"
      then have "ch_end c = length ns - 1" using c in_c by (auto simp: chain_ok_def in_chain_def)
      then have "c = last chs \<and> \<not> ch_completed c" using chains_ok_last[OF ok that] f by (cases ns) auto
      then show False using compl that by (cases chs) auto
    qed
  qed
  have at: "keep[f := True] ! k \<longleftrightarrow> k = f" if "k < length ns" for k
    using that len off[of k] by (cases "k = f") auto
  have "keep[f := True] ! k = keep[f := True] ! ch_start c" if "c \<in> set chs" "in_chain c k" for c k
  proof -
    have "k < length ns" "ch_start c < length ns" "in_chain c (ch_start c)"
      using that chains_ok_member[OF ok that(1)] by (auto simp: chain_ok_def in_chain_def)
    then show ?thesis using at out that by metis
  qed
  then show ?thesis using at f fb compl len last_user_props(1)[of ns "length ns" f] unfolding safe_mask_def by auto
qed

text \<open>The mask that the last stage starts from.\<close>

definition staged :: "TokenEstimator \<Rightarrow> CMessage list \<Rightarrow> int \<Rightarrow> toolChain list \<Rightarrow> bool list \<Rightarrow> bool" where
  "staged est ns budget chs M \<longleftrightarrow> length M = length ns
     \<and> (\<forall>c \<in> set chs. \<forall>k. in_chain c k \<longrightarrow> M ! k = M ! ch_start c)
     \<and> (chs \<noteq> [] \<and> \<not> ch_completed (last chs) \<longrightarrow>
          M ! ch_start (last chs) \<and> (\<forall>t. last_user ns (ch_start (last chs)) = Some t \<longrightarrow> M ! t))
     \<and> (\<forall>k < length ns. M ! k \<and> (\<forall>j < k. \<not> M ! j) \<longrightarrow> cv_Role (ns ! k) = ''user''
          \<or> (chs \<noteq> [] \<and> \<not> ch_completed (last chs) \<and> k = ch_start (last chs) \<and> last_user ns k = None))
     \<and> (costs_fit est ns \<longrightarrow> mask_cost est ns M \<le> budget
          \<or> (\<forall>k < length ns. M ! k \<longrightarrow> protected_at (unresolvedProtectFrom ns chs) k))"

lemma before_fallback:
  fixes est ns budget
  defines "chs \<equiv> identifyToolChains ns (Some est)"
  shows "\<exists>M. trim_keep est ns budget = ensure_one ns M \<and> staged est ns budget chs M"
proof -
  let ?p = "unresolvedProtectFrom ns chs" and ?K = "stage_mask est ns budget"
  let ?F = "first_user_rule ns ?p 0 ?K"
  let ?M = "atomic_chains chs ?F"
  have ok: "chains_ok ns 0 chs" using chains_from_ok[of ns 0 "Some est"] by (auto simp: chs_def identifyToolChains_def)
  note K = stage_mask_spec[where est = est and ns = ns and budget = budget, folded chs_def]
  have F: "front_pass ?p ?K ?F" "\<forall>k < length ns. ?F ! k \<and> (\<forall>j < k. \<not> ?F ! j) \<longrightarrow> cv_Role (ns ! k) = ''user'' \<or> protected_at ?p k"
    using first_user_spec[OF K(1), of 0 ?p] by auto
  have len: "length ?F = length ns" using F(1) K(1) by (simp add: front_pass_def sub_mask_def)
  have ff: "front_first chs ?F"
    using front_pass_first[OF F(1) K(2)] chains_ok_member[OF ok] K(1) by (auto simp: chain_ok_def)
  have tail: "tail_kept ns chs ?F" using K(1,3) front_pass_tail[OF F(1)] by (auto simp: tail_kept_def)
  have sub: "sub_mask ?M ?K" using sub_mask_trans[OF atomic_sub[OF ok len ff]] F(1) by (auto simp: front_pass_def)
  have atom: "?M ! k = ?M ! ch_start c" if c: "c \<in> set chs" "in_chain c k" for c k
  proof -
    have "in_chain c (ch_start c)" using c by (simp add: in_chain_def)
    then show ?thesis using atomic_chains_in[OF ok len c(1)] c(2) by simp
  qed
  have unres: "?M ! ch_start (last chs) \<and> (\<forall>t. last_user ns (ch_start (last chs)) = Some t \<longrightarrow> ?M ! t)"
    if un: "chs \<noteq> []" "\<not> ch_completed (last chs)"
  proof -
    have c: "last chs \<in> set chs" "chain_ok ns (last chs)" using un chains_ok_member[OF ok] by auto
    have st: "in_chain (last chs) (ch_start (last chs))" using c(2) by (simp add: chain_ok_def in_chain_def)
    have "?M ! t" if t: "last_user ns (ch_start (last chs)) = Some t" for t
      using atomic_user[OF ok len] tail_members(2)[OF ok un tail t] last_user_props(1)[OF t] c(2)
      by (auto simp: chain_ok_def)
    then show ?thesis using atomic_chains_in[OF ok len c(1) st] tail_members(1)[OF ok un tail st] by simp
  qed
  have cost: "mask_cost est ns ?M \<le> budget \<or> (\<forall>k < length ns. ?M ! k \<longrightarrow> protected_at ?p k)"
    if "costs_fit est ns"
    using K(1,4) mask_cost_mono[OF _ sub K(1), of est] wrap_mask_cost[OF that K(1)] that sub
    by (auto simp: sub_mask_def costs_fit_def)
  have "length ?M = length ns" using len by simp
  then have "staged est ns budget chs ?M"
    unfolding staged_def using atom unres atomic_first[OF ok len ff tail F(2)] cost by (intro conjI) blast+
  moreover have "trim_keep est ns budget = ensure_one ns ?M" by (simp add: trim_keep_eq chs_def)
  ultimately show ?thesis by blast
qed

lemma trim_keep_spec:
  fixes est ns budget
  defines "chs \<equiv> identifyToolChains ns (Some est)"
  defines "keep \<equiv> trim_keep est ns budget"
  shows "safe_mask ns chs keep"
    and "costs_fit est ns \<Longrightarrow> mask_cost est ns keep \<le> budget
      \<or> (\<forall>k < length ns. keep ! k \<longrightarrow> protected_at (unresolvedProtectFrom ns chs) k)
      \<or> (\<exists>f. keep = (replicate (length ns) False)[f := True])"
proof -
  obtain M where M: "keep = ensure_one ns M" "staged est ns budget chs M"
    using before_fallback[where est = est and ns = ns and budget = budget] by (auto simp: chs_def keep_def)
  have len: "length M = length ns" using M(2) by (simp add: staged_def)
  have ok: "chains_ok ns 0 chs" using chains_from_ok[of ns 0 "Some est"] by (auto simp: chs_def identifyToolChains_def)
  have "safe_mask ns chs keep \<and> (costs_fit est ns \<longrightarrow> mask_cost est ns keep \<le> budget
      \<or> (\<forall>k < length ns. keep ! k \<longrightarrow> protected_at (unresolvedProtectFrom ns chs) k)
      \<or> (\<exists>f. keep = (replicate (length ns) False)[f := True]))"
  proof (cases rule: ensure_one_cases[of ns M])
    case kept
    then have "\<exists>k < length ns. M ! k" using len by (auto simp: in_set_conv_nth)
    with M(2) have "safe_mask ns chs M" unfolding safe_mask_def staged_def by blast
    with kept(1) M show ?thesis unfolding staged_def by auto
  next
    case empty
    then have "chs = []" by (simp add: chs_def identifyToolChains_def chains_from.simps)
    with empty M show ?thesis by (simp add: safe_mask_def staged_def)
  next
    case (fallback f)
    have "safe_mask ns chs (M[f := True])"
      by (rule fallback_safe[OF ok len fallback(2-4)]) (use M(2) in \<open>simp add: staged_def\<close>)
    moreover have "M = replicate (length ns) False"
      using len fallback(2) by (intro nth_equalityI) (auto simp: all_set_conv_all_nth)
    ultimately show ?thesis using M(1) fallback(1) by auto
  qed
  then show "safe_mask ns chs keep"
    and "costs_fit est ns \<Longrightarrow> mask_cost est ns keep \<le> budget
      \<or> (\<forall>k < length ns. keep ! k \<longrightarrow> protected_at (unresolvedProtectFrom ns chs) k)
      \<or> (\<exists>f. keep = (replicate (length ns) False)[f := True])" by blast+
qed

section \<open>The result\<close>

abbreviation is_system :: "CMessage \<Rightarrow> bool" where "is_system m \<equiv> cv_Role m = ''system''"
abbreviation non_system :: "CMessage list \<Rightarrow> CMessage list" where "non_system msgs \<equiv> filter (\<lambda>m. \<not> is_system m) msgs"

lemma length_merge_keep [simp]: "length (merge_keep msgs keep) = length msgs"
  by (induction msgs arbitrary: keep) auto

lemma merge_keep_spec:
  assumes "length keep = length (non_system msgs)"
  shows "filter is_system (masked (merge_keep msgs keep) msgs) = filter is_system msgs
    \<and> non_system (masked (merge_keep msgs keep) msgs) = masked keep (non_system msgs)
    \<and> length (masked (merge_keep msgs keep) msgs) + length (filter (\<lambda>k. \<not> k) (merge_keep msgs keep)) = length msgs"
  using assms
proof (induction msgs arbitrary: keep)
  case (Cons m msgs)
  show ?case
  proof (cases "is_system m")
    case True
    with Cons.IH[of keep] Cons.prems show ?thesis by simp
  next
    case False
    with Cons.prems obtain k ks where k: "keep = k # ks" by (cases keep) auto
    with Cons.IH[of ks] Cons.prems False show ?thesis by auto
  qed
qed simp

lemma build_result_spec:
  assumes "length keep = length (non_system msgs)"
  shows "build_result est msgs keep (wrap_int c)
    = (masked (merge_keep msgs keep) msgs, length (filter (\<lambda>k. \<not> k) (merge_keep msgs keep)),
       wrap_int (c + (\<Sum>m\<leftarrow>masked keep (non_system msgs). conv_messageCost est m)))"
  using assms
proof (induction msgs arbitrary: keep c)
  case (Cons m msgs)
  show ?case
  proof (cases "is_system m")
    case True
    with Cons.IH[of keep c] Cons.prems show ?thesis by simp
  next
    case False
    with Cons.prems obtain k ks where k: "keep = k # ks" by (cases keep) auto
    with Cons.IH[of ks c] Cons.IH[of ks "c + conv_messageCost est m"] Cons.prems False show ?thesis by (simp add: add.assoc)
  qed
qed simp

lemma mask_cost_masked: "length keep = length ns \<Longrightarrow> mask_cost est ns keep = (\<Sum>m\<leftarrow>masked keep ns. conv_messageCost est m)"
proof (induction ns arbitrary: keep)
  case (Cons m ns)
  then obtain k ks where k: "keep = k # ks" by (cases keep) auto
  have "mask_cost est (m # ns) (k # ks) = (if k then conv_messageCost est m else 0) + mask_cost est ns ks"
    unfolding mask_cost_def length_Cons sum.lessThan_Suc_shift nth_Cons_0 nth_Cons_Suc ..
  with Cons k show ?case by simp
qed (simp add: mask_cost_def)

lemma sum_by_role:
  "(\<Sum>m\<leftarrow>filter is_system msgs. f m) + (\<Sum>m\<leftarrow>non_system msgs. f m) = (\<Sum>m\<leftarrow>msgs. f m :: int)"
  by (induction msgs) auto

text \<open>The mask that \<open>TrimMessages\<close> applies, and its result.\<close>

definition trim_mask :: "TokenEstimator \<Rightarrow> CMessage list \<Rightarrow> int \<Rightarrow> bool list" where
  "trim_mask est msgs maxTokens =
     trim_keep est (non_system msgs) (max 0 (wrap_int (maxTokens - (\<Sum>m\<leftarrow>filter is_system msgs. conv_messageCost est m))))"

lemma trim_mask_safe: "safe_mask (non_system msgs) (identifyToolChains (non_system msgs) (Some est)) (trim_mask est msgs maxTokens)"
  unfolding trim_mask_def by (rule trim_keep_spec(1))

lemma trim_mask_length [simp]: "length (trim_mask est msgs maxTokens) = length (non_system msgs)"
  using trim_mask_safe by (simp add: safe_mask_def)

lemma merge_all_system: "non_system msgs = [] \<Longrightarrow> masked (merge_keep msgs keep) msgs = msgs \<and> filter (\<lambda>k. \<not> k) (merge_keep msgs keep) = []"
  by (induction msgs arbitrary: keep) (auto split: if_splits)

lemma TrimMessages_eq:
  "TrimMessages msgs maxTokens (Some est) = Some
     \<lparr>tres_Messages = masked (merge_keep msgs (trim_mask est msgs maxTokens)) msgs,
      tres_TrimmedCount = length (filter (\<lambda>k. \<not> k) (merge_keep msgs (trim_mask est msgs maxTokens))),
      tres_EstimatedTokens = wrap_int (\<Sum>m\<leftarrow>masked (merge_keep msgs (trim_mask est msgs maxTokens)) msgs. conv_messageCost est m)\<rparr>"
proof (cases "non_system msgs = []")
  case True
  then have "filter is_system msgs = msgs" by (auto simp: filter_empty_conv filter_id_conv)
  with True merge_all_system[OF True] show ?thesis by (auto simp: TrimMessages_def wrap_int_sum_0 Let_def)
next
  case False
  let ?k = "trim_mask est msgs maxTokens"
  let ?r = "masked (merge_keep msgs ?k) msgs"
  have "(\<Sum>m\<leftarrow>?r. conv_messageCost est m)
      = (\<Sum>m\<leftarrow>filter is_system msgs. conv_messageCost est m) + (\<Sum>m\<leftarrow>masked ?k (non_system msgs). conv_messageCost est m)"
    using sum_by_role[of "conv_messageCost est" ?r] merge_keep_spec[of ?k msgs] by simp
  moreover have "trim_keep est (non_system msgs) (if wrap_int (maxTokens - s) < 0 then 0 else wrap_int (maxTokens - s)) = ?k"
    if "s = (\<Sum>m\<leftarrow>filter is_system msgs. conv_messageCost est m)" for s
    using that by (simp add: trim_mask_def max_def)
  ultimately show ?thesis using False build_result_spec[of ?k msgs est "\<Sum>m\<leftarrow>filter is_system msgs. conv_messageCost est m"]
    by (auto simp: TrimMessages_def wrap_int_sum_0 Let_def)
qed

text \<open>The estimates of a message's fields, summed without wrap-around.\<close>

definition message_tokens :: "TokenEstimator \<Rightarrow> CMessage \<Rightarrow> int" where
  "message_tokens est m =
     est (cv_Content m) + (\<Sum>f\<leftarrow>filter (\<lambda>f. f \<noteq> []) [cv_ToolCalls m, cv_ToolName m, cv_ToolCallID m]. est f)"

lemma messageCost_tokens: "wrap_int (conv_messageCost est m) = wrap_int (message_tokens est m)"
  by (simp add: conv_messageCost_def message_tokens_def Let_def add.assoc)

lemma TrimMessages_fields:
  obtains r where "TrimMessages msgs maxTokens (Some est) = Some r"
    and "tres_Messages r = masked (merge_keep msgs (trim_mask est msgs maxTokens)) msgs"
    and "tres_TrimmedCount r = length (filter (\<lambda>k. \<not> k) (merge_keep msgs (trim_mask est msgs maxTokens)))"
    and "tres_EstimatedTokens r = wrap_int (\<Sum>m\<leftarrow>tres_Messages r. message_tokens est m)"
  by (rule that[OF TrimMessages_eq]) (simp_all add: wrap_int_sum_cong[OF messageCost_tokens])

section \<open>Exchanges\<close>

text \<open>An exchange runs from a user message to a plain answer; exchanges are ordered and disjoint.\<close>

fun exchanges_ok :: "CMessage list \<Rightarrow> nat \<Rightarrow> nat \<Rightarrow> (nat \<times> nat) list \<Rightarrow> bool" where
  "exchanges_ok ns r i [] = True"
| "exchanges_ok ns r i ((s, e) # xs) \<longleftrightarrow> i \<le> s \<and> s < e \<and> e < r \<and> cv_Role (ns ! s) = ''user'' \<and> plain_answer (ns ! e)
     \<and> exchanges_ok ns r (Suc e) xs"

lemma find_answer_plain: "find_answer ns r j = Some k \<Longrightarrow> plain_answer (ns ! k)"
proof (induction ns r j rule: find_answer.induct)
  case (1 ns r j)
  then show ?case by (subst (asm) (2) find_answer.simps) (auto split: if_splits)
qed

lemma exchanges_ok_mono: "exchanges_ok ns r j xs \<Longrightarrow> i \<le> j \<Longrightarrow> exchanges_ok ns r i xs"
  by (cases xs) auto

lemma exchanges_from_ok: "exchanges_ok ns r i (exchanges_from ns r i)"
proof (induction ns r i rule: exchanges_from.induct)
  case (1 ns r i)
  show ?case
  proof (cases "i < r \<and> cv_Role (ns ! i) = ''user''")
    case True
    show ?thesis
    proof (cases "find_answer ns r (i + 1)")
      case (Some j)
      with 1 True find_answer_bounds[OF Some] find_answer_plain[OF Some] show ?thesis
        by (subst exchanges_from.simps) simp
    qed (use True in \<open>subst exchanges_from.simps, simp\<close>)
  next
    case False
    then show ?thesis using 1 by (subst exchanges_from.simps) (auto intro: exchanges_ok_mono)
  qed
qed

lemma exchanges_ok_member:
  "exchanges_ok ns r i xs \<Longrightarrow> (s, e) \<in> set xs \<Longrightarrow> s < e \<and> e < r \<and> cv_Role (ns ! s) = ''user'' \<and> plain_answer (ns ! e)"
  by (induction xs arbitrary: i) auto

lemma length_fold_ranges [simp]: "length (foldl (\<lambda>keep (s, e). set_range keep s e True) keep xs) = length keep"
  by (induction xs arbitrary: keep) auto

lemma nth_fold_ranges:
  "k < length keep \<Longrightarrow>
   foldl (\<lambda>keep (s, e). set_range keep s e True) keep xs ! k \<longleftrightarrow> keep ! k \<or> (\<exists>(s, e) \<in> set xs. s \<le> k \<and> k \<le> e)"
proof (induction xs arbitrary: keep)
  case (Cons x xs)
  then show ?case by (cases x) (simp, blast)
qed simp

lemma length_exchange_keep [simp]: "length (exchange_keep ns n) = length ns"
  by (simp add: exchange_keep_def Let_def split: option.split)

text \<open>The unresolved chain of a conversation, the end of its resolved part and its exchanges.\<close>

definition unresolved_start :: "CMessage list \<Rightarrow> nat option" where
  "unresolved_start ns =
     (let chs = identifyToolChains ns None
      in if chs = [] \<or> ch_completed (last chs) then None else Some (ch_start (last chs)))"

definition resolved_exchanges :: "CMessage list \<Rightarrow> (nat \<times> nat) list" where
  "resolved_exchanges ns =
     exchanges_from ns (case unresolved_start ns of None \<Rightarrow> length ns | Some u \<Rightarrow> resolved_end ns u) 0"

definition tail_start :: "CMessage list \<Rightarrow> nat option" where
  "tail_start ns = map_option (\<lambda>u. case last_user ns u of Some t \<Rightarrow> t | None \<Rightarrow> u) (unresolved_start ns)"

definition kept_exchanges :: "CMessage list \<Rightarrow> int \<Rightarrow> (nat \<times> nat) list" where
  "kept_exchanges ns n =
     drop (if 0 \<le> n \<and> n < int (length (resolved_exchanges ns)) then length (resolved_exchanges ns) - nat n else 0)
       (resolved_exchanges ns)"

lemma exchange_keep_nth:
  assumes "k < length ns"
  shows "exchange_keep ns n ! k \<longleftrightarrow>
    (\<exists>(s, e) \<in> set (kept_exchanges ns n). s \<le> k \<and> k \<le> e) \<or> (\<exists>t. tail_start ns = Some t \<and> t \<le> k)"
  using assms nth_fold_ranges[of k "replicate (length ns) False"]
  by (auto simp: exchange_keep_def kept_exchanges_def resolved_exchanges_def tail_start_def unresolved_start_def Let_def
      split: option.splits if_splits)

lemma kept_exchanges_ok: "(s, e) \<in> set (kept_exchanges ns n) \<Longrightarrow> s < e \<and> cv_Role (ns ! s) = ''user'' \<and> plain_answer (ns ! e)"
  using exchanges_ok_member[OF exchanges_from_ok] by (auto simp: kept_exchanges_def resolved_exchanges_def dest!: in_set_dropD)

text \<open>A chain lies inside an exchange or the tail, or outside it: neither starts or ends within a chain.\<close>

lemma exchange_chain:
  assumes "chain_ok ns c" and "starts_chain (ns ! ch_start c)" and "in_chain c k" and "(s, e) \<in> set (kept_exchanges ns n)"
    and "s \<le> k" "k \<le> e" and "in_chain c j"
  shows "s \<le> j \<and> j \<le> e"
proof -
  have se: "s < e" "cv_Role (ns ! s) = ''user''" "plain_answer (ns ! e)" using kept_exchanges_ok[OF assms(4)] by auto
  have "\<not> in_chain c s" using user_not_in_chain[OF assms(1)] se(2) by blast
  moreover have "\<not> in_chain c e"
  proof
    assume "in_chain c e"
    then show False using assms(1,2) se(3)
      by (cases "e = ch_start c") (auto simp: chain_ok_def in_chain_def starts_chain_def plain_answer_def)
  qed
  ultimately show ?thesis using assms(3,5-7) by (auto simp: in_chain_def)
qed

lemma chains_start: "c \<in> set (chains_from ns est i) \<Longrightarrow> starts_chain (ns ! ch_start c)"
proof (induction ns est i rule: chains_from.induct)
  case (1 ns est i)
  from "1.prems" show ?case
    by (subst (asm) chains_from.simps) (auto split: if_splits prod.splits intro: "1.IH")
qed

lemma chains_before_last: "chains_ok ns i cs \<Longrightarrow> c \<in> set cs \<Longrightarrow> c = last cs \<or> ch_end c < ch_start (last cs)"
proof (induction cs arbitrary: i)
  case (Cons d cs)
  show ?case
  proof (cases "cs = []")
    case False
    then have "Suc (ch_end d) \<le> ch_start (last cs)" using Cons.prems(1) chains_ok_member[of ns "Suc (ch_end d)" cs "last cs"] by simp
    then show ?thesis using Cons False by auto
  qed (use Cons in simp)
qed simp

lemma exchange_keep_atomic:
  assumes c: "c \<in> set (identifyToolChains ns None)" and k: "in_chain c k" and j: "in_chain c j" and keep: "exchange_keep ns n ! k"
  shows "exchange_keep ns n ! j"
proof -
  let ?chs = "identifyToolChains ns None"
  have ok: "chains_ok ns 0 ?chs" using chains_from_ok[of ns 0 None] by (simp add: identifyToolChains_def)
  have c': "chain_ok ns c" "starts_chain (ns ! ch_start c)"
    using chains_ok_member[OF ok c] chains_start c by (auto simp: identifyToolChains_def)
  have len: "k < length ns" "j < length ns" using c'(1) k j by (auto simp: chain_ok_def in_chain_def)
  from keep exchange_keep_nth[OF len(1)] consider
    (exchange) s e where "(s, e) \<in> set (kept_exchanges ns n)" "s \<le> k" "k \<le> e" | (tail) t where "tail_start ns = Some t" "t \<le> k" by auto
  then show ?thesis
  proof cases
    case exchange
    then show ?thesis using exchange_chain[OF c' k exchange j] exchange_keep_nth[OF len(2)] by auto
  next
    case tail
    then obtain u where u: "unresolved_start ns = Some u" "t = (case last_user ns u of Some t \<Rightarrow> t | None \<Rightarrow> u)"
      by (auto simp: tail_start_def)
    then have last: "u = ch_start (last ?chs)" "?chs \<noteq> []" by (auto simp: unresolved_start_def Let_def split: if_splits)
    have "t \<le> j"
    proof (cases "last_user ns u")
      case None
      then have "c = last ?chs" using chains_before_last[OF ok c] tail(2) u(2) last k by (auto simp: in_chain_def)
      then show ?thesis using j None u(2) last by (simp add: in_chain_def)
    next
      case (Some t')
      then have "\<not> in_chain c t" using user_not_in_chain[OF c'(1)] last_user_props(1)[OF Some] u(2) by auto
      then show ?thesis using tail(2) k j by (auto simp: in_chain_def)
    qed
    then show ?thesis using exchange_keep_nth[OF len(2)] tail(1) by blast
  qed
qed

section \<open>Properties\<close>

definition sample_msg :: "string \<Rightarrow> string \<Rightarrow> CMessage" where
  "sample_msg role content = \<lparr>cv_Role = role, cv_Content = content, cv_ToolCalls = [], cv_ToolName = [], cv_ToolCallID = []\<rparr>"

definition sample_conv :: "CMessage list" where
  "sample_conv =
     [sample_msg ''system'' ''s'', sample_msg ''user'' ''q1'', (sample_msg ''assistant'' [])\<lparr>cv_ToolCalls := ''c''\<rparr>,
      sample_msg ''tool'' ''r'', sample_msg ''assistant'' ''a1'', sample_msg ''user'' ''q2'', sample_msg ''assistant'' ''a2'']"

definition sample_est :: TokenEstimator where
  "sample_est s = int (length s)"


text \<open>Estimates that are never negative and sum up within a Go int are summed exactly.\<close>

lemma messageCost_exact:
  assumes "\<forall>s. 0 \<le> est s" and "message_tokens est m \<le> MaxInt"
  shows "conv_messageCost est m = message_tokens est m" and "0 \<le> message_tokens est m"
proof -
  have nn: "0 \<le> est (cv_Content m)" "0 \<le> est (cv_ToolCalls m)" "0 \<le> est (cv_ToolName m)" "0 \<le> est (cv_ToolCallID m)"
    using assms(1) by auto
  show "conv_messageCost est m = message_tokens est m"
    using assms(2) nn by (auto simp: conv_messageCost_def message_tokens_def Let_def add.assoc wrap_int_nonneg split: if_splits)
  show "0 \<le> message_tokens est m" using nn by (simp add: message_tokens_def)
qed

lemma masked_subset: "set (masked ks xs) \<subseteq> set xs"
  by (auto simp: set_masked)

lemma tokens_le_total:
  "\<forall>s. 0 \<le> est s \<Longrightarrow> m \<in> set msgs \<Longrightarrow> message_tokens est m \<le> (\<Sum>m\<leftarrow>msgs. message_tokens est m)"
  by (intro member_le_sum_list) (auto simp: message_tokens_def)

text \<open>Trimming meets the budget whenever it can: with an estimator that is never negative, a conversation whose
  estimates sum up within a Go int and a budget that is not negative, the
  estimated tokens of the result are at most the budget or, if that is more, what the system messages cost;
  otherwise nothing is left of the dialogue but the unresolved tail, or a single message.\<close>

theorem trim_messages_budget:
  assumes nn: "\<forall>s. 0 \<le> est s" and fits: "(\<Sum>m\<leftarrow>msgs. message_tokens est m) \<le> MaxInt" and mt: "0 \<le> maxTokens" "maxTokens \<le> MaxInt"
  shows "\<exists>r keep. TrimMessages msgs maxTokens (Some est) = Some r \<and> non_system (tres_Messages r) = masked keep (non_system msgs)
    \<and> (tres_EstimatedTokens r \<le> max maxTokens (\<Sum>m\<leftarrow>filter is_system msgs. message_tokens est m)
       \<or> (\<forall>k < length keep. keep ! k \<longrightarrow> protected_at
            (unresolvedProtectFrom (non_system msgs) (identifyToolChains (non_system msgs) (Some est))) k)
       \<or> (\<exists>f. keep = (replicate (length keep) False)[f := True]))"
proof -
  let ?k = "trim_mask est msgs maxTokens" and ?f = "message_tokens est"
  let ?s = "\<Sum>m\<leftarrow>filter is_system msgs. ?f m" and ?n = "\<Sum>m\<leftarrow>non_system msgs. ?f m"
  let ?r = "masked (merge_keep msgs ?k) msgs"
  have exact: "conv_messageCost est m = ?f m" "0 \<le> ?f m" if "m \<in> set msgs" for m
    using messageCost_exact[of est m] tokens_le_total[OF nn that] nn fits by auto
  have sums: "(\<Sum>m\<leftarrow>xs. conv_messageCost est m) = (\<Sum>m\<leftarrow>xs. ?f m)" "0 \<le> (\<Sum>m\<leftarrow>xs. ?f m)" if "set xs \<subseteq> set msgs" for xs
    using subsetD[OF that] exact by (auto intro!: arg_cong[of _ _ sum_list] sum_list_nonneg)
  have total: "?s + ?n \<le> MaxInt" using fits sum_by_role[of ?f msgs] by simp
  have s: "0 \<le> ?s" "0 \<le> ?n" by (intro sums; auto)+
  then have cf: "costs_fit est (non_system msgs)" using exact total sums(1)[of "non_system msgs"] by (auto simp: costs_fit_def)
  obtain r where r: "TrimMessages msgs maxTokens (Some est) = Some r" "tres_Messages r = ?r"
    "tres_EstimatedTokens r = wrap_int (\<Sum>m\<leftarrow>tres_Messages r. ?f m)" by (rule TrimMessages_fields)
  have ms: "filter is_system ?r = filter is_system msgs" "non_system ?r = masked ?k (non_system msgs)"
    using merge_keep_spec[of ?k msgs] by auto
  have mc: "mask_cost est (non_system msgs) ?k = (\<Sum>m\<leftarrow>masked ?k (non_system msgs). ?f m)"
    using sums(1)[OF subset_trans[OF masked_subset filter_is_subset]] by (simp add: mask_cost_masked)
  have cost: "(\<Sum>m\<leftarrow>?r. ?f m) = ?s + mask_cost est (non_system msgs) ?k"
    using sum_by_role[of ?f ?r] ms mc by simp
  have w: "wrap_int (maxTokens - ?s) = maxTokens - ?s"
    using mt s total by (intro wrap_int_id) (auto simp: is_int64_def MaxInt_def MinInt_def)
  have "wrap_int (\<Sum>m\<leftarrow>?r. ?f m) = (\<Sum>m\<leftarrow>?r. ?f m)"
    using mask_cost_bounds[OF cf, of ?k] cost s total sums(1)[of "non_system msgs"] by (intro wrap_int_nonneg) auto
  then have tok: "tres_EstimatedTokens r = ?s + mask_cost est (non_system msgs) ?k" using r(2,3) cost by simp
  have k: "trim_keep est (non_system msgs) (max 0 (maxTokens - ?s)) = ?k"
    using w sums(1)[OF filter_is_subset] by (simp add: trim_mask_def)
  show ?thesis
    using trim_keep_spec(2)[OF cf, of "max 0 (maxTokens - ?s)"] tok ms r(1,2) unfolding k
    by (intro exI[of _ r] exI[of _ ?k]) auto
qed

theorem trim_messages_budget_witness:
  "\<exists>r. TrimMessages sample_conv 6 (Some sample_est) = Some r \<and> tres_EstimatedTokens r \<le> 6"
proof -
  have "(\<Sum>m\<leftarrow>sample_conv. message_tokens sample_est m) \<le> MaxInt" "(6::int) \<le> MaxInt" by code_simp+
  moreover
  have "map tres_EstimatedTokens (case TrimMessages sample_conv 6 (Some sample_est) of Some r \<Rightarrow> [r] | None \<Rightarrow> []) = [5]" by code_simp
  ultimately show ?thesis using trim_messages_budget[of sample_est sample_conv 6] by (auto simp: sample_est_def)
qed

text \<open>Trimming by exchanges keeps a suffix of the dialogue: all system messages, the last
  \<open>n\<close> completed exchanges (all of them when \<open>n\<close> is negative or larger) and the unresolved tail with its user
  message, nothing else; tool calls stay with their results.\<close>

theorem trim_by_exchanges_exact:
  "filter is_system (tres_Messages (TrimByExchanges msgs n)) = filter is_system msgs
   \<and> non_system (tres_Messages (TrimByExchanges msgs n)) = masked (exchange_keep (non_system msgs) n) (non_system msgs)
   \<and> (\<forall>k < length (non_system msgs). exchange_keep (non_system msgs) n ! k =
        ((\<exists>(s, e) \<in> set (kept_exchanges (non_system msgs) n). s \<le> k \<and> k \<le> e)
         \<or> (\<exists>t. tail_start (non_system msgs) = Some t \<and> t \<le> k)))
   \<and> (\<forall>c \<in> set (identifyToolChains (non_system msgs) None). \<forall>k j. in_chain c k \<and> in_chain c j \<longrightarrow>
        exchange_keep (non_system msgs) n ! k = exchange_keep (non_system msgs) n ! j)
   \<and> length (tres_Messages (TrimByExchanges msgs n)) + tres_TrimmedCount (TrimByExchanges msgs n) = length msgs"
  using merge_keep_spec[of "exchange_keep (non_system msgs) n" msgs] exchange_keep_nth[of _ "non_system msgs" n]
    exchange_keep_atomic[of _ "non_system msgs" _ _ n]
  by (cases "msgs = []") (auto simp: TrimByExchanges_def trimByExchangesKeep_def Let_def)

theorem trim_by_exchanges_exact_witness:
  "tres_Messages (TrimByExchanges sample_conv 1)
     = [sample_msg ''system'' ''s'', sample_msg ''user'' ''q2'', sample_msg ''assistant'' ''a2'']
   \<and> filter is_system (tres_Messages (TrimByExchanges sample_conv 1)) = [sample_msg ''system'' ''s'']"
proof -
  have "tres_Messages (TrimByExchanges sample_conv 1)
     = [sample_msg ''system'' ''s'', sample_msg ''user'' ''q2'', sample_msg ''assistant'' ''a2'']"
    "filter is_system sample_conv = [sample_msg ''system'' ''s'']" by code_simp+
  then show ?thesis using trim_by_exchanges_exact[of sample_conv 1] by simp
qed

end
