(* ===== verification/Conversation_Compress.thy ===== *)
theory Conversation_Compress
  imports Conversation_Trim Go_Strings
begin

text \<open>
  Compression of a conversation into its durable summary, \<open>conversation/compress.go\<close>. The summarizer
  is a function of the prior summary and the evicted messages that may fail; a nil one is \<open>None\<close>. Nil cost
  functions and estimators panic before anything else and are not part of the model. The error of a
  failed compression comes with the zero \<open>Conversation\<close>, which is not represented. Costs, the number of
  exchanges and the message count are Go ints, and every sum of them wraps.
\<close>

record DurableSummary =
  ds_Content :: string
  ds_MessageCount :: int

record Conversation =
  co_ID :: string
  co_Title :: string
  co_Messages :: "CMessage list"
  co_DurableSummary :: "DurableSummary option"
  co_Revision :: int
  co_CreatedAt :: gotime
  co_UpdatedAt :: gotime

datatype compress_error = ErrNilSummarizer | ErrEmptySummary | ErrSummarizer string

type_synonym Summarizer = "string \<Rightarrow> CMessage list \<Rightarrow> string + string"

definition rawCost :: "CMessage list \<Rightarrow> (CMessage \<Rightarrow> int) \<Rightarrow> int" where
  "rawCost msgs cost = foldl (\<lambda>n m. if cv_Role m \<noteq> ''system'' then wrap_int (n + cost m) else n) 0 msgs"

definition EstimateMessagesTokens :: "CMessage list \<Rightarrow> TokenEstimator \<Rightarrow> int" where
  "EstimateMessagesTokens msgs est = rawCost msgs (conv_messageCost est)"

definition keptRawCost :: "CMessage list \<Rightarrow> bool list \<Rightarrow> (CMessage \<Rightarrow> int) \<Rightarrow> int" where
  "keptRawCost msgs keep cost =
     foldl (\<lambda>n (m, k). if k \<and> cv_Role m \<noteq> ''system'' then wrap_int (n + cost m) else n) 0 (zip msgs keep)"

definition sameKeepMask :: "bool list \<Rightarrow> bool list \<Rightarrow> bool" where
  "sameKeepMask a b \<longleftrightarrow> (if length a \<noteq> length b then False else (\<forall>i < length a. a ! i = b ! i))"

lemma sameKeepMask_eq [simp]: "sameKeepMask a b \<longleftrightarrow> a = b"
  by (auto simp: sameKeepMask_def list_eq_iff_nth_eq)

text \<open>The model-free summarizer: the prior summary, then the messages rendered one per line.\<close>

definition render_line :: "CMessage \<Rightarrow> string" where
  "render_line m =
     (if cv_Role m = [] \<and> cv_Content m = [] then []
      else (if cv_Role m \<noteq> [] then cv_Role m @ '': '' else []) @ cv_Content m @ newline)"

definition FallbackSummarizer :: Summarizer where
  "FallbackSummarizer prior msgs =
     Inr (TrimSpace ((if TrimSpace prior \<noteq> [] then TrimSpace prior @ newline @ newline else []) @ concat (map render_line msgs)))"

section \<open>The retained window\<close>

text \<open>
  The loop grows the window exchange by exchange. Its mask is always that of the current number
  of exchanges, so the number is its state. It is a Go int: from \<open>MaxInt\<close> it wraps to a negative number, which
  selects every exchange, and the loop ends there at the latest.
\<close>

lemma exchange_keep_all:
  assumes "m < 0 \<or> int (length (resolved_exchanges ns)) \<le> m" "n < 0 \<or> int (length (resolved_exchanges ns)) \<le> n"
  shows "exchange_keep ns m = exchange_keep ns n"
  using assms by (intro nth_equalityI) (auto simp: exchange_keep_nth kept_exchanges_def)

lemma trimByExchangesKeep_all:
  "m < 0 \<or> int (length (resolved_exchanges (non_system msgs))) \<le> m \<Longrightarrow>
   n < 0 \<or> int (length (resolved_exchanges (non_system msgs))) \<le> n \<Longrightarrow>
   trimByExchangesKeep msgs m = trimByExchangesKeep msgs n"
  unfolding trimByExchangesKeep_def by (simp only: exchange_keep_all[of m "non_system msgs" n])

text \<open>Steps the number of exchanges can still take: up to \<open>MaxInt\<close>, and the one that wraps.\<close>

definition window_steps :: "int \<Rightarrow> nat" where
  "window_steps n = (if is_int64 n then if n < -1 then 0 else nat (MaxInt - n) + 1 else nat MaxInt + 3)"

lemma window_steps_less: "\<not> (n < -1 \<and> is_int64 n) \<Longrightarrow> window_steps (wrap_int (n + 1)) < window_steps n"
proof (cases "is_int64 n \<and> n \<noteq> MaxInt")
  case True
  moreover assume "\<not> (n < -1 \<and> is_int64 n)"
  ultimately show ?thesis by (auto simp: wrap_int_nonneg window_steps_def is_int64_def MinInt_def MaxInt_def)
next
  case False
  show ?thesis
  proof (cases "n = MaxInt")
    case True
    then show ?thesis by (simp add: window_steps_def is_int64_def wrap_int_def MinInt_def MaxInt_def)
  next
    case n: False
    with False have "window_steps n = nat MaxInt + 3" by (simp add: window_steps_def)
    moreover have "window_steps (wrap_int (n + 1)) \<le> nat MaxInt + 2" by (auto simp: window_steps_def)
    ultimately show ?thesis by simp
  qed
qed

function grow_window :: "CMessage list \<Rightarrow> (CMessage \<Rightarrow> int) \<Rightarrow> int \<Rightarrow> int \<Rightarrow> bool list" where
  "grow_window msgs cost maxTokens n =
     (let keep = trimByExchangesKeep msgs n; grown = trimByExchangesKeep msgs (wrap_int (n + 1))
      in if sameKeepMask grown keep then keep
         else if keptRawCost msgs grown cost > maxTokens then keep
         else grow_window msgs cost maxTokens (wrap_int (n + 1)))"
  by pat_completeness auto
termination
proof (relation "measure (\<lambda>(msgs, cost, maxTokens, n). window_steps n)", goal_cases)
  case (2 msgs cost maxTokens n keep grown)
  have "wrap_int (n + 1) = n + 1" if "n < -1" "is_int64 n" using that by (intro wrap_int_id) (auto simp: is_int64_def MaxInt_def)
  then have "\<not> (n < -1 \<and> is_int64 n)" using 2 trimByExchangesKeep_all[of n msgs "n + 1"] by auto
  then show ?case by (simp add: window_steps_less)
qed simp

declare grow_window.simps [simp del]

definition CompressMessagesWithCost :: "Conversation \<Rightarrow> int \<Rightarrow> int \<Rightarrow> (CMessage \<Rightarrow> int) \<Rightarrow> Summarizer option
    \<Rightarrow> compress_error + Conversation" where
  "CompressMessagesWithCost conv maxTokens minRecentExchanges cost summarize =
     (case summarize of
        None \<Rightarrow> Inl ErrNilSummarizer
      | Some f \<Rightarrow>
          let (prior, priorCount) = (case co_DurableSummary conv of Some d \<Rightarrow> (ds_Content d, ds_MessageCount d) | None \<Rightarrow> ([], 0));
              hasPrior = (TrimSpace prior \<noteq> [])
          in if rawCost (co_Messages conv) cost \<le> maxTokens \<and> \<not> hasPrior then Inr conv
             else let minRecent = (if minRecentExchanges < 0 then 0 else minRecentExchanges);
                      keep = grow_window (co_Messages conv) cost maxTokens minRecent;
                      old = masked (map2 (\<lambda>k m. \<not> k \<and> cv_Role m \<noteq> ''system'') keep (co_Messages conv)) (co_Messages conv);
                      recent = masked (map2 (\<lambda>k m. k \<or> cv_Role m = ''system'') keep (co_Messages conv)) (co_Messages conv)
                  in if old = [] \<and> \<not> hasPrior then Inr conv
                     else case f prior old of
                            Inl e \<Rightarrow> Inl (ErrSummarizer e)
                          | Inr newSummary \<Rightarrow>
                              if TrimSpace newSummary = [] then Inl ErrEmptySummary
                              else Inr (conv\<lparr>co_Messages := recent,
                                             co_DurableSummary := Some \<lparr>ds_Content = TrimSpace newSummary,
                                               ds_MessageCount = wrap_int (priorCount + int (length old))\<rparr>\<rparr>))"

definition CompressMessages :: "Conversation \<Rightarrow> int \<Rightarrow> int \<Rightarrow> TokenEstimator \<Rightarrow> Summarizer option
    \<Rightarrow> compress_error + Conversation" where
  "CompressMessages conv maxTokens minRecentExchanges est summarize =
     CompressMessagesWithCost conv maxTokens minRecentExchanges (conv_messageCost est) summarize"

section \<open>Lemmas\<close>

lemma rawCost_eq: "rawCost msgs cost = wrap_int (\<Sum>m\<leftarrow>non_system msgs. cost m)"
proof -
  have "foldl (\<lambda>n m. if cv_Role m \<noteq> ''system'' then wrap_int (n + cost m) else n) n msgs
      = foldl (\<lambda>n m. wrap_int (n + cost m)) n (non_system msgs)" for n
    by (induction msgs arbitrary: n) auto
  then show ?thesis by (simp add: rawCost_def wrap_int_sum_0)
qed

lemma keptRawCost_eq: "keptRawCost msgs keep cost = wrap_int (\<Sum>m\<leftarrow>non_system (masked keep msgs). cost m)"
proof -
  have "foldl (\<lambda>n (m, k). if k \<and> cv_Role m \<noteq> ''system'' then wrap_int (n + cost m) else n) n (zip msgs keep)
      = foldl (\<lambda>n m. wrap_int (n + cost m)) n (non_system (masked keep msgs))" for n
    by (induction keep msgs arbitrary: n rule: masked.induct) auto
  then show ?thesis by (simp add: keptRawCost_def wrap_int_sum_0)
qed

lemma length_trimByExchangesKeep [simp]: "length (trimByExchangesKeep msgs n) = length msgs"
  by (simp add: trimByExchangesKeep_def)

lemma merge_keep_system: "i < length msgs \<Longrightarrow> cv_Role (msgs ! i) = ''system'' \<Longrightarrow> merge_keep msgs keep ! i"
  by (induction msgs arbitrary: i keep) (auto simp: nth_Cons split: nat.splits)

text \<open>The window is that of some number of exchanges from the floor on, and is the floor or fits.\<close>

lemma grow_window_wrapped: "grow_window msgs cost maxTokens MinInt = trimByExchangesKeep msgs MinInt"
proof -
  have "wrap_int (MinInt + 1) = MinInt + 1" by (simp add: wrap_int_def MinInt_def)
  moreover have "trimByExchangesKeep msgs (MinInt + 1) = trimByExchangesKeep msgs MinInt"
    by (rule trimByExchangesKeep_all) (auto simp: MinInt_def)
  ultimately show ?thesis by (subst grow_window.simps) (simp add: Let_def)
qed

lemma grow_window_spec:
  "0 \<le> n \<Longrightarrow> n \<le> MaxInt \<Longrightarrow> \<exists>k. n \<le> k \<and> grow_window msgs cost maxTokens n = trimByExchangesKeep msgs k
     \<and> (k = n \<or> keptRawCost msgs (grow_window msgs cost maxTokens n) cost \<le> maxTokens)"
proof (induction msgs cost maxTokens n rule: grow_window.induct)
  case (1 msgs cost maxTokens n)
  let ?keep = "trimByExchangesKeep msgs n" and ?grown = "trimByExchangesKeep msgs (wrap_int (n + 1))"
  show ?case
  proof (cases "?grown = ?keep \<or> maxTokens < keptRawCost msgs ?grown cost")
    case True
    then have "grow_window msgs cost maxTokens n = ?keep" by (subst grow_window.simps) (auto simp: Let_def)
    with True show ?thesis by (intro exI[of _ n]) auto
  next
    case False
    then have eq: "grow_window msgs cost maxTokens n = grow_window msgs cost maxTokens (wrap_int (n + 1))"
      by (subst grow_window.simps) (simp add: Let_def)
    have step: "\<not> sameKeepMask ?grown ?keep" "\<not> maxTokens < keptRawCost msgs ?grown cost" using False by auto
    show ?thesis
    proof (cases "n = MaxInt")
      case True
      let ?L = "int (length (resolved_exchanges (non_system msgs)))"
      have w: "wrap_int (n + 1) = MinInt" using True by (simp add: wrap_int_def MaxInt_def MinInt_def)
      moreover have "trimByExchangesKeep msgs MinInt = trimByExchangesKeep msgs (max n ?L)" by (rule trimByExchangesKeep_all) auto
      ultimately show ?thesis using False unfolding eq w grow_window_wrapped by (intro exI[of _ "max n ?L"]) auto
    next
      case below: False
      then have w: "wrap_int (n + 1) = n + 1" "n + 1 \<le> MaxInt" using "1.prems" by (auto intro: wrap_int_nonneg)
      from "1.IH"[OF refl refl step] w "1.prems" obtain k where k: "n + 1 \<le> k"
        "grow_window msgs cost maxTokens (n + 1) = trimByExchangesKeep msgs k"
        "k = n + 1 \<or> keptRawCost msgs (grow_window msgs cost maxTokens (n + 1)) cost \<le> maxTokens" by auto
      then have "keptRawCost msgs (grow_window msgs cost maxTokens (n + 1)) cost \<le> maxTokens" using False w by auto
      with k show ?thesis unfolding eq w(1) by (intro exI[of _ k]) auto
    qed
  qed
qed

lemma masked_sum_fits:
  assumes "\<forall>m \<in> set ms. 0 \<le> cost m" and "(\<Sum>m\<leftarrow>ms. cost m) \<le> MaxInt"
  shows "wrap_int (\<Sum>m\<leftarrow>masked keep ms. cost m) = (\<Sum>m\<leftarrow>masked keep ms. cost m)"
proof -
  have "0 \<le> (\<Sum>m\<leftarrow>masked keep ms. cost m) \<and> (\<Sum>m\<leftarrow>masked keep ms. cost m) \<le> (\<Sum>m\<leftarrow>ms. cost m)"
    using assms(1) by (induction keep ms rule: masked.induct) (auto intro!: sum_list_nonneg)
  with assms(2) show ?thesis by (intro wrap_int_nonneg) auto
qed

lemma masked_split:
  assumes "length keep = length msgs"
  shows "mset (masked (map2 (\<lambda>k m. \<not> k \<and> \<not> P m) keep msgs) msgs) + mset (masked (map2 (\<lambda>k m. k \<or> P m) keep msgs) msgs) = mset msgs"
  using assms by (induction keep msgs rule: list_induct2) auto

lemma masked_or_filter:
  assumes "length keep = length msgs"
  shows "filter P (masked (map2 (\<lambda>k m. k \<or> P m) keep msgs) msgs) = filter P msgs"
    "filter (\<lambda>m. \<not> P m) (masked (map2 (\<lambda>k m. k \<or> P m) keep msgs) msgs) = filter (\<lambda>m. \<not> P m) (masked keep msgs)"
  using assms by (induction keep msgs rule: list_induct2) auto

section \<open>What compression guarantees\<close>

definition prior_summary :: "Conversation \<Rightarrow> string" where
  "prior_summary conv = (case co_DurableSummary conv of Some d \<Rightarrow> ds_Content d | None \<Rightarrow> [])"

definition prior_count :: "Conversation \<Rightarrow> int" where
  "prior_count conv = (case co_DurableSummary conv of Some d \<Rightarrow> ds_MessageCount d | None \<Rightarrow> 0)"

text \<open>The messages outside the window, which are handed to the summarizer, and those inside it.\<close>

abbreviation evicted :: "bool list \<Rightarrow> CMessage list \<Rightarrow> CMessage list" where
  "evicted keep msgs \<equiv> masked (map2 (\<lambda>k m. \<not> k \<and> \<not> is_system m) keep msgs) msgs"

abbreviation retained :: "bool list \<Rightarrow> CMessage list \<Rightarrow> CMessage list" where
  "retained keep msgs \<equiv> masked (map2 (\<lambda>k m. k \<or> is_system m) keep msgs) msgs"

abbreviation window :: "Conversation \<Rightarrow> int \<Rightarrow> int \<Rightarrow> (CMessage \<Rightarrow> int) \<Rightarrow> bool list" where
  "window conv maxTokens minRecent cost \<equiv> grow_window (co_Messages conv) cost maxTokens (max 0 minRecent)"

lemma CompressMessagesWithCost_eq:
  "CompressMessagesWithCost conv maxTokens minRecent cost (Some f) =
    (let keep = window conv maxTokens minRecent cost; old = evicted keep (co_Messages conv)
     in if TrimSpace (prior_summary conv) = [] \<and> (rawCost (co_Messages conv) cost \<le> maxTokens \<or> old = []) then Inr conv
        else case f (prior_summary conv) old of
               Inl e \<Rightarrow> Inl (ErrSummarizer e)
             | Inr s \<Rightarrow> if TrimSpace s = [] then Inl ErrEmptySummary
                 else Inr (conv\<lparr>co_Messages := retained keep (co_Messages conv),
                                co_DurableSummary := Some \<lparr>ds_Content = TrimSpace s, ds_MessageCount = wrap_int (prior_count conv + int (length old))\<rparr>\<rparr>))"
proof -
  have "(if minRecent < 0 then 0 else minRecent) = max 0 minRecent" by simp
  then show ?thesis
    by (cases "co_DurableSummary conv") (simp_all add: CompressMessagesWithCost_def prior_summary_def prior_count_def Let_def split: sum.split)
qed

lemma length_window [simp]: "length (grow_window msgs cost maxTokens n) = length msgs"
proof (induction msgs cost maxTokens n rule: grow_window.induct)
  case (1 msgs cost maxTokens n)
  then show ?case by (subst grow_window.simps) (simp add: Let_def)
qed

lemma retained_window:
  assumes "minRecent \<le> MaxInt"
  obtains k where "max 0 minRecent \<le> k"
    "non_system (retained (window conv maxTokens minRecent cost) (co_Messages conv))
       = masked (exchange_keep (non_system (co_Messages conv)) k) (non_system (co_Messages conv))"
    "k = max 0 minRecent \<or> wrap_int (\<Sum>m\<leftarrow>non_system (retained (window conv maxTokens minRecent cost) (co_Messages conv)). cost m) \<le> maxTokens"
proof -
  let ?w = "window conv maxTokens minRecent cost" and ?ms = "co_Messages conv"
  obtain k where k: "max 0 minRecent \<le> k" "?w = trimByExchangesKeep ?ms k"
      "k = max 0 minRecent \<or> keptRawCost ?ms ?w cost \<le> maxTokens"
    using grow_window_spec[of "max 0 minRecent" ?ms cost maxTokens] assms by auto
  have r: "non_system (retained ?w ?ms) = non_system (masked ?w ?ms)" by (rule masked_or_filter(2)) simp
  have "non_system (masked ?w ?ms) = masked (exchange_keep (non_system ?ms) k) (non_system ?ms)"
    using merge_keep_spec[of "exchange_keep (non_system ?ms) k" ?ms] unfolding k(2) trimByExchangesKeep_def by simp
  with that[of k] k r show ?thesis by (simp add: keptRawCost_eq)
qed

text \<open>C24: When compression returns a conversation that differs from its input, every message of the input was
  either handed to the summarizer or is still there, system messages are all kept, the summarizer
  succeeded on the prior summary and exactly the evicted messages, its summary is not blank, and the
  summary counts the evicted messages, in a Go int. The retained dialogue is that of at least the required number
  of recent exchanges (a Go int) and is that floor or has a cost within the budget: its cost as Go ints add up, and
  its exact cost if no message has a negative cost and the costs of the whole dialogue add up to a Go int.\<close>

theorem compress_loses_nothing:
  assumes "CompressMessagesWithCost conv maxTokens minRecent cost (Some f) = Inr conv'" "conv' \<noteq> conv" "minRecent \<le> MaxInt"
  shows "\<exists>old s k. mset old + mset (co_Messages conv') = mset (co_Messages conv)
     \<and> filter is_system (co_Messages conv') = filter is_system (co_Messages conv)
     \<and> f (prior_summary conv) old = Inr s \<and> TrimSpace s \<noteq> []
     \<and> co_DurableSummary conv' = Some \<lparr>ds_Content = TrimSpace s, ds_MessageCount = wrap_int (prior_count conv + int (length old))\<rparr>
     \<and> max 0 minRecent \<le> k
     \<and> non_system (co_Messages conv') = masked (exchange_keep (non_system (co_Messages conv)) k) (non_system (co_Messages conv))
     \<and> (k = max 0 minRecent \<or> wrap_int (\<Sum>m\<leftarrow>non_system (co_Messages conv'). cost m) \<le> maxTokens)
     \<and> (k = max 0 minRecent \<or> (\<Sum>m\<leftarrow>non_system (co_Messages conv'). cost m) \<le> maxTokens
        \<or> (\<exists>m \<in> set (non_system (co_Messages conv)). cost m < 0) \<or> MaxInt < (\<Sum>m\<leftarrow>non_system (co_Messages conv). cost m))"
proof -
  let ?w = "window conv maxTokens minRecent cost" and ?ms = "co_Messages conv"
  from assms obtain s where s: "f (prior_summary conv) (evicted ?w ?ms) = Inr s" "TrimSpace s \<noteq> []"
    and c: "conv' = conv\<lparr>co_Messages := retained ?w ?ms, co_DurableSummary := Some \<lparr>ds_Content = TrimSpace s,
              ds_MessageCount = wrap_int (prior_count conv + int (length (evicted ?w ?ms)))\<rparr>\<rparr>"
    by (auto simp: CompressMessagesWithCost_eq Let_def split: if_splits sum.splits)
  obtain k where k: "max 0 minRecent \<le> k"
    "non_system (retained ?w ?ms) = masked (exchange_keep (non_system ?ms) k) (non_system ?ms)"
    "k = max 0 minRecent \<or> wrap_int (\<Sum>m\<leftarrow>non_system (retained ?w ?ms). cost m) \<le> maxTokens"
    using retained_window[OF assms(3), where conv = conv and maxTokens = maxTokens and cost = cost] by blast
  have "mset (evicted ?w ?ms) + mset (retained ?w ?ms) = mset ?ms" by (rule masked_split) simp
  moreover have "filter is_system (retained ?w ?ms) = filter is_system ?ms" by (rule masked_or_filter(1)) simp
  moreover have "wrap_int (\<Sum>m\<leftarrow>non_system (retained ?w ?ms). cost m) = (\<Sum>m\<leftarrow>non_system (retained ?w ?ms). cost m)
      \<or> (\<exists>m \<in> set (non_system ?ms). cost m < 0) \<or> MaxInt < (\<Sum>m\<leftarrow>non_system ?ms. cost m)"
    using masked_sum_fits[of "non_system ?ms" cost "exchange_keep (non_system ?ms) k"] unfolding k(2)
    by (meson not_le)
  ultimately show ?thesis using s k unfolding c
    by (intro exI[of _ "evicted ?w ?ms"] exI[of _ s] exI[of _ k]) auto
qed

definition sample_history :: Conversation where
  "sample_history = \<lparr>co_ID = ''c'', co_Title = [], co_Messages = sample_conv, co_DurableSummary = None,
     co_Revision = 1, co_CreatedAt = 0, co_UpdatedAt = 0\<rparr>"

theorem compress_loses_nothing_witness:
  "\<exists>conv'. CompressMessagesWithCost sample_history 1 1 (conv_messageCost sample_est) (Some FallbackSummarizer) = Inr conv'
     \<and> (\<exists>old. mset old + mset (co_Messages conv') = mset sample_conv)"
proof -
  have "(case CompressMessagesWithCost sample_history 1 1 (conv_messageCost sample_est) (Some FallbackSummarizer) of
      Inr c \<Rightarrow> c \<noteq> sample_history | Inl _ \<Rightarrow> False)" by code_simp
  then obtain conv' where c: "CompressMessagesWithCost sample_history 1 1 (conv_messageCost sample_est) (Some FallbackSummarizer) = Inr conv'"
    "conv' \<noteq> sample_history" by (auto split: sum.splits)
  have "co_Messages sample_history = sample_conv" by (simp add: sample_history_def)
  moreover have "(1::int) \<le> MaxInt" by (simp add: MaxInt_def)
  ultimately show ?thesis using compress_loses_nothing[OF c] c(1) by auto
qed

text \<open>Compression fails only through its summarizer, and then changes nothing: it reports the summarizer's error, or
  that the summary is blank. Without a summarizer it is refused. With a summarizer that always
  produces text it succeeds, and a history that fits and has no durable summary is returned as it is
  without a summarizer call.\<close>

theorem compress_errors_exact:
  "CompressMessagesWithCost conv maxTokens minRecent cost None = Inl ErrNilSummarizer
   \<and> (CompressMessagesWithCost conv maxTokens minRecent cost (Some f) = Inl e \<longrightarrow>
        (\<exists>old. subseq old (non_system (co_Messages conv)) \<and>
          (case e of ErrSummarizer msg \<Rightarrow> f (prior_summary conv) old = Inl msg
                   | ErrEmptySummary \<Rightarrow> (\<exists>s. f (prior_summary conv) old = Inr s \<and> TrimSpace s = [])
                   | ErrNilSummarizer \<Rightarrow> False)))
   \<and> ((\<forall>old. \<exists>s. f (prior_summary conv) old = Inr s \<and> TrimSpace s \<noteq> []) \<longrightarrow>
        (\<exists>conv'. CompressMessagesWithCost conv maxTokens minRecent cost (Some f) = Inr conv'))
   \<and> (rawCost (co_Messages conv) cost \<le> maxTokens \<and> TrimSpace (prior_summary conv) = [] \<longrightarrow>
        CompressMessagesWithCost conv maxTokens minRecent cost (Some f) = Inr conv)"
proof (intro conjI impI, goal_cases)
  case 2
  have "subseq (evicted keep msgs) (non_system msgs)" if "length keep = length msgs" for keep msgs
    using that by (induction keep msgs rule: list_induct2) auto
  then have "subseq (evicted (window conv maxTokens minRecent cost) (co_Messages conv)) (non_system (co_Messages conv))" by simp
  with 2 show ?case by (auto simp: CompressMessagesWithCost_eq Let_def split: if_splits sum.splits compress_error.splits)
next
  case 3
  then obtain s where "f (prior_summary conv) (evicted (window conv maxTokens minRecent cost) (co_Messages conv)) = Inr s" "TrimSpace s \<noteq> []" by blast
  then show ?case by (simp add: CompressMessagesWithCost_eq Let_def)
next
  case 4
  then show ?case by (simp add: CompressMessagesWithCost_eq Let_def)
qed (simp add: CompressMessagesWithCost_def)

theorem compress_errors_exact_witness:
  "CompressMessagesWithCost sample_history 100 1 (conv_messageCost sample_est) (Some (\<lambda>_ _. Inl ''x'')) = Inr sample_history
   \<and> (\<exists>c. CompressMessagesWithCost sample_history 1 1 (conv_messageCost sample_est) (Some (\<lambda>_ _. Inr ''x'')) = Inr c)"
proof -
  have "rawCost (co_Messages sample_history) (conv_messageCost sample_est) \<le> 100 \<and> TrimSpace (prior_summary sample_history) = []"
    by code_simp
  moreover have "TrimSpace ''x'' \<noteq> []" by code_simp
  ultimately show ?thesis
    using compress_errors_exact[of sample_history 100 1 "conv_messageCost sample_est" "\<lambda>_ _. Inl ''x''"]
      compress_errors_exact[of sample_history 1 1 "conv_messageCost sample_est" "\<lambda>_ _. Inr ''x''"] by auto
qed

end
