(* ===== verification/Go_Json.thy ===== *)
theory Go_Json
  imports Prelude
begin

text \<open>
  \<open>json.Valid\<close> of Go's standard library, as the byte-driven state machine of
  \<open>encoding/json/scanner.go\<close>: a current state, the stack of open objects and arrays (innermost
  first) and the limit of 10000 on its depth. The sources use it to accept the arguments of a tool
  call; bytes are characters.
\<close>

datatype parse_frame = parseObjectKey | parseObjectValue | parseArrayValue

datatype scan_state =
    BeginValueOrEmpty | BeginValue | BeginStringOrEmpty | BeginString | EndValue | EndTop
  | InString | InStringEsc | InStringEscU nat
  | Neg | Digits1 | Zero | Dot | Dot0 | Exp | ExpSign | Exp0
  | Literal string | ScanError

type_synonym scanner = "scan_state \<times> parse_frame list"

abbreviation is_json_space :: "char \<Rightarrow> bool" where
  "is_json_space c \<equiv> c \<in> {CHR '' '', CHR 0x09, CHR 0x0A, CHR 0x0D}"

abbreviation is_digit :: "char \<Rightarrow> bool" where
  "is_digit c \<equiv> of_char c \<ge> (48 :: nat) \<and> of_char c \<le> (57 :: nat)"

abbreviation is_hex :: "char \<Rightarrow> bool" where
  "is_hex c \<equiv> is_digit c \<or> (of_char c \<ge> (97 :: nat) \<and> of_char c \<le> (102 :: nat)) \<or> (of_char c \<ge> (65 :: nat) \<and> of_char c \<le> (70 :: nat))"

definition maxNestingDepth :: nat where
  "maxNestingDepth = 10000"

definition pushFrame :: "parse_frame \<Rightarrow> scan_state \<Rightarrow> parse_frame list \<Rightarrow> scanner" where
  "pushFrame f s fs = (if length fs < maxNestingDepth then (s, f # fs) else (ScanError, f # fs))"

definition popFrame :: "parse_frame list \<Rightarrow> scanner" where
  "popFrame fs = (case fs of [] \<Rightarrow> (EndTop, []) | [f] \<Rightarrow> (EndTop, []) | f # gs \<Rightarrow> (EndValue, gs))"

definition step_endTop :: "char \<Rightarrow> parse_frame list \<Rightarrow> scanner" where
  "step_endTop c fs = (if is_json_space c then (EndTop, fs) else (ScanError, fs))"

definition step_endValue :: "char \<Rightarrow> parse_frame list \<Rightarrow> scanner" where
  "step_endValue c fs =
     (case fs of
        [] \<Rightarrow> step_endTop c fs
      | f # gs \<Rightarrow>
          if is_json_space c then (EndValue, fs)
          else case f of
                 parseObjectKey \<Rightarrow> if c = CHR '':'' then (BeginValue, parseObjectValue # gs) else (ScanError, fs)
               | parseObjectValue \<Rightarrow> if c = CHR '','' then (BeginString, parseObjectKey # gs)
                   else if c = CHR ''}'' then popFrame fs else (ScanError, fs)
               | parseArrayValue \<Rightarrow> if c = CHR '','' then (BeginValue, fs)
                   else if c = CHR '']'' then popFrame fs else (ScanError, fs))"

definition step_beginValue :: "char \<Rightarrow> parse_frame list \<Rightarrow> scanner" where
  "step_beginValue c fs =
     (if is_json_space c then (BeginValue, fs)
      else if c = CHR ''{'' then pushFrame parseObjectKey BeginStringOrEmpty fs
      else if c = CHR ''['' then pushFrame parseArrayValue BeginValueOrEmpty fs
      else if c = CHR 0x22 then (InString, fs)
      else if c = CHR ''-'' then (Neg, fs)
      else if c = CHR ''0'' then (Zero, fs)
      else if c = CHR ''t'' then (Literal ''rue'', fs)
      else if c = CHR ''f'' then (Literal ''alse'', fs)
      else if c = CHR ''n'' then (Literal ''ull'', fs)
      else if is_digit c then (Digits1, fs)
      else (ScanError, fs))"

definition step_beginString :: "char \<Rightarrow> parse_frame list \<Rightarrow> scanner" where
  "step_beginString c fs =
     (if is_json_space c then (BeginString, fs) else if c = CHR 0x22 then (InString, fs) else (ScanError, fs))"

definition step_zero :: "char \<Rightarrow> parse_frame list \<Rightarrow> scanner" where
  "step_zero c fs = (if c = CHR ''.'' then (Dot, fs) else if c \<in> {CHR ''e'', CHR ''E''} then (Exp, fs) else step_endValue c fs)"

fun scan_step :: "char \<Rightarrow> scanner \<Rightarrow> scanner" where
  "scan_step c (BeginValueOrEmpty, fs) =
     (if is_json_space c then (BeginValueOrEmpty, fs) else if c = CHR '']'' then step_endValue c fs else step_beginValue c fs)"
| "scan_step c (BeginValue, fs) = step_beginValue c fs"
| "scan_step c (BeginStringOrEmpty, fs) =
     (if is_json_space c then (BeginStringOrEmpty, fs)
      else if c = CHR ''}'' then step_endValue c (parseObjectValue # tl fs)
      else step_beginString c fs)"
| "scan_step c (BeginString, fs) = step_beginString c fs"
| "scan_step c (EndValue, fs) = step_endValue c fs"
| "scan_step c (EndTop, fs) = step_endTop c fs"
| "scan_step c (InString, fs) =
     (if c = CHR 0x22 then (EndValue, fs) else if c = CHR 0x5C then (InStringEsc, fs)
      else if of_char c < (32 :: nat) then (ScanError, fs) else (InString, fs))"
| "scan_step c (InStringEsc, fs) =
     (if c \<in> {CHR ''b'', CHR ''f'', CHR ''n'', CHR ''r'', CHR ''t'', CHR 0x5C, CHR ''/'', CHR 0x22} then (InString, fs)
      else if c = CHR ''u'' then (InStringEscU 3, fs) else (ScanError, fs))"
| "scan_step c (InStringEscU n, fs) =
     (if is_hex c then ((case n of 0 \<Rightarrow> InString | Suc k \<Rightarrow> InStringEscU k), fs) else (ScanError, fs))"
| "scan_step c (Neg, fs) =
     (if c = CHR ''0'' then (Zero, fs) else if is_digit c then (Digits1, fs) else (ScanError, fs))"
| "scan_step c (Digits1, fs) = (if is_digit c then (Digits1, fs) else step_zero c fs)"
| "scan_step c (Zero, fs) = step_zero c fs"
| "scan_step c (Dot, fs) = (if is_digit c then (Dot0, fs) else (ScanError, fs))"
| "scan_step c (Dot0, fs) =
     (if is_digit c then (Dot0, fs) else if c \<in> {CHR ''e'', CHR ''E''} then (Exp, fs) else step_endValue c fs)"
| "scan_step c (Exp, fs) =
     (if c \<in> {CHR ''+'', CHR ''-''} then (ExpSign, fs) else if is_digit c then (Exp0, fs) else (ScanError, fs))"
| "scan_step c (ExpSign, fs) = (if is_digit c then (Exp0, fs) else (ScanError, fs))"
| "scan_step c (Exp0, fs) = (if is_digit c then (Exp0, fs) else step_endValue c fs)"
| "scan_step c (Literal l, fs) =
     (case l of [] \<Rightarrow> (ScanError, fs)
      | x # xs \<Rightarrow> if c \<noteq> x then (ScanError, fs) else if xs = [] then (EndValue, fs) else (Literal xs, fs))"
| "scan_step c (ScanError, fs) = (ScanError, fs)"

text \<open>At the end of the input a final space completes a top-level number.\<close>

definition scan_eof :: "scanner \<Rightarrow> bool" where
  "scan_eof s \<longleftrightarrow> (fst s \<noteq> ScanError \<and> (fst s = EndTop \<or> fst (scan_step (CHR '' '') s) = EndTop))"

definition json_Valid :: "string \<Rightarrow> bool" where
  "json_Valid data = scan_eof (fold scan_step data (BeginValue, []))"

lemma json_Valid_examples:
  "json_Valid ''{}''" "json_Valid '' [1, -0.5e+3, {} ] ''" "json_Valid ''0''"
  "\<not> json_Valid ''''" "\<not> json_Valid ''{''" "\<not> json_Valid ''01''" "\<not> json_Valid ''[1,]''" "\<not> json_Valid ''{}{}''"
  by code_simp+

lemma scan_error_absorbs: "fst s = ScanError \<Longrightarrow> fst (fold scan_step cs s) = ScanError"
proof (induction cs arbitrary: s)
  case (Cons c cs)
  then obtain fs where "s = (ScanError, fs)" by (cases s) auto
  with Cons show ?case by simp
qed simp

end
