(* ===== verification/Tool_Governor.thy ===== *)
theory Tool_Governor
  imports Agent_Types Go_Json "HOL-Library.Word"
begin

unbundle bit_operations_syntax

text \<open>
  Tools and the limits on their use: the effect classes, the approval rule and the tool registry of
  \<open>agent/tool.go\<close>; the pre-check for running a batch of calls concurrently of
  \<open>agent/dispatch_parallel.go\<close>; the restraint governor and the small result helpers of
  \<open>agent/orchestrator.go\<close>. A tool is what the loop reads of it before invoking it: its spec, its
  static effect, its planner when it has one (its answers may depend on how far the run has come) and its declared provenance when it has one. The route
  outcome of a tool result is added where calls are dispatched. Counters that only grow by one per tool call are unbounded integers.
\<close>

section \<open>Effects and approval\<close>

type_synonym EffectClass = "8 word"

definition Read :: EffectClass where "Read = 1"
definition Write :: EffectClass where "Write = 2"
definition Exec :: EffectClass where "Exec = 4"
definition Network :: EffectClass where "Network = 8"

definition Has :: "EffectClass \<Rightarrow> EffectClass \<Rightarrow> bool" where
  "Has c x \<longleftrightarrow> c AND x \<noteq> 0"

definition IsMutating :: "EffectClass \<Rightarrow> bool" where
  "IsMutating c \<longleftrightarrow> Has c Write \<or> Has c Exec"

text \<open>A policy outside the four constants is treated by every switch as \<open>ApprovalDefault\<close>.\<close>

datatype ApprovalPolicy = ApprovalDefault | ApprovalNever | ApprovalOnWrite | ApprovalAlways

record Scope =
  sc_Paths :: "string list"
  sc_CWD :: string

record Effect =
  ef_Class :: EffectClass
  ef_Scope :: Scope
  ef_Timeout :: duration
  ef_OutputCap :: int
  ef_Approval :: ApprovalPolicy

definition needsApproval :: "ApprovalPolicy \<Rightarrow> EffectClass \<Rightarrow> bool" where
  "needsApproval p c =
     (case p of ApprovalAlways \<Rightarrow> True | ApprovalNever \<Rightarrow> False
      | ApprovalOnWrite \<Rightarrow> IsMutating c | ApprovalDefault \<Rightarrow> IsMutating c)"

definition defaultToolTimeout :: duration where
  "defaultToolTimeout = 30 * nanosecond_per_second"

definition defaultOutputCap :: int where
  "defaultOutputCap = 65536"

definition defaultToolErrorCap :: int where
  "defaultToolErrorCap = 3"

definition normalizeEffect :: "Effect \<Rightarrow> Effect" where
  "normalizeEffect e =
     (let e = (if ef_Timeout e \<le> 0 then e\<lparr>ef_Timeout := defaultToolTimeout\<rparr> else e)
      in if ef_OutputCap e \<le> 0 then e\<lparr>ef_OutputCap := defaultOutputCap\<rparr> else e)"

section \<open>Provenance\<close>

text \<open>Origins are the 8-bit values of \<open>agent/interceptor.go\<close>, so that values outside the constants exist.\<close>

type_synonym Origin = "8 word"

definition OriginUnknown :: Origin where "OriginUnknown = 0"
definition OriginUser :: Origin where "OriginUser = 1"
definition OriginSystem :: Origin where "OriginSystem = 2"
definition OriginModel :: Origin where "OriginModel = 3"
definition OriginWorkspace :: Origin where "OriginWorkspace = 4"
definition OriginForeign :: Origin where "OriginForeign = 5"

definition Origin_String :: "Origin \<Rightarrow> string" where
  "Origin_String o' =
     (if o' = OriginUser then ''user'' else if o' = OriginSystem then ''system'' else if o' = OriginModel then ''model''
      else if o' = OriginWorkspace then ''workspace'' else if o' = OriginForeign then ''foreign'' else ''unknown'')"

definition normalizeOrigin :: "Origin \<Rightarrow> Origin" where
  "normalizeOrigin o' = (if o' > OriginForeign then OriginUnknown else o')"

definition trusted :: "Origin \<Rightarrow> bool" where
  "trusted o' \<longleftrightarrow> o' = OriginUser \<or> o' = OriginSystem \<or> o' = OriginModel \<or> o' = OriginWorkspace"

record ChildScopeDenial =
  sd_Task :: int
  sd_Requests :: int

section \<open>Tools and their registry\<close>

record ToolSpec =
  ts_Name :: string
  ts_Description :: string
  ts_Parameters :: string

record ToolPlan =
  tp_Effect :: Effect
  tp_Preview :: string
  tp_ApprovalKey :: string

record Tool =
  tl_Spec :: ToolSpec
  tl_Effect :: Effect
  tl_Plan :: "(nat \<Rightarrow> string \<Rightarrow> string + ToolPlan) option"
  tl_Origin :: "Origin option"

record ToolResult =
  tr_Content :: string
  tr_IsError :: bool
  tr_Preview :: string
  tr_Truncated :: bool
  tr_Provenance :: string
  tr_Attrib :: "RetrievalAttribution option"
  tr_Context :: "ContextSet option"
  tr_Origin :: Origin
  tr_ChildScopeDenials :: "ChildScopeDenial list"

record ToolFunction =
  tf_Name :: string
  tf_Description :: string
  tf_Parameters :: string

record ProviderTool =
  ptl_Type :: string
  ptl_Function :: ToolFunction

record toolRegistry =
  reg_byName :: "string \<Rightarrow> Tool option"
  reg_order :: "string list"

datatype registry_error = NilTool nat | EmptyToolName | DuplicateToolName string

fun register_from :: "nat \<Rightarrow> toolRegistry \<Rightarrow> Tool option list \<Rightarrow> registry_error + toolRegistry" where
  "register_from i r [] = Inr r"
| "register_from i r (None # ts) = Inl (NilTool i)"
| "register_from i r (Some t # ts) =
     (let name = ts_Name (tl_Spec t)
      in if name = [] then Inl EmptyToolName
         else if reg_byName r name \<noteq> None then Inl (DuplicateToolName name)
         else register_from (Suc i) (r\<lparr>reg_byName := (reg_byName r)(name \<mapsto> t), reg_order := reg_order r @ [name]\<rparr>) ts)"

definition newToolRegistry :: "Tool option list \<Rightarrow> registry_error + toolRegistry" where
  "newToolRegistry tools = register_from 0 \<lparr>reg_byName = Map.empty, reg_order = []\<rparr> tools"

definition reg_lookup :: "toolRegistry \<Rightarrow> string \<Rightarrow> Tool option" where
  "reg_lookup r name = reg_byName r name"

text \<open>\<open>None\<close> is the nil dereference of an ordered name with no tool.\<close>

definition providerSpecs :: "toolRegistry \<Rightarrow> ProviderTool list option" where
  "providerSpecs r =
     those (map (\<lambda>name. map_option (\<lambda>t. \<lparr>ptl_Type = ''function'',
        ptl_Function = \<lparr>tf_Name = ts_Name (tl_Spec t), tf_Description = ts_Description (tl_Spec t),
                        tf_Parameters = ts_Parameters (tl_Spec t)\<rparr>\<rparr>) (reg_byName r name)) (reg_order r))"

definition toolSchemaString :: "ProviderTool list \<Rightarrow> string" where
  "toolSchemaString specs =
     concat (map (\<lambda>sp. tf_Name (ptl_Function sp) @ tf_Description (ptl_Function sp) @ tf_Parameters (ptl_Function sp)) specs)"

section \<open>Concurrent batches\<close>

definition parallelSafe :: "Effect \<Rightarrow> bool" where
  "parallelSafe e = (let e = normalizeEffect e in ef_Class e = Read \<and> \<not> needsApproval (ef_Approval e) (ef_Class e))"

abbreviation call_name :: "ToolCall \<Rightarrow> string" where "call_name c \<equiv> tcf_Name (tc_Function c)"
abbreviation call_args :: "ToolCall \<Rightarrow> string" where "call_args c \<equiv> tcf_Arguments (tc_Function c)"

fun can_run_from :: "toolRegistry \<Rightarrow> string list \<Rightarrow> ToolCall list \<Rightarrow> bool" where
  "can_run_from reg seen [] = True"
| "can_run_from reg seen (call # calls) =
     (let name = call_name call
      in if name \<in> set seen then False
         else case reg_lookup reg name of
                None \<Rightarrow> False
              | Some tool \<Rightarrow>
                  if \<not> json_Valid (call_args call) then False
                  else if tl_Plan tool \<noteq> None then False
                  else if \<not> parallelSafe (tl_Effect tool) then False
                  else can_run_from reg (name # seen) calls)"

definition canRunParallel :: "toolRegistry \<Rightarrow> ToolCall list \<Rightarrow> bool" where
  "canRunParallel reg calls = can_run_from reg [] calls"

record EventRecord =
  ev_Step :: int
  ev_Kind :: string

text \<open>The events of a run from \<open>start\<close> on are filtered by their position in the batch; a \<open>start\<close> beyond the
  end is out of range (\<open>None\<close>).\<close>

definition retainToolCallEvents :: "EventRecord list \<Rightarrow> nat \<Rightarrow> (nat \<Rightarrow> bool) \<Rightarrow> EventRecord list option" where
  "retainToolCallEvents events start keep =
     (if start > length events then None
      else Some (take start events @ map snd (filter (\<lambda>(i, _). keep i) (enumerate 0 (drop start events)))))"

section \<open>The restraint governor\<close>

datatype StopReason = Completed | StepCapReached | BudgetReached | ToolErrorCapReached | RepeatLimitReached

definition StopReason_String :: "StopReason \<Rightarrow> string" where
  "StopReason_String s =
     (case s of Completed \<Rightarrow> ''completed'' | StepCapReached \<Rightarrow> ''step_cap_reached'' | BudgetReached \<Rightarrow> ''budget_reached''
      | ToolErrorCapReached \<Rightarrow> ''tool_error_cap_reached'' | RepeatLimitReached \<Rightarrow> ''repeat_limit_reached'')"

record ToolInvocationLimit =
  il_Tool :: string
  il_Max :: int

record restraintGovernor =
  gv_consecutiveErrors :: int
  gv_lastSig :: "64 word"
  gv_hasSig :: bool
  gv_repeatCount :: int
  gv_invocationLimit :: ToolInvocationLimit
  gv_invocations :: int

datatype governor_error = LimitEmptyTool | LimitNotPositive string int | LimitUnregistered string

definition newRestraintGovernor :: "ToolInvocationLimit \<Rightarrow> toolRegistry \<Rightarrow> governor_error + restraintGovernor" where
  "newRestraintGovernor limit reg =
     (let g = \<lparr>gv_consecutiveErrors = 0, gv_lastSig = 0, gv_hasSig = False, gv_repeatCount = 0,
               gv_invocationLimit = limit, gv_invocations = 0\<rparr>
      in if limit = \<lparr>il_Tool = [], il_Max = 0\<rparr> then Inr g
         else if il_Tool limit = [] then Inl LimitEmptyTool
         else if il_Max limit \<le> 0 then Inl (LimitNotPositive (il_Tool limit) (il_Max limit))
         else if reg_lookup reg (il_Tool limit) = None then Inl (LimitUnregistered (il_Tool limit))
         else Inr g)"

definition reserveInvocation :: "string \<Rightarrow> restraintGovernor \<Rightarrow> restraintGovernor \<times> int \<times> bool" where
  "reserveInvocation name g =
     (let limit = gv_invocationLimit g
      in if name \<noteq> il_Tool limit then (g, 0, True)
         else if gv_invocations g \<ge> il_Max limit then (g, il_Max limit, False)
         else (g\<lparr>gv_invocations := gv_invocations g + 1\<rparr>, il_Max limit, True))"

definition parallelUncapped :: "restraintGovernor \<Rightarrow> ToolCall list \<Rightarrow> bool" where
  "parallelUncapped g calls = (\<forall>call \<in> set calls. call_name call \<noteq> il_Tool (gv_invocationLimit g))"

text \<open>The 64-bit FNV-1a hash of \<open>hash/fnv\<close>.\<close>

definition fnv64a_write :: "string \<Rightarrow> 64 word \<Rightarrow> 64 word" where
  "fnv64a_write bs h = fold (\<lambda>c h. (h XOR of_nat (of_char c)) * 1099511628211) bs h"

definition fnv64a_new :: "64 word" where
  "fnv64a_new = 14695981039346656037"

definition toolCallSignature :: "ToolCall \<Rightarrow> ToolResult \<Rightarrow> 64 word" where
  "toolCallSignature call out =
     fnv64a_write (tr_Content out) (fnv64a_write [CHR 0x00] (fnv64a_write (call_args call)
       (fnv64a_write [CHR 0x00] (fnv64a_write (call_name call) fnv64a_new))))"

definition observe :: "ToolCall \<Rightarrow> ToolResult \<Rightarrow> restraintGovernor \<Rightarrow> restraintGovernor" where
  "observe call out g =
     (let g = g\<lparr>gv_consecutiveErrors := (if tr_IsError out then gv_consecutiveErrors g + 1 else 0)\<rparr>;
          sig = toolCallSignature call out
      in if gv_hasSig g \<and> sig = gv_lastSig g then g\<lparr>gv_repeatCount := gv_repeatCount g + 1\<rparr>
         else g\<lparr>gv_lastSig := sig, gv_hasSig := True, gv_repeatCount := 1\<rparr>)"

definition stopReason :: "restraintGovernor \<Rightarrow> StopReason \<times> bool" where
  "stopReason g =
     (if gv_consecutiveErrors g \<ge> defaultToolErrorCap then (ToolErrorCapReached, True)
      else if gv_repeatCount g \<ge> defaultToolErrorCap then (RepeatLimitReached, True)
      else (Completed, False))"

section \<open>Results of a run\<close>

definition addUsage :: "Usage \<Rightarrow> Usage \<Rightarrow> Usage" where
  "addUsage a b = a\<lparr>
     us_PromptTokens := us_PromptTokens a + us_PromptTokens b,
     us_CompletionTokens := us_CompletionTokens a + us_CompletionTokens b,
     us_TotalTokens := us_TotalTokens a + us_TotalTokens b,
     us_CachedPromptTokens := us_CachedPromptTokens a + us_CachedPromptTokens b,
     us_CachedPromptTokensReported := (us_CachedPromptTokensReported a \<or> us_CachedPromptTokensReported b),
     us_CacheWriteTokens := us_CacheWriteTokens a + us_CacheWriteTokens b,
     us_CacheWriteTokensReported := (us_CacheWriteTokensReported a \<or> us_CacheWriteTokensReported b)\<rparr>"

text \<open>The result of a run carries the chat part of the messages after the history; message clones are equal values.\<close>

definition resultMessages :: "State \<Rightarrow> nat \<Rightarrow> ChatMessage list" where
  "resultMessages st historyLen =
     (if historyLen \<ge> length (st_Messages st) then [] else map m_chat (drop historyLen (st_Messages st)))"

definition assistantMessage :: "string \<Rightarrow> ToolCall list \<Rightarrow> Message" where
  "assistantMessage content calls = mk_Message ((mk_ChatMessage ''assistant'' content)\<lparr>cm_ToolCalls := calls\<rparr>) Elastic"

section \<open>Approval and batches\<close>

lemma needsApproval_iff:
  "needsApproval p c \<longleftrightarrow> p = ApprovalAlways \<or> (p \<noteq> ApprovalNever \<and> IsMutating c)"
  by (cases p) (auto simp: needsApproval_def)

lemma Read_not_mutating [simp]: "\<not> IsMutating Read"
  by code_simp

lemma normalizeEffect_fields [simp]:
  "ef_Class (normalizeEffect e) = ef_Class e" "ef_Approval (normalizeEffect e) = ef_Approval e"
  "ef_Scope (normalizeEffect e) = ef_Scope e"
  "ef_Timeout (normalizeEffect e) = (if ef_Timeout e \<le> 0 then defaultToolTimeout else ef_Timeout e)"
  "ef_OutputCap (normalizeEffect e) = (if ef_OutputCap e \<le> 0 then defaultOutputCap else ef_OutputCap e)"
  by (simp_all add: normalizeEffect_def Let_def)

lemma parallelSafe_iff: "parallelSafe e \<longleftrightarrow> ef_Class e = Read \<and> ef_Approval e \<noteq> ApprovalAlways"
  by (auto simp: parallelSafe_def Let_def needsApproval_iff)

definition batch_call_ok :: "toolRegistry \<Rightarrow> ToolCall \<Rightarrow> bool" where
  "batch_call_ok reg call =
     (\<exists>tool. reg_lookup reg (call_name call) = Some tool \<and> json_Valid (call_args call) \<and> tl_Plan tool = None
        \<and> ef_Class (tl_Effect tool) = Read \<and> ef_Approval (tl_Effect tool) \<noteq> ApprovalAlways)"

lemma can_run_from_iff:
  "can_run_from reg seen calls \<longleftrightarrow>
     distinct (map call_name calls) \<and> set (map call_name calls) \<inter> set seen = {} \<and> (\<forall>call \<in> set calls. batch_call_ok reg call)"
proof (induction calls arbitrary: seen)
  case (Cons call calls)
  show ?case
    by (auto simp: Let_def Cons.IH batch_call_ok_def parallelSafe_iff split: option.splits)
qed simp

text \<open>A batch of tool calls may run concurrently (if it has two calls and no call is capped, which \<open>runToolCalls\<close>
  asks too) exactly when the names of its calls are distinct and every call
  names a registered tool with well-formed JSON arguments, no planner and a read-only effect
  whose policy does not always ask; so no call of the batch mutates or needs an approval.\<close>

theorem parallel_batch_read_only:
  "(canRunParallel reg calls \<longleftrightarrow> distinct (map call_name calls) \<and> (\<forall>call \<in> set calls. batch_call_ok reg call))
   \<and> (canRunParallel reg calls \<longrightarrow> (\<forall>call \<in> set calls. \<exists>tool. reg_lookup reg (call_name call) = Some tool
         \<and> \<not> IsMutating (ef_Class (tl_Effect tool)) \<and> \<not> needsApproval (ef_Approval (tl_Effect tool)) (ef_Class (tl_Effect tool))))"
  by (auto simp: canRunParallel_def can_run_from_iff batch_call_ok_def needsApproval_iff)

definition sample_effect :: "EffectClass \<Rightarrow> Effect" where
  "sample_effect c = \<lparr>ef_Class = c, ef_Scope = \<lparr>sc_Paths = [], sc_CWD = []\<rparr>, ef_Timeout = 0, ef_OutputCap = 0, ef_Approval = ApprovalDefault\<rparr>"

definition sample_tool :: "string \<Rightarrow> EffectClass \<Rightarrow> Tool" where
  "sample_tool n c = \<lparr>tl_Spec = \<lparr>ts_Name = n, ts_Description = [], ts_Parameters = ''{}''\<rparr>, tl_Effect = sample_effect c, tl_Plan = None, tl_Origin = None\<rparr>"

definition demo_call :: "string \<Rightarrow> ToolCall" where
  "demo_call n = \<lparr>tc_ID = n, tc_Type = ''function'', tc_Function = \<lparr>tcf_Index = 0, tcf_Name = n, tcf_Arguments = ''{}''\<rparr>\<rparr>"

definition sample_registry :: toolRegistry where
  "sample_registry = (case newToolRegistry [Some (sample_tool ''ls'' Read), Some (sample_tool ''cat'' Read), Some (sample_tool ''rm'' Write)] of
     Inr r \<Rightarrow> r | Inl _ \<Rightarrow> \<lparr>reg_byName = Map.empty, reg_order = []\<rparr>)"

theorem parallel_batch_read_only_witness:
  "canRunParallel sample_registry [demo_call ''ls'', demo_call ''cat'']
   \<and> \<not> canRunParallel sample_registry [demo_call ''ls'', demo_call ''rm'']
   \<and> (\<exists>tool. reg_lookup sample_registry ''ls'' = Some tool \<and> \<not> IsMutating (ef_Class (tl_Effect tool)))"
proof -
  have "canRunParallel sample_registry [demo_call ''ls'', demo_call ''cat'']"
    "\<not> canRunParallel sample_registry [demo_call ''ls'', demo_call ''rm'']" by code_simp+
  moreover have "call_name (demo_call ''ls'') = ''ls''" by (simp add: demo_call_def)
  ultimately show ?thesis using parallel_batch_read_only[of sample_registry "[demo_call ''ls'', demo_call ''cat'']"] by auto
qed

section \<open>The registry\<close>

abbreviation tool_name :: "Tool \<Rightarrow> string" where "tool_name t \<equiv> ts_Name (tl_Spec t)"

definition reg_ok :: "toolRegistry \<Rightarrow> bool" where
  "reg_ok r \<longleftrightarrow> distinct (reg_order r) \<and> set (reg_order r) = dom (reg_byName r)
     \<and> (\<forall>n t. reg_byName r n = Some t \<longrightarrow> tool_name t = n \<and> n \<noteq> [])"

abbreviation register :: "Tool \<Rightarrow> toolRegistry \<Rightarrow> toolRegistry" where
  "register t r \<equiv> r\<lparr>reg_byName := (reg_byName r)(tool_name t \<mapsto> t), reg_order := reg_order r @ [tool_name t]\<rparr>"

lemma register_ok: "reg_ok r \<Longrightarrow> tool_name t \<noteq> [] \<Longrightarrow> reg_byName r (tool_name t) = None \<Longrightarrow> reg_ok (register t r)"
  by (auto simp: reg_ok_def)

lemma register_from_mono:
  "register_from i r ts = Inr r' \<Longrightarrow> reg_byName r n = Some t \<Longrightarrow> reg_byName r' n = Some t"
proof (induction i r ts rule: register_from.induct)
  case (3 i r u ts)
  then have "n \<noteq> tool_name u" by (auto simp: Let_def split: if_splits)
  with 3 show ?case by (auto simp: Let_def split: if_splits)
qed auto

lemma register_from_order:
  "register_from i r ts = Inr r' \<Longrightarrow> None \<notin> set ts \<and> reg_order r' = reg_order r @ map (tool_name \<circ> the) ts"
  by (induction i r ts rule: register_from.induct) (auto simp: Let_def split: if_splits)

lemma register_from_ok: "register_from i r ts = Inr r' \<Longrightarrow> reg_ok r \<Longrightarrow> reg_ok r'"
proof (induction i r ts rule: register_from.induct)
  case (3 i r t ts)
  then show ?case using register_ok[of r t] by (auto simp: Let_def split: if_splits)
qed auto

lemma register_from_found:
  "register_from i r ts = Inr r' \<Longrightarrow> Some t \<in> set ts \<Longrightarrow> reg_byName r' (tool_name t) = Some t"
proof (induction i r ts rule: register_from.induct)
  case (3 i r u ts)
  then have rest: "register_from (Suc i) (register u r) ts = Inr r'" by (auto simp: Let_def split: if_splits)
  show ?case
  proof (cases "t = u")
    case True
    then show ?thesis using register_from_mono[OF rest, of "tool_name u" u] by simp
  next
    case False
    then show ?thesis using 3 by (auto simp: Let_def split: if_splits)
  qed
qed auto

lemma register_from_succeeds:
  "reg_ok r \<Longrightarrow> None \<notin> set ts \<Longrightarrow> [] \<notin> set (map (tool_name \<circ> the) ts) \<Longrightarrow> distinct (reg_order r @ map (tool_name \<circ> the) ts)
    \<Longrightarrow> \<exists>r'. register_from i r ts = Inr r'"
proof (induction i r ts rule: register_from.induct)
  case (3 i r t ts)
  have new: "tool_name t \<noteq> []" "reg_byName r (tool_name t) = None" using "3.prems" by (auto simp: reg_ok_def)
  have "\<exists>r'. register_from (Suc i) (register t r) ts = Inr r'"
    using "3.prems" new register_ok[of r t] by (intro "3.IH"[OF refl]) simp_all
  with new show ?case by (simp add: Let_def)
qed auto

lemma those_map_Some: "\<forall>x \<in> set xs. f x = Some (g x) \<Longrightarrow> those (map f xs) = Some (map g xs)"
  by (induction xs) auto

definition provider_tool :: "Tool \<Rightarrow> ProviderTool" where
  "provider_tool t = \<lparr>ptl_Type = ''function'', ptl_Function = \<lparr>tf_Name = tool_name t,
     tf_Description = ts_Description (tl_Spec t), tf_Parameters = ts_Parameters (tl_Spec t)\<rparr>\<rparr>"

lemma empty_registry_ok: "reg_ok \<lparr>reg_byName = Map.empty, reg_order = []\<rparr>"
  by (simp add: reg_ok_def)

lemma registry_built:
  assumes "newToolRegistry (map Some tools) = Inr r"
  shows "reg_ok r" "reg_order r = map tool_name tools" "t \<in> set tools \<Longrightarrow> reg_byName r (tool_name t) = Some t"
proof -
  note b = assms[unfolded newToolRegistry_def]
  show "reg_ok r" using register_from_ok[OF b empty_registry_ok] .
  show "reg_order r = map tool_name tools" using register_from_order[OF b] by (simp add: comp_def)
  show "t \<in> set tools \<Longrightarrow> reg_byName r (tool_name t) = Some t" using register_from_found[OF b, of t] by simp
qed

lemma registry_build_iff:
  "(\<exists>r. newToolRegistry (map Some tools) = Inr r) \<longleftrightarrow> [] \<notin> set (map tool_name tools) \<and> distinct (map tool_name tools)"
proof
  assume "\<exists>r. newToolRegistry (map Some tools) = Inr r"
  then obtain r where "newToolRegistry (map Some tools) = Inr r" ..
  from registry_built(1,2)[OF this] show "[] \<notin> set (map tool_name tools) \<and> distinct (map tool_name tools)"
    by (auto simp: reg_ok_def)
next
  assume "[] \<notin> set (map tool_name tools) \<and> distinct (map tool_name tools)"
  then show "\<exists>r. newToolRegistry (map Some tools) = Inr r" unfolding newToolRegistry_def
    using empty_registry_ok by (intro register_from_succeeds) (auto simp: comp_def)
qed

lemma registry_lookup:
  assumes "newToolRegistry (map Some tools) = Inr r"
  shows "reg_lookup r n = Some t \<longleftrightarrow> t \<in> set tools \<and> tool_name t = n"
proof
  assume l: "reg_lookup r n = Some t"
  with registry_built(1,2)[OF assms] have "tool_name t = n" "n \<in> set (map tool_name tools)"
    by (auto simp: reg_ok_def reg_lookup_def)
  then obtain u where "u \<in> set tools" "tool_name u = n" by auto
  with registry_built(3)[OF assms, of u] l show "t \<in> set tools \<and> tool_name t = n" by (simp add: reg_lookup_def)
next
  assume "t \<in> set tools \<and> tool_name t = n"
  with registry_built(3)[OF assms, of t] show "reg_lookup r n = Some t" by (auto simp: reg_lookup_def)
qed

lemma registry_specs:
  assumes "newToolRegistry (map Some tools) = Inr r"
  shows "providerSpecs r = Some (map provider_tool tools)"
proof -
  have "providerSpecs r = those (map (\<lambda>t. map_option provider_tool (reg_byName r (tool_name t))) tools)"
    by (simp add: providerSpecs_def registry_built(2)[OF assms] provider_tool_def[abs_def] comp_def)
  also have "\<dots> = Some (map provider_tool tools)"
    by (rule those_map_Some) (simp add: registry_built(3)[OF assms])
  finally show ?thesis .
qed

text \<open>A registry is built exactly when no tool is nil, no name empty and the names are distinct. Looking up
  a name then returns the tool of that name, or nothing when no tool has it, and the specs
  sent to the model are those of the tools in the given order.\<close>

theorem registry_exact:
  "((\<exists>r. newToolRegistry (map Some tools) = Inr r) \<longleftrightarrow> [] \<notin> set (map tool_name tools) \<and> distinct (map tool_name tools))
   \<and> (None \<in> set ts \<longrightarrow> (\<exists>e. newToolRegistry ts = Inl e))
   \<and> (\<forall>r. newToolRegistry (map Some tools) = Inr r \<longrightarrow>
        (\<forall>n t. reg_lookup r n = Some t \<longleftrightarrow> t \<in> set tools \<and> tool_name t = n)
        \<and> providerSpecs r = Some (map provider_tool tools))"
proof (intro conjI allI impI)
  show "(\<exists>r. newToolRegistry (map Some tools) = Inr r) \<longleftrightarrow> [] \<notin> set (map tool_name tools) \<and> distinct (map tool_name tools)"
    by (rule registry_build_iff)
  show "\<exists>e. newToolRegistry ts = Inl e" if "None \<in> set ts"
    using that register_from_order[of 0 _ ts] by (cases "newToolRegistry ts") (auto simp: newToolRegistry_def)
qed (auto simp: registry_lookup registry_specs)

theorem registry_exact_witness:
  "\<exists>r. newToolRegistry (map Some [sample_tool ''ls'' Read, sample_tool ''rm'' Write]) = Inr r
     \<and> reg_lookup r ''rm'' = Some (sample_tool ''rm'' Write)
     \<and> providerSpecs r = Some [provider_tool (sample_tool ''ls'' Read), provider_tool (sample_tool ''rm'' Write)]"
proof -
  let ?ts = "[sample_tool ''ls'' Read, sample_tool ''rm'' Write]"
  have "[] \<notin> set (map tool_name ?ts) \<and> distinct (map tool_name ?ts)" by (simp add: sample_tool_def)
  with registry_exact[of ?ts "[]"] obtain r where r: "newToolRegistry (map Some ?ts) = Inr r" by auto
  moreover have "reg_lookup r ''rm'' = Some (sample_tool ''rm'' Write)"
    using registry_exact[of ?ts "[]"] r by (auto simp: sample_tool_def)
  moreover have "providerSpecs r = Some [provider_tool (sample_tool ''ls'' Read), provider_tool (sample_tool ''rm'' Write)]"
    using registry_exact[of ?ts "[]"] r by simp
  ultimately show ?thesis by blast
qed

section \<open>The governor\<close>

definition trailing :: "('a \<Rightarrow> bool) \<Rightarrow> 'a list \<Rightarrow> nat" where
  "trailing P xs = length (takeWhile P (rev xs))"

lemma trailing_Nil [simp]: "trailing P [] = 0"
  by (simp add: trailing_def)

lemma trailing_snoc [simp]: "trailing P (xs @ [x]) = (if P x then Suc (trailing P xs) else 0)"
  by (simp add: trailing_def)

type_synonym outcome = "ToolCall \<times> ToolResult"

abbreviation outcome_sig :: "outcome \<Rightarrow> 64 word" where "outcome_sig x \<equiv> toolCallSignature (fst x) (snd x)"

definition observe_all :: "outcome list \<Rightarrow> restraintGovernor \<Rightarrow> restraintGovernor" where
  "observe_all xs g = fold (\<lambda>(c, out). observe c out) xs g"

lemma newRestraintGovernor_Inr:
  "newRestraintGovernor limit reg = Inr g \<Longrightarrow> g = \<lparr>gv_consecutiveErrors = 0, gv_lastSig = 0, gv_hasSig = False,
     gv_repeatCount = 0, gv_invocationLimit = limit, gv_invocations = 0\<rparr>
   \<and> (limit = \<lparr>il_Tool = [], il_Max = 0\<rparr> \<or> 0 < il_Max limit)"
  by (auto simp: newRestraintGovernor_def Let_def split: if_splits)

lemma observe_all_counts:
  assumes "newRestraintGovernor limit reg = Inr g"
  shows "gv_consecutiveErrors (observe_all xs g) = int (trailing (tr_IsError \<circ> snd) xs)
    \<and> gv_hasSig (observe_all xs g) = (xs \<noteq> []) \<and> (xs \<noteq> [] \<longrightarrow> gv_lastSig (observe_all xs g) = outcome_sig (last xs))
    \<and> gv_repeatCount (observe_all xs g) = int (trailing (\<lambda>x. outcome_sig x = outcome_sig (last xs)) xs)"
proof (induction xs rule: rev_induct)
  case Nil
  then show ?case using newRestraintGovernor_Inr[OF assms] by (simp add: observe_all_def trailing_def)
next
  case (snoc x xs)
  have "observe_all (xs @ [x]) g = observe (fst x) (snd x) (observe_all xs g)"
    by (simp add: observe_all_def split_beta)
  moreover have "trailing (\<lambda>y. outcome_sig y = outcome_sig x) xs
      = (if xs \<noteq> [] \<and> outcome_sig x = outcome_sig (last xs) then trailing (\<lambda>y. outcome_sig y = outcome_sig (last xs)) xs else 0)"
    by (cases xs rule: rev_cases) auto
  ultimately show ?case using snoc by (auto simp: observe_def Let_def)
qed

text \<open>After any sequence of observed tool calls the governor stops the run exactly when the last three or
  more calls all failed, or the last three or more have the same signature (name, arguments and
  result); errors take precedence. One success, or one different call or result, resets the
  respective count.\<close>

theorem governor_stop_exact:
  assumes "newRestraintGovernor limit reg = Inr g"
  shows "stopReason (observe_all xs g) =
    (if 3 \<le> trailing (tr_IsError \<circ> snd) xs then (ToolErrorCapReached, True)
     else if 3 \<le> trailing (\<lambda>x. outcome_sig x = outcome_sig (last xs)) xs then (RepeatLimitReached, True)
     else (Completed, False))"
  using observe_all_counts[OF assms, of xs] by (simp add: stopReason_def defaultToolErrorCap_def)

definition sample_governor :: restraintGovernor where
  "sample_governor = \<lparr>gv_consecutiveErrors = 0, gv_lastSig = 0, gv_hasSig = False, gv_repeatCount = 0,
     gv_invocationLimit = \<lparr>il_Tool = ''rm'', il_Max = 1\<rparr>, gv_invocations = 0\<rparr>"

definition sample_result :: "bool \<Rightarrow> ToolResult" where
  "sample_result err = \<lparr>tr_Content = ''x'', tr_IsError = err, tr_Preview = [], tr_Truncated = False, tr_Provenance = [], tr_Attrib = None,
     tr_Context = None, tr_Origin = OriginUnknown, tr_ChildScopeDenials = []\<rparr>"

lemma sample_governor_new: "newRestraintGovernor \<lparr>il_Tool = ''rm'', il_Max = 1\<rparr> sample_registry = Inr sample_governor"
proof -
  have "\<not> Option.is_none (reg_lookup sample_registry ''rm'')" by code_simp
  then have "reg_lookup sample_registry ''rm'' \<noteq> None" by (metis Option.is_none_code(1))
  then show ?thesis by (simp add: newRestraintGovernor_def sample_governor_def)
qed

theorem governor_stop_exact_witness:
  "stopReason (observe_all (replicate 3 (demo_call ''ls'', sample_result False)) sample_governor) = (RepeatLimitReached, True)
   \<and> stopReason (observe_all (replicate 3 (demo_call ''ls'', sample_result True)) sample_governor) = (ToolErrorCapReached, True)"
  unfolding governor_stop_exact[OF sample_governor_new] by (simp add: trailing_def numeral_eq_Suc sample_result_def)

text \<open>\<open>Has\<close> reports whether any bit of its argument is set, not whether every bit is: a read-only class has
  \<open>Read | Write\<close>. On the single-bit classes, with which the code calls it, the two readings agree.\<close>

theorem has_is_any_bit:
  "(Has c x \<longleftrightarrow> (\<exists>n. bit c n \<and> bit x n)) \<and> Has Read (Read OR Write) \<and> \<not> (\<forall>n. bit (Read OR Write) n \<longrightarrow> bit Read n)
   \<and> (x \<in> {Read, Write, Exec, Network} \<longrightarrow> (Has c x \<longleftrightarrow> (\<forall>n. bit x n \<longrightarrow> bit c n)))"
proof (intro conjI impI)
  have any: "Has c x \<longleftrightarrow> (\<exists>n. bit c n \<and> bit x n)" for c x
    using bit_imp_le_length[of c] by (fastforce simp: Has_def bit_eq_iff bit_and_iff)
  show "Has c x \<longleftrightarrow> (\<exists>n. bit c n \<and> bit x n)" by (rule any)
  show "Has Read (Read OR Write)" by code_simp
  have "bit (Read OR Write) 1 \<and> \<not> bit Read 1" by code_simp
  then show "\<not> (\<forall>n. bit (Read OR Write) n \<longrightarrow> bit Read n)" by blast
  assume "x \<in> {Read, Write, Exec, Network}"
  then have "x = 2 ^ 0 \<or> x = 2 ^ 1 \<or> x = 2 ^ 2 \<or> x = 2 ^ 3"
    by (auto simp: Read_def Write_def Exec_def Network_def)
  then have "\<exists>k < 4. x = 2 ^ k" by (elim disjE) (metis numeral_less_iff zero_less_numeral one_less_numeral_iff semiring_norm)+
  then obtain k :: nat where "x = 2 ^ k" "k < 4" by blast
  then have "bit x n \<longleftrightarrow> n = k" for n by (auto simp: bit_exp_iff)
  then show "Has c x \<longleftrightarrow> (\<forall>n. bit x n \<longrightarrow> bit c n)" by (auto simp: any)
qed

theorem has_is_any_bit_witness: "Has Read (Read OR Write) \<and> (Has Exec Write \<longleftrightarrow> (\<forall>n. bit Write n \<longrightarrow> bit Exec n))"
  using has_is_any_bit[of Exec Write] by blast

fun reserve_all :: "string list \<Rightarrow> restraintGovernor \<Rightarrow> restraintGovernor \<times> bool list" where
  "reserve_all [] g = (g, [])"
| "reserve_all (n # ns) g =
     (let (g1, _, ok) = reserveInvocation n g; (g2, oks) = reserve_all ns g1 in (g2, ok # oks))"

lemma reserve_all_spec:
  "0 \<le> gv_invocations g \<Longrightarrow> gv_invocations g \<le> il_Max (gv_invocationLimit g) \<Longrightarrow> reserve_all ns g = (g', oks) \<Longrightarrow>
    length oks = length ns
    \<and> (\<forall>i < length ns. ns ! i \<noteq> il_Tool (gv_invocationLimit g) \<longrightarrow> oks ! i)
    \<and> gv_invocations g + int (length (filter (\<lambda>(n, ok). n = il_Tool (gv_invocationLimit g) \<and> ok) (zip ns oks)))
        = min (il_Max (gv_invocationLimit g)) (gv_invocations g + int (count_list ns (il_Tool (gv_invocationLimit g))))"
proof (induction ns g arbitrary: g' oks rule: reserve_all.induct)
  case (2 n ns g)
  obtain g1 k ok where r: "reserveInvocation n g = (g1, k, ok)" by (cases "reserveInvocation n g") auto
  obtain g2 oks' where r2: "reserve_all ns g1 = (g2, oks')" by (cases "reserve_all ns g1")
  have oks: "oks = ok # oks'" using "2.prems" r r2 by simp
  have g1: "gv_invocationLimit g1 = gv_invocationLimit g" "0 \<le> gv_invocations g1" "gv_invocations g1 \<le> il_Max (gv_invocationLimit g)"
    "gv_invocations g1 = gv_invocations g + (if n = il_Tool (gv_invocationLimit g) \<and> ok then 1 else 0)"
    "ok = (n \<noteq> il_Tool (gv_invocationLimit g) \<or> gv_invocations g < il_Max (gv_invocationLimit g))"
    using r "2.prems" by (auto simp: reserveInvocation_def Let_def split: if_splits)
  from "2.IH"[OF r[symmetric] refl refl _ _ r2] g1 show ?case
    unfolding oks by (auto simp: nth_Cons' min_def split: if_splits)
qed simp

text \<open>With a limit on a tool, over any sequence of calls exactly \<open>Max\<close> calls of that tool are admitted
  (all of them when there are fewer), the others refused, and calls of every other tool are always admitted; a batch that does not
  name the limited tool, which may run concurrently, is admitted as a whole.\<close>

theorem invocation_limit_exact:
  assumes "newRestraintGovernor limit reg = Inr g" and "reserve_all ns g = (g', oks)"
  shows "int (length (filter (\<lambda>(n, ok). n = il_Tool limit \<and> ok) (zip ns oks))) = min (il_Max limit) (int (count_list ns (il_Tool limit)))
    \<and> (\<forall>i < length ns. ns ! i \<noteq> il_Tool limit \<longrightarrow> oks ! i)
    \<and> (\<forall>calls. parallelUncapped g calls \<longrightarrow> (\<forall>call \<in> set calls. reserveInvocation (call_name call) g = (g, 0, True)))"
  using reserve_all_spec[of g ns g' oks] assms newRestraintGovernor_Inr[OF assms(1)]
  by (auto simp: parallelUncapped_def reserveInvocation_def Let_def)

theorem invocation_limit_exact_witness:
  "reserve_all [''rm'', ''ls'', ''rm''] sample_governor = (sample_governor\<lparr>gv_invocations := 1\<rparr>, [True, True, False])
   \<and> int (length (filter (\<lambda>(n, ok). n = ''rm'' \<and> ok) (zip [''rm'', ''ls'', ''rm''] [True, True, False]))) = min 1 2"
proof -
  have r: "reserve_all [''rm'', ''ls'', ''rm''] sample_governor = (sample_governor\<lparr>gv_invocations := 1\<rparr>, [True, True, False])"
    by (simp add: reserveInvocation_def sample_governor_def)
  then show ?thesis using invocation_limit_exact[OF sample_governor_new r] by simp
qed

end
