(* ===== verification/Go_Sha256.thy ===== *)
theory Go_Sha256
  imports Prelude "HOL-Library.Word"
begin

unbundle bit_operations_syntax

text \<open>
  \<open>crypto/sha256.Sum256\<close> (FIPS 180-4) on strings of bytes, and the hexadecimal rendering \<open>%x\<close> of a
  byte slice.
\<close>

type_synonym w32 = "32 word"

text \<open>
  The constants of the standard by their definition: the first 32 bits of the fractional parts of the cube roots of the first 64 primes, and
  of the square roots of the first eight. \<open>root_bits\<close> finds the integer part of a root bit by bit; 35 bits hold three integer and 32 fractional ones.
\<close>

fun root_bits :: "nat \<Rightarrow> int \<Rightarrow> nat \<Rightarrow> int \<Rightarrow> int" where
  "root_bits k n 0 r = r"
| "root_bits k n (Suc b) r = root_bits k n b (if (r + 2 ^ b) ^ k \<le> n then r + 2 ^ b else r)"

definition root_fraction :: "nat \<Rightarrow> int \<Rightarrow> w32" where
  "root_fraction k p = of_int (root_bits k (p * 2 ^ (32 * k)) 35 0)"

definition sha_primes :: "int list" where
  "sha_primes = filter (\<lambda>n. list_all (\<lambda>d. n mod d \<noteq> 0) [2..n - 1]) [2..311]"

definition sha_K :: "w32 list" where
  "sha_K = map (root_fraction 3) sha_primes"

definition sha_init :: "w32 list" where
  "sha_init = map (root_fraction 2) [2, 3, 5, 7, 11, 13, 17, 19]"

lemma root_bits_floor:
  assumes "0 \<le> r" "r ^ k \<le> n" "n < (r + 2 ^ b) ^ k"
  shows "root_bits k n b r ^ k \<le> n \<and> n < (root_bits k n b r + 1) ^ k"
  using assms
proof (induction b arbitrary: r)
  case (Suc b)
  have "r + 2 ^ Suc b = (r + 2 ^ b) + 2 ^ b" by simp
  then show ?case using Suc by (auto simp: algebra_simps)
qed simp

definition rotr :: "nat \<Rightarrow> w32 \<Rightarrow> w32" where
  "rotr n x = (drop_bit n x) OR (push_bit (32 - n) x)"

text \<open>The padded message as bytes: a one bit, zeros, and the bit length as eight bytes.\<close>

definition be_bytes :: "nat \<Rightarrow> int \<Rightarrow> int list" where
  "be_bytes k n = map (\<lambda>i. (n div 256 ^ (k - 1 - i)) mod 256) [0..<k]"

definition sha_pad :: "int list \<Rightarrow> int list" where
  "sha_pad bs = bs @ [128] @ replicate ((119 - length bs mod 64) mod 64) 0 @ be_bytes 8 (8 * int (length bs))"

fun sha_words :: "int list \<Rightarrow> w32 list" where
  "sha_words (a # b # c # d # bs) = of_int (((a * 256 + b) * 256 + c) * 256 + d) # sha_words bs"
| "sha_words _ = []"

text \<open>The message schedule, newest word first.\<close>

fun sha_extend :: "nat \<Rightarrow> w32 list \<Rightarrow> w32 list" where
  "sha_extend 0 ws = ws"
| "sha_extend (Suc n) ws =
     (let w15 = ws ! 14; w2 = ws ! 1;
          s0 = rotr 7 w15 XOR rotr 18 w15 XOR drop_bit 3 w15;
          s1 = rotr 17 w2 XOR rotr 19 w2 XOR drop_bit 10 w2
      in sha_extend n ((ws ! 15 + s0 + ws ! 6 + s1) # ws))"

fun sha_round :: "w32 \<times> w32 \<Rightarrow> w32 list \<Rightarrow> w32 list" where
  "sha_round (k, w) [a, b, c, d, e, f, g, h] =
     (let s1 = rotr 6 e XOR rotr 11 e XOR rotr 25 e;
          ch = (e AND f) XOR (NOT e AND g);
          t1 = h + s1 + ch + k + w;
          s0 = rotr 2 a XOR rotr 13 a XOR rotr 22 a;
          maj = (a AND b) XOR (a AND c) XOR (b AND c)
      in [t1 + s0 + maj, a, b, c, d + t1, e, f, g])"
| "sha_round _ s = s"

definition sha_block :: "w32 list \<Rightarrow> w32 list \<Rightarrow> w32 list" where
  "sha_block ws s = map2 (+) s (fold sha_round (zip sha_K (rev (sha_extend 48 (rev ws)))) s)"

fun sha_blocks :: "nat \<Rightarrow> w32 list \<Rightarrow> w32 list \<Rightarrow> w32 list" where
  "sha_blocks 0 ws s = s"
| "sha_blocks (Suc n) ws s = sha_blocks n (drop 16 ws) (sha_block (take 16 ws) s)"

definition Sum256 :: "string \<Rightarrow> int list" where
  "Sum256 data =
     (let bs = sha_pad (map of_char data)
      in concat (map (\<lambda>w. be_bytes 4 (uint w)) (sha_blocks (length bs div 64) (sha_words bs) sha_init)))"

definition hex_digit :: "int \<Rightarrow> char" where
  "hex_digit n = (if n < 10 then char_of (48 + n) else char_of (87 + n))"

definition hex_string :: "int list \<Rightarrow> string" where
  "hex_string bs = concat (map (\<lambda>b. [hex_digit (b div 16), hex_digit (b mod 16)]) bs)"

lemma sha_round_length: "length s = 8 \<Longrightarrow> length (sha_round kw s) = 8"
  by (cases "(kw, s)" rule: sha_round.cases) (auto simp: Let_def)

lemma sha_rounds_length: "length s = 8 \<Longrightarrow> length (fold sha_round kws s) = 8"
  by (induction kws arbitrary: s) (auto simp: sha_round_length)

lemma sha_blocks_length: "length s = 8 \<Longrightarrow> length (sha_blocks n ws s) = 8"
  by (induction n arbitrary: ws s) (auto simp: sha_block_def sha_rounds_length)

lemma Sum256_length: "length (Sum256 data) = 32"
  by (simp add: Sum256_def Let_def length_concat comp_def be_bytes_def sum_list_triv sha_blocks_length sha_init_def)

lemma hex_string_length: "length (hex_string bs) = 2 * length bs"
  by (induction bs) (simp_all add: hex_string_def)

end
