(* ===== verification/Routing_Request.thy ===== *)
theory Routing_Request
  imports Agent_Types Sticky_Cache Tool_Governor Go_Strings Go_Sha256
begin

text \<open>
  What the router is asked and what it knows of a model: \<open>provider/routing_request.go\<close> (requests,
  budget classes, the sticky key), the capability bits, options and model keys of \<open>provider/types.go\<close> and the
  profiles of \<open>provider/model_profile.go\<close>. Token estimates are sums of string lengths and do not
  overflow. Fields of a profile that routing does not read (FIM policy, dimensions,
  provenance) are left out.
\<close>

section \<open>Capabilities\<close>

type_synonym Capability = "32 word"

definition CapChat :: Capability where "CapChat = 1"
definition CapGenerate :: Capability where "CapGenerate = 2"
definition CapInsert :: Capability where "CapInsert = 4"
definition CapEmbed :: Capability where "CapEmbed = 8"
definition CapStream :: Capability where "CapStream = 16"
definition CapToolCall :: Capability where "CapToolCall = 32"
definition CapThinking :: Capability where "CapThinking = 64"

definition capNames :: "(Capability \<times> string) list" where
  "capNames = [(CapChat, ''chat''), (CapGenerate, ''generate''), (CapInsert, ''insert''), (CapEmbed, ''embed''),
     (CapStream, ''stream''), (CapToolCall, ''tool_call''), (CapThinking, ''thinking'')]"

definition Capability_Has :: "Capability \<Rightarrow> Capability \<Rightarrow> bool" where
  "Capability_Has c flag \<longleftrightarrow> c AND flag = flag"

definition Capability_String :: "Capability \<Rightarrow> string" where
  "Capability_String c =
     (if c = 0 then ''none''
      else let parts = map snd (filter (\<lambda>(bit, name). Capability_Has c bit) capNames)
           in if parts = [] then ''none'' else strings_Join parts ''|'')"

section \<open>Priorities and kinds\<close>

datatype Priority = PriorityBackground | PriorityNormal | PriorityHigh | PriorityCritical

definition Priority_String :: "Priority \<Rightarrow> string" where
  "Priority_String p = (case p of PriorityBackground \<Rightarrow> ''background'' | PriorityNormal \<Rightarrow> ''normal''
     | PriorityHigh \<Rightarrow> ''high'' | PriorityCritical \<Rightarrow> ''critical'')"

definition Priority_int :: "Priority \<Rightarrow> int" where
  "Priority_int p = (case p of PriorityBackground \<Rightarrow> 0 | PriorityNormal \<Rightarrow> 1 | PriorityHigh \<Rightarrow> 2 | PriorityCritical \<Rightarrow> 3)"

datatype RouteKind = RouteKindChat | RouteKindGenerate | RouteKindEmbed

definition RouteKind_String :: "RouteKind \<Rightarrow> string" where
  "RouteKind_String k = (case k of RouteKindChat \<Rightarrow> ''chat'' | RouteKindGenerate \<Rightarrow> ''generate'' | RouteKindEmbed \<Rightarrow> ''embed'')"

section \<open>Requests\<close>

record ModelOptions =
  mo_Temperature :: "f64 option"
  mo_TopP :: "f64 option"
  mo_TopK :: "int option"
  mo_NumPredict :: int
  mo_NumCtx :: int
  mo_Stop :: "string list"
  mo_RepeatPenalty :: "f64 option"
  mo_Think :: "bool option"
  mo_ThinkEffort :: string

record SamplingDefaults =
  sd_Temperature :: "f64 option"
  sd_TopP :: "f64 option"
  sd_TopK :: "int option"

record RoutingRequest =
  rq_Model :: string
  rq_UseCase :: string
  rq_RequiredCaps :: Capability
  rq_Messages :: "ChatMessage list"
  rq_Prompt :: string
  rq_System :: string
  rq_Suffix :: string
  rq_Input :: "string list"
  rq_Tools :: "ProviderTool list"
  rq_Options :: ModelOptions
  rq_ExpectedOutput :: int
  rq_PreferWarm :: bool
  rq_Priority :: Priority
  rq_AffinityKey :: string
  rq_SessionID :: string
  rq_PreferredChain :: "string list"
  rq_StrictChain :: bool
  rq_Provider :: string
  rq_DryRun :: bool

text \<open>The zero value of a request.\<close>

definition no_options :: ModelOptions where
  "no_options = \<lparr>mo_Temperature = None, mo_TopP = None, mo_TopK = None, mo_NumPredict = 0, mo_NumCtx = 0, mo_Stop = [],
     mo_RepeatPenalty = None, mo_Think = None, mo_ThinkEffort = []\<rparr>"

definition zero_request :: RoutingRequest where
  "zero_request = \<lparr>rq_Model = [], rq_UseCase = [], rq_RequiredCaps = 0, rq_Messages = [], rq_Prompt = [], rq_System = [], rq_Suffix = [],
     rq_Input = [], rq_Tools = [], rq_Options = no_options, rq_ExpectedOutput = 0, rq_PreferWarm = False, rq_Priority = PriorityBackground,
     rq_AffinityKey = [], rq_SessionID = [], rq_PreferredChain = [], rq_StrictChain = False, rq_Provider = [], rq_DryRun = False\<rparr>"

definition inputBudgetClass :: "int \<Rightarrow> string" where
  "inputBudgetClass tokens = (if tokens < 2048 then ''small'' else if tokens < 8192 then ''medium'' else ''large'')"

definition outputBudgetClass :: "int \<Rightarrow> string" where
  "outputBudgetClass tokens = (if tokens < 512 then ''small'' else if tokens < 2048 then ''medium'' else ''large'')"

definition estimateTokens :: "string \<Rightarrow> int" where
  "estimateTokens s = (let n = int (length s) div 4 in if n = 0 \<and> 0 < length s then 1 else n)"

definition estimateRoutingInputTokens :: "RoutingRequest \<Rightarrow> int" where
  "estimateRoutingInputTokens req =
     (let t = foldl (\<lambda>t m. t + estimateTokens (cm_Content m)) 0 (rq_Messages req);
          t = t + estimateTokens (rq_Prompt req);
          t = t + estimateTokens (rq_System req);
          t = t + estimateTokens (rq_Suffix req)
      in foldl (\<lambda>t s. t + estimateTokens s) t (rq_Input req))"

text \<open>The text that is hashed into the sticky key.\<close>

definition sticky_data :: "RoutingRequest \<Rightarrow> string" where
  "sticky_data req =
     (let expectedOut = (if rq_ExpectedOutput req = 0 then DefaultExpectedOutput (rq_UseCase req) else rq_ExpectedOutput req);
          inClass = inputBudgetClass (estimateRoutingInputTokens req);
          outClass = outputBudgetClass expectedOut
      in strings_Join [rq_AffinityKey req, rq_Model req, rq_UseCase req, itoa (uint (rq_RequiredCaps req)),
           itoa (Priority_int (rq_Priority req)), inClass, outClass] ''|''
         @ (if rq_Provider req \<noteq> [] then [CHR 0x00] @ ''provider='' @ rq_Provider req else []))"

definition StickyKey :: "RoutingRequest \<Rightarrow> string" where
  "StickyKey req = hex_string (take 16 (Sum256 (sticky_data req)))"

section \<open>Model profiles\<close>

text \<open>A tier is an int, of which four have names.\<close>

type_synonym Tier = int

definition TierBasic :: Tier where "TierBasic = 0"
definition TierGood :: Tier where "TierGood = 1"
definition TierGreat :: Tier where "TierGreat = 2"
definition TierBest :: Tier where "TierBest = 3"

definition Tier_String :: "Tier \<Rightarrow> string" where
  "Tier_String t =
     (if t = TierBasic then ''basic'' else if t = TierGood then ''good'' else if t = TierGreat then ''great''
      else if t = TierBest then ''best'' else ''unknown'')"

text \<open>Thinking modes and tags (\<open>types.go\<close>).\<close>

datatype ThinkMode = ThinkNone | ThinkAlways | ThinkToggle | ThinkAuto

record ThinkTags =
  tt_Open :: string
  tt_Close :: string

record ModelProfile =
  mp_Key :: ModelKey
  mp_RAMRequired :: f64
  mp_Caps :: Capability
  mp_Quality :: Tier
  mp_Speed :: Tier
  mp_ContextWindow :: int
  mp_QualityCtxCeiling :: int
  mp_Template :: string
  mp_ThinkMode :: ThinkMode
  mp_ThinkTags :: "ThinkTags option"

definition ModelKey_String :: "ModelKey \<Rightarrow> string" where
  "ModelKey_String k = mk_Provider k @ ''/'' @ mk_Model k"

definition qualitySensitiveUseCases :: "string list" where
  "qualitySensitiveUseCases = [''chat'', ''reasoning'', ''code-review'', ''planning'', ''analysis'']"

definition EffectiveContextWindow :: "ModelProfile \<Rightarrow> string \<Rightarrow> int" where
  "EffectiveContextWindow p useCase =
     (if mp_QualityCtxCeiling p > 0 \<and> useCase \<in> set qualitySensitiveUseCases
      then if mp_ContextWindow p > 0 \<and> mp_ContextWindow p < mp_QualityCtxCeiling p then mp_ContextWindow p
           else mp_QualityCtxCeiling p
      else mp_ContextWindow p)"

definition templateUsesSuffix :: "string \<Rightarrow> bool" where
  "templateUsesSuffix tmpl = sublist ''.Suffix'' tmpl"

definition SupportsFIM :: "ModelProfile \<Rightarrow> bool" where
  "SupportsFIM p = (if mp_Template p \<noteq> [] then templateUsesSuffix (mp_Template p) else Capability_Has (mp_Caps p) CapInsert)"

definition FIMUnsupportedReason :: "ModelProfile \<Rightarrow> string" where
  "FIMUnsupportedReason p =
     (if mp_Template p \<noteq> []
      then if \<not> templateUsesSuffix (mp_Template p) then ''template does not reference .Suffix'' else []
      else if \<not> Capability_Has (mp_Caps p) CapInsert then ''model does not advertise insert capability'' else [])"

definition profileSatisfiesRequiredCaps :: "ModelProfile \<Rightarrow> Capability \<Rightarrow> bool" where
  "profileSatisfiesRequiredCaps profile required =
     (if required = 0 then True
      else let caps = (if Capability_Has required CapInsert \<and> SupportsFIM profile then mp_Caps profile OR CapInsert else mp_Caps profile)
           in Capability_Has caps required)"

definition parseModelSelector :: "string \<Rightarrow> ModelKey \<times> bool" where
  "parseModelSelector selector =
     (case cut_at (CHR ''/'') selector of (providerName, model, ok) \<Rightarrow>
        if \<not> ok then (\<lparr>mk_Provider = [], mk_Model = []\<rparr>, False)
        else (\<lparr>mk_Provider = providerName, mk_Model = model\<rparr>, True))"

definition inferRouteKind :: "RoutingRequest \<Rightarrow> RouteKind" where
  "inferRouteKind req =
     (if rq_Input req \<noteq> [] then RouteKindEmbed
      else if rq_Prompt req \<noteq> [] \<or> rq_Suffix req \<noteq> [] then RouteKindGenerate else RouteKindChat)"

definition mergeModelDefaults :: "ModelOptions \<Rightarrow> SamplingDefaults \<Rightarrow> ModelOptions" where
  "mergeModelDefaults request defaults =
     (let r = (if mo_Temperature request = None then request\<lparr>mo_Temperature := sd_Temperature defaults\<rparr> else request);
          r = (if mo_TopP r = None then r\<lparr>mo_TopP := sd_TopP defaults\<rparr> else r)
      in if mo_TopK r = None then r\<lparr>mo_TopK := sd_TopK defaults\<rparr> else r)"

section \<open>Lemmas\<close>

lemma estimateTokens_nonneg: "0 \<le> estimateTokens s"
  by (simp add: estimateTokens_def Let_def pos_imp_zdiv_nonneg_iff)

lemma foldl_estimate_nonneg: "0 \<le> t \<Longrightarrow> 0 \<le> foldl (\<lambda>t x. t + estimateTokens (f x)) t xs"
  by (induction xs arbitrary: t) (auto simp: estimateTokens_nonneg)

lemma estimateRoutingInputTokens_nonneg: "0 \<le> estimateRoutingInputTokens req"
  unfolding estimateRoutingInputTokens_def Let_def
  by (intro foldl_estimate_nonneg[where f = "\<lambda>x. x"] add_nonneg_nonneg estimateTokens_nonneg foldl_estimate_nonneg) simp

lemma Capability_Has_bits: "Capability_Has c f \<longleftrightarrow> (\<forall>n. bit f n \<longrightarrow> bit c n)"
proof
  assume "Capability_Has c f"
  then have "bit f n \<longleftrightarrow> bit c n \<and> bit f n" for n by (metis Capability_Has_def bit_and_iff)
  then show "\<forall>n. bit f n \<longrightarrow> bit c n" by blast
next
  assume "\<forall>n. bit f n \<longrightarrow> bit c n"
  then show "Capability_Has c f" by (auto simp: Capability_Has_def bit_eq_iff bit_and_iff)
qed

text \<open>The gate is what it should be: every required bit is there, insertion being granted by the template too.\<close>

lemma profileSatisfiesRequiredCaps_iff:
  "profileSatisfiesRequiredCaps p req \<longleftrightarrow>
     (\<forall>n. bit req n \<longrightarrow> bit (mp_Caps p) n \<or> (bit CapInsert n \<and> Capability_Has req CapInsert \<and> SupportsFIM p))"
  by (auto simp: profileSatisfiesRequiredCaps_def Let_def Capability_Has_bits bit_or_iff)

lemma StickyKey_length: "length (StickyKey req) = 32"
  by (simp add: StickyKey_def hex_string_length Sum256_length)

text \<open>C32: The selector of a model key parses back to that key, provided the provider's name has no slash (the model's name may have some);
  and a selector that parses is the selector of the key it parses to.\<close>

theorem selector_roundtrip:
  "(CHR ''/'' \<notin> set (mk_Provider k) \<longrightarrow> parseModelSelector (ModelKey_String k) = (k, True))
   \<and> (snd (parseModelSelector s) \<longrightarrow> ModelKey_String (fst (parseModelSelector s)) = s \<and> CHR ''/'' \<notin> set (mk_Provider (fst (parseModelSelector s))))"
proof -
  have "s = takeWhile (\<lambda>x. x \<noteq> CHR ''/'') s @ CHR ''/'' # tl (dropWhile (\<lambda>x. x \<noteq> CHR ''/'') s)" if "CHR ''/'' \<in> set s"
  proof -
    have "dropWhile (\<lambda>x. x \<noteq> CHR ''/'') s \<noteq> []" using that by (simp add: dropWhile_eq_Nil_conv)
    then have "dropWhile (\<lambda>x. x \<noteq> CHR ''/'') s = CHR ''/'' # tl (dropWhile (\<lambda>x. x \<noteq> CHR ''/'') s)"
      using hd_dropWhile[of "\<lambda>x. x \<noteq> CHR ''/''" s] by (metis list.collapse)
    then show ?thesis by (metis takeWhile_dropWhile_id)
  qed
  then show ?thesis
    by (auto simp: parseModelSelector_def ModelKey_String_def cut_at_append cut_at_def takeWhile_append dropWhile_append dest: set_takeWhileD)
qed

theorem selector_roundtrip_witness:
  "parseModelSelector (ModelKey_String \<lparr>mk_Provider = ''ollama'', mk_Model = ''org/m''\<rparr>) = (\<lparr>mk_Provider = ''ollama'', mk_Model = ''org/m''\<rparr>, True)"
  using selector_roundtrip[of "\<lparr>mk_Provider = ''ollama'', mk_Model = ''org/m''\<rparr>" "[]"] by simp

end
