(* ===== verification/Circuit_Breaker.thy ===== *)
theory Circuit_Breaker
  imports Prelude
begin

text \<open>
  The three-state circuit breaker of \<open>provider/circuit_breaker.go\<close> and the error classification
  of \<open>provider/router_errors.go\<close> that decides which results are recorded on it.

  Every method takes the mutex for its whole body, so a method is one function of the breaker
  and of the time that \<open>time.Now\<close> returns inside it; a concurrent history is a list of such
  calls. The counter \<open>failures\<close> is an unbounded \<open>int\<close>: it would take \<open>2^63\<close> recorded failures to
  wrap.
\<close>

section \<open>Errors\<close>

text \<open>
  A Go error as \<open>errors.Is\<close> and \<open>errors.As\<close> see it: the layers of its \<open>Unwrap\<close> chain in the
  order in which they are visited. The payload of a layer is kept where the code reads it.
\<close>

datatype err_layer =
    ErrCanceled | ErrDeadlineExceeded | ErrOp | ErrDNS | ErrHTTPStatus int | ErrAdmission | ErrOther string

type_synonym goerror = "err_layer list"

definition errors_is :: "goerror \<Rightarrow> err_layer \<Rightarrow> bool" where
  "errors_is e l \<longleftrightarrow> l \<in> set e"

fun httpStatusCode :: "goerror \<Rightarrow> int option" where
  "httpStatusCode [] = None"
| "httpStatusCode (ErrHTTPStatus c # _) = Some c"
| "httpStatusCode (_ # e) = httpStatusCode e"

definition IsInfrastructureError :: "goerror option \<Rightarrow> bool" where
  "IsInfrastructureError err = (case err of
     None \<Rightarrow> False
   | Some e \<Rightarrow>
       if errors_is e ErrCanceled \<or> errors_is e ErrDeadlineExceeded then False
       else if errors_is e ErrOp then True
       else if errors_is e ErrDNS then True
       else (case httpStatusCode e of
               Some statusCode \<Rightarrow>
                 if statusCode \<ge> 500 then True
                 else if statusCode = 429 then True
                 else False
             | None \<Rightarrow> False))"

section \<open>The breaker\<close>

datatype BreakerState = BreakerClosed | BreakerOpen | BreakerHalfOpen

fun BreakerState_String :: "BreakerState \<Rightarrow> string" where
  "BreakerState_String BreakerClosed = ''closed''"
| "BreakerState_String BreakerOpen = ''open''"
| "BreakerState_String BreakerHalfOpen = ''half-open''"

record CircuitBreaker =
  cb_state :: BreakerState
  cb_failures :: int
  cb_lastFailure :: gotime
  cb_lastError :: "goerror option"
  cb_failureThreshold :: int
  cb_cooldown :: duration

record BreakerInfo =
  bi_State :: BreakerState
  bi_Failures :: int
  bi_LastFailure :: gotime
  bi_LastError :: "goerror option"
  bi_RecoverAt :: gotime

definition defaultFailureThreshold :: int where
  "defaultFailureThreshold = 3"

definition defaultCooldown :: duration where
  "defaultCooldown = 30 * nanosecond_per_second"

datatype BreakerOption = FailureThreshold int | Cooldown duration

definition WithFailureThreshold :: "int \<Rightarrow> CircuitBreaker \<Rightarrow> CircuitBreaker" where
  "WithFailureThreshold n cb = (if n > 0 then cb\<lparr>cb_failureThreshold := n\<rparr> else cb)"

definition WithCooldown :: "duration \<Rightarrow> CircuitBreaker \<Rightarrow> CircuitBreaker" where
  "WithCooldown d cb = (if d > 0 then cb\<lparr>cb_cooldown := d\<rparr> else cb)"

fun apply_option :: "BreakerOption \<Rightarrow> CircuitBreaker \<Rightarrow> CircuitBreaker" where
  "apply_option (FailureThreshold n) cb = WithFailureThreshold n cb"
| "apply_option (Cooldown d) cb = WithCooldown d cb"

definition NewCircuitBreaker :: "BreakerOption list \<Rightarrow> CircuitBreaker" where
  "NewCircuitBreaker opts = fold apply_option opts
     \<lparr>cb_state = BreakerClosed, cb_failures = 0, cb_lastFailure = zero_time, cb_lastError = None,
      cb_failureThreshold = defaultFailureThreshold, cb_cooldown = defaultCooldown\<rparr>"

definition Allow :: "gotime \<Rightarrow> CircuitBreaker \<Rightarrow> bool \<times> CircuitBreaker" where
  "Allow now cb = (case cb_state cb of
     BreakerClosed \<Rightarrow> (True, cb)
   | BreakerOpen \<Rightarrow>
       if time_sub now (cb_lastFailure cb) \<ge> cb_cooldown cb
       then (True, cb\<lparr>cb_state := BreakerHalfOpen\<rparr>)
       else (False, cb)
   | BreakerHalfOpen \<Rightarrow> (False, cb))"

definition RecordSuccess :: "CircuitBreaker \<Rightarrow> CircuitBreaker" where
  "RecordSuccess cb =
     (let cb = cb\<lparr>cb_failures := 0, cb_lastError := None\<rparr>
      in if cb_state cb = BreakerHalfOpen then cb\<lparr>cb_state := BreakerClosed\<rparr> else cb)"

definition RecordFailure :: "gotime \<Rightarrow> goerror option \<Rightarrow> CircuitBreaker \<Rightarrow> CircuitBreaker" where
  "RecordFailure now err cb =
     (let cb = (if cb_lastFailure cb \<noteq> zero_time \<and> time_sub now (cb_lastFailure cb) > cb_cooldown cb
                then cb\<lparr>cb_failures := 0\<rparr> else cb);
          cb = cb\<lparr>cb_failures := cb_failures cb + 1, cb_lastFailure := now, cb_lastError := err\<rparr>
      in case cb_state cb of
           BreakerHalfOpen \<Rightarrow> cb\<lparr>cb_state := BreakerOpen\<rparr>
         | BreakerClosed \<Rightarrow>
             if cb_failures cb \<ge> cb_failureThreshold cb then cb\<lparr>cb_state := BreakerOpen\<rparr> else cb
         | BreakerOpen \<Rightarrow> cb)"

definition Info :: "CircuitBreaker \<Rightarrow> BreakerInfo" where
  "Info cb =
     (let info = \<lparr>bi_State = cb_state cb, bi_Failures = cb_failures cb,
                  bi_LastFailure = cb_lastFailure cb, bi_LastError = cb_lastError cb,
                  bi_RecoverAt = zero_time\<rparr>
      in if cb_state cb = BreakerOpen
         then info\<lparr>bi_RecoverAt := cb_lastFailure cb + cb_cooldown cb\<rparr> else info)"

section \<open>Histories\<close>

datatype cb_event = EvAllow gotime | EvSuccess | EvFailure gotime "goerror option"

fun cb_apply :: "cb_event \<Rightarrow> CircuitBreaker \<Rightarrow> CircuitBreaker" where
  "cb_apply (EvAllow now) cb = snd (Allow now cb)"
| "cb_apply EvSuccess cb = RecordSuccess cb"
| "cb_apply (EvFailure now err) cb = RecordFailure now err cb"

text \<open>The answers of a sequence of \<open>Allow\<close> calls, with no result recorded in between.\<close>

fun allow_answers :: "gotime list \<Rightarrow> CircuitBreaker \<Rightarrow> bool list" where
  "allow_answers [] cb = []"
| "allow_answers (t # ts) cb = (case Allow t cb of (ok, cb') \<Rightarrow> ok # allow_answers ts cb')"

definition breaker_inv :: "CircuitBreaker \<Rightarrow> bool" where
  "breaker_inv cb \<longleftrightarrow>
     0 < cb_failureThreshold cb \<and> 0 < cb_cooldown cb \<and> 0 \<le> cb_failures cb \<and>
     (cb_state cb = BreakerClosed \<longrightarrow> cb_failures cb < cb_failureThreshold cb)"

lemmas breaker_defs = Allow_def RecordSuccess_def RecordFailure_def Let_def

lemma breaker_inv_apply: "breaker_inv cb \<Longrightarrow> breaker_inv (cb_apply e cb)"
  by (cases e) (auto simp: breaker_inv_def breaker_defs split: BreakerState.splits)

interpretation cb_run: run_invariant cb_apply breaker_inv
  by unfold_locales (rule breaker_inv_apply)

lemma breaker_inv_option: "breaker_inv cb \<Longrightarrow> breaker_inv (apply_option opt cb)" if "cb_failures cb = 0"
  using that
  by (cases opt) (auto simp: breaker_inv_def WithFailureThreshold_def WithCooldown_def)

lemma apply_option_failures [simp]: "cb_failures (apply_option opt cb) = cb_failures cb"
  by (cases opt) (auto simp: WithFailureThreshold_def WithCooldown_def)

lemma breaker_inv_options:
  "breaker_inv cb \<Longrightarrow> cb_failures cb = 0 \<Longrightarrow> breaker_inv (fold apply_option opts cb)"
  by (induction opts arbitrary: cb) (auto simp: breaker_inv_option)

lemma breaker_inv_new: "breaker_inv (NewCircuitBreaker opts)"
  unfolding NewCircuitBreaker_def
  by (rule breaker_inv_options)
     (auto simp: breaker_inv_def defaultFailureThreshold_def defaultCooldown_def nanosecond_per_second_def)

text \<open>The configuration is fixed at construction.\<close>

lemma cb_apply_config [simp]:
  "cb_failureThreshold (cb_apply e cb) = cb_failureThreshold cb"
  "cb_cooldown (cb_apply e cb) = cb_cooldown cb"
  by (cases e; simp add: breaker_defs split: BreakerState.splits)+

lemma cb_run_config [simp]:
  "cb_failureThreshold (fold cb_apply es cb) = cb_failureThreshold cb"
  "cb_cooldown (fold cb_apply es cb) = cb_cooldown cb"
  by (induction es arbitrary: cb) auto

subsection \<open>Probing\<close>

lemma Allow_half_open [simp]: "cb_state cb = BreakerHalfOpen \<Longrightarrow> Allow t cb = (False, cb)"
  by (simp add: Allow_def)

lemma allow_answers_half_open:
  "cb_state cb = BreakerHalfOpen \<Longrightarrow> allow_answers ts cb = replicate (length ts) False"
  by (induction ts) auto

lemma allow_answers_open:
  "cb_state cb = BreakerOpen \<Longrightarrow> length (filter id (allow_answers ts cb)) \<le> 1"
proof (induction ts)
  case (Cons t ts)
  show ?case
  proof (cases "time_sub t (cb_lastFailure cb) \<ge> cb_cooldown cb")
    case True
    with Cons.prems show ?thesis
      by (simp add: Allow_def allow_answers_half_open)
  next
    case False
    with Cons show ?thesis by (simp add: Allow_def)
  qed
qed simp

subsection \<open>Tripping\<close>

text \<open>
  Failures recorded one after another, each no later than a cooldown after the one before; the
  first failure of a new breaker has no predecessor.
\<close>

fun spaced :: "duration \<Rightarrow> gotime \<Rightarrow> (gotime \<times> goerror option) list \<Rightarrow> bool" where
  "spaced d t [] \<longleftrightarrow> True"
| "spaced d t ((u, e) # us) \<longleftrightarrow> (t = zero_time \<or> time_sub u t \<le> d) \<and> spaced d u us"

fun record_failures :: "(gotime \<times> goerror option) list \<Rightarrow> CircuitBreaker \<Rightarrow> CircuitBreaker" where
  "record_failures [] cb = cb"
| "record_failures ((t, e) # fs) cb = record_failures fs (RecordFailure t e cb)"

lemma RecordFailure_spaced:
  assumes "cb_lastFailure cb = zero_time \<or> time_sub t (cb_lastFailure cb) \<le> cb_cooldown cb"
    and "cb_state cb \<noteq> BreakerHalfOpen"
  shows "RecordFailure t e cb =
    cb\<lparr>cb_failures := cb_failures cb + 1, cb_lastFailure := t, cb_lastError := e,
       cb_state := (if cb_state cb = BreakerOpen \<or> cb_failures cb + 1 \<ge> cb_failureThreshold cb
                    then BreakerOpen else BreakerClosed)\<rparr>"
  using assms by (cases cb) (auto simp: RecordFailure_def Let_def split: BreakerState.splits)

lemma record_failures_spaced:
  assumes "cb_state cb \<noteq> BreakerHalfOpen" and "spaced (cb_cooldown cb) (cb_lastFailure cb) fs"
  shows "cb_failures (record_failures fs cb) = cb_failures cb + int (length fs)
    \<and> cb_state (record_failures fs cb) =
        (if cb_state cb = BreakerOpen
            \<or> (fs \<noteq> [] \<and> cb_failures cb + int (length fs) \<ge> cb_failureThreshold cb)
         then BreakerOpen else BreakerClosed)"
  using assms
proof (induction fs arbitrary: cb)
  case Nil
  then show ?case by (cases "cb_state cb") auto
next
  case (Cons f fs)
  obtain t e where f: "f = (t, e)" by (cases f)
  with Cons.prems have step: "RecordFailure t e cb =
    cb\<lparr>cb_failures := cb_failures cb + 1, cb_lastFailure := t, cb_lastError := e,
       cb_state := (if cb_state cb = BreakerOpen \<or> cb_failures cb + 1 \<ge> cb_failureThreshold cb
                    then BreakerOpen else BreakerClosed)\<rparr>"
    by (intro RecordFailure_spaced) auto
  show ?case
    using Cons.IH[of "RecordFailure t e cb"] Cons.prems f by (auto simp: step)
qed

section \<open>Properties\<close>

text \<open>In every history of \<open>Allow\<close>, \<open>RecordSuccess\<close> and \<open>RecordFailure\<close> calls on a breaker
  built with any options, a closed breaker has fewer failures than its (positive) threshold, the
  failure count is never negative, and the configured threshold and cooldown stay positive.\<close>

theorem breaker_invariant_run:
  "let cb = fold cb_apply es (NewCircuitBreaker opts)
   in 0 < cb_failureThreshold cb \<and> 0 < cb_cooldown cb \<and> 0 \<le> cb_failures cb
      \<and> (cb_failures cb < cb_failureThreshold cb \<or> cb_state cb = BreakerOpen \<or> cb_state cb = BreakerHalfOpen)"
  using cb_run.inv_run [OF breaker_inv_new, of es opts]
  by (cases "cb_state (fold cb_apply es (NewCircuitBreaker opts))")
     (simp_all add: breaker_inv_def Let_def)

text \<open>C33: While no result is recorded, an open breaker grants at most one probe, whatever the number
  and the times of the concurrent \<open>Allow\<close> calls.\<close>

theorem at_most_one_probe:
  "cb_state cb = BreakerOpen \<Longrightarrow> length (filter id (allow_answers ts cb)) \<le> 1"
  by (rule allow_answers_open)

theorem at_most_one_probe_witness:
  "length (filter id (allow_answers [5, 30000000002, 30000000003, 90000000000]
     (RecordFailure 1 (Some [ErrOp]) (NewCircuitBreaker [FailureThreshold 1])))) \<le> 1
   \<and> allow_answers [5, 30000000002, 30000000003, 90000000000]
     (RecordFailure 1 (Some [ErrOp]) (NewCircuitBreaker [FailureThreshold 1]))
     = [False, True, False, False]"
proof -
  have "cb_state (RecordFailure 1 (Some [ErrOp]) (NewCircuitBreaker [FailureThreshold 1])) = BreakerOpen"
    by code_simp
  then show ?thesis by (intro conjI at_most_one_probe) (assumption, code_simp)
qed

text \<open>A closed breaker with no recorded failure trips exactly at its threshold: after any
  non-empty burst of failures spaced at most a cooldown apart it is open if and only if the burst
  has at least \<open>failureThreshold\<close> failures, and it has counted every one of them.\<close>

theorem burst_trips_at_threshold:
  assumes "cb_state cb = BreakerClosed" and "cb_failures cb = 0"
    and "spaced (cb_cooldown cb) (cb_lastFailure cb) fs" and "fs \<noteq> []"
  shows "cb_failures (record_failures fs cb) = int (length fs)
    \<and> (cb_state (record_failures fs cb) = BreakerOpen \<longleftrightarrow> cb_failureThreshold cb \<le> int (length fs))
    \<and> cb_state (record_failures fs cb) \<noteq> BreakerHalfOpen"
  using record_failures_spaced [of cb fs] assms by auto

theorem burst_trips_at_threshold_witness:
  "cb_state (record_failures [(10, None), (20, None), (30, None)] (NewCircuitBreaker [])) = BreakerOpen"
proof -
  let ?cb = "NewCircuitBreaker []" and ?fs = "[(10, None), (20, None), (30::int, None::goerror option)]"
  have "cb_state ?cb = BreakerClosed" "cb_failures ?cb = 0"
      "spaced (cb_cooldown ?cb) (cb_lastFailure ?cb) ?fs" "cb_failureThreshold ?cb = 3"
    by code_simp+
  with burst_trips_at_threshold [of ?cb ?fs] show ?thesis by simp
qed

text \<open>For an open breaker, \<open>Info\<close> reports as \<open>RecoverAt\<close> exactly the first time at which
  \<open>Allow\<close> lets a request through: earlier calls are refused and leave the breaker unchanged,
  later ones move it to half-open.\<close>

theorem recover_at_is_first_allowed:
  assumes "cb_state cb = BreakerOpen" and "0 < cb_cooldown cb" and "cb_cooldown cb \<le> MaxInt"
  shows "Allow now cb = (if bi_RecoverAt (Info cb) \<le> now
           then (True, cb\<lparr>cb_state := BreakerHalfOpen\<rparr>) else (False, cb))"
proof -
  have "cb_cooldown cb \<le> time_sub now (cb_lastFailure cb) \<longleftrightarrow> cb_lastFailure cb + cb_cooldown cb \<le> now"
    using assms by (intro time_sub_ge_iff) (auto intro: less_trans [OF MinInt_neg])
  then show ?thesis using assms by (simp add: Allow_def Info_def Let_def)
qed

theorem recover_at_is_first_allowed_witness:
  "fst (Allow 30000000001 (RecordFailure 1 None (NewCircuitBreaker [FailureThreshold 1]))) = True"
proof -
  let ?cb = "RecordFailure 1 None (NewCircuitBreaker [FailureThreshold 1])"
  have h: "cb_state ?cb = BreakerOpen" "0 < cb_cooldown ?cb" "cb_cooldown ?cb \<le> MaxInt"
      "bi_RecoverAt (Info ?cb) \<le> 30000000001"
    by code_simp+
  show ?thesis using recover_at_is_first_allowed [OF h(1-3), of 30000000001] h(4) by simp
qed

end
