(* ===== verification/Router_Health.thy ===== *)
theory Router_Health
  imports Circuit_Breaker Sticky_Cache
begin

text \<open>
  How \<open>provider/router.go\<close> composes the breakers and the sticky cache: one breaker per provider,
  created on first use; the gate that candidate scoring puts in front of a provider; and the
  recording of results, which also drops the sticky routes of a provider that failed.
\<close>

record router_health =
  rh_breakers :: "(string \<times> CircuitBreaker) list"
  rh_sticky :: stickyCache

text \<open>
  \<open>getOrCreateBreaker\<close> returns a pointer into the map; the model returns the breaker and the
  map that holds it, and \<open>update_breaker\<close> writes back what a method did through the pointer.
\<close>

definition getOrCreateBreaker :: "string \<Rightarrow> router_health \<Rightarrow> CircuitBreaker \<times> router_health" where
  "getOrCreateBreaker provider r = (case map_of (rh_breakers r) provider of
     Some cb \<Rightarrow> (cb, r)
   | None \<Rightarrow>
       let cb = NewCircuitBreaker []
       in (cb, r\<lparr>rh_breakers := AList.update provider cb (rh_breakers r)\<rparr>))"

definition update_breaker :: "string \<Rightarrow> CircuitBreaker \<Rightarrow> router_health \<Rightarrow> router_health" where
  "update_breaker provider cb r = r\<lparr>rh_breakers := AList.update provider cb (rh_breakers r)\<rparr>"

text \<open>
  The breaker gate of \<open>scoreCandidate\<close>: it calls \<open>Allow\<close>, and a refusal becomes a penalty of
  \<open>-Inf\<close>, on which \<open>Route\<close> drops the candidate.
\<close>

definition breaker_gate :: "gotime \<Rightarrow> string \<Rightarrow> router_health \<Rightarrow> f64 \<times> router_health" where
  "breaker_gate now provider r =
     (case getOrCreateBreaker provider r of (cb, r) \<Rightarrow>
        case Allow now cb of (ok, cb') \<Rightarrow>
          (if \<not> ok then F_NegInf else F_Fin 0, update_breaker provider cb' r))"

definition Router_RecordSuccess :: "ModelKey \<Rightarrow> router_health \<Rightarrow> router_health" where
  "Router_RecordSuccess key r =
     (case getOrCreateBreaker (mk_Provider key) r of (cb, r) \<Rightarrow>
        update_breaker (mk_Provider key) (RecordSuccess cb) r)"

definition Router_RecordFailure :: "gotime \<Rightarrow> ModelKey \<Rightarrow> goerror option \<Rightarrow> router_health \<Rightarrow> router_health" where
  "Router_RecordFailure now key err r =
     (if IsInfrastructureError err
      then case getOrCreateBreaker (mk_Provider key) r of (cb, r) \<Rightarrow>
             let r = update_breaker (mk_Provider key) (RecordFailure now err cb) r
             in r\<lparr>rh_sticky := invalidateProvider (mk_Provider key) (rh_sticky r)\<rparr>
      else r)"

datatype router_event =
    RGate gotime string
  | RSuccess ModelKey
  | RFailure gotime ModelKey "goerror option"

fun router_apply :: "router_event \<Rightarrow> router_health \<Rightarrow> router_health" where
  "router_apply (RGate now p) r = snd (breaker_gate now p r)"
| "router_apply (RSuccess key) r = Router_RecordSuccess key r"
| "router_apply (RFailure now key err) r = Router_RecordFailure now key err r"

text \<open>The breaker that stands for a provider: the stored one, or a new one.\<close>

definition breaker_of :: "router_health \<Rightarrow> string \<Rightarrow> CircuitBreaker" where
  "breaker_of r p = (case map_of (rh_breakers r) p of Some cb \<Rightarrow> cb | None \<Rightarrow> NewCircuitBreaker [])"

lemmas router_defs = breaker_gate_def Router_RecordSuccess_def Router_RecordFailure_def
  getOrCreateBreaker_def update_breaker_def

lemma breaker_of_gate:
  "breaker_of (snd (breaker_gate now p r)) q = (if q = p then snd (Allow now (breaker_of r p)) else breaker_of r q)"
  by (auto simp: router_defs breaker_of_def update_conv' Let_def split: option.splits prod.splits)

lemma breaker_of_success:
  "breaker_of (Router_RecordSuccess key r) q =
     (if q = mk_Provider key then RecordSuccess (breaker_of r q) else breaker_of r q)"
  by (auto simp: router_defs breaker_of_def update_conv' Let_def split: option.splits)

lemma breaker_of_failure:
  "breaker_of (Router_RecordFailure now key err r) q =
     (if q = mk_Provider key \<and> IsInfrastructureError err
      then RecordFailure now err (breaker_of r q) else breaker_of r q)"
  by (auto simp: router_defs breaker_of_def update_conv' Let_def split: option.splits)

lemmas breaker_of_simps = breaker_of_gate breaker_of_success breaker_of_failure

lemma gate_penalty: "fst (breaker_gate now p r) = (if fst (Allow now (breaker_of r p)) then F_Fin 0 else F_NegInf)"
  by (auto simp: router_defs breaker_of_def Let_def split: option.splits prod.splits)

text \<open>Every provider's breaker keeps the breaker invariant.\<close>

lemma breaker_of_inv_apply:
  assumes "\<And>q. breaker_inv (breaker_of r q)"
  shows "breaker_inv (breaker_of (router_apply ev r) q)"
  using assms breaker_inv_apply [of _ "EvAllow _"] breaker_inv_apply [of _ EvSuccess]
    breaker_inv_apply [of _ "EvFailure _ _"]
  by (cases ev) (simp_all add: breaker_of_simps)

interpretation router_run: run_invariant router_apply "\<lambda>r. \<forall>q. breaker_inv (breaker_of r q)"
  by unfold_locales (simp add: breaker_of_inv_apply)

lemma half_open_step:
  assumes "cb_state (breaker_of r p) = BreakerHalfOpen"
    and "\<forall>key. ev \<noteq> RSuccess key \<or> mk_Provider key \<noteq> p"
    and "\<forall>now key err. ev \<noteq> RFailure now key err \<or> mk_Provider key \<noteq> p \<or> \<not> IsInfrastructureError err"
  shows "breaker_of (router_apply ev r) p = breaker_of r p"
  using assms by (cases ev) (auto simp: breaker_of_simps)

lemma half_open_run:
  assumes "cb_state (breaker_of r p) = BreakerHalfOpen"
    and "\<forall>ev \<in> set evs. (\<forall>key. ev \<noteq> RSuccess key \<or> mk_Provider key \<noteq> p) \<and>
      (\<forall>now key err. ev \<noteq> RFailure now key err \<or> mk_Provider key \<noteq> p \<or> \<not> IsInfrastructureError err)"
  shows "breaker_of (fold router_apply evs r) p = breaker_of r p"
  using assms
proof (induction evs arbitrary: r)
  case (Cons ev evs)
  have "breaker_of (router_apply ev r) p = breaker_of r p"
    using Cons.prems by (intro half_open_step) auto
  with Cons show ?case by simp
qed simp

section \<open>Properties\<close>

text \<open>Recording an infrastructure failure removes every sticky route of that provider and feeds
  its breaker, and leaves the breakers and the sticky routes of all other providers alone; any
  other error changes nothing.\<close>

theorem record_failure_scope:
  "(let r' = Router_RecordFailure now key err r; p = mk_Provider key
    in if IsInfrastructureError err
       then (\<forall>e \<in> snd ` set (sc_entries (rh_sticky r')). mk_Provider (rs_providerKey e) \<noteq> p)
            \<and> breaker_of r' p = RecordFailure now err (breaker_of r p)
            \<and> filter (\<lambda>(k, e). mk_Provider (rs_providerKey e) \<noteq> p) (sc_entries (rh_sticky r))
                = sc_entries (rh_sticky r')
            \<and> (\<forall>q. q = p \<or> breaker_of r' q = breaker_of r q)
       else r' = r)"
proof (cases "IsInfrastructureError err")
  case True
  have "rh_sticky (Router_RecordFailure now key err r) = invalidateProvider (mk_Provider key) (rh_sticky r)"
    using True by (auto simp: router_defs Let_def split: option.splits)
  with True show ?thesis
    by (auto simp: breaker_of_failure invalidateProvider_def Let_def)
next
  case False
  then show ?thesis by (simp add: Router_RecordFailure_def)
qed

theorem record_failure_scope_witness:
  "let sticky = (newStickyCache 5 4)\<lparr>sc_entries := [(''a'', route_ex ''a'' 1 9)]\<rparr>;
       r = \<lparr>rh_breakers = [], rh_sticky = sticky\<rparr>;
       key = \<lparr>mk_Provider = ''p'', mk_Model = ''m''\<rparr>
   in sc_entries (rh_sticky (Router_RecordFailure 3 key (Some [ErrHTTPStatus 503]) r)) = []
      \<and> Router_RecordFailure 3 key (Some [ErrHTTPStatus 404]) r = r"
proof -
  let ?sticky = "(newStickyCache 5 4)\<lparr>sc_entries := [(''a'', route_ex ''a'' 1 9)]\<rparr>"
  let ?r = "\<lparr>rh_breakers = [], rh_sticky = ?sticky\<rparr>"
  let ?key = "\<lparr>mk_Provider = ''p'', mk_Model = ''m''\<rparr>"
  have "IsInfrastructureError (Some [ErrHTTPStatus 503])" "\<not> IsInfrastructureError (Some [ErrHTTPStatus 404])"
    by code_simp+
  then show ?thesis
    using record_failure_scope [where now = 3 and key = ?key and r = ?r and err = "Some [ErrHTTPStatus 503]"]
      record_failure_scope [where now = 3 and key = ?key and r = ?r and err = "Some [ErrHTTPStatus 404]"]
    by (simp add: Let_def route_ex_def)
qed

text \<open>In every history of gate consultations and recorded results on a router with no breakers,
  each provider's breaker satisfies the breaker invariant.\<close>

theorem router_breakers_invariant:
  "breaker_inv (breaker_of (fold router_apply evs \<lparr>rh_breakers = [], rh_sticky = newStickyCache ttl m\<rparr>) p)"
  using router_run.inv_run [of "\<lparr>rh_breakers = [], rh_sticky = newStickyCache ttl m\<rparr>" evs] breaker_inv_new
  by (simp add: breaker_of_def)

text \<open>C29: A half-open breaker has no way back by time: as long as the results recorded for the
  provider are not infrastructure failures and not successes (the probe was cancelled, was a
  client error, or its candidate was never executed), every later consultation is refused, however
  late it comes.\<close>

theorem half_open_never_recovers:
  assumes "cb_state (breaker_of r p) = BreakerHalfOpen"
    and "\<forall>ev \<in> set evs. (\<forall>key. ev \<noteq> RSuccess key \<or> mk_Provider key \<noteq> p) \<and>
      (\<forall>now key err. ev \<noteq> RFailure now key err \<or> mk_Provider key \<noteq> p \<or> \<not> IsInfrastructureError err)"
  shows "fst (breaker_gate now p (fold router_apply evs r)) = F_NegInf"
  using half_open_run [OF assms] assms(1) by (simp add: gate_penalty)

definition tripped_ex :: router_health where
  "tripped_ex = fold router_apply
     [RFailure 1 \<lparr>mk_Provider = ''p'', mk_Model = ''m''\<rparr> (Some [ErrOp]),
      RFailure 2 \<lparr>mk_Provider = ''p'', mk_Model = ''m''\<rparr> (Some [ErrOp]),
      RFailure 3 \<lparr>mk_Provider = ''p'', mk_Model = ''m''\<rparr> (Some [ErrOp]),
      RGate 40000000000 ''p'']
     \<lparr>rh_breakers = [], rh_sticky = newStickyCache 5 4\<rparr>"

theorem half_open_never_recovers_witness:
  "fst (breaker_gate 1000000000000000 ''p'' (fold router_apply
     [RFailure 40000000001 \<lparr>mk_Provider = ''p'', mk_Model = ''m''\<rparr> (Some [ErrCanceled]),
      RGate 99000000000 ''p''] tripped_ex)) = F_NegInf"
proof (rule half_open_never_recovers)
  show "cb_state (breaker_of tripped_ex ''p'') = BreakerHalfOpen" by code_simp
  have "\<not> IsInfrastructureError (Some [ErrCanceled])" by code_simp
  then show "\<forall>ev \<in> set [RFailure 40000000001 \<lparr>mk_Provider = ''p'', mk_Model = ''m''\<rparr> (Some [ErrCanceled]),
        RGate 99000000000 ''p''].
      (\<forall>key. ev \<noteq> RSuccess key \<or> mk_Provider key \<noteq> ''p'') \<and>
      (\<forall>now key err. ev \<noteq> RFailure now key err \<or> mk_Provider key \<noteq> ''p'' \<or> \<not> IsInfrastructureError err)"
    by auto
qed

end
