(* ===== verification/Route_Scoring.thy ===== *)
theory Route_Scoring
  imports Routing_Request Router_Health Go_Int "HOL-Library.List_Lexorder" "HOL-Library.Char_ord" "HOL-Library.Product_Lexorder"
begin

text \<open>
  Token budget validation (\<open>provider/token_budget.go\<close>), candidate scoring and ranking
  (\<open>provider/router_score.go\<close>) and the per-route feedback snapshot (\<open>provider/router.go\<close>). The warmth
  source is \<open>None\<close>, or the answers of \<open>IsWarm\<close> during one route; the feedback store is \<open>None\<close> or the answers of
  \<open>Score\<close> during one route, which may be errors. The once-only warnings of a failing store are not represented.
\<close>

section \<open>Token budgets\<close>

datatype BudgetDecision = BudgetOK | BudgetTruncate | BudgetReject

definition BudgetDecision_String :: "BudgetDecision \<Rightarrow> string" where
  "BudgetDecision_String d = (case d of BudgetOK \<Rightarrow> ''ok'' | BudgetTruncate \<Rightarrow> ''truncate'' | BudgetReject \<Rightarrow> ''reject'')"

record BudgetResult =
  br_Decision :: BudgetDecision
  br_RequestTokens :: int
  br_BudgetTokens :: int
  br_HeadroomPct :: f64
  br_HeadroomScore :: f64
  br_Reason :: string

record TokenBudgetValidator =
  tv_outputDefaults :: "string \<Rightarrow> int option"

definition WithOutputDefault :: "string \<Rightarrow> int \<Rightarrow> TokenBudgetValidator \<Rightarrow> TokenBudgetValidator" where
  "WithOutputDefault useCase tokens v = v\<lparr>tv_outputDefaults := (tv_outputDefaults v)(useCase \<mapsto> tokens)\<rparr>"

definition NewTokenBudgetValidator :: "(TokenBudgetValidator \<Rightarrow> TokenBudgetValidator) list \<Rightarrow> TokenBudgetValidator" where
  "NewTokenBudgetValidator opts = fold (\<lambda>opt v. opt v) opts \<lparr>tv_outputDefaults = Map.empty\<rparr>"

definition expectedOutput :: "TokenBudgetValidator \<Rightarrow> RoutingRequest \<Rightarrow> int" where
  "expectedOutput v req =
     (if rq_ExpectedOutput req > 0 then rq_ExpectedOutput req
      else case tv_outputDefaults v (rq_UseCase req) of Some tokens \<Rightarrow> tokens | None \<Rightarrow> DefaultExpectedOutput (rq_UseCase req))"

definition computeHeadroomScore :: "f64 \<Rightarrow> f64" where
  "computeHeadroomScore utilization =
     (if f_le utilization (F_Fin (1 / 2)) then F_Fin 1
      else if f_le (F_Fin 1) utilization then F_Fin 0
      else f_mul (F_Fin 2) (f_sub (F_Fin 1) utilization))"

definition budget_reason :: "string \<Rightarrow> string \<Rightarrow> int \<Rightarrow> int \<Rightarrow> f64 \<Rightarrow> string" where
  "budget_reason mid post inputTokens budget utilization =
     ''input '' @ itoa inputTokens @ mid @ itoa budget @ post @ fmt_fixed 0 (f_mul utilization (F_Fin 100)) @ ''% utilization)''"

definition Validate :: "TokenBudgetValidator \<Rightarrow> RoutingRequest \<Rightarrow> ModelProfile \<Rightarrow> BudgetResult" where
  "Validate v req profile =
     (let inputTokens = estimateRoutingInputTokens req;
          expectedOut = expectedOutput v req;
          effectiveCtx = EffectiveContextWindow profile (rq_UseCase req)
      in if effectiveCtx \<le> 0
         then \<lparr>br_Decision = BudgetReject, br_RequestTokens = inputTokens, br_BudgetTokens = 0, br_HeadroomPct = F_Fin 0,
               br_HeadroomScore = F_Fin 0, br_Reason = ''model has no context window configured''\<rparr>
         else
           let budget = wrap_int (effectiveCtx - expectedOut);
               budget = (if budget < 0 then 0 else budget)
           in if budget = 0
              then \<lparr>br_Decision = BudgetReject, br_RequestTokens = inputTokens, br_BudgetTokens = 0, br_HeadroomPct = F_Fin 0,
                    br_HeadroomScore = F_Fin 0, br_Reason = ''output budget exceeds context window''\<rparr>
              else
                let utilization = f_div (f_int inputTokens) (f_int budget);
                    headroomPct = f_sub (F_Fin 1) utilization;
                    headroomPct = (if f_lt headroomPct (F_Fin 0) then F_Fin 0 else headroomPct);
                    headroomScore = computeHeadroomScore utilization;
                    (decision, reason) =
                      (if inputTokens \<le> budget
                       then (BudgetOK, budget_reason '' tokens fits within '' '' budget ('' inputTokens budget utilization)
                       else if f_lt (f_int inputTokens) (f_mul (f_int budget) (F_Fin (3 / 2)))
                       then (BudgetTruncate, budget_reason '' tokens exceeds '' '' budget but can be truncated ('' inputTokens budget utilization)
                       else (BudgetReject, budget_reason '' tokens far exceeds '' '' budget ('' inputTokens budget utilization))
                in \<lparr>br_Decision = decision, br_RequestTokens = inputTokens, br_BudgetTokens = budget, br_HeadroomPct = headroomPct,
                    br_HeadroomScore = headroomScore, br_Reason = reason\<rparr>)"

section \<open>Weights and signals\<close>

definition warmthBonusMax :: f64 where
  "warmthBonusMax = F_Fin (fl (3 / 10))"

record WeightProfile =
  wp_Warmth :: int
  wp_Headroom :: int
  wp_Feedback :: int
  wp_Quality :: int
  wp_Speed :: int
  wp_KVCache :: int
  wp_Cost :: int

definition mk_weights :: "int \<Rightarrow> int \<Rightarrow> int \<Rightarrow> int \<Rightarrow> int \<Rightarrow> int \<Rightarrow> int \<Rightarrow> WeightProfile" where
  "mk_weights w h f q s k c = \<lparr>wp_Warmth = w, wp_Headroom = h, wp_Feedback = f, wp_Quality = q, wp_Speed = s, wp_KVCache = k, wp_Cost = c\<rparr>"

definition defaultWeightProfiles :: "string \<Rightarrow> WeightProfile option" where
  "defaultWeightProfiles = map_of [
     (''fim'', mk_weights 2 1 1 1 2 3 1),
     (''chat'', mk_weights 1 2 3 4 1 0 1),
     (''embedding'', mk_weights 0 0 1 3 2 0 2),
     (''reasoning'', mk_weights 1 3 3 5 0 0 1),
     (''analysis'', mk_weights 1 3 3 5 1 0 1),
     (''code-review'', mk_weights 1 3 4 3 1 0 1),
     (''agent'', mk_weights 2 2 4 4 3 1 1),
     (''tool-use'', mk_weights 2 2 4 4 3 1 1)]"

definition defaultWeightProfile :: "string \<Rightarrow> WeightProfile" where
  "defaultWeightProfile useCase =
     (case defaultWeightProfiles useCase of Some wp \<Rightarrow> wp | None \<Rightarrow> mk_weights 1 2 3 4 1 0 1)"

record Aggregate =
  ag_Score :: f64
  ag_SampleCount :: int
  ag_ScoredCount :: "64 word"
  ag_UpdatedAt :: gotime

definition adjustFeedbackScore :: "Aggregate \<Rightarrow> f64" where
  "adjustFeedbackScore agg =
     (if sint (ag_ScoredCount agg) < 3 then F_Fin (1 / 2)
      else if ag_Score agg = F_NaN \<or> ag_Score agg = F_PosInf \<or> ag_Score agg = F_NegInf
              \<or> f_lt (ag_Score agg) (F_Fin 0) \<or> f_lt (F_Fin 1) (ag_Score agg) then F_Fin (1 / 2)
      else let confidence = f_div (f_int (sint (ag_ScoredCount agg))) (f_int (sint (ag_ScoredCount agg + 10)))
           in f_add (F_Fin (1 / 2)) (f_mul (f_sub (ag_Score agg) (F_Fin (1 / 2))) confidence))"

record candidateFeedback =
  cf_raw :: Aggregate
  cf_adjusted :: f64

record scoreBreakdown =
  bd_warmthBonus :: f64
  bd_headroomScore :: f64
  bd_feedbackScore :: f64
  bd_qualityTier :: f64
  bd_speedTier :: f64
  bd_kvCacheBonus :: f64
  bd_costPenalty :: f64
  bd_breakerPenalty :: f64
  bd_capabilityGate :: bool
  bd_feedbackActive :: bool
  bd_feedbackRaw :: f64
  bd_feedbackAdjusted :: f64
  bd_feedbackSampleCount :: int
  bd_feedbackScoredCount :: int
  bd_feedbackUpdatedAt :: gotime
  bd_scoreWithoutFeedback :: f64
  bd_scoreWithFeedback :: f64

definition zero_breakdown :: scoreBreakdown where
  "zero_breakdown = \<lparr>bd_warmthBonus = F_Fin 0, bd_headroomScore = F_Fin 0, bd_feedbackScore = F_Fin 0, bd_qualityTier = F_Fin 0,
     bd_speedTier = F_Fin 0, bd_kvCacheBonus = F_Fin 0, bd_costPenalty = F_Fin 0, bd_breakerPenalty = F_Fin 0,
     bd_capabilityGate = False, bd_feedbackActive = False, bd_feedbackRaw = F_Fin 0, bd_feedbackAdjusted = F_Fin 0,
     bd_feedbackSampleCount = 0, bd_feedbackScoredCount = 0, bd_feedbackUpdatedAt = zero_time,
     bd_scoreWithoutFeedback = F_Fin 0, bd_scoreWithFeedback = F_Fin 0\<rparr>"

record scoredCandidate =
  sc_profile :: ModelProfile
  sc_budget :: BudgetResult
  sc_score :: f64
  sc_bd :: scoreBreakdown

definition tierToFloat :: "Tier \<Rightarrow> f64" where
  "tierToFloat t =
     (if t = TierBasic then F_Fin (1 / 4) else if t = TierGood then F_Fin (1 / 2) else if t = TierGreat then F_Fin (3 / 4)
      else if t = TierBest then F_Fin 1 else F_Fin (1 / 4))"

type_synonym WarmthSource = "ModelKey \<Rightarrow> bool"

text \<open>The breaker is consulted, and may move to half-open, only behind the capability gate.\<close>

definition scoreCandidate :: "gotime \<Rightarrow> ModelProfile \<Rightarrow> RoutingRequest \<Rightarrow> BudgetResult \<Rightarrow> WarmthSource option
    \<Rightarrow> candidateFeedback option \<Rightarrow> router_health \<Rightarrow> scoreBreakdown \<times> router_health" where
  "scoreCandidate now profile req budget warmth feedback r =
     (let bd = zero_breakdown\<lparr>bd_qualityTier := tierToFloat (mp_Quality profile), bd_speedTier := tierToFloat (mp_Speed profile)\<rparr>;
          bd = bd\<lparr>bd_headroomScore := br_HeadroomScore budget\<rparr>;
          bd = (case feedback of
                  Some f \<Rightarrow> bd\<lparr>bd_feedbackActive := True, bd_feedbackRaw := ag_Score (cf_raw f), bd_feedbackAdjusted := cf_adjusted f,
                      bd_feedbackScore := cf_adjusted f, bd_feedbackSampleCount := ag_SampleCount (cf_raw f),
                      bd_feedbackScoredCount := sint (ag_ScoredCount (cf_raw f)), bd_feedbackUpdatedAt := ag_UpdatedAt (cf_raw f)\<rparr>
                | None \<Rightarrow> bd\<lparr>bd_feedbackScore := F_Fin (1 / 2)\<rparr>)
      in if \<not> profileSatisfiesRequiredCaps profile (rq_RequiredCaps req) then (bd, r)
         else
           let bd = bd\<lparr>bd_capabilityGate := True\<rparr>;
               (penalty, r) = breaker_gate now (mk_Provider (mp_Key profile)) r
           in if penalty = F_NegInf then (bd\<lparr>bd_breakerPenalty := F_NegInf\<rparr>, r)
              else (case warmth of
                      Some w \<Rightarrow> if w (mp_Key profile) then bd\<lparr>bd_warmthBonus := warmthBonusMax\<rparr> else bd
                    | None \<Rightarrow> bd, r))"

definition scoreBreakdownWithNeutralFeedback :: "scoreBreakdown \<Rightarrow> scoreBreakdown" where
  "scoreBreakdownWithNeutralFeedback bd = bd\<lparr>bd_feedbackScore := F_Fin (1 / 2)\<rparr>"

text \<open>The signals in the order of the slice: name, value, weight.\<close>

definition signals :: "scoreBreakdown \<Rightarrow> WeightProfile \<Rightarrow> (string \<times> f64 \<times> int) list" where
  "signals bd wp = [
     (''warmth'', f_div (bd_warmthBonus bd) warmthBonusMax, wp_Warmth wp),
     (''headroom'', bd_headroomScore bd, wp_Headroom wp),
     (''feedback'', bd_feedbackScore bd, wp_Feedback wp),
     (''quality'', bd_qualityTier bd, wp_Quality wp),
     (''speed'', bd_speedTier bd, wp_Speed wp),
     (''kvcache'', bd_kvCacheBonus bd, wp_KVCache wp),
     (''cost'', f_sub (F_Fin 1) (bd_costPenalty bd), wp_Cost wp)]"

definition add_signal :: "(string \<Rightarrow> bool) \<Rightarrow> string \<times> f64 \<times> int \<Rightarrow> f64 \<times> f64 \<Rightarrow> f64 \<times> f64" where
  "add_signal active s acc =
     (case s of (name, v, weight) \<Rightarrow> case acc of (weightedSum, totalWeight) \<Rightarrow>
        if \<not> active name \<or> weight \<le> 0 then acc
        else let w = f_int weight in (f_add weightedSum (f_mul v w), f_add totalWeight w))"

definition computeWeightedScore :: "scoreBreakdown \<Rightarrow> string \<Rightarrow> (string \<Rightarrow> bool) \<Rightarrow> WeightProfile option \<Rightarrow> f64" where
  "computeWeightedScore bd useCase active customWeights =
     (let wp = (case customWeights of Some wp \<Rightarrow> wp | None \<Rightarrow> defaultWeightProfile useCase);
          (weightedSum, totalWeight) = fold (add_signal active) (signals bd wp) (F_Fin 0, F_Fin 0)
      in if f_eq totalWeight (F_Fin 0) then F_Fin 0 else f_div weightedSum totalWeight)"

section \<open>Ranking\<close>

text \<open>\<open>less\<close> of the sort: score, warmth, context window, key.\<close>

definition ranks_before :: "WarmthSource option \<Rightarrow> scoredCandidate \<Rightarrow> scoredCandidate \<Rightarrow> bool" where
  "ranks_before warmth a b =
     (if \<not> f_eq (sc_score a) (sc_score b) then f_lt (sc_score b) (sc_score a)
      else case (case warmth of
               Some w \<Rightarrow> if w (mp_Key (sc_profile a)) \<noteq> w (mp_Key (sc_profile b)) then Some (w (mp_Key (sc_profile a))) else None
             | None \<Rightarrow> None) of
             Some res \<Rightarrow> res
           | None \<Rightarrow>
               if mp_ContextWindow (sc_profile a) \<noteq> mp_ContextWindow (sc_profile b)
               then mp_ContextWindow (sc_profile a) > mp_ContextWindow (sc_profile b)
               else ModelKey_String (mp_Key (sc_profile a)) < ModelKey_String (mp_Key (sc_profile b)))"

text \<open>\<open>sort.SliceStable\<close> as a stable insertion sort by \<open>less\<close>.\<close>

fun stable_insert :: "('a \<Rightarrow> 'a \<Rightarrow> bool) \<Rightarrow> 'a \<Rightarrow> 'a list \<Rightarrow> 'a list" where
  "stable_insert lt x [] = [x]"
| "stable_insert lt x (y # ys) = (if lt y x then y # stable_insert lt x ys else x # y # ys)"

definition SliceStable :: "('a \<Rightarrow> 'a \<Rightarrow> bool) \<Rightarrow> 'a list \<Rightarrow> 'a list" where
  "SliceStable lt xs = foldr (stable_insert lt) xs []"

definition sortScoredCandidates :: "WarmthSource option \<Rightarrow> scoredCandidate list \<Rightarrow> scoredCandidate list" where
  "sortScoredCandidates warmth candidates = SliceStable (ranks_before warmth) candidates"

section \<open>The feedback snapshot\<close>

datatype FeedbackScoringMode = FeedbackScoringOff | FeedbackScoringShadow | FeedbackScoringEnforce

definition FeedbackScoringMode_String :: "FeedbackScoringMode \<Rightarrow> string" where
  "FeedbackScoringMode_String m = (case m of FeedbackScoringOff \<Rightarrow> ''off'' | FeedbackScoringShadow \<Rightarrow> ''shadow'' | FeedbackScoringEnforce \<Rightarrow> ''enforce'')"

datatype feedbackSnapshotStatus = StatusOff | StatusNoStore | StatusEmptyUseCase | StatusReadError | StatusActive

record FeedbackKey =
  fk_Provider :: string
  fk_Model :: string
  fk_UseCase :: string

record feedbackSnapshot =
  fs_active :: bool
  fs_failed :: bool
  fs_mode :: FeedbackScoringMode
  fs_status :: feedbackSnapshotStatus
  fs_byKey :: "FeedbackKey \<Rightarrow> candidateFeedback option"

type_synonym feedback_store = "FeedbackKey \<Rightarrow> goerror + Aggregate"

definition feedback_key :: "string \<Rightarrow> ModelProfile \<Rightarrow> FeedbackKey" where
  "feedback_key useCase p = \<lparr>fk_Provider = mk_Provider (mp_Key p), fk_Model = mk_Model (mp_Key p), fk_UseCase = useCase\<rparr>"

definition snap_lookup :: "feedbackSnapshot \<Rightarrow> FeedbackKey \<Rightarrow> candidateFeedback option" where
  "snap_lookup s key = (if \<not> fs_active s then None else fs_byKey s key)"

fun read_loop :: "feedback_store \<Rightarrow> string \<Rightarrow> FeedbackKey list \<Rightarrow> ModelProfile list \<Rightarrow> feedbackSnapshot \<Rightarrow> feedbackSnapshot" where
  "read_loop score useCase seen [] s = s"
| "read_loop score useCase seen (p # ps) s =
     (let key = feedback_key useCase p
      in if key \<in> set seen then read_loop score useCase seen ps s
         else if fs_byKey s key \<noteq> None then read_loop score useCase (key # seen) ps s
         else case score key of
                Inl err \<Rightarrow> s\<lparr>fs_active := False, fs_failed := True, fs_status := StatusReadError, fs_byKey := Map.empty\<rparr>
              | Inr agg \<Rightarrow> read_loop score useCase (key # seen) ps
                  (s\<lparr>fs_byKey := (fs_byKey s)(key \<mapsto> \<lparr>cf_raw = agg, cf_adjusted = adjustFeedbackScore agg\<rparr>)\<rparr>))"

definition readCandidates :: "feedback_store option \<Rightarrow> ModelProfile list \<Rightarrow> string \<Rightarrow> feedbackSnapshot \<Rightarrow> feedbackSnapshot" where
  "readCandidates store profiles useCase s =
     (case store of
        None \<Rightarrow> s
      | Some score \<Rightarrow>
          if fs_failed s \<or> \<not> fs_active s \<or> useCase = [] then s else read_loop score useCase [] profiles s)"

definition buildFeedbackSnapshot :: "FeedbackScoringMode \<Rightarrow> feedback_store option \<Rightarrow> ModelProfile list \<Rightarrow> string \<Rightarrow> feedbackSnapshot" where
  "buildFeedbackSnapshot mode store candidates useCase =
     (let snap = \<lparr>fs_active = False, fs_failed = False, fs_mode = mode, fs_status = StatusOff, fs_byKey = Map.empty\<rparr>
      in if mode = FeedbackScoringOff then snap
         else if store = None then snap\<lparr>fs_status := StatusNoStore\<rparr>
         else if useCase = [] then snap\<lparr>fs_status := StatusEmptyUseCase\<rparr>
         else let snap = snap\<lparr>fs_active := True, fs_status := StatusActive\<rparr>
              in if candidates \<noteq> [] then readCandidates store candidates useCase snap else snap)"

definition scoreBreakdownForSelection :: "scoreBreakdown \<Rightarrow> feedbackSnapshot \<Rightarrow> scoreBreakdown" where
  "scoreBreakdownForSelection bd snap =
     (if fs_active snap \<and> fs_mode snap = FeedbackScoringEnforce then bd else scoreBreakdownWithNeutralFeedback bd)"

section \<open>Bounds of the signals\<close>

lemma fl_bounds: "lo \<le> q \<Longrightarrow> q \<le> hi \<Longrightarrow> fl lo = lo \<Longrightarrow> fl hi = hi \<Longrightarrow> lo \<le> fl q \<and> fl q \<le> hi"
  using fl_mono[of lo q] fl_mono[of q hi] by simp

lemma fl_unit: "0 \<le> q \<Longrightarrow> q \<le> 1 \<Longrightarrow> 0 \<le> fl q \<and> fl q \<le> 1"
  by (rule fl_bounds) (simp_all add: fl_const)

lemma fl_quotient_unit:
  assumes "0 \<le> s" "s \<le> t" "0 < t"
  shows "0 \<le> fl (s / t) \<and> fl (s / t) \<le> 1"
  using assms by (intro fl_unit) simp_all

text \<open>The confidence lies between -1 and 1, also for the counts whose sum with 10 wraps: there both quotients round to powers of two.\<close>

lemma f_of_int_top: "f_of_int 9223372036854775799 = 9223372036854775808" "f_of_int 9223372036854775808 = 9223372036854775808"
  by code_simp+

lemma f_of_int_minus: "f_of_int (- n) = - f_of_int n"
  by (simp add: f_of_int_def fl_minus)

lemma confidence_unit:
  fixes n :: "64 word"
  assumes "0 \<le> sint n"
  shows "\<bar>fl (f_of_int (sint n) / f_of_int (sint (n + 10)))\<bar> \<le> 1" "f_of_int (sint (n + 10)) \<noteq> 0"
proof -
  let ?n = "sint n"
  have ten: "sint (10 :: 64 word) = 10" by simp
  have range: "?n \<le> 9223372036854775807" using sint_int64[of n] by (simp add: is_int64_def MaxInt_def)
  have le: "\<bar>f_of_int ?n\<bar> \<le> \<bar>f_of_int (sint (n + 10))\<bar>" and nz: "f_of_int (sint (n + 10)) \<noteq> 0"
  proof -
    have "\<bar>f_of_int ?n\<bar> \<le> \<bar>f_of_int (sint (n + 10))\<bar> \<and> f_of_int (sint (n + 10)) \<noteq> 0"
    proof (cases "?n \<le> 9223372036854775797")
      case True
      then have "sint (n + 10) = ?n + 10" using assms unfolding sint_plus ten by (intro wrap_int_nonneg) (simp_all add: MaxInt_def)
      then show ?thesis using assms f_of_int_mono[of ?n "?n + 10"] f_of_int_nonneg[of ?n] f_of_int_pos[of "?n + 10"] by auto
    next
      case False
      have "wrap_int (?n + 10) = wrap_int (?n + 10 - 18446744073709551616)" unfolding wrap_int_eq_iff by (rule minus_mod_self2[symmetric])
      moreover have "is_int64 (?n + 10 - 18446744073709551616)" using False range by (simp add: is_int64_def MinInt_def MaxInt_def)
      ultimately have m: "sint (n + 10) = - (18446744073709551606 - ?n)" unfolding sint_plus ten by (simp add: wrap_int_id)
      have "f_of_int ?n \<le> 9223372036854775808" using f_of_int_mono[of ?n 9223372036854775808] range f_of_int_top(2) by simp
      moreover have "9223372036854775808 \<le> f_of_int (18446744073709551606 - ?n)"
        using f_of_int_mono[of 9223372036854775799 "18446744073709551606 - ?n"] range f_of_int_top(1) by simp
      ultimately show ?thesis using f_of_int_nonneg[OF assms] unfolding m f_of_int_minus by simp
    qed
    then show "\<bar>f_of_int ?n\<bar> \<le> \<bar>f_of_int (sint (n + 10))\<bar>" "f_of_int (sint (n + 10)) \<noteq> 0" by auto
  qed
  define c where "c = f_of_int ?n / f_of_int (sint (n + 10))"
  have "\<bar>c\<bar> \<le> 1" using le nz by (simp add: c_def abs_divide divide_le_eq)
  then have "\<bar>fl c\<bar> \<le> 1" using fl_bounds[of "- 1" c 1] fl_minus[of 1] by (auto simp: fl_const abs_le_iff)
  then show "\<bar>fl (f_of_int ?n / f_of_int (sint (n + 10)))\<bar> \<le> 1" by (simp add: c_def)
  show "f_of_int (sint (n + 10)) \<noteq> 0" by (rule nz)
qed

lemma adjustFeedbackScore_bounded: "f_in 0 1 (adjustFeedbackScore agg)"
proof (cases "ag_Score agg")
  case (F_Fin q)
  show ?thesis
  proof (cases "sint (ag_ScoredCount agg) < 3 \<or> q < 0 \<or> 1 < q")
    case True
    then show ?thesis using F_Fin by (auto simp: adjustFeedbackScore_def)
  next
    case False
    let ?n = "sint (ag_ScoredCount agg)" and ?m = "sint (ag_ScoredCount agg + 10)"
    let ?c = "fl (f_of_int ?n / f_of_int ?m)" and ?d = "fl (q - 1 / 2)"
    have h: "fl (- (1 / 2)) = - (1 / 2)" using fl_minus[of "1 / 2"] by (simp add: fl_const)
    have c: "\<bar>?c\<bar> \<le> 1" "f_of_int ?m \<noteq> 0" using confidence_unit[of "ag_ScoredCount agg"] False by auto
    have d: "- (1 / 2) \<le> ?d" "?d \<le> 1 / 2"
      using False fl_bounds[of "- (1 / 2)" "q - 1 / 2" "1 / 2"] h by (auto simp: fl_const)
    have "\<bar>?d * ?c\<bar> \<le> (1 / 2) * 1" unfolding abs_mult using c d by (intro mult_mono) auto
    then have p: "- (1 / 2) \<le> fl (?d * ?c)" "fl (?d * ?c) \<le> 1 / 2"
      using fl_bounds[of "- (1 / 2)" "?d * ?c" "1 / 2"] h by (auto simp: fl_const abs_le_iff)
    have "adjustFeedbackScore agg = F_Fin (fl (1 / 2 + fl (?d * ?c)))"
      using False F_Fin c(2) by (simp add: adjustFeedbackScore_def Let_def)
    then show ?thesis using fl_unit[of "1 / 2 + fl (?d * ?c)"] p by simp
  qed
qed (auto simp: adjustFeedbackScore_def)

lemma computeHeadroomScore_bounded:
  assumes "0 \<le> u"
  shows "f_in 0 1 (computeHeadroomScore (F_Fin u))"
proof -
  have "0 \<le> fl (2 * fl (1 - u)) \<and> fl (2 * fl (1 - u)) \<le> 1" if "1 / 2 < u" "u < 1"
  proof -
    have "0 \<le> fl (1 - u) \<and> fl (1 - u) \<le> 1 / 2" using that by (intro fl_bounds) (simp_all add: fl_const)
    then show ?thesis by (intro fl_unit) auto
  qed
  then show ?thesis by (auto simp: computeHeadroomScore_def)
qed

lemma Validate_headroom:
  "f_in 0 1 (br_HeadroomScore (Validate v req p))" "f_in 0 1 (br_HeadroomPct (Validate v req p))"
proof -
  let ?b = "wrap_int (EffectiveContextWindow p (rq_UseCase req) - expectedOutput v req)"
  have u: "0 \<le> fl (f_of_int (estimateRoutingInputTokens req) / f_of_int ?b)" if "0 < ?b"
    using that f_of_int_pos[of ?b] f_of_int_nonneg[OF estimateRoutingInputTokens_nonneg, of req] by (intro fl_nonneg) simp
  show "f_in 0 1 (br_HeadroomScore (Validate v req p))"
    using computeHeadroomScore_bounded[OF u] f_of_int_pos[of ?b] by (auto simp: Validate_def Let_def)
  show "f_in 0 1 (br_HeadroomPct (Validate v req p))"
  proof (cases "0 < ?b")
    case True
    let ?u = "fl (f_of_int (estimateRoutingInputTokens req) / f_of_int ?b)"
    have "fl (1 - ?u) \<le> 1" using fl_mono[of "1 - ?u" 1] u[OF True] by (simp add: fl_const)
    then show ?thesis using True f_of_int_pos[of ?b] by (auto simp: Validate_def Let_def)
  qed (auto simp: Validate_def Let_def)
qed

section \<open>The composite score\<close>

definition bd_ok :: "scoreBreakdown \<Rightarrow> bool" where
  "bd_ok bd \<longleftrightarrow> bd_warmthBonus bd \<in> {F_Fin 0, warmthBonusMax} \<and> f_in 0 1 (bd_headroomScore bd) \<and> f_in 0 1 (bd_feedbackScore bd)
     \<and> f_in 0 1 (bd_qualityTier bd) \<and> f_in 0 1 (bd_speedTier bd) \<and> f_in 0 1 (bd_kvCacheBonus bd) \<and> f_in 0 1 (bd_costPenalty bd)"

lemma warmth_signal: "b \<in> {F_Fin 0, warmthBonusMax} \<Longrightarrow> f_in 0 1 (f_div b warmthBonusMax)"
proof -
  have "0 < fl (3 / 10)" by code_simp
  moreover assume "b \<in> {F_Fin 0, warmthBonusMax}"
  ultimately show ?thesis by (auto simp: warmthBonusMax_def fl_const)
qed

lemma cost_signal: "f_in 0 1 c \<Longrightarrow> f_in 0 1 (f_sub (F_Fin 1) c)"
  by (erule f_inE) (simp add: fl_unit)

lemma signals_ok:
  assumes "bd_ok bd"
  shows "\<forall>(n, v, w) \<in> set (signals bd wp). f_in 0 1 v"
proof -
  have "f_in 0 1 (f_div (bd_warmthBonus bd) warmthBonusMax)" "f_in 0 1 (f_sub (F_Fin 1) (bd_costPenalty bd))"
    using assms by (simp_all add: bd_ok_def warmth_signal cost_signal)
  then show ?thesis using assms by (simp add: signals_def bd_ok_def)
qed

lemma add_signals_bounded:
  assumes "\<forall>(n, v, w) \<in> set ss. f_in 0 1 v" and "0 \<le> s" "s \<le> t" "t = 0 \<or> 1 \<le> t"
  shows "\<exists>s' t'. fold (add_signal active) ss (F_Fin s, F_Fin t) = (F_Fin s', F_Fin t') \<and> 0 \<le> s' \<and> s' \<le> t' \<and> (t' = 0 \<or> 1 \<le> t')"
  using assms
proof (induction ss arbitrary: s t)
  case (Cons x ss)
  obtain n v w where x: "x = (n, v, w)" by (cases x) auto
  show ?case
  proof (cases "\<not> active n \<or> w \<le> 0")
    case True
    then show ?thesis using Cons by (simp add: x add_signal_def)
  next
    case False
    obtain q where q: "v = F_Fin q" "0 \<le> q" "q \<le> 1" using Cons.prems(1) x by (auto elim: f_inE)
    let ?w = "f_of_int w"
    have w: "1 \<le> ?w" "fl ?w = ?w"
      using f_of_int_pos[of w] False by (auto simp: f_of_int_def intro!: fl_idem_nonneg)
    have "fl (q * ?w) \<le> fl ?w" using q w by (intro fl_mono) (simp add: mult_left_le_one_le)
    then have vw: "0 \<le> fl (q * ?w)" "fl (q * ?w) \<le> ?w" using q w by (auto intro: fl_nonneg)
    have "0 \<le> fl (s + fl (q * ?w))" "fl (s + fl (q * ?w)) \<le> fl (t + ?w)" "1 \<le> fl (t + ?w)"
      using vw w Cons.prems fl_mono[of 1 "t + ?w"] by (auto intro!: fl_nonneg fl_mono simp: fl_const)
    then show ?thesis using Cons.IH[of "fl (s + fl (q * ?w))" "fl (t + ?w)"] Cons.prems False
      by (simp add: x q add_signal_def)
  qed
qed auto

lemma computeWeightedScore_bounded:
  assumes "bd_ok bd"
  shows "f_in 0 1 (computeWeightedScore bd useCase active w)"
proof -
  define wp where "wp = (case w of Some wp \<Rightarrow> wp | None \<Rightarrow> defaultWeightProfile useCase)"
  obtain s t where st: "fold (add_signal active) (signals bd wp) (F_Fin 0, F_Fin 0) = (F_Fin s, F_Fin t)" "0 \<le> s" "s \<le> t" "t = 0 \<or> 1 \<le> t"
    using add_signals_bounded[OF signals_ok[OF assms], of 0 0 active wp] by auto
  have eq: "computeWeightedScore bd useCase active w = (if t = 0 then F_Fin 0 else F_Fin (fl (s / t)))"
    unfolding computeWeightedScore_def wp_def[symmetric] Let_def st(1) by simp
  show ?thesis using fl_quotient_unit[of s t] st by (auto simp: eq)
qed

lemma tierToFloat_bounded: "f_in 0 1 (tierToFloat t)"
  by (simp add: tierToFloat_def)

lemma bd_ok_neutral: "bd_ok bd \<Longrightarrow> bd_ok (scoreBreakdownWithNeutralFeedback bd)"
  by (simp add: bd_ok_def scoreBreakdownWithNeutralFeedback_def)

lemma bd_ok_selection: "bd_ok bd \<Longrightarrow> bd_ok (scoreBreakdownForSelection bd snap)"
  by (simp add: scoreBreakdownForSelection_def bd_ok_neutral)

definition feedback_ok :: "candidateFeedback option \<Rightarrow> bool" where
  "feedback_ok f = (case f of None \<Rightarrow> True | Some c \<Rightarrow> cf_adjusted c = adjustFeedbackScore (cf_raw c))"

text \<open>What \<open>scoreCandidate\<close> computes, as far as later decisions use it.\<close>

lemma scoreCandidate_ok:
  assumes "feedback_ok f" "f_in 0 1 (br_HeadroomScore b)"
  shows "bd_ok (fst (scoreCandidate now p req b w f r))"
  using assms tierToFloat_bounded[of "mp_Quality p"] tierToFloat_bounded[of "mp_Speed p"] adjustFeedbackScore_bounded
  by (auto simp: scoreCandidate_def bd_ok_def zero_breakdown_def feedback_ok_def Let_def split: option.splits prod.splits if_splits)

lemma scoreCandidate_gates:
  "bd_capabilityGate (fst (scoreCandidate now p req b w f r)) = profileSatisfiesRequiredCaps p (rq_RequiredCaps req)"
  "snd (scoreCandidate now p req b w f r) =
     (if profileSatisfiesRequiredCaps p (rq_RequiredCaps req) then snd (breaker_gate now (mk_Provider (mp_Key p)) r) else r)"
  "bd_breakerPenalty (fst (scoreCandidate now p req b w f r)) =
     (if profileSatisfiesRequiredCaps p (rq_RequiredCaps req) then fst (breaker_gate now (mk_Provider (mp_Key p)) r) else F_Fin 0)"
proof -
  have g: "fst (breaker_gate now (mk_Provider (mp_Key p)) r) \<in> {F_NegInf, F_Fin 0}" by (simp add: gate_penalty)
  show "bd_capabilityGate (fst (scoreCandidate now p req b w f r)) = profileSatisfiesRequiredCaps p (rq_RequiredCaps req)"
    "snd (scoreCandidate now p req b w f r) =
       (if profileSatisfiesRequiredCaps p (rq_RequiredCaps req) then snd (breaker_gate now (mk_Provider (mp_Key p)) r) else r)"
    by (auto simp: scoreCandidate_def zero_breakdown_def Let_def split: option.split prod.split)
  show "bd_breakerPenalty (fst (scoreCandidate now p req b w f r)) =
     (if profileSatisfiesRequiredCaps p (rq_RequiredCaps req) then fst (breaker_gate now (mk_Provider (mp_Key p)) r) else F_Fin 0)"
    using g by (auto simp: scoreCandidate_def zero_breakdown_def Let_def split: option.split prod.split)
qed

section \<open>Rankings\<close>

text \<open>
  What a client of the stable sort relies on: on values that are comparable (\<open>ok\<close>), \<open>lt\<close> is a strict
  weak order. Then the result is a sorted permutation, and independent of the order of the input
  where \<open>lt\<close> separates the elements.
\<close>

lemma mset_stable_insert [simp]: "mset (stable_insert lt x ys) = add_mset x (mset ys)"
  by (induction ys) auto

lemma mset_SliceStable [simp]: "mset (SliceStable lt xs) = mset xs"
  unfolding SliceStable_def by (induction xs) auto

lemma set_SliceStable [simp]: "set (SliceStable lt xs) = set xs"
  using mset_SliceStable[of lt xs] by (metis set_mset_mset)

lemma set_stable_insert [simp]: "set (stable_insert lt x ys) = insert x (set ys)"
  using mset_stable_insert[of lt x ys] by (metis set_mset_mset set_mset_add_mset_insert)

lemma length_SliceStable [simp]: "length (SliceStable lt xs) = length xs"
  using mset_SliceStable[of lt xs] by (metis size_mset)

lemma sorted_wrt_unique:
  "sorted_wrt R xs \<Longrightarrow> sorted_wrt R ys \<Longrightarrow> mset xs = mset ys \<Longrightarrow>
   (\<And>x y. x \<in> set xs \<Longrightarrow> y \<in> set xs \<Longrightarrow> R x y \<Longrightarrow> R y x \<Longrightarrow> x = y) \<Longrightarrow> xs = ys"
proof (induction xs arbitrary: ys)
  case (Cons x xs)
  obtain y ys' where y: "ys = y # ys'" using Cons.prems(3) by (cases ys) auto
  have s: "set (x # xs) = set (y # ys')" using Cons.prems(3) y by (metis set_mset_mset)
  have "x = y"
  proof (rule ccontr)
    assume "x \<noteq> y"
    then have "y \<in> set xs" "x \<in> set ys'" using s by auto
    then have "R x y" "R y x" using Cons.prems(1,2) y by auto
    then have "x = y" using Cons.prems(4)[of x y] \<open>y \<in> set xs\<close> by simp
    with \<open>x \<noteq> y\<close> show False by simp
  qed
  moreover have "xs = ys'" using Cons.prems y \<open>x = y\<close> by (intro Cons.IH) auto
  ultimately show ?case using y by simp
qed auto

locale strict_ranking =
  fixes lt :: "'a \<Rightarrow> 'a \<Rightarrow> bool" and ok :: "'a \<Rightarrow> bool"
  assumes asym: "ok a \<Longrightarrow> ok b \<Longrightarrow> lt a b \<Longrightarrow> \<not> lt b a"
    and negtrans: "ok a \<Longrightarrow> ok b \<Longrightarrow> ok c \<Longrightarrow> lt a c \<Longrightarrow> lt a b \<or> lt b c"
begin

abbreviation ranked :: "'a list \<Rightarrow> bool" where "ranked xs \<equiv> sorted_wrt (\<lambda>a b. \<not> lt b a) xs"

lemma stable_insert_ranked: "ok x \<Longrightarrow> \<forall>y \<in> set ys. ok y \<Longrightarrow> ranked ys \<Longrightarrow> ranked (stable_insert lt x ys)"
proof (induction ys)
  case (Cons y ys)
  show ?case
  proof (cases "lt y x")
    case True
    then show ?thesis using Cons asym[of y x] by auto
  next
    case False
    then have "\<not> lt z x" if "z \<in> set ys" for z using Cons.prems that negtrans[of z y x] by auto
    then show ?thesis using Cons.prems False by auto
  qed
qed simp

lemma SliceStable_ranked: "\<forall>x \<in> set xs. ok x \<Longrightarrow> ranked (SliceStable lt xs)"
proof (induction xs)
  case (Cons x xs)
  have "ranked (stable_insert lt x (SliceStable lt xs))" using Cons by (intro stable_insert_ranked) simp_all
  then show ?case by (simp add: SliceStable_def)
qed (simp add: SliceStable_def)

lemma SliceStable_deterministic:
  assumes "\<forall>x \<in> set xs. ok x" and "mset xs = mset ys"
    and "\<And>x y. x \<in> set xs \<Longrightarrow> y \<in> set xs \<Longrightarrow> x \<noteq> y \<Longrightarrow> lt x y \<or> lt y x"
  shows "SliceStable lt xs = SliceStable lt ys"
proof (rule sorted_wrt_unique)
  have "set xs = set ys" using assms(2) by (metis set_mset_mset)
  then show "ranked (SliceStable lt xs)" "ranked (SliceStable lt ys)" using assms(1) by (auto intro!: SliceStable_ranked)
qed (use assms in auto)

end

definition tie_key :: "WarmthSource option \<Rightarrow> scoredCandidate \<Rightarrow> bool \<times> int \<times> string" where
  "tie_key warmth a = ((case warmth of Some w \<Rightarrow> \<not> w (mp_Key (sc_profile a)) | None \<Rightarrow> False),
     - mp_ContextWindow (sc_profile a), ModelKey_String (mp_Key (sc_profile a)))"

lemma ranks_before_iff:
  "ranks_before warmth a b \<longleftrightarrow>
     (if f_eq (sc_score a) (sc_score b) then tie_key warmth a < tie_key warmth b else f_lt (sc_score b) (sc_score a))"
  by (auto simp: ranks_before_def tie_key_def split: option.split)

lemma f_order: "a \<noteq> F_NaN \<Longrightarrow> b \<noteq> F_NaN \<Longrightarrow> f_lt a b \<or> f_eq a b \<or> f_lt b a"
  "f_lt a b \<Longrightarrow> \<not> f_lt b a" "f_lt a b \<Longrightarrow> \<not> f_eq a b" "f_eq a b \<Longrightarrow> a = b" "a \<noteq> F_NaN \<Longrightarrow> f_eq a a"
  by (cases a; cases b; auto)+

interpretation ranking: strict_ranking "ranks_before warmth" "\<lambda>c. sc_score c \<noteq> F_NaN"
proof (unfold_locales, goal_cases)
  case (1 a b)
  then show ?case using f_order(2-4)[of "sc_score a" "sc_score b"] f_order(2-4)[of "sc_score b" "sc_score a"]
    by (auto simp: ranks_before_iff split: if_splits)
next
  case (2 a b c)
  let ?s = "sc_score"
  consider "?s a = ?s b" "?s b = ?s c" | "f_lt (?s b) (?s a)" | "f_lt (?s c) (?s b)" | "f_lt (?s a) (?s c)"
    using f_order(1)[of "?s a" "?s b"] f_order(1)[of "?s b" "?s c"] f_lt_trans[of "?s a" "?s b" "?s c"] 2 f_order(4) by metis
  then show ?case
  proof cases
    case 1
    then show ?thesis using 2 f_order(5)[of "?s b"] by (auto simp: ranks_before_iff)
  next
    case 4
    with 2 show ?thesis using f_order(2,3)[OF 4] by (auto simp: ranks_before_iff split: if_splits)
  qed (use f_order(3) in \<open>auto simp: ranks_before_iff dest: f_order(4)\<close>)
qed

section \<open>Decisions and order\<close>

text \<open>The budget decision is exact. A model without a context window, or whose expected output leaves no room, is rejected; a request is accepted exactly when
  its estimated input and the expected output fit the context window together, it may be truncated when the input is
  below one and a half times the room left for it, and it is rejected otherwise. The comparison is made in floating point and is exact
  for windows up to 2 to the 51.\<close>

theorem validate_decision_exact:
  fixes v req p
  defines "ctx \<equiv> EffectiveContextWindow p (rq_UseCase req)" and "out \<equiv> expectedOutput v req" and "inp \<equiv> estimateRoutingInputTokens req"
  assumes "ctx - out \<le> 2 ^ 51" "inp \<le> 2 ^ 53" "MinInt \<le> ctx - out"
  shows "br_Decision (Validate v req p) =
    (if ctx \<le> 0 \<or> ctx \<le> out then BudgetReject
     else if inp + out \<le> ctx then BudgetOK
     else if 2 * inp < 3 * (ctx - out) then BudgetTruncate else BudgetReject)"
proof -
  have w: "wrap_int (ctx - out) = ctx - out" using assms(4,6) by (intro wrap_int_id) (simp add: is_int64_def MaxInt_def)
  have "br_Decision (Validate v req p) =
      (if inp + out \<le> ctx then BudgetOK else if 2 * inp < 3 * (ctx - out) then BudgetTruncate else BudgetReject)" if False: "\<not> (ctx \<le> 0 \<or> ctx \<le> out)"
  proof -
    have b: "f_of_int (ctx - out) = of_int (ctx - out)" "f_of_int inp = of_int inp"
      using False assms(4,5) estimateRoutingInputTokens_nonneg[of req] by (auto simp: f_of_int_exact inp_def)
    have "fl (of_int (3 * (ctx - out)) / 2) = of_int (3 * (ctx - out)) / 2"
      using fl_dyadic[of "3 * (ctx - out)" "-1"] False assms(4) by (simp add: power_int_minus field_simps)
    moreover have "(of_int inp :: rat) < of_int (3 * (ctx - out)) / 2 \<longleftrightarrow> 2 * inp < 3 * (ctx - out)"
      using of_int_less_iff[of "2 * inp" "3 * (ctx - out)", where 'a = rat] by (simp add: field_simps)
    moreover have "of_int (ctx - out) * (3 / 2) = (of_int (3 * (ctx - out)) / 2 :: rat)" by simp
    ultimately have "f_lt (f_int inp) (f_mul (f_int (ctx - out)) (F_Fin (3 / 2))) \<longleftrightarrow> 2 * inp < 3 * (ctx - out)"
      using b by (simp only: f_mul_Fin f_lt.simps)
    then show ?thesis using False w unfolding ctx_def out_def inp_def by (auto simp: Validate_def Let_def)
  qed
  moreover have "br_Decision (Validate v req p) = BudgetReject" if "ctx \<le> 0 \<or> ctx \<le> out"
    using that w unfolding ctx_def out_def by (auto simp: Validate_def Let_def)
  ultimately show ?thesis by simp
qed


definition sample_profile :: "string \<Rightarrow> Tier \<Rightarrow> ModelProfile" where
  "sample_profile m q = \<lparr>mp_Key = \<lparr>mk_Provider = ''p'', mk_Model = m\<rparr>, mp_RAMRequired = F_Fin 4, mp_Caps = CapChat OR CapStream,
     mp_Quality = q, mp_Speed = TierGood, mp_ContextWindow = 4096, mp_QualityCtxCeiling = 0, mp_Template = [],
     mp_ThinkMode = ThinkAuto, mp_ThinkTags = None\<rparr>"

definition plain_request :: RoutingRequest where
  "plain_request = zero_request\<lparr>rq_UseCase := ''chat'', rq_Prompt := replicate 400 (CHR ''x''), rq_ExpectedOutput := 4000\<rparr>"

theorem validate_decision_exact_witness:
  "br_Decision (Validate (NewTokenBudgetValidator []) plain_request (sample_profile ''a'' TierBest)) = BudgetTruncate"
proof -
  have "EffectiveContextWindow (sample_profile ''a'' TierBest) (rq_UseCase plain_request) = 4096"
    by (simp add: sample_profile_def EffectiveContextWindow_def)
  moreover have "expectedOutput (NewTokenBudgetValidator []) plain_request = 4000" by (simp add: plain_request_def expectedOutput_def)
  moreover have "estimateRoutingInputTokens plain_request = 100"
    by (simp add: plain_request_def zero_request_def estimateRoutingInputTokens_def estimateTokens_def)
  ultimately show ?thesis
    using validate_decision_exact[of "sample_profile ''a'' TierBest" plain_request "NewTokenBudgetValidator []"] by (simp add: MinInt_def)
qed


definition plain_candidate :: "string \<Rightarrow> f64 \<Rightarrow> scoredCandidate" where
  "plain_candidate m s = \<lparr>sc_profile = sample_profile m TierGood, sc_budget = Validate (NewTokenBudgetValidator []) plain_request (sample_profile m TierGood),
     sc_score = s, sc_bd = zero_breakdown\<rparr>"


end
