(* ===== verification/Provider_Registry.thy ===== *)
theory Provider_Registry
  imports Sticky_Cache "HOL-Library.List_Lexorder" "HOL-Library.Char_ord"
begin

text \<open>
  The provider registry, \<open>provider/registry.go\<close>: the named providers and the index from model names
  to the providers that advertise them. A provider is known by its name; what it answers to \<open>Models\<close>
  is an argument of the refresh. Each method body is atomic under the registry's lock, except
  that a refresh asks the provider between a first, reading section and a second, writing one:
  \<open>refresh_check\<close> and \<open>refresh_commit\<close>, between which other operations may run. The map order of \<open>All\<close> is an
  argument.
\<close>

record Provider =
  pv_Name :: string

record Registry =
  rg_providers :: "string \<Rightarrow> Provider option"
  rg_names :: "string list"
  rg_modelIndex :: "string \<Rightarrow> string list option"

text \<open>\<open>rg_names\<close> lists the keys of the provider map, which the model needs to enumerate it.\<close>

datatype registry_failure =
    RegNilProvider | RegEmptyName | RegDuplicate string | RegNotFound string | RegNoModel string
  | RegEmptyModel | RegEmptyProvider | RegModels string string

definition NewRegistry :: Registry where
  "NewRegistry = \<lparr>rg_providers = Map.empty, rg_names = [], rg_modelIndex = Map.empty\<rparr>"

definition Register :: "Provider option \<Rightarrow> Registry \<Rightarrow> registry_failure option \<times> Registry" where
  "Register p r =
     (case p of
        None \<Rightarrow> (Some RegNilProvider, r)
      | Some p \<Rightarrow>
          let name = pv_Name p
          in if name = [] then (Some RegEmptyName, r)
             else if rg_providers r name \<noteq> None then (Some (RegDuplicate name), r)
             else (None, r\<lparr>rg_providers := (rg_providers r)(name \<mapsto> p), rg_names := rg_names r @ [name]\<rparr>))"

text \<open>The loop that removes a provider from every entry of the index and drops the entries it empties.\<close>

definition remove_from_index :: "string \<Rightarrow> (string \<Rightarrow> string list option) \<Rightarrow> string \<Rightarrow> string list option" where
  "remove_from_index name index model =
     (case index model of
        None \<Rightarrow> None
      | Some providerNames \<Rightarrow>
          let filtered = filter (\<lambda>pn. pn \<noteq> name) providerNames
          in if filtered = [] then None else Some filtered)"

definition Unregister :: "string \<Rightarrow> Registry \<Rightarrow> registry_failure option \<times> Registry" where
  "Unregister name r =
     (if rg_providers r name = None then (Some (RegNotFound name), r)
      else (None, r\<lparr>rg_providers := (rg_providers r)(name := None), rg_names := filter (\<lambda>n. n \<noteq> name) (rg_names r),
                    rg_modelIndex := remove_from_index name (rg_modelIndex r)\<rparr>))"

definition Registry_Get :: "string \<Rightarrow> Registry \<Rightarrow> Provider option" where
  "Registry_Get name r = rg_providers r name"

definition Registry_All :: "(string list \<Rightarrow> string list) \<Rightarrow> Registry \<Rightarrow> Provider list" where
  "Registry_All iter r = List.map_filter (rg_providers r) (iter (rg_names r))"

definition Registry_Names :: "Registry \<Rightarrow> string list" where
  "Registry_Names r = sort (rg_names r)"

definition Registry_Resolve :: "ModelKey \<Rightarrow> Registry \<Rightarrow> registry_failure + Provider" where
  "Registry_Resolve key r = (case rg_providers r (mk_Provider key) of None \<Rightarrow> Inl (RegNotFound (mk_Provider key)) | Some p \<Rightarrow> Inr p)"

text \<open>Reading an absent entry gives the nil slice.\<close>

definition entry_of :: "(string \<Rightarrow> string list option) \<Rightarrow> string \<Rightarrow> string list" where
  "entry_of index model = (case index model of Some ns \<Rightarrow> ns | None \<Rightarrow> [])"

abbreviation index_entry :: "Registry \<Rightarrow> string \<Rightarrow> string list" where
  "index_entry r \<equiv> entry_of (rg_modelIndex r)"

definition ProvidersForModel :: "string \<Rightarrow> Registry \<Rightarrow> registry_failure + Provider list" where
  "ProvidersForModel model r =
     (case rg_modelIndex r model of
        None \<Rightarrow> Inl (RegNoModel model)
      | Some providerNames \<Rightarrow>
          if providerNames = [] then Inl (RegNoModel model)
          else let result = List.map_filter (rg_providers r) providerNames
               in if result = [] then Inl (RegNoModel model) else Inr result)"

definition AddModelToIndex :: "string \<Rightarrow> string \<Rightarrow> Registry \<Rightarrow> registry_failure option \<times> Registry" where
  "AddModelToIndex model providerName r =
     (if model = [] then (Some RegEmptyModel, r)
      else if providerName = [] then (Some RegEmptyProvider, r)
      else if rg_providers r providerName = None then (Some (RegNotFound providerName), r)
      else if providerName \<in> set (index_entry r model) then (None, r)
      else (None, r\<lparr>rg_modelIndex := (rg_modelIndex r)(model \<mapsto> index_entry r model @ [providerName])\<rparr>))"

text \<open>\<open>RefreshModelsAndList\<close>: the check that the provider exists, then, with its answer, the update of the index.\<close>

definition refresh_check :: "string \<Rightarrow> Registry \<Rightarrow> bool" where
  "refresh_check providerName r = (rg_providers r providerName \<noteq> None)"

fun add_models :: "string \<Rightarrow> string list \<Rightarrow> (string \<Rightarrow> string list option) \<Rightarrow> string \<Rightarrow> string list option" where
  "add_models providerName [] index = index"
| "add_models providerName (m # ms) index =
     (if m = [] then add_models providerName ms index
      else add_models providerName ms
             (index(m \<mapsto> entry_of index m @ [providerName])))"

definition refresh_commit :: "string \<Rightarrow> string list \<Rightarrow> Registry \<Rightarrow> Registry" where
  "refresh_commit providerName models r =
     r\<lparr>rg_modelIndex := add_models providerName models (remove_from_index providerName (rg_modelIndex r))\<rparr>"

definition RefreshModelsAndList :: "string \<Rightarrow> string + string list \<Rightarrow> Registry \<Rightarrow> (registry_failure + string list) \<times> Registry" where
  "RefreshModelsAndList providerName answer r =
     (if \<not> refresh_check providerName r then (Inl (RegNotFound providerName), r)
      else case answer of
             Inl err \<Rightarrow> (Inl (RegModels providerName err), r)
           | Inr models \<Rightarrow> (Inr models, refresh_commit providerName models r))"

definition RefreshModels :: "string \<Rightarrow> string + string list \<Rightarrow> Registry \<Rightarrow> registry_failure option \<times> Registry" where
  "RefreshModels providerName answer r =
     (case RefreshModelsAndList providerName answer r of (Inl e, r) \<Rightarrow> (Some e, r) | (Inr _, r) \<Rightarrow> (None, r))"

section \<open>The abstract registry\<close>

text \<open>
  What clients see: the set of registered names and the relation "provider \<open>p\<close> advertises model \<open>m\<close>".
\<close>

record abs_registry =
  ar_registered :: "string set"
  ar_listed :: "(string \<times> string) set"

definition abs_of :: "Registry \<Rightarrow> abs_registry" where
  "abs_of r = \<lparr>ar_registered = dom (rg_providers r), ar_listed = {(m, p). p \<in> set (index_entry r m)}\<rparr>"

definition abs_register :: "string \<Rightarrow> abs_registry \<Rightarrow> abs_registry" where
  "abs_register n a = a\<lparr>ar_registered := insert n (ar_registered a)\<rparr>"

definition abs_unregister :: "string \<Rightarrow> abs_registry \<Rightarrow> abs_registry" where
  "abs_unregister n a = a\<lparr>ar_registered := ar_registered a - {n}, ar_listed := {(m, p) \<in> ar_listed a. p \<noteq> n}\<rparr>"

definition abs_add :: "string \<Rightarrow> string \<Rightarrow> abs_registry \<Rightarrow> abs_registry" where
  "abs_add m n a = a\<lparr>ar_listed := insert (m, n) (ar_listed a)\<rparr>"

definition abs_refresh :: "string \<Rightarrow> string list \<Rightarrow> abs_registry \<Rightarrow> abs_registry" where
  "abs_refresh n ms a = a\<lparr>ar_listed := {(m, p) \<in> ar_listed a. p \<noteq> n} \<union> {(m, n) |m. m \<in> set ms \<and> m \<noteq> []}\<rparr>"

text \<open>The invariant: names are keys, keys are names, and index entries are not empty.\<close>

definition registry_inv :: "Registry \<Rightarrow> bool" where
  "registry_inv r \<longleftrightarrow> distinct (rg_names r) \<and> set (rg_names r) = dom (rg_providers r)
     \<and> (\<forall>n p. rg_providers r n = Some p \<longrightarrow> pv_Name p = n \<and> n \<noteq> [])
     \<and> (\<forall>m ns. rg_modelIndex r m = Some ns \<longrightarrow> ns \<noteq> [])"

lemma entry_of_upd [simp]: "entry_of (index(m \<mapsto> ns)) k = (if k = m then ns else entry_of index k)"
  by (simp add: entry_of_def)

lemma remove_from_index_entry: "entry_of (remove_from_index n index) m = filter (\<lambda>p. p \<noteq> n) (entry_of index m)"
  by (auto simp: entry_of_def remove_from_index_def Let_def filter_empty_conv split: option.splits)

lemma add_models_entry:
  "set (entry_of (add_models n ms index) m) = set (entry_of index m) \<union> {p. p = n \<and> m \<in> set ms \<and> m \<noteq> []}"
proof (induction ms arbitrary: index)
  case (Cons k ms)
  show ?case
  proof (cases "k = []")
    case False
    then have "set (entry_of (add_models n (k # ms) index) m)
        = set (entry_of (index(k \<mapsto> entry_of index k @ [n])) m) \<union> {p. p = n \<and> m \<in> set ms \<and> m \<noteq> []}"
      unfolding add_models.simps Cons.IH[symmetric] by simp
    with False show ?thesis unfolding entry_of_upd by auto
  qed (use Cons.IH in auto)
qed simp

lemma add_models_nonempty:
  "(\<And>m ns. index m = Some ns \<Longrightarrow> ns \<noteq> []) \<Longrightarrow> add_models n ms index m = Some ns \<Longrightarrow> ns \<noteq> []"
proof (induction ms arbitrary: index)
  case (Cons k ms)
  show ?case
  proof (rule Cons.IH)
    show "add_models n ms (if k = [] then index else index(k \<mapsto> entry_of index k @ [n])) m = Some ns"
      using Cons.prems(2) by (simp split: if_splits)
  qed (use Cons.prems(1) in \<open>auto split: if_splits\<close>)
qed simp

lemma refresh_commit_inv: "registry_inv r \<Longrightarrow> registry_inv (refresh_commit n ms r)"
proof -
  assume i: "registry_inv r"
  have "remove_from_index n (rg_modelIndex r) m = Some ns \<Longrightarrow> ns \<noteq> []" for m ns
    by (auto simp: remove_from_index_def Let_def split: option.splits if_splits)
  from add_models_nonempty[OF this] i show ?thesis by (simp add: registry_inv_def refresh_commit_def)
qed

lemma Register_inv: "registry_inv r \<Longrightarrow> registry_inv (snd (Register p r))"
  by (auto simp: registry_inv_def Register_def Let_def split: option.split)

lemma Unregister_inv: "registry_inv r \<Longrightarrow> registry_inv (snd (Unregister n r))"
  by (auto simp: registry_inv_def Unregister_def remove_from_index_def Let_def dom_def split: option.splits if_splits)

lemma AddModelToIndex_inv: "registry_inv r \<Longrightarrow> registry_inv (snd (AddModelToIndex m n r))"
  by (auto simp: registry_inv_def AddModelToIndex_def)

section \<open>Histories\<close>

text \<open>
  Concurrent use: the atomic sections in any order. A refresh contributes its writing section
  only, which may come when the provider has been unregistered since the check.
\<close>

datatype registry_event =
    EvRegister "Provider option" | EvUnregister string | EvAddModel string string | EvRefreshCommit string "string list"

fun registry_apply :: "registry_event \<Rightarrow> Registry \<Rightarrow> Registry" where
  "registry_apply (EvRegister p) r = snd (Register p r)"
| "registry_apply (EvUnregister n) r = snd (Unregister n r)"
| "registry_apply (EvAddModel m n) r = snd (AddModelToIndex m n r)"
| "registry_apply (EvRefreshCommit n ms) r = refresh_commit n ms r"

interpretation registry_run: run_invariant registry_apply registry_inv
proof
  fix ev r
  assume "registry_inv r"
  then show "registry_inv (registry_apply ev r)"
    by (cases ev) (simp_all add: Register_inv Unregister_inv AddModelToIndex_inv refresh_commit_inv)
qed

lemma NewRegistry_inv: "registry_inv NewRegistry"
  by (simp add: registry_inv_def NewRegistry_def)

section \<open>Refinement\<close>

lemma abs_Register:
  "fst (Register (Some p) r) = None \<longleftrightarrow> pv_Name p \<noteq> [] \<and> pv_Name p \<notin> ar_registered (abs_of r)"
  "fst (Register (Some p) r) = None \<Longrightarrow> abs_of (snd (Register (Some p) r)) = abs_register (pv_Name p) (abs_of r)"
  by (auto simp: Register_def abs_of_def abs_register_def Let_def split: if_splits)

lemma abs_Unregister:
  "fst (Unregister n r) = None \<longleftrightarrow> n \<in> ar_registered (abs_of r)"
  "fst (Unregister n r) = None \<Longrightarrow> abs_of (snd (Unregister n r)) = abs_unregister n (abs_of r)"
  by (auto simp: Unregister_def abs_of_def abs_unregister_def remove_from_index_entry dom_def split: if_splits)

lemma abs_AddModelToIndex:
  "fst (AddModelToIndex m n r) = None \<longleftrightarrow> m \<noteq> [] \<and> n \<noteq> [] \<and> n \<in> ar_registered (abs_of r)"
  "fst (AddModelToIndex m n r) = None \<Longrightarrow> abs_of (snd (AddModelToIndex m n r)) = abs_add m n (abs_of r)"
  by (auto simp: AddModelToIndex_def abs_of_def abs_add_def split: if_splits)

lemma abs_refresh_commit: "abs_of (refresh_commit n ms r) = abs_refresh n ms (abs_of r)"
  by (auto simp: abs_of_def abs_refresh_def refresh_commit_def add_models_entry remove_from_index_entry)

lemma failed_unchanged:
  "fst (Register p r) \<noteq> None \<Longrightarrow> snd (Register p r) = r"
  "fst (Unregister n r) \<noteq> None \<Longrightarrow> snd (Unregister n r) = r"
  "fst (AddModelToIndex m n r) \<noteq> None \<Longrightarrow> snd (AddModelToIndex m n r) = r"
  by (auto simp: Register_def Unregister_def AddModelToIndex_def Let_def split: option.splits if_splits)

lemma ProvidersForModel_spec:
  assumes "registry_inv r"
  shows "(case ProvidersForModel m r of
       Inr ps \<Rightarrow> ps \<noteq> [] \<and> pv_Name ` set ps = {p. (m, p) \<in> ar_listed (abs_of r) \<and> p \<in> ar_registered (abs_of r)}
     | Inl e \<Rightarrow> e = RegNoModel m \<and> {p. (m, p) \<in> ar_listed (abs_of r) \<and> p \<in> ar_registered (abs_of r)} = {})"
proof -
  let ?result = "List.map_filter (rg_providers r) (index_entry r m)"
  have names: "pv_Name ` set ?result = {p. p \<in> set (index_entry r m) \<and> p \<in> dom (rg_providers r)}"
  proof -
    have "pv_Name q = n" if "rg_providers r n = Some q" for n q using assms that by (simp add: registry_inv_def)
    then show ?thesis by (force simp: map_filter_def)
  qed
  have eq: "ProvidersForModel m r = (if ?result = [] then Inl (RegNoModel m) else Inr ?result)"
    using assms by (auto simp: ProvidersForModel_def entry_of_def registry_inv_def map_filter_def Let_def split: option.split)
  have "?result = [] \<longleftrightarrow> {p. p \<in> set (index_entry r m) \<and> p \<in> dom (rg_providers r)} = {}"
    using names by (metis image_is_empty set_empty)
  then show ?thesis using names by (simp add: eq abs_of_def)
qed

text \<open>C19: The registry implements the abstract one: a set of registered names and a relation between models and
  providers. Registration succeeds exactly for new, nonempty names and adds the name; removal
  succeeds exactly for registered names and drops the name and all its models; adding a model to the
  index succeeds exactly for a nonempty model and a registered provider with a nonempty name, and adds one pair; a refresh replaces the models of its provider; a failed
  operation changes nothing. In every history of these sections, also when a provider is removed while
  its refresh is under way, the providers found for a model are exactly the registered
  ones listed for it, and the lookup fails exactly when there are none.\<close>

theorem registry_refines:
  "(\<forall>p. fst (Register (Some p) r) = None \<longleftrightarrow> pv_Name p \<noteq> [] \<and> pv_Name p \<notin> ar_registered (abs_of r))
   \<and> (\<forall>p. fst (Register (Some p) r) = None \<longrightarrow> abs_of (snd (Register (Some p) r)) = abs_register (pv_Name p) (abs_of r))
   \<and> (\<forall>n. fst (Unregister n r) = None \<longleftrightarrow> n \<in> ar_registered (abs_of r))
   \<and> (\<forall>n. fst (Unregister n r) = None \<longrightarrow> abs_of (snd (Unregister n r)) = abs_unregister n (abs_of r))
   \<and> (\<forall>m n. fst (AddModelToIndex m n r) = None \<longleftrightarrow> m \<noteq> [] \<and> n \<noteq> [] \<and> n \<in> ar_registered (abs_of r))
   \<and> (\<forall>m n. fst (AddModelToIndex m n r) = None \<longrightarrow> abs_of (snd (AddModelToIndex m n r)) = abs_add m n (abs_of r))
   \<and> (\<forall>n ms. abs_of (refresh_commit n ms r) = abs_refresh n ms (abs_of r))
   \<and> (\<forall>p n m. (fst (Register p r) \<noteq> None \<longrightarrow> snd (Register p r) = r) \<and> (fst (Unregister n r) \<noteq> None \<longrightarrow> snd (Unregister n r) = r)
        \<and> (fst (AddModelToIndex m n r) \<noteq> None \<longrightarrow> snd (AddModelToIndex m n r) = r))
   \<and> (\<forall>evs m. r = fold registry_apply evs NewRegistry \<longrightarrow>
        (case ProvidersForModel m r of
           Inr ps \<Rightarrow> ps \<noteq> [] \<and> pv_Name ` set ps = {p. (m, p) \<in> ar_listed (abs_of r) \<and> p \<in> ar_registered (abs_of r)}
         | Inl e \<Rightarrow> e = RegNoModel m \<and> {p. (m, p) \<in> ar_listed (abs_of r) \<and> p \<in> ar_registered (abs_of r)} = {}))"
proof (intro conjI, goal_cases)
  case 9
  show ?case
  proof (intro allI impI)
    fix evs m
    assume "r = fold registry_apply evs NewRegistry"
    then have "registry_inv r" using registry_run.inv_run[OF NewRegistry_inv] by simp
    then show "case ProvidersForModel m r of
           Inr ps \<Rightarrow> ps \<noteq> [] \<and> pv_Name ` set ps = {p. (m, p) \<in> ar_listed (abs_of r) \<and> p \<in> ar_registered (abs_of r)}
         | Inl e \<Rightarrow> e = RegNoModel m \<and> {p. (m, p) \<in> ar_listed (abs_of r) \<and> p \<in> ar_registered (abs_of r)} = {}"
      by (rule ProvidersForModel_spec)
  qed
qed (simp_all add: abs_Register abs_Unregister abs_AddModelToIndex abs_refresh_commit failed_unchanged)

definition sample_providers :: Registry where
  "sample_providers = fold registry_apply [EvRegister (Some \<lparr>pv_Name = ''a''\<rparr>), EvRegister (Some \<lparr>pv_Name = ''b''\<rparr>),
     EvRefreshCommit ''a'' [''m''], EvAddModel ''m'' ''b'', EvUnregister ''a'', EvRefreshCommit ''a'' [''m'', ''n'']] NewRegistry"

theorem registry_refines_witness:
  "ProvidersForModel ''m'' sample_providers = Inr [\<lparr>pv_Name = ''b''\<rparr>] \<and> ProvidersForModel ''n'' sample_providers = Inl (RegNoModel ''n'')
   \<and> {p. (''m'', p) \<in> ar_listed (abs_of sample_providers) \<and> p \<in> ar_registered (abs_of sample_providers)} = {''b''}
   \<and> fst (Unregister ''b'' sample_providers) = None
   \<and> abs_of (snd (Unregister ''b'' sample_providers)) = abs_unregister ''b'' (abs_of sample_providers)"
proof -
  have m: "ProvidersForModel ''m'' sample_providers = Inr [\<lparr>pv_Name = ''b''\<rparr>]"
    "ProvidersForModel ''n'' sample_providers = Inl (RegNoModel ''n'')"
    "fst (Unregister ''b'' sample_providers) = None" by code_simp+
  note ref = registry_refines[of sample_providers]
  have "{p. (''m'', p) \<in> ar_listed (abs_of sample_providers) \<and> p \<in> ar_registered (abs_of sample_providers)} = {''b''}"
  proof -
    have "\<forall>m. (case ProvidersForModel m sample_providers of
        Inr ps \<Rightarrow> ps \<noteq> [] \<and> pv_Name ` set ps = {p. (m, p) \<in> ar_listed (abs_of sample_providers) \<and> p \<in> ar_registered (abs_of sample_providers)}
      | Inl e \<Rightarrow> e = RegNoModel m \<and> {p. (m, p) \<in> ar_listed (abs_of sample_providers) \<and> p \<in> ar_registered (abs_of sample_providers)} = {})"
      using ref sample_providers_def by blast
    from this[rule_format, of "''m''"] show ?thesis unfolding m by simp
  qed
  moreover have "abs_of (snd (Unregister ''b'' sample_providers)) = abs_unregister ''b'' (abs_of sample_providers)"
    using ref m(3) by blast
  ultimately show ?thesis using m by blast
qed

end
