(* ===== verification/Model_Candidates.thy ===== *)
theory Model_Candidates
  imports Route_Scoring Provider_Registry
begin

text \<open>
  How the router obtains candidate profiles: the lookup, recommendation and tool-call resolution of
  \<open>provider/model_registry.go\<close> and \<open>resolveCandidates\<close> of \<open>provider/router.go\<close>. What the registry's profile cache, the
  providers and the capability probes answer during one route is an argument, the record
  \<open>model_source\<close>: building a profile from catalog, fingerprint and runtime data is not modelled.
  Errors carry the layers that are tested; their texts are reduced to a tag.
\<close>

datatype CapProbeState = CapProbeYes | CapProbeNo | CapProbeInconclusive

record model_source =
  ms_Lookup :: "ModelKey \<Rightarrow> goerror + ModelProfile"
  ms_Refreshed :: "ModelKey \<Rightarrow> goerror + ModelProfile"
  ms_Models :: "string \<Rightarrow> goerror + string list"
  ms_canResolve :: bool
  ms_ResolveToolCall :: "ModelKey \<Rightarrow> goerror + CapProbeState"
  ms_providers :: Registry
  ms_iter :: "string list \<Rightarrow> string list"
  ms_perm :: "ModelProfile list \<Rightarrow> ModelProfile list"

record RecommendOpts =
  ro_AvailableRAM :: f64
  ro_ContextSize :: int
  ro_PreferWarm :: bool
  ro_RestrictToProvider :: string
  ro_RequiredCaps :: Capability

definition RAMAtContext :: "f64 \<Rightarrow> int \<Rightarrow> f64" where
  "RAMAtContext ramRequired ctxSize = f_add ramRequired (f_mul (f_div (f_int ctxSize) (F_Fin 1024)) (F_Fin (1 / 2)))"

section \<open>Lookups\<close>

definition profiles_of :: "model_source \<Rightarrow> string \<Rightarrow> string list \<Rightarrow> ModelProfile list" where
  "profiles_of src name models =
     List.map_filter (\<lambda>model. case ms_Lookup src \<lparr>mk_Provider = name, mk_Model = model\<rparr> of Inr p \<Rightarrow> Some p | Inl _ \<Rightarrow> None) models"

fun lookup_any_loop :: "model_source \<Rightarrow> string \<Rightarrow> Provider list \<Rightarrow> ModelProfile list \<times> goerror option" where
  "lookup_any_loop src model [] = ([], None)"
| "lookup_any_loop src model (p # ps) =
     (case lookup_any_loop src model ps of (profiles, firstErr) \<Rightarrow>
        case ms_Lookup src \<lparr>mk_Provider = pv_Name p, mk_Model = model\<rparr> of
          Inl err \<Rightarrow> (profiles, Some err)
        | Inr profile \<Rightarrow> (profile # profiles, firstErr))"

definition LookupAny :: "model_source \<Rightarrow> string \<Rightarrow> goerror + ModelProfile list" where
  "LookupAny src model =
     (case ProvidersForModel model (ms_providers src) of
        Inl _ \<Rightarrow> Inl [ErrOther ''provider: no providers found'']
      | Inr providers \<Rightarrow>
          case lookup_any_loop src model providers of (profiles, firstErr) \<Rightarrow>
            if profiles = [] then Inl (ErrOther ''provider: lookup any'' # (case firstErr of Some e \<Rightarrow> e | None \<Rightarrow> []))
            else Inr profiles)"

fun all_loop :: "model_source \<Rightarrow> Provider list \<Rightarrow> ModelProfile list \<times> nat" where
  "all_loop src [] = ([], 0)"
| "all_loop src (p # ps) =
     (case all_loop src ps of (profiles, providerErrors) \<Rightarrow>
        case ms_Models src (pv_Name p) of
          Inl _ \<Rightarrow> (profiles, providerErrors + 1)
        | Inr models \<Rightarrow> (profiles_of src (pv_Name p) models @ profiles, providerErrors))"

definition ModelRegistry_All :: "model_source \<Rightarrow> goerror + ModelProfile list" where
  "ModelRegistry_All src =
     (let allProviders = Registry_All (ms_iter src) (ms_providers src)
      in if allProviders = [] then Inr []
         else case all_loop src allProviders of (profiles, providerErrors) \<Rightarrow>
                if profiles = [] \<and> providerErrors = length allProviders then Inl [ErrOther ''provider: model registry: all providers failed'']
                else Inr profiles)"

definition recommendSourceProfiles :: "model_source \<Rightarrow> string \<Rightarrow> goerror + ModelProfile list" where
  "recommendSourceProfiles src providerName =
     (if providerName = [] then ModelRegistry_All src
      else case Registry_Resolve \<lparr>mk_Provider = providerName, mk_Model = []\<rparr> (ms_providers src) of
             Inl _ \<Rightarrow> Inl [ErrOther ''restricted provider'']
           | Inr prov \<Rightarrow>
               case ms_Models src providerName of
                 Inl err \<Rightarrow> Inl (ErrOther ''query models from restricted provider'' # err)
               | Inr models \<Rightarrow> Inr (profiles_of src providerName models))"

section \<open>Recommendation\<close>

definition profile_before :: "ModelProfile \<Rightarrow> ModelProfile \<Rightarrow> bool" where
  "profile_before a b =
     (if mp_Quality a \<noteq> mp_Quality b then mp_Quality a > mp_Quality b else mp_Speed a > mp_Speed b)"

text \<open>\<open>sort.Slice\<close> is not stable: its result is a stable sort of some permutation of the slice.\<close>

definition sortProfiles :: "(ModelProfile list \<Rightarrow> ModelProfile list) \<Rightarrow> ModelProfile list \<Rightarrow> ModelProfile list" where
  "sortProfiles perm profiles = SliceStable profile_before (perm profiles)"

definition recommend_ok :: "RecommendOpts \<Rightarrow> ModelProfile \<Rightarrow> bool" where
  "recommend_ok opts p =
     (if ro_RequiredCaps opts \<noteq> 0 \<and> (mp_Caps p AND ro_RequiredCaps opts) \<noteq> ro_RequiredCaps opts then False
      else if f_lt (F_Fin 0) (ro_AvailableRAM opts) \<and>
              f_lt (ro_AvailableRAM opts) (if ro_ContextSize opts > 0 then RAMAtContext (mp_RAMRequired p) (ro_ContextSize opts) else mp_RAMRequired p)
      then False
      else \<not> (ro_ContextSize opts > 0 \<and> mp_ContextWindow p > 0 \<and> mp_ContextWindow p < ro_ContextSize opts))"

definition Recommend :: "model_source \<Rightarrow> RecommendOpts \<Rightarrow> goerror + ModelProfile list" where
  "Recommend src opts =
     (case recommendSourceProfiles src (ro_RestrictToProvider opts) of
        Inl err \<Rightarrow> Inl (ErrOther ''provider: recommend'' # err)
      | Inr profiles \<Rightarrow> Inr (sortProfiles (ms_perm src) (filter (recommend_ok opts) profiles)))"

section \<open>Tool-call resolution\<close>

text \<open>
  One probe per distinct key, so the answer is a function of the key; the replay in input order
  treats each candidate on its own.
\<close>

definition resolve_candidate :: "model_source \<Rightarrow> ModelProfile \<Rightarrow> ModelProfile \<times> goerror option" where
  "resolve_candidate src p =
     (if Capability_Has (mp_Caps p) CapToolCall then (p, None)
      else case ms_ResolveToolCall src (mp_Key p) of
             Inl err \<Rightarrow> (p, Some (ErrOther ''resolve tool_call'' # err))
           | Inr state \<Rightarrow>
               if state \<noteq> CapProbeYes then (p, None)
               else let patched = p\<lparr>mp_Caps := mp_Caps p OR CapToolCall\<rparr>
                    in case ms_Refreshed src (mp_Key p) of
                         Inr refreshed \<Rightarrow> if Capability_Has (mp_Caps refreshed) CapToolCall then (refreshed, None) else (patched, None)
                       | Inl _ \<Rightarrow> (patched, None))"

definition ensureToolCallResolvedIndexed :: "model_source \<Rightarrow> ModelProfile list \<Rightarrow> Capability \<Rightarrow> ModelProfile list \<times> goerror option list" where
  "ensureToolCallResolvedIndexed src profiles required =
     (if \<not> ms_canResolve src \<or> \<not> Capability_Has required CapToolCall then (profiles, [])
      else if \<forall>p \<in> set profiles. Capability_Has (mp_Caps p) CapToolCall then (profiles, [])
      else (map (fst \<circ> resolve_candidate src) profiles, map (snd \<circ> resolve_candidate src) profiles))"

definition EnsureToolCallResolved :: "model_source \<Rightarrow> ModelProfile list \<Rightarrow> Capability \<Rightarrow> ModelProfile list \<times> goerror list" where
  "EnsureToolCallResolved src profiles required =
     (case ensureToolCallResolvedIndexed src profiles required of (out, diagAt) \<Rightarrow> (out, List.map_filter (\<lambda>d. d) diagAt))"

definition recommendWithToolCallResolution :: "model_source \<Rightarrow> RecommendOpts \<Rightarrow> Capability \<Rightarrow> goerror + ModelProfile list \<times> goerror list" where
  "recommendWithToolCallResolution src opts reqCaps =
     (if \<not> ms_canResolve src \<or> \<not> Capability_Has reqCaps CapToolCall
      then (case Recommend src (opts\<lparr>ro_RequiredCaps := reqCaps\<rparr>) of Inl e \<Rightarrow> Inl e | Inr ps \<Rightarrow> Inr (ps, []))
      else case Recommend src (opts\<lparr>ro_RequiredCaps := reqCaps AND NOT CapToolCall\<rparr>) of
             Inl e \<Rightarrow> Inl e
           | Inr candidates \<Rightarrow>
               case EnsureToolCallResolved src candidates reqCaps of (candidates, diags) \<Rightarrow>
                 Inr (filter (\<lambda>p. Capability_Has (mp_Caps p) CapToolCall) candidates, diags))"

section \<open>Candidates of a request\<close>

definition lookup_resolved :: "model_source \<Rightarrow> ModelKey \<Rightarrow> Capability \<Rightarrow> goerror + ModelProfile list \<times> goerror list" where
  "lookup_resolved src key caps =
     (case ms_Lookup src key of Inl e \<Rightarrow> Inl e | Inr profile \<Rightarrow> Inr (EnsureToolCallResolved src [profile] caps))"

definition resolveCandidates :: "model_source \<Rightarrow> f64 \<Rightarrow> RoutingRequest \<Rightarrow> goerror + ModelProfile list \<times> goerror list" where
  "resolveCandidates src availableRAM req =
     (if rq_Model req = []
      then recommendWithToolCallResolution src
             \<lparr>ro_AvailableRAM = availableRAM, ro_ContextSize = 0, ro_PreferWarm = rq_PreferWarm req,
              ro_RestrictToProvider = rq_Provider req, ro_RequiredCaps = 0\<rparr> (rq_RequiredCaps req)
      else case parseModelSelector (rq_Model req) of (key, ok) \<Rightarrow>
        if ok then lookup_resolved src key (rq_RequiredCaps req)
        else if rq_Provider req \<noteq> [] then lookup_resolved src \<lparr>mk_Provider = rq_Provider req, mk_Model = rq_Model req\<rparr> (rq_RequiredCaps req)
        else case LookupAny src (rq_Model req) of
               Inl e \<Rightarrow> Inl e
             | Inr profiles \<Rightarrow> Inr (EnsureToolCallResolved src profiles (rq_RequiredCaps req)))"

section \<open>Lemmas\<close>

lemma profile_before_weak: "strict_ranking profile_before (\<lambda>_. True)"
  by unfold_locales (auto simp: profile_before_def split: if_splits)

interpretation profile_ranking: strict_ranking profile_before "\<lambda>_. True"
  by (rule profile_before_weak)

lemma length_ensure [simp]: "length (fst (ensureToolCallResolvedIndexed src ps caps)) = length ps"
  by (simp add: ensureToolCallResolvedIndexed_def)

lemma Capability_Has_or [simp]: "Capability_Has (c OR f) f"
  by (auto simp: Capability_Has_bits bit_or_iff)

text \<open>Resolution only ever adds the tool-call bit or takes over a refreshed profile that has it.\<close>

lemma resolve_candidate_cases:
  "fst (resolve_candidate src p) = p \<or> Capability_Has (mp_Caps (fst (resolve_candidate src p))) CapToolCall"
  by (auto simp: resolve_candidate_def Let_def split: sum.splits)

end
