(* ===== verification/Router_Plan.thy ===== *)
theory Router_Plan
  imports Model_Candidates
begin

text \<open>
  The parts of \<open>provider/router.go\<close> that both routing modes share: the router's configuration, the
  scoring of a list of candidates, and the construction of a plan. The clock readings of one
  scoring pass are a function of the candidate's position. The plan carries the
  fields that identify what will be executed; the seams that \<open>buildPlan\<close> stamps for execution (recorder, admission,
  destination gate, telemetry) are not represented.
\<close>

record routerDefaults =
  rd_stickyTTL :: duration
  rd_hysteresisMargin :: f64
  rd_maxStickyEntries :: int
  rd_maxFallbacks :: int
  rd_defaultPriority :: Priority
  rd_weightOverrides :: "string \<Rightarrow> WeightProfile option"

record Router =
  rt_warmth :: "WarmthSource option"
  rt_tokenBudget :: TokenBudgetValidator
  rt_modelDefaults :: "ModelKey \<Rightarrow> SamplingDefaults option"
  rt_availableRAM :: f64
  rt_defaultOpts :: routerDefaults
  rt_closed :: bool
  rt_routingFeedback :: "feedback_store option"
  rt_feedbackScoringMode :: FeedbackScoringMode
  rt_source :: model_source

definition defaultRouterOpts :: routerDefaults where
  "defaultRouterOpts = \<lparr>rd_stickyTTL = 300 * nanosecond_per_second, rd_hysteresisMargin = F_Fin (fl (15 / 100)), rd_maxStickyEntries = 1024,
     rd_maxFallbacks = 3, rd_defaultPriority = PriorityNormal, rd_weightOverrides = Map.empty\<rparr>"

definition baseActiveSignals :: "Router \<Rightarrow> string \<Rightarrow> bool" where
  "baseActiveSignals r name =
     (name \<in> set [''feedback'', ''headroom'', ''quality'', ''speed'', ''kvcache'', ''cost''] \<or> (rt_warmth r \<noteq> None \<and> name = ''warmth''))"

definition selectionActiveSignals :: "Router \<Rightarrow> feedbackSnapshot \<Rightarrow> string \<Rightarrow> bool" where
  "selectionActiveSignals r snap = baseActiveSignals r"

definition deltaActiveSignals :: "Router \<Rightarrow> feedbackSnapshot \<Rightarrow> string \<Rightarrow> bool" where
  "deltaActiveSignals r snap = baseActiveSignals r"

section \<open>Scoring candidates\<close>

definition ram_ok :: "Router \<Rightarrow> ModelProfile \<Rightarrow> bool" where
  "ram_ok r p \<longleftrightarrow> \<not> (f_lt (F_Fin 0) (rt_availableRAM r) \<and> f_lt (rt_availableRAM r) (mp_RAMRequired p))"

text \<open>The loop body behind the RAM gate, the same in \<open>scoreAll\<close> and \<open>scoreChainStep\<close>.\<close>

definition score_one :: "gotime \<Rightarrow> Router \<Rightarrow> RoutingRequest \<Rightarrow> feedbackSnapshot \<Rightarrow> ModelProfile \<Rightarrow> router_health \<Rightarrow> scoredCandidate \<times> router_health" where
  "score_one now r req snap profile h =
     (let customWeights = rd_weightOverrides (rt_defaultOpts r) (rq_UseCase req);
          budget = Validate (rt_tokenBudget r) req profile;
          (_, h) = getOrCreateBreaker (mk_Provider (mp_Key profile)) h;
          cf = snap_lookup snap (feedback_key (rq_UseCase req) profile);
          (bd, h) = scoreCandidate now profile req budget (rt_warmth r) cf h;
          neutralBD = scoreBreakdownWithNeutralFeedback bd;
          bd = bd\<lparr>bd_scoreWithoutFeedback := computeWeightedScore neutralBD (rq_UseCase req) (baseActiveSignals r) customWeights\<rparr>;
          bd = bd\<lparr>bd_scoreWithFeedback := computeWeightedScore bd (rq_UseCase req) (deltaActiveSignals r snap) customWeights\<rparr>;
          scoreBD = scoreBreakdownForSelection bd snap;
          score = computeWeightedScore scoreBD (rq_UseCase req) (selectionActiveSignals r snap) customWeights;
          score = (if bd_breakerPenalty bd = F_NegInf then F_NegInf else score)
      in (\<lparr>sc_profile = profile, sc_budget = budget, sc_score = score, sc_bd = bd\<rparr>, h))"

fun score_loop :: "(nat \<Rightarrow> gotime) \<Rightarrow> nat \<Rightarrow> Router \<Rightarrow> RoutingRequest \<Rightarrow> feedbackSnapshot \<Rightarrow> ModelProfile list \<Rightarrow> router_health
    \<Rightarrow> scoredCandidate list \<times> router_health" where
  "score_loop clock i r req snap [] h = ([], h)"
| "score_loop clock i r req snap (p # ps) h =
     (if \<not> ram_ok r p then score_loop clock (Suc i) r req snap ps h
      else let (sc, h) = score_one (clock i) r req snap p h;
               (scs, h) = score_loop clock (Suc i) r req snap ps h
           in (sc # scs, h))"

definition scoreAll :: "(nat \<Rightarrow> gotime) \<Rightarrow> Router \<Rightarrow> ModelProfile list \<Rightarrow> RoutingRequest \<Rightarrow> feedbackSnapshot \<Rightarrow> router_health
    \<Rightarrow> scoredCandidate list \<times> router_health" where
  "scoreAll clock r candidates req snap h = score_loop clock 0 r req snap candidates h"

section \<open>Plans\<close>

record base_plan =
  pl_Kind :: RouteKind
  pl_Provider :: Provider
  pl_Model :: string
  pl_Profile :: ModelProfile
  pl_Request :: RoutingRequest
  pl_Score :: f64
  pl_Budget :: BudgetResult
  pl_Reason :: string

record RoutePlan = base_plan +
  pl_Fallbacks :: "base_plan list"
  pl_Degraded :: bool
  pl_wasSticky :: bool
  pl_scoreBreakdown :: "scoreBreakdown option"
  pl_builtUnderMode :: FeedbackScoringMode
  pl_feedbackStatus :: "feedbackSnapshotStatus option"

definition buildReason :: "scoredCandidate \<Rightarrow> string" where
  "buildReason sc =
     strings_Join ([''score='' @ fmt_fixed 3 (sc_score sc), ''quality='' @ Tier_String (mp_Quality (sc_profile sc)),
                    ''speed='' @ Tier_String (mp_Speed (sc_profile sc))]
                   @ (if br_Decision (sc_budget sc) \<noteq> BudgetOK then [''budget='' @ BudgetDecision_String (br_Decision (sc_budget sc))] else []))
       '', ''"

definition no_defaults :: SamplingDefaults where
  "no_defaults = \<lparr>sd_Temperature = None, sd_TopP = None, sd_TopK = None\<rparr>"

definition plan_request :: "Router \<Rightarrow> RoutingRequest \<Rightarrow> ModelKey \<Rightarrow> RoutingRequest" where
  "plan_request r req key =
     req\<lparr>rq_Options := mergeModelDefaults (rq_Options req) (case rt_modelDefaults r key of Some d \<Rightarrow> d | None \<Rightarrow> no_defaults)\<rparr>"

definition candidate_plan :: "Router \<Rightarrow> RoutingRequest \<Rightarrow> scoredCandidate \<Rightarrow> Provider \<Rightarrow> base_plan" where
  "candidate_plan r req sc prov =
     \<lparr>pl_Kind = inferRouteKind req, pl_Provider = prov, pl_Model = mk_Model (mp_Key (sc_profile sc)), pl_Profile = sc_profile sc,
      pl_Request = plan_request r req (mp_Key (sc_profile sc)), pl_Score = sc_score sc, pl_Budget = sc_budget sc, pl_Reason = buildReason sc\<rparr>"

fun fallback_plans :: "Router \<Rightarrow> RoutingRequest \<Rightarrow> scoredCandidate list \<Rightarrow> base_plan list" where
  "fallback_plans r req [] = []"
| "fallback_plans r req (fb # fbs) =
     (case Registry_Resolve (mp_Key (sc_profile fb)) (ms_providers (rt_source r)) of
        Inl _ \<Rightarrow> fallback_plans r req fbs
      | Inr fbProv \<Rightarrow> candidate_plan r req fb fbProv # fallback_plans r req fbs)"

definition buildPlan :: "Router \<Rightarrow> scoredCandidate \<Rightarrow> scoredCandidate list \<Rightarrow> RoutingRequest \<Rightarrow> bool \<Rightarrow> feedbackSnapshot
    \<Rightarrow> registry_failure + RoutePlan" where
  "buildPlan r winner fallbacks req wasSticky snap =
     (case Registry_Resolve (mp_Key (sc_profile winner)) (ms_providers (rt_source r)) of
        Inl err \<Rightarrow> Inl err
      | Inr prov \<Rightarrow>
          let stamped = (rt_feedbackScoringMode r \<noteq> FeedbackScoringOff)
          in Inr (base_plan.extend (candidate_plan r req winner prov)
               \<lparr>pl_Fallbacks = fallback_plans r req fallbacks, pl_Degraded = False, pl_wasSticky = wasSticky,
                pl_scoreBreakdown = (if stamped then Some (sc_bd winner) else None),
                pl_builtUnderMode = (if stamped then rt_feedbackScoringMode r else FeedbackScoringOff),
                pl_feedbackStatus = (if stamped then Some (fs_status snap) else None)\<rparr>))"

definition findIncumbentScore :: "ModelKey \<Rightarrow> scoredCandidate list \<Rightarrow> nat option" where
  "findIncumbentScore key scored =
     (case List.find (\<lambda>(i, sc). mp_Key (sc_profile sc) = key) (enumerate 0 scored) of Some (i, _) \<Rightarrow> Some i | None \<Rightarrow> None)"

section \<open>Errors\<close>

datatype route_error =
    ErrRouterClosed | ErrProviderMismatch string string | RouteContext goerror | RouteLookup goerror | RouteTerminal goerror
  | ErrNoViableCandidate "goerror list" | ErrAllBreakersOpen | ErrBudgetExceeded | ErrBudgetAdaptationRequired
  | RouteBuild registry_failure | RoutePanic

type_synonym route_result = "RoutePlan option \<times> route_error option"

definition router_closed_layer :: err_layer where
  "router_closed_layer = ErrOther ''router: router is closed''"

definition capabilityResolutionTerminalError :: "goerror list \<Rightarrow> goerror option" where
  "capabilityResolutionTerminalError diags = List.find (\<lambda>diag. errors_is diag router_closed_layer) diags"

definition joinNoViableCandidate :: "goerror list \<Rightarrow> route_error" where
  "joinNoViableCandidate diags = ErrNoViableCandidate diags"

section \<open>Facts about scored candidates\<close>

definition snap_ok :: "feedbackSnapshot \<Rightarrow> bool" where
  "snap_ok s \<longleftrightarrow> (\<forall>k c. fs_byKey s k = Some c \<longrightarrow> cf_adjusted c = adjustFeedbackScore (cf_raw c))"

lemma read_loop_ok: "snap_ok s \<Longrightarrow> snap_ok (read_loop score useCase seen ps s)"
proof (induction ps arbitrary: seen s)
  case (Cons p ps)
  have upd: "snap_ok (s\<lparr>fs_byKey := (fs_byKey s)(k \<mapsto> \<lparr>cf_raw = agg, cf_adjusted = adjustFeedbackScore agg\<rparr>)\<rparr>)" for k agg
    using Cons.prems by (simp add: snap_ok_def)
  have fail: "snap_ok (s\<lparr>fs_active := False, fs_failed := True, fs_status := StatusReadError, fs_byKey := Map.empty\<rparr>)"
    by (simp add: snap_ok_def)
  show ?case unfolding read_loop.simps Let_def
    by (simp only: Cons.IH[OF Cons.prems] Cons.IH[OF upd] fail if_split sum.split simp_thms)
qed simp

lemma readCandidates_ok: "snap_ok s \<Longrightarrow> snap_ok (readCandidates store ps useCase s)"
  by (simp add: readCandidates_def read_loop_ok split: option.split)

lemma buildFeedbackSnapshot_ok: "snap_ok (buildFeedbackSnapshot mode store ps useCase)"
  by (auto simp: buildFeedbackSnapshot_def Let_def intro!: readCandidates_ok) (auto simp: snap_ok_def)

lemma snap_lookup_ok: "snap_ok s \<Longrightarrow> feedback_ok (snap_lookup s k)"
  by (auto simp: snap_lookup_def feedback_ok_def snap_ok_def split: option.split)

text \<open>What later decisions may rely on: the budget is the validator's, the gates are recorded, and the score is a number in the unit interval
  unless the breaker refused.\<close>

definition candidate_ok :: "Router \<Rightarrow> RoutingRequest \<Rightarrow> scoredCandidate \<Rightarrow> bool" where
  "candidate_ok r req sc \<longleftrightarrow> ram_ok r (sc_profile sc)
     \<and> sc_budget sc = Validate (rt_tokenBudget r) req (sc_profile sc)
     \<and> bd_capabilityGate (sc_bd sc) = profileSatisfiesRequiredCaps (sc_profile sc) (rq_RequiredCaps req)
     \<and> bd_breakerPenalty (sc_bd sc) \<in> {F_Fin 0, F_NegInf}
     \<and> (if bd_breakerPenalty (sc_bd sc) = F_NegInf then sc_score sc = F_NegInf else f_in 0 1 (sc_score sc))"

lemma breaker_of_getOrCreate [simp]: "breaker_of (snd (getOrCreateBreaker p h)) q = breaker_of h q"
  by (auto simp: getOrCreateBreaker_def breaker_of_def update_conv' Let_def split: option.splits)

lemma score_one_ok:
  assumes "snap_ok snap" "ram_ok r p"
  shows "candidate_ok r req (fst (score_one now r req snap p h)) \<and> sc_profile (fst (score_one now r req snap p h)) = p"
proof -
  let ?b = "Validate (rt_tokenBudget r) req p" and ?h = "snd (getOrCreateBreaker (mk_Provider (mp_Key p)) h)"
  let ?f = "snap_lookup snap (feedback_key (rq_UseCase req) p)"
  let ?s = "scoreCandidate now p req ?b (rt_warmth r) ?f ?h"
  have ok: "bd_ok (fst ?s)" by (intro scoreCandidate_ok snap_lookup_ok assms Validate_headroom)
  have "bd_ok (scoreBreakdownForSelection (fst ?s\<lparr>bd_scoreWithoutFeedback := x, bd_scoreWithFeedback := y\<rparr>) snap)" for x y
    using ok by (intro bd_ok_selection) (simp add: bd_ok_def)
  then have sc: "f_in 0 1 (computeWeightedScore (scoreBreakdownForSelection (fst ?s\<lparr>bd_scoreWithoutFeedback := x, bd_scoreWithFeedback := y\<rparr>) snap)
      (rq_UseCase req) act w)" for x y act w
    by (rule computeWeightedScore_bounded)
  show ?thesis using assms(2) sc scoreCandidate_gates[of now p req ?b "rt_warmth r" ?f ?h]
    by (simp add: score_one_def candidate_ok_def Let_def split_beta gate_penalty)
qed

definition admitted :: "scoredCandidate \<Rightarrow> bool" where
  "admitted sc \<longleftrightarrow> bd_capabilityGate (sc_bd sc) \<and> bd_breakerPenalty (sc_bd sc) \<noteq> F_NegInf"

abbreviation sc_provider :: "scoredCandidate \<Rightarrow> string" where
  "sc_provider sc \<equiv> mk_Provider (mp_Key (sc_profile sc))"

lemma score_one_breaker:
  "breaker_of (snd (score_one now r req snap p h)) q =
     (if q = mk_Provider (mp_Key p) \<and> profileSatisfiesRequiredCaps p (rq_RequiredCaps req)
      then snd (Allow now (breaker_of h q)) else breaker_of h q)"
  "admitted (fst (score_one now r req snap p h)) \<longleftrightarrow>
     profileSatisfiesRequiredCaps p (rq_RequiredCaps req) \<and> fst (Allow now (breaker_of h (mk_Provider (mp_Key p))))"
  "sc_profile (fst (score_one now r req snap p h)) = p"
  by (auto simp: score_one_def admitted_def Let_def split_beta scoreCandidate_gates gate_penalty breaker_of_gate)

text \<open>An admission leaves the breaker closed or half-open, and asking never opens a breaker.\<close>

lemma Allow_state:
  "fst (Allow now cb) \<Longrightarrow> cb_state (snd (Allow now cb)) \<noteq> BreakerOpen"
  "cb_state cb \<noteq> BreakerOpen \<Longrightarrow> snd (Allow now cb) = cb"
  "cb_state cb = BreakerClosed \<longleftrightarrow> cb_state (snd (Allow now cb)) = BreakerClosed"
  "cb_state cb \<noteq> BreakerClosed \<Longrightarrow> fst (Allow now cb) \<Longrightarrow> cb_state (snd (Allow now cb)) = BreakerHalfOpen"
  by (auto simp: Allow_def split: BreakerState.splits if_splits)

lemma score_one_state:
  "cb_state (breaker_of h q) \<noteq> BreakerOpen \<Longrightarrow> breaker_of (snd (score_one now r req snap p h)) q = breaker_of h q"
  by (auto simp: score_one_breaker Allow_state)

lemma score_loop_state:
  "cb_state (breaker_of h q) \<noteq> BreakerOpen \<Longrightarrow> breaker_of (snd (score_loop clock i r req snap ps h)) q = breaker_of h q"
  by (induction ps arbitrary: i h) (auto simp: Let_def split_beta score_one_state)

lemma score_loop_ok:
  assumes "snap_ok snap"
  shows "(\<forall>sc \<in> set (fst (score_loop clock i r req snap ps h)). candidate_ok r req sc)
    \<and> map sc_profile (fst (score_loop clock i r req snap ps h)) = filter (ram_ok r) ps"
  by (induction ps arbitrary: i h) (use score_one_ok[OF assms] in \<open>auto simp: Let_def split_beta\<close>)

lemma score_loop_admitted:
  "sc \<in> set (fst (score_loop clock i r req snap ps h)) \<Longrightarrow> admitted sc
    \<Longrightarrow> cb_state (breaker_of (snd (score_loop clock i r req snap ps h)) (sc_provider sc)) \<noteq> BreakerOpen"
proof (induction ps arbitrary: i h)
  case (Cons p ps)
  show ?case
  proof (cases "ram_ok r p")
    case True
    let ?s = "score_one (clock i) r req snap p h"
    have eq: "score_loop clock i r req snap (p # ps) h
        = (fst ?s # fst (score_loop clock (Suc i) r req snap ps (snd ?s)), snd (score_loop clock (Suc i) r req snap ps (snd ?s)))"
      using True by (simp add: Let_def split_beta)
    from Cons.prems(1) consider "sc = fst ?s" | "sc \<in> set (fst (score_loop clock (Suc i) r req snap ps (snd ?s)))"
      unfolding eq by auto
    then show ?thesis
    proof cases
      case 1
      with Cons.prems(2) have "cb_state (breaker_of (snd ?s) (sc_provider sc)) \<noteq> BreakerOpen"
        by (simp add: score_one_breaker Allow_state)
      then show ?thesis unfolding eq by (simp add: score_loop_state)
    next
      case 2
      then show ?thesis unfolding eq using Cons.IH Cons.prems(2) by simp
    qed
  next
    case False
    then show ?thesis using Cons by simp
  qed
qed simp

text \<open>A tripped provider gets at most one candidate admitted per scoring pass, a half-open one none.\<close>

lemma score_loop_half_open:
  "cb_state (breaker_of h q) = BreakerHalfOpen \<Longrightarrow> sc \<in> set (fst (score_loop clock i r req snap ps h)) \<Longrightarrow> sc_provider sc = q \<Longrightarrow> \<not> admitted sc"
proof (induction ps arbitrary: i h)
  case (Cons p ps)
  let ?s = "score_one (clock i) r req snap p h"
  have h: "cb_state (breaker_of (snd ?s) q) = BreakerHalfOpen"
    using Cons.prems(1) score_one_state[of h q] by simp
  from Cons.prems(2) consider "sc \<in> set (fst (score_loop clock (Suc i) r req snap ps h))" | "sc = fst ?s"
      | "sc \<in> set (fst (score_loop clock (Suc i) r req snap ps (snd ?s)))"
    by (auto simp: Let_def split_beta split: if_splits)
  then show ?case
  proof cases
    case 1
    then show ?thesis using Cons.IH[OF Cons.prems(1)] Cons.prems(3) by blast
  next
    case 2
    then show ?thesis using Cons.prems(1,3) score_one_breaker(2,3)[of "clock i" r req snap p h] by auto
  next
    case 3
    then show ?thesis using Cons.IH[OF h] Cons.prems(3) by blast
  qed
qed simp

lemma score_loop_probe:
  assumes "cb_state (breaker_of h q) \<noteq> BreakerClosed"
  shows "length (filter (\<lambda>sc. sc_provider sc = q \<and> admitted sc) (fst (score_loop clock i r req snap ps h))) \<le> 1"
  using assms
proof (induction ps arbitrary: i h)
  case (Cons p ps)
  let ?s = "score_one (clock i) r req snap p h"
  have nc: "cb_state (breaker_of (snd ?s) q) \<noteq> BreakerClosed"
    using Cons.prems Allow_state(3)[of "breaker_of h q" "clock i"] by (auto simp: score_one_breaker)
  show ?case
  proof (cases "ram_ok r p \<and> sc_provider (fst ?s) = q \<and> admitted (fst ?s)")
    case True
    then have "cb_state (breaker_of (snd ?s) q) = BreakerHalfOpen"
      using Cons.prems by (auto simp: score_one_breaker Allow_state)
    from score_loop_half_open[OF this] have "filter (\<lambda>sc. sc_provider sc = q \<and> admitted sc) (fst (score_loop clock (Suc i) r req snap ps (snd ?s))) = []"
      by (auto simp: filter_empty_conv)
    with True show ?thesis by (simp add: Let_def split_beta)
  next
    case False
    then show ?thesis using Cons.IH[OF nc, of "Suc i"] Cons.IH[OF Cons.prems, of "Suc i"] by (auto simp: Let_def split_beta)
  qed
qed simp

lemma fallback_plans_profiles:
  "map pl_Profile (fallback_plans r req fbs) = filter (\<lambda>p. mk_Provider (mp_Key p) \<in> dom (rg_providers (ms_providers (rt_source r)))) (map sc_profile fbs)"
  by (induction fbs) (auto simp: Registry_Resolve_def candidate_plan_def split: option.splits)

lemma buildPlan_Inr:
  "buildPlan r winner fallbacks req sticky snap = Inr plan \<Longrightarrow>
     pl_Profile plan = sc_profile winner \<and> pl_Score plan = sc_score winner \<and> pl_Budget plan = sc_budget winner
     \<and> pl_Model plan = mk_Model (mp_Key (sc_profile winner)) \<and> pl_wasSticky plan = sticky \<and> \<not> pl_Degraded plan
     \<and> pl_Fallbacks plan = fallback_plans r req fallbacks \<and> pl_Kind plan = inferRouteKind req"
  by (auto simp: buildPlan_def Let_def candidate_plan_def base_plan.extend_def split: sum.splits)

text \<open>Scoring does not touch the sticky cache.\<close>

lemma score_loop_sticky: "rh_sticky (snd (score_loop clock i r req snap ps h)) = rh_sticky h"
proof -
  have gate: "rh_sticky (snd (breaker_gate now p h)) = rh_sticky h" for now p h
    by (auto simp: breaker_gate_def getOrCreateBreaker_def update_breaker_def Let_def split: option.splits prod.splits)
  have "rh_sticky (snd (score_one now r req snap p h)) = rh_sticky h" for now p h
    by (auto simp: score_one_def scoreCandidate_def Let_def split_beta gate getOrCreateBreaker_def split: option.splits)
  then show ?thesis by (induction ps arbitrary: i h) (auto simp: Let_def split_beta)
qed

end
