(* ===== verification/Router_Chain.thy ===== *)
theory Router_Chain
  imports Router_Plan Go_Int
begin

text \<open>
  Chain-first routing, \<open>provider/router_chain.go\<close>: the selectors of \<open>PreferredChain\<close> are resolved in order, the
  candidates of each selector are scored and ranked among themselves, the surviving ones are
  strung together in chain order, and the recommended models follow unless the chain is strict.
  The readings of clock and context during one route are the record \<open>route_env\<close>; sets of model keys are lists.
\<close>

record route_env =
  re_ctxErr :: "goerror option"
  re_stepCtx :: "nat \<Rightarrow> goerror option"
  re_clock :: "nat \<Rightarrow> nat \<Rightarrow> gotime"
  re_lookupAt :: "nat \<Rightarrow> gotime"
  re_getAt :: gotime
  re_touchAt :: gotime
  re_putAt :: gotime
  re_evictAt :: gotime
  re_iter :: map_order

section \<open>Resolving the chain\<close>

definition resolveChainEntry :: "model_source \<Rightarrow> string \<Rightarrow> goerror + ModelProfile list" where
  "resolveChainEntry src selector =
     (case parseModelSelector selector of (key, ok) \<Rightarrow>
        if ok then (case ms_Lookup src key of Inl e \<Rightarrow> Inl e | Inr profile \<Rightarrow> Inr [profile])
        else LookupAny src selector)"

definition recordChainLookupFailure :: "gotime \<Rightarrow> string \<Rightarrow> goerror \<Rightarrow> router_health \<Rightarrow> router_health" where
  "recordChainLookupFailure now selector err h =
     (if \<not> IsInfrastructureError (Some err) then h
      else case parseModelSelector selector of (key, ok) \<Rightarrow>
        if \<not> ok then h
        else if mk_Provider key = [] then h
        else case getOrCreateBreaker (mk_Provider key) h of (cb, h) \<Rightarrow>
               update_breaker (mk_Provider key) (RecordFailure now (Some err) cb) h)"

record chainEntry =
  ce_selector :: string
  ce_lookupErr :: "goerror option"
  ce_start :: nat
  ce_end :: nat

fun chain_entries :: "(nat \<Rightarrow> gotime) \<Rightarrow> model_source \<Rightarrow> nat \<Rightarrow> string list \<Rightarrow> ModelProfile list \<Rightarrow> router_health
    \<Rightarrow> chainEntry list \<times> ModelProfile list \<times> router_health" where
  "chain_entries clock src i [] flat h = ([], flat, h)"
| "chain_entries clock src i (selector # selectors) flat h =
     (case resolveChainEntry src selector of
        Inl err \<Rightarrow>
          (case chain_entries clock src (Suc i) selectors flat (recordChainLookupFailure (clock i) selector err h) of (es, flat, h) \<Rightarrow>
             (\<lparr>ce_selector = selector, ce_lookupErr = Some err, ce_start = 0, ce_end = 0\<rparr> # es, flat, h))
      | Inr profiles \<Rightarrow>
          (case chain_entries clock src (Suc i) selectors (flat @ profiles) h of (es, flat', h) \<Rightarrow>
             (\<lparr>ce_selector = selector, ce_lookupErr = None, ce_start = length flat, ce_end = length flat + length profiles\<rparr> # es, flat', h)))"

fun markChainSeenForTail :: "Router \<Rightarrow> RoutingRequest \<Rightarrow> ModelKey list \<Rightarrow> ModelProfile list \<Rightarrow> ModelKey list" where
  "markChainSeenForTail r req seen [] = seen"
| "markChainSeenForTail r req seen (p # ps) =
     (if mp_Key p \<in> set seen then markChainSeenForTail r req seen ps
      else if \<not> ram_ok r p then markChainSeenForTail r req seen ps
      else if \<not> profileSatisfiesRequiredCaps p (rq_RequiredCaps req) then markChainSeenForTail r req seen ps
      else markChainSeenForTail r req (mp_Key p # seen) ps)"

text \<open>The replay of the entries: errors and diagnostics in selector order, the steps, the keys seen, the snapshot.\<close>

fun replay :: "Router \<Rightarrow> RoutingRequest \<Rightarrow> ModelProfile list \<Rightarrow> goerror option list \<Rightarrow> chainEntry list \<Rightarrow> ModelKey list \<Rightarrow> feedbackSnapshot
    \<Rightarrow> goerror list \<times> ModelProfile list list \<times> ModelKey list \<times> feedbackSnapshot" where
  "replay r req resolved diagAt [] seen snap = ([], [], seen, snap)"
| "replay r req resolved diagAt (e # es) seen snap =
     (case ce_lookupErr e of
        Some err \<Rightarrow>
          (case replay r req resolved diagAt es seen snap of (errs, steps, seen, snap) \<Rightarrow> ((ErrOther ''chain entry'' # err) # errs, steps, seen, snap))
      | None \<Rightarrow>
          let profiles = take (ce_end e - ce_start e) (drop (ce_start e) resolved);
              diags = List.map_filter (\<lambda>d. d) (take (ce_end e - ce_start e) (drop (ce_start e) diagAt));
              seen = markChainSeenForTail r req seen profiles;
              snap = readCandidates (rt_routingFeedback r) profiles (rq_UseCase req) snap
          in case replay r req resolved diagAt es seen snap of (errs, steps, seen, snap) \<Rightarrow>
               (diags @ errs, profiles # steps, seen, snap))"

definition recommendTailProfiles :: "Router \<Rightarrow> RoutingRequest \<Rightarrow> ModelKey list \<Rightarrow> goerror + ModelProfile list \<times> goerror list" where
  "recommendTailProfiles r req seen =
     (case recommendWithToolCallResolution (rt_source r)
             \<lparr>ro_AvailableRAM = rt_availableRAM r, ro_ContextSize = 0, ro_PreferWarm = rq_PreferWarm req, ro_RestrictToProvider = [], ro_RequiredCaps = 0\<rparr>
             (rq_RequiredCaps req) of
        Inl err \<Rightarrow> Inl err
      | Inr (profiles, diags) \<Rightarrow> Inr (filter (\<lambda>p. mp_Key p \<notin> set seen) profiles, diags))"

section \<open>Scoring the steps\<close>

definition scoreChainStep :: "goerror option \<Rightarrow> (nat \<Rightarrow> gotime) \<Rightarrow> Router \<Rightarrow> ModelProfile list \<Rightarrow> RoutingRequest \<Rightarrow> feedbackSnapshot \<Rightarrow> router_health
    \<Rightarrow> scoredCandidate list \<times> router_health" where
  "scoreChainStep ctxErr clock r profiles req snap h =
     (if ctxErr \<noteq> None then ([], h)
      else case score_loop clock 0 r req snap profiles h of (scored, h) \<Rightarrow> (sortScoredCandidates (rt_warmth r) scored, h))"

record chain_acc =
  ca_seen :: "ModelKey list"
  ca_working :: "scoredCandidate list"
  ca_truncatable :: "scoredCandidate list"
  ca_breakerCount :: nat
  ca_budgetCount :: nat
  ca_resolvedAny :: bool

abbreviation sc_key :: "scoredCandidate \<Rightarrow> ModelKey" where "sc_key sc \<equiv> mp_Key (sc_profile sc)"

definition chain_take :: "scoredCandidate \<Rightarrow> chain_acc \<Rightarrow> chain_acc" where
  "chain_take sc acc =
     (if sc_key sc \<in> set (ca_seen acc) then acc
      else if \<not> bd_capabilityGate (sc_bd sc) then acc
      else let acc = acc\<lparr>ca_resolvedAny := True, ca_seen := sc_key sc # ca_seen acc\<rparr>
           in if bd_breakerPenalty (sc_bd sc) = F_NegInf then acc\<lparr>ca_breakerCount := ca_breakerCount acc + 1\<rparr>
              else case br_Decision (sc_budget sc) of
                     BudgetOK \<Rightarrow> acc\<lparr>ca_working := ca_working acc @ [sc]\<rparr>
                   | BudgetTruncate \<Rightarrow> acc\<lparr>ca_truncatable := ca_truncatable acc @ [sc]\<rparr>
                   | BudgetReject \<Rightarrow> acc\<lparr>ca_budgetCount := ca_budgetCount acc + 1\<rparr>)"

fun chain_loop :: "route_env \<Rightarrow> nat \<Rightarrow> Router \<Rightarrow> RoutingRequest \<Rightarrow> feedbackSnapshot \<Rightarrow> ModelProfile list list \<Rightarrow> chain_acc \<Rightarrow> router_health
    \<Rightarrow> chain_acc \<times> router_health" where
  "chain_loop env k r req snap [] acc h = (acc, h)"
| "chain_loop env k r req snap (profiles # steps) acc h =
     (case scoreChainStep (re_stepCtx env k) (re_clock env k) r profiles req snap h of (survivors, h) \<Rightarrow>
        chain_loop env (Suc k) r req snap steps (fold chain_take survivors acc) h)"

fun tail_take :: "scoredCandidate list \<Rightarrow> ModelKey list \<Rightarrow> scoredCandidate list" where
  "tail_take [] seen = []"
| "tail_take (sc # scs) seen =
     (if sc_key sc \<in> set seen then tail_take scs seen
      else if \<not> bd_capabilityGate (sc_bd sc) then tail_take scs seen
      else if bd_breakerPenalty (sc_bd sc) = F_NegInf then tail_take scs seen
      else if br_Decision (sc_budget sc) \<noteq> BudgetOK then tail_take scs seen
      else sc # tail_take scs (sc_key sc # seen))"

definition scoreRecommendTail :: "goerror option \<Rightarrow> (nat \<Rightarrow> gotime) \<Rightarrow> Router \<Rightarrow> ModelProfile list \<Rightarrow> RoutingRequest \<Rightarrow> ModelKey list \<Rightarrow> feedbackSnapshot
    \<Rightarrow> router_health \<Rightarrow> scoredCandidate list \<times> router_health" where
  "scoreRecommendTail ctxErr clock r profiles req seen snap h =
     (case scoreChainStep ctxErr clock r profiles req snap h of (scored, h) \<Rightarrow> (tail_take scored seen, h))"

definition classifyChainExhaustion :: "bool \<Rightarrow> nat \<Rightarrow> nat \<Rightarrow> goerror list \<Rightarrow> route_error" where
  "classifyChainExhaustion resolvedAny breakerCount budgetCount lookupErrs =
     (if \<not> resolvedAny then ErrNoViableCandidate lookupErrs
      else if breakerCount > 0 \<and> budgetCount = 0 then ErrAllBreakersOpen
      else if budgetCount > 0 \<and> breakerCount = 0 then ErrBudgetExceeded
      else ErrNoViableCandidate [])"

text \<open>The end of \<open>routeChain\<close>: errors when nothing is executable, otherwise winner and fallbacks. The bound \<open>1+maxFb\<close> of
  the slice is a Go int and wraps; a slice \<open>working[1:hi]\<close> with \<open>hi\<close> below 1 panics, which is \<open>RoutePanic\<close>.\<close>

definition chain_plan :: "Router \<Rightarrow> RoutingRequest \<Rightarrow> feedbackSnapshot \<Rightarrow> chain_acc \<Rightarrow> scoredCandidate list \<Rightarrow> goerror list \<Rightarrow> route_result" where
  "chain_plan r req snap acc working lookupErrs =
     (if working = []
      then if ca_truncatable acc \<noteq> []
           then (case buildPlan r (hd (sortScoredCandidates (rt_warmth r) (ca_truncatable acc))) [] req False snap of
                   Inl _ \<Rightarrow> (None, Some (ErrNoViableCandidate []))
                 | Inr plan \<Rightarrow> (Some (plan\<lparr>pl_Degraded := True\<rparr>), Some ErrBudgetAdaptationRequired))
           else (None, Some (classifyChainExhaustion (ca_resolvedAny acc) (ca_breakerCount acc) (ca_budgetCount acc) lookupErrs))
      else let maxFb = rd_maxFallbacks (rt_defaultOpts r);
               maxFb = (if maxFb < 0 then 0 else maxFb);
               maxFb = (if wrap_int (1 + maxFb) > int (length working) then int (length working) - 1 else maxFb);
               hi = wrap_int (1 + maxFb)
           in if maxFb > 0 \<and> hi < 1 then (None, Some RoutePanic)
              else let fallbacks = (if maxFb > 0 then take (nat (hi - 1)) (tl working) else [])
                   in case buildPlan r (hd working) fallbacks req False snap of
                        Inl err \<Rightarrow> (None, Some (RouteBuild err))
                      | Inr plan \<Rightarrow> (Some plan, None))"

definition empty_acc :: chain_acc where
  "empty_acc = \<lparr>ca_seen = [], ca_working = [], ca_truncatable = [], ca_breakerCount = 0, ca_budgetCount = 0, ca_resolvedAny = False\<rparr>"

definition routeChain :: "route_env \<Rightarrow> Router \<Rightarrow> RoutingRequest \<Rightarrow> router_health \<Rightarrow> route_result \<times> router_health" where
  "routeChain env r req h =
     (if rt_closed r then ((None, Some ErrRouterClosed), h)
      else
        let snap = buildFeedbackSnapshot (rt_feedbackScoringMode r) (rt_routingFeedback r) [] (rq_UseCase req);
            (entries, flat, h) = chain_entries (re_lookupAt env) (rt_source r) 0 (rq_PreferredChain req) [] h;
            (resolved, diagAt) = ensureToolCallResolvedIndexed (rt_source r) flat (rq_RequiredCaps req);
            (lookupErrs, steps, seenForTail, snap) = replay r req resolved diagAt entries [] snap;
            (tailProfiles, lookupErrs, snap) =
              (if rq_StrictChain req then ([], lookupErrs, snap)
               else case recommendTailProfiles r req seenForTail of
                      Inl _ \<Rightarrow> ([], lookupErrs, snap)
                    | Inr (tp, tailDiags) \<Rightarrow> (tp, lookupErrs @ tailDiags, readCandidates (rt_routingFeedback r) tp (rq_UseCase req) snap))
        in case re_ctxErr env of
             Some e \<Rightarrow> ((None, Some (RouteContext e)), h)
           | None \<Rightarrow>
               case capabilityResolutionTerminalError lookupErrs of
                 Some e \<Rightarrow> ((None, Some (RouteTerminal e)), h)
               | None \<Rightarrow>
                   let (acc, h) = chain_loop env 0 r req snap steps empty_acc h;
                       (tail, h) = (if \<not> rq_StrictChain req \<and> tailProfiles \<noteq> []
                                    then scoreRecommendTail (re_stepCtx env (length steps)) (re_clock env (length steps)) r tailProfiles req (ca_seen acc) snap h
                                    else ([], h))
                   in (chain_plan r req snap acc (ca_working acc @ tail) lookupErrs, h))"

end
