(* ===== verification/Router_Route.thy ===== *)
theory Router_Route
  imports Router_Chain
begin

text \<open>
  \<open>Router.Route\<close> of \<open>provider/router.go\<close>: checks, candidate resolution, scoring, partition, ranking, sticky
  routing with hysteresis, the plan and the update of the sticky cache; and the requests that the
  convenience methods build. Refreshing the registry's generation (\<open>syncGeneration\<close>) happens in the model source.
\<close>

record route_partition =
  rp_executable :: "scoredCandidate list"
  rp_truncatable :: "scoredCandidate list"
  rp_breakerCount :: nat
  rp_budgetCount :: nat

definition classify_candidate :: "scoredCandidate \<Rightarrow> route_partition \<Rightarrow> route_partition" where
  "classify_candidate sc p =
     (if \<not> bd_capabilityGate (sc_bd sc) then p
      else if bd_breakerPenalty (sc_bd sc) = F_NegInf then p\<lparr>rp_breakerCount := rp_breakerCount p + 1\<rparr>
      else case br_Decision (sc_budget sc) of
             BudgetOK \<Rightarrow> p\<lparr>rp_executable := rp_executable p @ [sc]\<rparr>
           | BudgetTruncate \<Rightarrow> p\<lparr>rp_truncatable := rp_truncatable p @ [sc]\<rparr>
           | BudgetReject \<Rightarrow> p\<lparr>rp_budgetCount := rp_budgetCount p + 1\<rparr>)"

definition partition_scored :: "scoredCandidate list \<Rightarrow> route_partition" where
  "partition_scored scored =
     fold classify_candidate scored \<lparr>rp_executable = [], rp_truncatable = [], rp_breakerCount = 0, rp_budgetCount = 0\<rparr>"

definition route_unavailable :: "Router \<Rightarrow> RoutingRequest \<Rightarrow> feedbackSnapshot \<Rightarrow> goerror list \<Rightarrow> route_partition \<Rightarrow> route_result" where
  "route_unavailable r req snap probeDiags p =
     (if rp_truncatable p \<noteq> []
      then (case buildPlan r (hd (sortScoredCandidates (rt_warmth r) (rp_truncatable p))) [] req False snap of
              Inl _ \<Rightarrow> (None, Some (joinNoViableCandidate probeDiags))
            | Inr plan \<Rightarrow> (Some (plan\<lparr>pl_Degraded := True\<rparr>), Some ErrBudgetAdaptationRequired))
      else if rp_breakerCount p > 0 \<and> rp_budgetCount p = 0 then (None, Some ErrAllBreakersOpen)
      else if rp_budgetCount p > 0 then (None, Some ErrBudgetExceeded)
      else (None, Some (joinNoViableCandidate probeDiags)))"

definition move_to_front :: "nat \<Rightarrow> 'a list \<Rightarrow> 'a list" where
  "move_to_front i xs = (if i \<noteq> 0 then xs ! i # take i xs @ drop (Suc i) xs else xs)"

text \<open>Sticky routing: the ranked candidates, whether the incumbent was kept, the sticky key and the cache.\<close>

definition sticky_route :: "route_env \<Rightarrow> Router \<Rightarrow> RoutingRequest \<Rightarrow> scoredCandidate list \<Rightarrow> stickyCache
    \<Rightarrow> scoredCandidate list \<times> bool \<times> string \<times> stickyCache" where
  "sticky_route env r req executable sticky =
     (if rq_AffinityKey req \<noteq> [] \<and> \<not> rq_DryRun req
      then let stickyKey = StickyKey req;
               (incumbent, sticky) = sticky_get (re_getAt env) stickyKey sticky
           in case incumbent of
                None \<Rightarrow> (executable, False, stickyKey, sticky)
              | Some inc \<Rightarrow>
                  case findIncumbentScore (rs_providerKey inc) executable of
                    None \<Rightarrow> (executable, False, stickyKey, sticky)
                  | Some i \<Rightarrow>
                      if f_le (sc_score (executable ! 0)) (f_add (sc_score (executable ! i)) (rd_hysteresisMargin (rt_defaultOpts r)))
                      then (move_to_front i executable, True, stickyKey, sticky_touch (re_touchAt env) stickyKey sticky)
                      else (executable, False, stickyKey, sticky)
      else (executable, False, [], sticky))"

definition route_fallbacks :: "Router \<Rightarrow> scoredCandidate list \<Rightarrow> scoredCandidate list" where
  "route_fallbacks r executable =
     (let maxFb = rd_maxFallbacks (rt_defaultOpts r);
          maxFb = (if maxFb > int (length executable) - 1 then int (length executable) - 1 else maxFb)
      in if maxFb > 0 then take (nat maxFb) (tl executable) else [])"

definition sticky_entry :: "route_env \<Rightarrow> Router \<Rightarrow> string \<Rightarrow> scoredCandidate \<Rightarrow> routeSticky" where
  "sticky_entry env r stickyKey sc =
     \<lparr>rs_key = stickyKey, rs_providerKey = mp_Key (sc_profile sc), rs_score = sc_score sc, rs_reason = buildReason sc,
      rs_createdAt = re_putAt env, rs_lastUsedAt = re_putAt env, rs_expiresAt = re_putAt env + rd_stickyTTL (rt_defaultOpts r)\<rparr>"

definition route_ranked :: "route_env \<Rightarrow> Router \<Rightarrow> RoutingRequest \<Rightarrow> feedbackSnapshot \<Rightarrow> scoredCandidate list \<Rightarrow> router_health
    \<Rightarrow> route_result \<times> router_health" where
  "route_ranked env r req snap ranked h =
     (let (executable, wasSticky, stickyKey, sticky) = sticky_route env r req ranked (rh_sticky h);
          h = h\<lparr>rh_sticky := sticky\<rparr>
      in case buildPlan r (hd executable) (route_fallbacks r executable) req wasSticky snap of
           Inl err \<Rightarrow> ((None, Some (RouteBuild err)), h)
         | Inr plan \<Rightarrow>
             ((Some plan, None),
              if rq_AffinityKey req \<noteq> [] \<and> \<not> rq_DryRun req \<and> stickyKey \<noteq> []
              then h\<lparr>rh_sticky := sticky_put (re_evictAt env) (re_iter env) (sticky_entry env r stickyKey (hd executable)) (rh_sticky h)\<rparr>
              else h))"

definition route_scored :: "route_env \<Rightarrow> Router \<Rightarrow> RoutingRequest \<Rightarrow> ModelProfile list \<Rightarrow> goerror list \<Rightarrow> router_health \<Rightarrow> route_result \<times> router_health" where
  "route_scored env r req candidates probeDiags h =
     (let snap = buildFeedbackSnapshot (rt_feedbackScoringMode r) (rt_routingFeedback r) candidates (rq_UseCase req);
          (scored, h) = scoreAll (re_clock env 0) r candidates req snap h;
          p = partition_scored scored
      in if rp_executable p = [] then (route_unavailable r req snap probeDiags p, h)
         else route_ranked env r req snap (sortScoredCandidates (rt_warmth r) (rp_executable p)) h)"

definition Route :: "route_env \<Rightarrow> Router \<Rightarrow> RoutingRequest \<Rightarrow> router_health \<Rightarrow> route_result \<times> router_health" where
  "Route env r req h =
     (if rt_closed r then ((None, Some ErrRouterClosed), h)
      else if rq_PreferredChain req = [] \<and> rq_Provider req \<noteq> []
              \<and> snd (parseModelSelector (rq_Model req)) \<and> mk_Provider (fst (parseModelSelector (rq_Model req))) \<noteq> rq_Provider req
      then ((None, Some (ErrProviderMismatch (rq_Model req) (rq_Provider req))), h)
      else if rq_PreferredChain req \<noteq> [] then routeChain env r req h
      else
        let res = resolveCandidates (rt_source r) (rt_availableRAM r) req
        in case re_ctxErr env of
             Some e \<Rightarrow> ((None, Some (RouteContext e)), h)
           | None \<Rightarrow>
               case res of
                 Inl err \<Rightarrow> ((None, Some (RouteLookup err)), h)
               | Inr (candidates, probeDiags) \<Rightarrow>
                   case capabilityResolutionTerminalError probeDiags of
                     Some e \<Rightarrow> ((None, Some (RouteTerminal e)), h)
                   | None \<Rightarrow>
                       if candidates = [] then ((None, Some (joinNoViableCandidate probeDiags)), h)
                       else route_scored env r req candidates probeDiags h)"

section \<open>Requests of the convenience methods\<close>

definition chat_request :: "Router \<Rightarrow> bool \<Rightarrow> string \<Rightarrow> string \<Rightarrow> ChatMessage list \<Rightarrow> ModelOptions \<Rightarrow> ProviderTool list \<Rightarrow> string \<Rightarrow> RoutingRequest" where
  "chat_request r stream model provider messages options tools sessionID =
     (let caps = (if stream then CapChat OR CapStream else CapChat)
      in zero_request\<lparr>rq_Model := model, rq_Provider := provider, rq_UseCase := ''chat'', rq_Messages := messages, rq_Options := options,
           rq_Tools := tools, rq_Priority := rd_defaultPriority (rt_defaultOpts r), rq_SessionID := sessionID,
           rq_RequiredCaps := (if tools \<noteq> [] then caps OR CapToolCall else caps)\<rparr>)"

definition generate_request :: "Router \<Rightarrow> bool \<Rightarrow> string \<Rightarrow> string \<Rightarrow> string \<Rightarrow> string \<Rightarrow> string \<Rightarrow> ModelOptions \<Rightarrow> RoutingRequest" where
  "generate_request r stream model provider prompt system suf options =
     (let caps = (if stream then CapGenerate OR CapStream else CapGenerate);
          rr = zero_request\<lparr>rq_Model := model, rq_Provider := provider, rq_UseCase := ''generate'', rq_Prompt := prompt, rq_System := system,
                 rq_Suffix := suf, rq_Options := options, rq_RequiredCaps := caps, rq_Priority := rd_defaultPriority (rt_defaultOpts r)\<rparr>
      in if suf \<noteq> [] then rr\<lparr>rq_UseCase := ''fim'', rq_RequiredCaps := caps OR CapInsert, rq_Priority := PriorityHigh\<rparr> else rr)"

definition embed_request :: "Router \<Rightarrow> string \<Rightarrow> string \<Rightarrow> string list \<Rightarrow> RoutingRequest" where
  "embed_request r model provider input =
     zero_request\<lparr>rq_Model := model, rq_Provider := provider, rq_UseCase := ''embedding'', rq_Input := input, rq_RequiredCaps := CapEmbed,
       rq_Priority := rd_defaultPriority (rt_defaultOpts r)\<rparr>"

section \<open>Partition and ranking\<close>

abbreviation executable_candidate :: "scoredCandidate \<Rightarrow> bool" where
  "executable_candidate sc \<equiv> admitted sc \<and> br_Decision (sc_budget sc) = BudgetOK"

lemma partition_fold:
  "rp_executable (fold classify_candidate scored p) = rp_executable p @ filter executable_candidate scored"
  "rp_truncatable (fold classify_candidate scored p) = rp_truncatable p @ filter (\<lambda>sc. admitted sc \<and> br_Decision (sc_budget sc) = BudgetTruncate) scored"
  "rp_breakerCount (fold classify_candidate scored p) = rp_breakerCount p + length (filter (\<lambda>sc. bd_capabilityGate (sc_bd sc) \<and> bd_breakerPenalty (sc_bd sc) = F_NegInf) scored)"
  "rp_budgetCount (fold classify_candidate scored p) = rp_budgetCount p + length (filter (\<lambda>sc. admitted sc \<and> br_Decision (sc_budget sc) = BudgetReject) scored)"
  by (induction scored arbitrary: p) (auto simp: classify_candidate_def admitted_def split: BudgetDecision.splits)

lemmas partition_simps = partition_scored_def partition_fold

lemma set_move_to_front [simp]: "i < length xs \<Longrightarrow> mset (move_to_front i xs) = mset xs"
proof -
  assume i: "i < length xs"
  have "mset xs = mset (take i xs @ xs ! i # drop (Suc i) xs)" using id_take_nth_drop[OF i] by simp
  then show ?thesis by (simp add: move_to_front_def)
qed

lemma findIncumbentScore_Some:
  assumes "findIncumbentScore key scored = Some i"
  shows "i < length scored \<and> mp_Key (sc_profile (scored ! i)) = key"
proof -
  from assms obtain sc where "List.find (\<lambda>(i, sc). mp_Key (sc_profile sc) = key) (enumerate 0 scored) = Some (i, sc)"
    by (auto simp: findIncumbentScore_def split: option.splits prod.splits)
  then have "(i, sc) \<in> set (enumerate 0 scored)" "mp_Key (sc_profile sc) = key"
    by (auto simp: find_Some_iff in_set_conv_nth)
  then show ?thesis by (auto simp: in_set_enumerate_eq)
qed

lemma candidate_ok_score: "candidate_ok r req sc \<Longrightarrow> sc_score sc \<noteq> F_NaN"
  by (auto simp: candidate_ok_def f_in_def split: if_splits f64.splits)

lemma admitted_score: "candidate_ok r req sc \<Longrightarrow> admitted sc \<Longrightarrow> f_in 0 1 (sc_score sc)"
  by (simp add: candidate_ok_def admitted_def)

lemma ranked_first:
  assumes "\<forall>sc \<in> set xs. candidate_ok r req sc" "sc \<in> set xs"
  shows "f_le (sc_score sc) (sc_score (hd (sortScoredCandidates w xs)))"
proof -
  let ?ys = "sortScoredCandidates w xs"
  have set: "set ?ys = set xs" by (simp add: sortScoredCandidates_def)
  then obtain y ys where ys: "?ys = y # ys" using assms(2) by (cases ?ys) auto
  have nan: "sc_score x \<noteq> F_NaN" if "x \<in> set xs" for x using candidate_ok_score assms(1) that by blast
  have "ranking.ranked w ?ys" unfolding sortScoredCandidates_def using nan by (intro ranking.SliceStable_ranked) blast
  then have "\<not> ranks_before w x y" if "x \<in> set ys" for x using that ys by simp
  then have "sc = y \<or> \<not> ranks_before w sc y" using assms(2) set ys by auto
  moreover have "sc_score sc \<noteq> F_NaN" "sc_score y \<noteq> F_NaN" using nan assms(2) set ys by auto
  ultimately show ?thesis using ys f_order(1)[of "sc_score sc" "sc_score y"]
    by (auto simp: ranks_before_iff f_le_def f_order(5) split: if_splits)
qed

lemma sticky_route_cases:
  assumes "sticky_route env r req ranked sticky = (executable, wasSticky, key, sticky')" "ranked \<noteq> []"
  shows "mset executable = mset ranked
    \<and> (if wasSticky then f_le (sc_score (hd ranked)) (f_add (sc_score (hd executable)) (rd_hysteresisMargin (rt_defaultOpts r)))
           \<and> (\<exists>inc. fst (sticky_get (re_getAt env) (StickyKey req) sticky) = Some inc \<and> sc_key (hd executable) = rs_providerKey inc)
       else executable = ranked)
    \<and> (rq_AffinityKey req = [] \<or> rq_DryRun req \<longrightarrow> \<not> wasSticky \<and> sticky' = sticky)
    \<and> (rq_AffinityKey req \<noteq> [] \<and> \<not> rq_DryRun req \<longrightarrow> key = StickyKey req)"
proof -
  have hd: "hd (move_to_front i ranked) = ranked ! i" if "i < length ranked" for i
    using that assms(2) by (simp add: move_to_front_def hd_conv_nth)
  show ?thesis
  proof (cases "rq_AffinityKey req \<noteq> [] \<and> \<not> rq_DryRun req")
    case False
    with assms show ?thesis by (auto simp: sticky_route_def)
  next
    case True
    with assms show ?thesis
      using findIncumbentScore_Some[of _ ranked] hd hd_conv_nth[OF assms(2)]
      by (auto simp: sticky_route_def Let_def split: option.splits prod.splits if_splits)
  qed
qed

lemma route_fallbacks_sub: "set (route_fallbacks r xs) \<subseteq> set xs" "int (length (route_fallbacks r xs)) \<le> max 0 (rd_maxFallbacks (rt_defaultOpts r))"
proof -
  have "set (tl xs) \<subseteq> set xs" by (cases xs) auto
  then show "set (route_fallbacks r xs) \<subseteq> set xs"
    using set_take_subset[of _ "tl xs"] by (auto simp: route_fallbacks_def Let_def)
  show "int (length (route_fallbacks r xs)) \<le> max 0 (rd_maxFallbacks (rt_defaultOpts r))"
    by (auto simp: route_fallbacks_def Let_def)
qed

section \<open>What a route guarantees\<close>

text \<open>
  A profile that the route may execute: it satisfies the capabilities, fits the memory, and the
  request fits its context.
\<close>

definition viable :: "Router \<Rightarrow> RoutingRequest \<Rightarrow> ModelProfile \<Rightarrow> bool" where
  "viable r req p \<longleftrightarrow> ram_ok r p \<and> profileSatisfiesRequiredCaps p (rq_RequiredCaps req)
     \<and> br_Decision (Validate (rt_tokenBudget r) req p) = BudgetOK"

lemma executable_viable: "candidate_ok r req sc \<Longrightarrow> executable_candidate sc \<Longrightarrow> viable r req (sc_profile sc)"
  by (simp add: candidate_ok_def viable_def admitted_def)

abbreviation route_snapshot :: "Router \<Rightarrow> RoutingRequest \<Rightarrow> ModelProfile list \<Rightarrow> feedbackSnapshot" where
  "route_snapshot r req candidates \<equiv> buildFeedbackSnapshot (rt_feedbackScoringMode r) (rt_routingFeedback r) candidates (rq_UseCase req)"

abbreviation route_scores :: "route_env \<Rightarrow> Router \<Rightarrow> RoutingRequest \<Rightarrow> ModelProfile list \<Rightarrow> router_health \<Rightarrow> scoredCandidate list" where
  "route_scores env r req candidates h \<equiv> fst (scoreAll (re_clock env 0) r candidates req (route_snapshot r req candidates) h)"

lemma Route_Some_None:
  assumes "Route env r req h = ((Some plan, None), h')" "rq_PreferredChain req = []"
  obtains candidates diags where "resolveCandidates (rt_source r) (rt_availableRAM r) req = Inr (candidates, diags)"
    "route_scored env r req candidates diags h = ((Some plan, None), h')"
  using assms by (auto simp: Route_def Let_def split: if_splits option.splits sum.splits prod.splits)

lemma route_unavailable_error: "snd (route_unavailable r req snap diags p) \<noteq> None"
  by (auto simp: route_unavailable_def split: sum.split)

lemma route_scored_Some:
  assumes "route_scored env r req candidates diags h = ((Some plan, None), h')"
  obtains ranked executable sticky key cache where
    "ranked = sortScoredCandidates (rt_warmth r) (filter executable_candidate (route_scores env r req candidates h))" "ranked \<noteq> []"
    "sticky_route env r req ranked (rh_sticky (snd (scoreAll (re_clock env 0) r candidates req (route_snapshot r req candidates) h))) = (executable, sticky, key, cache)"
    "buildPlan r (hd executable) (route_fallbacks r executable) req sticky (route_snapshot r req candidates) = Inr plan"
    "rh_breakers h' = rh_breakers (snd (scoreAll (re_clock env 0) r candidates req (route_snapshot r req candidates) h))"
    "rh_sticky h' = (if rq_AffinityKey req \<noteq> [] \<and> \<not> rq_DryRun req \<and> key \<noteq> []
       then sticky_put (re_evictAt env) (re_iter env) (sticky_entry env r key (hd executable)) cache else cache)"
proof -
  let ?snap = "route_snapshot r req candidates"
  let ?sa = "scoreAll (re_clock env 0) r candidates req ?snap h"
  let ?ex = "filter executable_candidate (fst ?sa)"
  let ?ranked = "sortScoredCandidates (rt_warmth r) ?ex"
  have ne: "?ex \<noteq> []"
    using assms route_unavailable_error[of r req ?snap diags "partition_scored (fst ?sa)"]
    by (auto simp: route_scored_def partition_simps Let_def split_beta split: if_splits)
  then have rk: "?ranked \<noteq> []" by (metis length_0_conv length_SliceStable sortScoredCandidates_def)
  have "route_ranked env r req ?snap ?ranked (snd ?sa) = ((Some plan, None), h')"
    using assms ne by (simp add: route_scored_def partition_simps Let_def split_beta)
  then show ?thesis
    by (cases "sticky_route env r req ?ranked (rh_sticky (snd ?sa))")
      (auto simp: route_ranked_def Let_def split: sum.splits if_splits intro!: that[OF refl rk])
qed

lemma breaker_of_cong: "rh_breakers h = rh_breakers h' \<Longrightarrow> breaker_of h p = breaker_of h' p"
  by (simp add: breaker_of_def)

text \<open>What a route may offer, as the winner or as a fallback: a resolved candidate that is viable, that its provider's
  breaker let through when it was scored, and whose breaker is not open after the route.\<close>

definition offerable :: "route_env \<Rightarrow> Router \<Rightarrow> RoutingRequest \<Rightarrow> ModelProfile list \<Rightarrow> router_health \<Rightarrow> router_health \<Rightarrow> ModelProfile \<Rightarrow> bool" where
  "offerable env r req candidates h h' p \<longleftrightarrow> p \<in> set candidates \<and> viable r req p
     \<and> cb_state (breaker_of h' (mk_Provider (mp_Key p))) \<noteq> BreakerOpen
     \<and> (\<exists>sc \<in> set (route_scores env r req candidates h). sc_profile sc = p \<and> bd_capabilityGate (sc_bd sc) \<and> bd_breakerPenalty (sc_bd sc) \<noteq> F_NegInf)"

text \<open>C1: A route without a preferred chain that returns a plan has picked a resolved candidate that satisfies the required
  capabilities, fits the available memory, fits the token budget, was not refused by its provider's breaker (no breaker
  penalty) and whose breaker is not open; its score is a number between 0 and 1 and no executable candidate scores higher,
  except that the sticky incumbent may be kept when none exceeds it by more than the margin. All fallbacks
  are such candidates too, breaker conditions included, and there are at most the configured number.\<close>

theorem route_sound:
  assumes "Route env r req h = ((Some plan, None), h')" "rq_PreferredChain req = []"
  shows "\<exists>candidates diags. resolveCandidates (rt_source r) (rt_availableRAM r) req = Inr (candidates, diags)
    \<and> offerable env r req candidates h h' (pl_Profile plan)
    \<and> pl_Budget plan = Validate (rt_tokenBudget r) req (pl_Profile plan)
    \<and> f_in 0 1 (pl_Score plan)
    \<and> (\<forall>sc \<in> set (route_scores env r req candidates h). executable_candidate sc \<longrightarrow>
         f_le (sc_score sc) (if pl_wasSticky plan then f_add (pl_Score plan) (rd_hysteresisMargin (rt_defaultOpts r)) else pl_Score plan))
    \<and> (\<forall>fb \<in> set (pl_Fallbacks plan). offerable env r req candidates h h' (pl_Profile fb))
    \<and> int (length (pl_Fallbacks plan)) \<le> max 0 (rd_maxFallbacks (rt_defaultOpts r))"
proof -
  obtain cs diags where cs: "resolveCandidates (rt_source r) (rt_availableRAM r) req = Inr (cs, diags)"
      and rs: "route_scored env r req cs diags h = ((Some plan, None), h')"
    using Route_Some_None[OF assms] .
  let ?snap = "route_snapshot r req cs"
  let ?sa = "scoreAll (re_clock env 0) r cs req ?snap h"
  let ?ex = "filter executable_candidate (fst ?sa)"
  obtain ranked executable sticky key cache where ranked: "ranked = sortScoredCandidates (rt_warmth r) ?ex" "ranked \<noteq> []"
    and st: "sticky_route env r req ranked (rh_sticky (snd ?sa)) = (executable, sticky, key, cache)"
    and bp: "buildPlan r (hd executable) (route_fallbacks r executable) req sticky ?snap = Inr plan"
    and hb: "rh_breakers h' = rh_breakers (snd ?sa)"
    by (rule route_scored_Some[OF rs]) blast
  have "(\<forall>sc \<in> set (fst ?sa). candidate_ok r req sc) \<and> map sc_profile (fst ?sa) = filter (ram_ok r) cs"
    unfolding scoreAll_def by (rule score_loop_ok[OF buildFeedbackSnapshot_ok])
  then have ok: "\<forall>sc \<in> set (fst ?sa). candidate_ok r req sc" and pr: "map sc_profile (fst ?sa) = filter (ram_ok r) cs" by auto
  note sr = sticky_route_cases[OF st ranked(2)]
  have ex: "set executable = set ?ex" using sr ranked(1) by (metis set_SliceStable set_mset_mset sortScoredCandidates_def)
  have "executable \<noteq> []" using sr ranked(2) by (metis mset_zero_iff)
  then have w: "hd executable \<in> set ?ex" using ex by (metis list.set_sel(1))
  have prof: "sc_profile sc \<in> set cs" if "sc \<in> set ?ex" for sc
  proof -
    have "sc_profile sc \<in> set (map sc_profile (fst ?sa))" using that by simp
    then show ?thesis unfolding pr by simp
  qed
  note plan = buildPlan_Inr[OF bp]
  have offer: "offerable env r req cs h h' (sc_profile sc)" if "sc \<in> set ?ex" for sc
  proof -
    have "cb_state (breaker_of (snd ?sa) (sc_provider sc)) \<noteq> BreakerOpen"
      using score_loop_admitted that unfolding scoreAll_def by fastforce
    then show ?thesis using executable_viable ok that prof[OF that] breaker_of_cong[OF hb] by (auto simp: offerable_def admitted_def)
  qed
  have best: "f_le (sc_score sc) (sc_score (hd ranked))" if "sc \<in> set ?ex" for sc
    using ranked_first[of ?ex r req sc] ok that ranked(1) by auto
  have "f_le (sc_score sc) (if sticky then f_add (sc_score (hd executable)) (rd_hysteresisMargin (rt_defaultOpts r)) else sc_score (hd executable))"
    if "sc \<in> set ?ex" for sc
    using best[OF that] sr f_le_trans[OF best[OF that]] by (cases sticky) auto
  moreover have "f_in 0 1 (sc_score (hd executable))" using admitted_score ok w by auto
  moreover have "sc_budget (hd executable) = Validate (rt_tokenBudget r) req (sc_profile (hd executable))" using ok w by (auto simp: candidate_ok_def)
  moreover have "\<forall>fb \<in> set (pl_Fallbacks plan). offerable env r req cs h h' (pl_Profile fb)"
  proof
    fix fb
    assume "fb \<in> set (pl_Fallbacks plan)"
    then have "pl_Profile fb \<in> set (map pl_Profile (fallback_plans r req (route_fallbacks r executable)))" using plan by simp
    then obtain sc where "sc \<in> set (route_fallbacks r executable)" "pl_Profile fb = sc_profile sc"
      unfolding fallback_plans_profiles by auto
    with route_fallbacks_sub(1)[of r executable] ex offer show "offerable env r req cs h h' (pl_Profile fb)" by auto
  qed
  moreover have "length (pl_Fallbacks plan) \<le> length (route_fallbacks r executable)"
    using plan arg_cong[OF fallback_plans_profiles, of length r req "route_fallbacks r executable"]
    by (metis length_filter_le length_map)
  then have "int (length (pl_Fallbacks plan)) \<le> max 0 (rd_maxFallbacks (rt_defaultOpts r))"
    using route_fallbacks_sub(2)[of r executable] by linarith
  ultimately show ?thesis using cs plan offer[OF w] by auto
qed

definition sample_source :: model_source where
  "sample_source = \<lparr>ms_Lookup = (\<lambda>k. if mk_Model k = ''a'' then Inr (sample_profile ''a'' TierBest)
       else if mk_Model k = ''b'' then Inr (sample_profile ''b'' TierGood) else Inl [ErrOther ''not found'']),
     ms_Refreshed = (\<lambda>k. Inl []), ms_Models = (\<lambda>n. Inr [''b'', ''a'']), ms_canResolve = False, ms_ResolveToolCall = (\<lambda>k. Inr CapProbeNo),
     ms_providers = snd (Register (Some \<lparr>pv_Name = ''p''\<rparr>) NewRegistry), ms_iter = (\<lambda>ns. ns), ms_perm = (\<lambda>ps. ps)\<rparr>"

definition sample_router :: Router where
  "sample_router = \<lparr>rt_warmth = None, rt_tokenBudget = NewTokenBudgetValidator [], rt_modelDefaults = Map.empty, rt_availableRAM = F_Fin 8,
     rt_defaultOpts = defaultRouterOpts\<lparr>rd_weightOverrides := [''chat'' \<mapsto> mk_weights 0 0 0 1 0 0 0]\<rparr>, rt_closed = False, rt_routingFeedback = None, rt_feedbackScoringMode = FeedbackScoringOff,
     rt_source = sample_source\<rparr>"

definition sample_env :: route_env where
  "sample_env = \<lparr>re_ctxErr = None, re_stepCtx = (\<lambda>_. None), re_clock = (\<lambda>_ _. 1000), re_lookupAt = (\<lambda>_. 1000), re_getAt = 1000, re_touchAt = 1000,
     re_putAt = 1000, re_evictAt = 1000, re_iter = (\<lambda>es. es)\<rparr>"

definition sample_health :: router_health where
  "sample_health = \<lparr>rh_breakers = [], rh_sticky = newStickyCache 10 4\<rparr>"

definition sample_chat :: RoutingRequest where
  "sample_chat = zero_request\<lparr>rq_UseCase := ''chat'', rq_RequiredCaps := CapChat\<rparr>"

lemma sample_route: "\<exists>plan h'. Route sample_env sample_router sample_chat sample_health = ((Some plan, None), h')
   \<and> mp_Key (pl_Profile plan) = \<lparr>mk_Provider = ''p'', mk_Model = ''a''\<rparr> \<and> length (pl_Fallbacks plan) = 1"
proof -
  have "(case fst (Route sample_env sample_router sample_chat sample_health) of
      (Some plan, None) \<Rightarrow> mk_Model (mp_Key (pl_Profile plan)) = ''a'' \<and> mk_Provider (mp_Key (pl_Profile plan)) = ''p'' \<and> length (pl_Fallbacks plan) = 1
    | _ \<Rightarrow> False)"
    by code_simp
  then show ?thesis by (cases "Route sample_env sample_router sample_chat sample_health") (auto split: option.splits prod.splits)
qed

theorem route_sound_witness:
  "\<exists>plan h'. Route sample_env sample_router sample_chat sample_health = ((Some plan, None), h')
     \<and> viable sample_router sample_chat (pl_Profile plan) \<and> f_in 0 1 (pl_Score plan)
     \<and> (\<forall>fb \<in> set (pl_Fallbacks plan). viable sample_router sample_chat (pl_Profile fb))"
proof -
  obtain plan h' where r: "Route sample_env sample_router sample_chat sample_health = ((Some plan, None), h')"
    using sample_route by blast
  have "rq_PreferredChain sample_chat = []" by (simp add: sample_chat_def zero_request_def)
  from route_sound[OF r this] r show ?thesis unfolding offerable_def by blast
qed

end
