(* ===== verification/Route_Guarantees.thy ===== *)
theory Route_Guarantees
  imports Router_Route
begin

text \<open>
  What \<open>Router.Route\<close> of \<open>provider/router.go\<close> promises beyond the soundness of its winner: every error names its
  cause, a tripped provider is offered at most once per plan, and the sticky cache changes exactly
  when the request asks for affinity.
\<close>

section \<open>Errors\<close>

definition has_caps :: "scoredCandidate \<Rightarrow> bool" where
  "has_caps sc = bd_capabilityGate (sc_bd sc)"

definition refused :: "scoredCandidate \<Rightarrow> bool" where
  "refused sc \<longleftrightarrow> has_caps sc \<and> bd_breakerPenalty (sc_bd sc) = F_NegInf"

abbreviation decided :: "BudgetDecision \<Rightarrow> scoredCandidate \<Rightarrow> bool" where
  "decided d sc \<equiv> admitted sc \<and> br_Decision (sc_budget sc) = d"

lemma decisions: "has_caps sc \<longleftrightarrow> refused sc \<or> decided BudgetOK sc \<or> decided BudgetTruncate sc \<or> decided BudgetReject sc"
  by (cases "br_Decision (sc_budget sc)") (auto simp: refused_def has_caps_def admitted_def)

text \<open>What each error of the scoring stage says about the scored candidates.\<close>

definition error_cause :: "Router \<Rightarrow> scoredCandidate list \<Rightarrow> route_error \<Rightarrow> bool" where
  "error_cause r scored e = (case e of
     ErrAllBreakersOpen \<Rightarrow> (\<exists>sc \<in> set scored. refused sc) \<and> (\<forall>sc \<in> set scored. has_caps sc \<longrightarrow> refused sc)
   | ErrBudgetExceeded \<Rightarrow> (\<exists>sc \<in> set scored. decided BudgetReject sc)
       \<and> (\<forall>sc \<in> set scored. has_caps sc \<longrightarrow> refused sc \<or> decided BudgetReject sc)
   | ErrBudgetAdaptationRequired \<Rightarrow> (\<exists>sc \<in> set scored. decided BudgetTruncate sc) \<and> \<not> (\<exists>sc \<in> set scored. decided BudgetOK sc)
   | ErrNoViableCandidate _ \<Rightarrow> (\<forall>sc \<in> set scored. \<not> has_caps sc)
       \<or> (\<exists>sc \<in> set scored. decided BudgetTruncate sc \<and> sc_provider sc \<notin> dom (rg_providers (ms_providers (rt_source r))))
   | RouteBuild _ \<Rightarrow> (\<exists>sc \<in> set scored. decided BudgetOK sc \<and> sc_provider sc \<notin> dom (rg_providers (ms_providers (rt_source r))))
   | _ \<Rightarrow> False)"

lemma buildPlan_Inl: "buildPlan r w fbs req sticky snap = Inl e \<Longrightarrow> sc_provider w \<notin> dom (rg_providers (ms_providers (rt_source r)))"
  by (auto simp: buildPlan_def Registry_Resolve_def Let_def split: option.splits)

lemma hd_sorted: "xs \<noteq> [] \<Longrightarrow> hd (sortScoredCandidates w xs) \<in> set xs"
  by (metis length_0_conv length_SliceStable list.set_sel(1) set_SliceStable sortScoredCandidates_def)

lemma route_unavailable_cause:
  assumes "route_unavailable r req snap diags (partition_scored scored) = (p, Some e)" "filter (decided BudgetOK) scored = []"
  shows "error_cause r scored e
    \<and> (case p of None \<Rightarrow> e \<noteq> ErrBudgetAdaptationRequired | Some plan \<Rightarrow> e = ErrBudgetAdaptationRequired \<and> pl_Degraded plan \<and> pl_Fallbacks plan = [])"
proof (cases "filter (decided BudgetTruncate) scored = []")
  case True
  have rest: "\<forall>sc \<in> set scored. has_caps sc \<longrightarrow> refused sc \<or> decided BudgetReject sc"
    using assms(2) True decisions by (auto simp: filter_empty_conv)
  have ref: "filter (\<lambda>sc. bd_capabilityGate (sc_bd sc) \<and> bd_breakerPenalty (sc_bd sc) = F_NegInf) scored = filter refused scored"
    by (auto simp: refused_def has_caps_def intro: filter_cong)
  have sub: "refused sc \<Longrightarrow> has_caps sc" for sc by (simp add: refused_def)
  have "(p, Some e) = (if filter refused scored \<noteq> [] \<and> filter (decided BudgetReject) scored = [] then (None, Some ErrAllBreakersOpen)
      else if filter (decided BudgetReject) scored \<noteq> [] then (None, Some ErrBudgetExceeded) else (None, Some (ErrNoViableCandidate diags)))"
    using assms(1) True unfolding route_unavailable_def partition_simps joinNoViableCandidate_def ref
    by (cases "filter refused scored = []"; cases "filter (decided BudgetReject) scored = []") simp_all
  then consider "filter refused scored \<noteq> []" "filter (decided BudgetReject) scored = []" "p = None" "e = ErrAllBreakersOpen"
    | "filter (decided BudgetReject) scored \<noteq> []" "p = None" "e = ErrBudgetExceeded"
    | "filter refused scored = []" "filter (decided BudgetReject) scored = []" "p = None" "e = ErrNoViableCandidate diags"
    by (auto simp del: filter_empty_conv split: if_splits)
  then show ?thesis using rest sub by cases (auto simp: error_cause_def filter_empty_conv)
next
  case False
  let ?w = "hd (sortScoredCandidates (rt_warmth r) (filter (decided BudgetTruncate) scored))"
  have w: "?w \<in> set scored" "decided BudgetTruncate ?w" using hd_sorted[OF False, of "rt_warmth r"] by auto
  have nok: "\<not> (\<exists>sc \<in> set scored. decided BudgetOK sc)" using assms(2) by (auto simp: filter_empty_conv)
  show ?thesis
  proof (cases "buildPlan r ?w [] req False snap")
    case (Inl err)
    with assms(1) False have "p = None" "e = ErrNoViableCandidate diags"
      by (auto simp: route_unavailable_def partition_simps joinNoViableCandidate_def)
    moreover have "\<exists>sc \<in> set scored. decided BudgetTruncate sc \<and> sc_provider sc \<notin> dom (rg_providers (ms_providers (rt_source r)))"
      using w buildPlan_Inl[OF Inl] by blast
    ultimately show ?thesis by (simp add: error_cause_def)
  next
    case (Inr plan)
    with assms(1) False have "p = Some (plan\<lparr>pl_Degraded := True\<rparr>)" "e = ErrBudgetAdaptationRequired"
      by (auto simp: route_unavailable_def partition_simps)
    moreover have "\<exists>sc \<in> set scored. decided BudgetTruncate sc" using w by blast
    ultimately show ?thesis using buildPlan_Inr[OF Inr] nok by (simp add: error_cause_def)
  qed
qed

lemma route_scored_cause:
  assumes rs: "route_scored env r req cs diags h = ((p, Some e), h')"
  shows "error_cause r (route_scores env r req cs h) e
    \<and> (case p of None \<Rightarrow> e \<noteq> ErrBudgetAdaptationRequired | Some plan \<Rightarrow> e = ErrBudgetAdaptationRequired \<and> pl_Degraded plan \<and> pl_Fallbacks plan = [])"
proof -
  let ?snap = "route_snapshot r req cs"
  let ?sa = "scoreAll (re_clock env 0) r cs req ?snap h"
  let ?ex = "filter (decided BudgetOK) (fst ?sa)"
  show ?thesis
  proof (cases "?ex = []")
    case True
    with rs have "route_unavailable r req ?snap diags (partition_scored (fst ?sa)) = (p, Some e)"
      by (simp add: route_scored_def partition_simps Let_def split_beta)
    from route_unavailable_cause[OF this True] show ?thesis .
  next
    case False
    let ?ranked = "sortScoredCandidates (rt_warmth r) ?ex"
    have ne: "?ranked \<noteq> []" using False by (metis length_0_conv length_SliceStable sortScoredCandidates_def)
    obtain ex st k c where sr: "sticky_route env r req ?ranked (rh_sticky (snd ?sa)) = (ex, st, k, c)" by (rule prod_cases4)
    have "mset ex = mset ?ex" using sticky_route_cases[OF sr ne] by (simp add: sortScoredCandidates_def)
    then have "set ex = set ?ex" "length ex = length ?ex" by (metis set_mset_mset, metis size_mset)
    then have "ex \<noteq> []" using False by (metis length_0_conv)
    then have hd: "hd ex \<in> set ?ex" using \<open>set ex = set ?ex\<close> by (metis list.set_sel(1))
    have "route_ranked env r req ?snap ?ranked (snd ?sa) = ((p, Some e), h')"
      using rs False by (simp add: route_scored_def partition_simps Let_def split_beta)
    then have "p = None \<and> (\<exists>f. e = RouteBuild f \<and> buildPlan r (hd ex) (route_fallbacks r ex) req st ?snap = Inl f)"
      using sr by (auto simp: route_ranked_def Let_def split: sum.splits)
    then obtain f where f: "p = None" "e = RouteBuild f" "buildPlan r (hd ex) (route_fallbacks r ex) req st ?snap = Inl f" by blast
    have "\<exists>sc \<in> set (fst ?sa). decided BudgetOK sc \<and> sc_provider sc \<notin> dom (rg_providers (ms_providers (rt_source r)))"
      using hd buildPlan_Inl[OF f(3)] by auto
    then show ?thesis by (simp add: error_cause_def f)
  qed
qed

text \<open>C22: Every error of a route without a preferred chain names its cause. The router is closed, the model selector and the provider contradict
  each other, the context ended, the lookup failed, or resolution was cut off by a closing router; no candidate was resolved
  (\<open>ErrNoViableCandidate\<close>). Otherwise the candidates within the available memory were scored, and among them:
  none has the capabilities, or the one that would fit after truncation has an unregistered provider
  (\<open>ErrNoViableCandidate\<close>); every one with the capabilities was refused by its breaker, open or half-open
  (\<open>ErrAllBreakersOpen\<close>), or was refused or far exceeds its budget, one of them by budget (\<open>ErrBudgetExceeded\<close>); none
  fits but one fits after truncation (\<open>ErrBudgetAdaptationRequired\<close>, the only error that comes with a plan, which
  is degraded and has no fallbacks); or a fitting one has an unregistered provider.\<close>

theorem route_errors_name_cause:
  assumes "Route env r req h = ((p, Some e), h')" "rq_PreferredChain req = []"
  shows "(case e of
       ErrRouterClosed \<Rightarrow> rt_closed r \<and> h' = h
     | ErrProviderMismatch m q \<Rightarrow> m = rq_Model req \<and> q = rq_Provider req \<and> q \<noteq> [] \<and> (\<exists>k. parseModelSelector m = (k, True) \<and> mk_Provider k \<noteq> q) \<and> h' = h
     | RouteContext c \<Rightarrow> re_ctxErr env = Some c \<and> h' = h
     | RouteLookup l \<Rightarrow> resolveCandidates (rt_source r) (rt_availableRAM r) req = Inl l \<and> h' = h
     | _ \<Rightarrow> (\<exists>cs diags. resolveCandidates (rt_source r) (rt_availableRAM r) req = Inr (cs, diags)
             \<and> (case e of RouteTerminal t \<Rightarrow> t \<in> set diags \<and> router_closed_layer \<in> set t \<and> h' = h
                | _ \<Rightarrow> cs = [] \<and> e = ErrNoViableCandidate diags \<and> h' = h 
                     \<or> map sc_profile (route_scores env r req cs h) = filter (ram_ok r) cs \<and> error_cause r (route_scores env r req cs h) e)))
    \<and> (case p of None \<Rightarrow> e \<noteq> ErrBudgetAdaptationRequired | Some plan \<Rightarrow> e = ErrBudgetAdaptationRequired \<and> pl_Degraded plan \<and> pl_Fallbacks plan = [])"
proof -
  consider (closed) "rt_closed r" "e = ErrRouterClosed" "p = None" "h' = h"
    | (mismatch) "e = ErrProviderMismatch (rq_Model req) (rq_Provider req)" "p = None" "h' = h" "rq_Provider req \<noteq> []"
        "snd (parseModelSelector (rq_Model req))" "mk_Provider (fst (parseModelSelector (rq_Model req))) \<noteq> rq_Provider req"
    | (ctx) c where "re_ctxErr env = Some c" "e = RouteContext c" "p = None" "h' = h"
    | (lookup) l where "resolveCandidates (rt_source r) (rt_availableRAM r) req = Inl l" "e = RouteLookup l" "p = None" "h' = h"
    | (terminal) cs diags t where "resolveCandidates (rt_source r) (rt_availableRAM r) req = Inr (cs, diags)"
        "capabilityResolutionTerminalError diags = Some t" "e = RouteTerminal t" "p = None" "h' = h"
    | (none) diags where "resolveCandidates (rt_source r) (rt_availableRAM r) req = Inr ([], diags)" "e = ErrNoViableCandidate diags" "p = None" "h' = h"
    | (scored) cs diags where "resolveCandidates (rt_source r) (rt_availableRAM r) req = Inr (cs, diags)"
        "route_scored env r req cs diags h = ((p, Some e), h')"
    using assms that by (auto simp: Route_def Let_def joinNoViableCandidate_def split: if_splits option.splits sum.splits prod.splits)
  then show ?thesis
  proof cases
    case mismatch
    then show ?thesis by (cases "parseModelSelector (rq_Model req)") auto
  next
    case terminal
    then show ?thesis by (auto simp: capabilityResolutionTerminalError_def find_Some_iff errors_is_def in_set_conv_nth)
  next
    case scored
    have "map sc_profile (route_scores env r req cs h) = filter (ram_ok r) cs"
      unfolding scoreAll_def using score_loop_ok[OF buildFeedbackSnapshot_ok] by blast
    with route_scored_cause[OF scored(2)] scored(1) show ?thesis by (auto simp: error_cause_def split: route_error.splits)
  qed auto
qed

definition big_chat :: RoutingRequest where
  "big_chat = sample_chat\<lparr>rq_Model := ''p/a'', rq_ExpectedOutput := 5000\<rparr>"

lemma big_route: "\<exists>h'. Route sample_env sample_router big_chat sample_health = ((None, Some ErrBudgetExceeded), h')"
proof -
  have "Option.is_none (fst (fst (Route sample_env sample_router big_chat sample_health)))
      \<and> snd (fst (Route sample_env sample_router big_chat sample_health)) = Some ErrBudgetExceeded"
    by code_simp
  then show ?thesis by (metis is_none_simps(2) option.exhaust prod.collapse)
qed

theorem route_errors_name_cause_witness:
  "\<exists>cs diags h'. Route sample_env sample_router big_chat sample_health = ((None, Some ErrBudgetExceeded), h')
     \<and> resolveCandidates (rt_source sample_router) (rt_availableRAM sample_router) big_chat = Inr (cs, diags)
     \<and> (\<exists>sc \<in> set (route_scores sample_env sample_router big_chat cs sample_health). decided BudgetReject sc)"
proof -
  obtain h' where r: "Route sample_env sample_router big_chat sample_health = ((None, Some ErrBudgetExceeded), h')"
    using big_route by blast
  have "rq_PreferredChain big_chat = []" by (simp add: big_chat_def sample_chat_def zero_request_def)
  from route_errors_name_cause[OF r this] r show ?thesis by (auto simp: error_cause_def)
qed

section \<open>Probes\<close>

lemma filter_take_le: "length (filter P (take n xs)) \<le> length (filter P xs)"
  by (metis append_take_drop_id filter_append le_add1 length_append)

lemma route_fallbacks_take: "xs \<noteq> [] \<Longrightarrow> \<exists>n. hd xs # route_fallbacks r xs = take (Suc n) xs"
  by (cases xs) (auto simp: route_fallbacks_def Let_def intro: exI[of _ 0] exI[of _ "length xs"])

text \<open>A provider whose breaker is open or half-open when the route starts occurs at most once among the winner and the
  fallbacks of the plan: a route asks a tripped provider for one probe at most.\<close>

theorem route_single_probe:
  assumes "Route env r req h = ((Some plan, None), h')" "rq_PreferredChain req = []" "cb_state (breaker_of h q) \<noteq> BreakerClosed"
  shows "length (filter (\<lambda>p. mk_Provider (mp_Key p) = q) (pl_Profile plan # map pl_Profile (pl_Fallbacks plan))) \<le> 1"
proof -
  obtain cs diags where rs: "route_scored env r req cs diags h = ((Some plan, None), h')"
    using Route_Some_None[OF assms(1,2)] by metis
  let ?P = "\<lambda>sc. sc_provider sc = q" and ?scores = "route_scores env r req cs h"
  obtain ranked ex sticky key cache where ranked: "ranked = sortScoredCandidates (rt_warmth r) (filter executable_candidate ?scores)" "ranked \<noteq> []"
    and st: "sticky_route env r req ranked (rh_sticky (snd (scoreAll (re_clock env 0) r cs req (route_snapshot r req cs) h))) = (ex, sticky, key, cache)"
    and bp: "buildPlan r (hd ex) (route_fallbacks r ex) req sticky (route_snapshot r req cs) = Inr plan"
    by (rule route_scored_Some[OF rs]) blast
  have m: "mset ex = mset (filter executable_candidate ?scores)"
    using sticky_route_cases[OF st ranked(2)] ranked(1) by (simp add: sortScoredCandidates_def)
  have "ex \<noteq> []" using sticky_route_cases[OF st ranked(2)] ranked(2) by (metis mset_zero_iff)
  from route_fallbacks_take[OF this, of r] obtain n where n: "hd ex # route_fallbacks r ex = take (Suc n) ex" by blast
  note plan = buildPlan_Inr[OF bp]
  have "length (filter (\<lambda>p. mk_Provider (mp_Key p) = q) (map pl_Profile (pl_Fallbacks plan))) \<le> length (filter ?P (route_fallbacks r ex))"
    using plan by (simp add: fallback_plans_profiles filter_map comp_def length_filter_conv_card card_mono Collect_mono)
  then have "length (filter (\<lambda>p. mk_Provider (mp_Key p) = q) (pl_Profile plan # map pl_Profile (pl_Fallbacks plan)))
      \<le> length (filter ?P (hd ex # route_fallbacks r ex))"
    using plan by simp
  also have "\<dots> \<le> length (filter ?P ex)" unfolding n by (rule filter_take_le)
  also have "\<dots> = length (filter ?P (filter executable_candidate ?scores))" by (rule mset_eq_length) (simp only: mset_filter m)
  also have "\<dots> \<le> length (filter (\<lambda>sc. ?P sc \<and> admitted sc) ?scores)"
    by (simp add: length_filter_conv_card) (intro card_mono, auto)
  also have "\<dots> \<le> 1" unfolding scoreAll_def by (rule score_loop_probe[OF assms(3)])
  finally show ?thesis .
qed

definition tripped_health :: router_health where
  "tripped_health = sample_health\<lparr>rh_breakers := [(''p'', (NewCircuitBreaker [Cooldown 10])\<lparr>cb_state := BreakerOpen, cb_failures := 3, cb_lastFailure := 500\<rparr>)]\<rparr>"

lemma tripped_route: "\<exists>plan h'. Route sample_env sample_router sample_chat tripped_health = ((Some plan, None), h')"
proof -
  have "Option.is_none (snd (fst (Route sample_env sample_router sample_chat tripped_health)))
      \<and> \<not> Option.is_none (fst (fst (Route sample_env sample_router sample_chat tripped_health)))"
    by code_simp
  then show ?thesis by (metis is_none_simps option.exhaust prod.collapse)
qed

theorem route_single_probe_witness:
  "\<exists>plan h'. Route sample_env sample_router sample_chat tripped_health = ((Some plan, None), h')
     \<and> length (filter (\<lambda>p. mk_Provider (mp_Key p) = ''p'') (pl_Profile plan # map pl_Profile (pl_Fallbacks plan))) \<le> 1"
proof -
  obtain plan h' where r: "Route sample_env sample_router sample_chat tripped_health = ((Some plan, None), h')"
    using tripped_route by blast
  have "rq_PreferredChain sample_chat = []" "cb_state (breaker_of tripped_health ''p'') \<noteq> BreakerClosed"
    by (simp_all add: sample_chat_def zero_request_def tripped_health_def breaker_of_def)
  from route_single_probe[OF r this] r show ?thesis by blast
qed

section \<open>Affinity\<close>

definition affinity :: "RoutingRequest \<Rightarrow> bool" where
  "affinity req \<longleftrightarrow> rq_AffinityKey req \<noteq> [] \<and> \<not> rq_DryRun req"

lemma affinity_key: "affinity req \<Longrightarrow> key = StickyKey req \<Longrightarrow> key \<noteq> []"
  using StickyKey_length[of req] by auto

lemma findIncumbentScore_None: "findIncumbentScore key scored = None \<Longrightarrow> sc \<in> set scored \<Longrightarrow> sc_key sc \<noteq> key"
proof -
  assume n: "findIncumbentScore key scored = None" and "sc \<in> set scored"
  then obtain i where "i < length scored" "scored ! i = sc" by (auto simp: in_set_conv_nth)
  then have "(i, sc) \<in> set (enumerate 0 scored)" by (simp add: in_set_enumerate_eq)
  with n show ?thesis by (auto simp: findIncumbentScore_def find_None_iff split: option.splits)
qed

lemma sticky_route_keeps:
  assumes "sticky_route env r req ranked cache = (ex, sticky, key, cache')" "affinity req" "ranked \<noteq> []"
    "fst (sticky_get (re_getAt env) (StickyKey req) cache) = Some inc" "\<exists>sc \<in> set ranked. sc_key sc = rs_providerKey inc"
    "\<forall>sc \<in> set ranked. sc_key sc = rs_providerKey inc \<longrightarrow>
       f_le (sc_score (hd ranked)) (f_add (sc_score sc) (rd_hysteresisMargin (rt_defaultOpts r)))"
  shows sticky
proof -
  obtain i where i: "findIncumbentScore (rs_providerKey inc) ranked = Some i"
    using findIncumbentScore_None[of "rs_providerKey inc" ranked] assms(5) by (cases "findIncumbentScore (rs_providerKey inc) ranked") auto
  then have "i < length ranked" "sc_key (ranked ! i) = rs_providerKey inc" using findIncumbentScore_Some by blast+
  then have "f_le (sc_score (ranked ! 0)) (f_add (sc_score (ranked ! i)) (rd_hysteresisMargin (rt_defaultOpts r)))"
    using assms(3,6) by (metis hd_conv_nth nth_mem)
  then show ?thesis using assms i
    by (cases "sticky_get (re_getAt env) (StickyKey req) cache") (auto simp: sticky_route_def affinity_def Let_def split: if_splits)
qed

text \<open>A route without an affinity key, or a dry run, leaves the sticky cache as it was. A route with affinity that returns a plan
  stores the provider and model of the plan under the request's sticky key with the full time to live. When the
  plan is marked sticky, they are those of a stored route that had not expired; and the plan is sticky whenever
  there is such a stored route, its model is executable now and no executable candidate beats it by more than the margin.\<close>

theorem route_sticky_exact:
  assumes "Route env r req h = ((Some plan, None), h')" "rq_PreferredChain req = []"
  shows "if affinity req
    then (\<exists>e. map_of (sc_entries (rh_sticky h')) (StickyKey req) = Some e \<and> rs_providerKey e = mp_Key (pl_Profile plan)
            \<and> rs_score e = pl_Score plan \<and> rs_expiresAt e = re_putAt env + rd_stickyTTL (rt_defaultOpts r))
         \<and> (pl_wasSticky plan \<longrightarrow> (\<exists>inc. map_of (sc_entries (rh_sticky h)) (StickyKey req) = Some inc
              \<and> re_getAt env \<le> rs_expiresAt inc \<and> rs_providerKey inc = mp_Key (pl_Profile plan)))
         \<and> (\<forall>inc cs diags. map_of (sc_entries (rh_sticky h)) (StickyKey req) = Some inc \<longrightarrow> re_getAt env \<le> rs_expiresAt inc
              \<longrightarrow> resolveCandidates (rt_source r) (rt_availableRAM r) req = Inr (cs, diags)
              \<longrightarrow> (\<exists>sc \<in> set (route_scores env r req cs h). executable_candidate sc \<and> sc_key sc = rs_providerKey inc)
              \<longrightarrow> (\<forall>sc \<in> set (route_scores env r req cs h). \<forall>sc' \<in> set (route_scores env r req cs h).
                    executable_candidate sc \<longrightarrow> executable_candidate sc' \<longrightarrow> sc_key sc = rs_providerKey inc \<longrightarrow>
                    f_le (sc_score sc') (f_add (sc_score sc) (rd_hysteresisMargin (rt_defaultOpts r))))
              \<longrightarrow> pl_wasSticky plan)
    else rh_sticky h' = rh_sticky h \<and> \<not> pl_wasSticky plan"
proof -
  obtain cs diags where cs: "resolveCandidates (rt_source r) (rt_availableRAM r) req = Inr (cs, diags)"
    and rs: "route_scored env r req cs diags h = ((Some plan, None), h')"
    using Route_Some_None[OF assms] by metis
  let ?sa = "scoreAll (re_clock env 0) r cs req (route_snapshot r req cs) h"
  obtain ranked ex sticky key cache where rk: "ranked = sortScoredCandidates (rt_warmth r) (filter executable_candidate (fst ?sa))" and ne: "ranked \<noteq> []"
    and st: "sticky_route env r req ranked (rh_sticky (snd ?sa)) = (ex, sticky, key, cache)"
    and bp: "buildPlan r (hd ex) (route_fallbacks r ex) req sticky (route_snapshot r req cs) = Inr plan"
    and h': "rh_sticky h' = (if rq_AffinityKey req \<noteq> [] \<and> \<not> rq_DryRun req \<and> key \<noteq> []
       then sticky_put (re_evictAt env) (re_iter env) (sticky_entry env r key (hd ex)) cache else cache)"
    by (rule route_scored_Some[OF rs]) blast
  have same: "rh_sticky (snd ?sa) = rh_sticky h" by (simp add: scoreAll_def score_loop_sticky)
  note cases = sticky_route_cases[OF st ne, unfolded same] and plan = buildPlan_Inr[OF bp]
  show ?thesis
  proof (cases "affinity req")
    case True
    then have key: "key = StickyKey req" "key \<noteq> []" using cases affinity_key by (auto simp: affinity_def)
    let ?e = "sticky_entry env r key (hd ex)"
    have "rh_sticky h' = sticky_put (re_evictAt env) (re_iter env) ?e cache" using h' True key by (simp add: affinity_def)
    moreover have "rs_key ?e = StickyKey req" using key by (simp add: sticky_entry_def)
    ultimately have "map_of (sc_entries (rh_sticky h')) (StickyKey req) = Some ?e" by (metis put_lookup_same)
    moreover have "\<exists>inc. map_of (sc_entries (rh_sticky h)) (StickyKey req) = Some inc
        \<and> re_getAt env \<le> rs_expiresAt inc \<and> rs_providerKey inc = mp_Key (pl_Profile plan)" if "pl_wasSticky plan"
      using that cases plan by (auto simp: sticky_get_def split: option.splits if_splits)
    moreover have "pl_wasSticky plan"
      if inc: "map_of (sc_entries (rh_sticky h)) (StickyKey req) = Some inc" "re_getAt env \<le> rs_expiresAt inc"
        and ex: "\<exists>sc \<in> set (fst ?sa). executable_candidate sc \<and> sc_key sc = rs_providerKey inc"
        and le: "\<forall>sc \<in> set (fst ?sa). \<forall>sc' \<in> set (fst ?sa). executable_candidate sc \<longrightarrow> executable_candidate sc' \<longrightarrow>
          sc_key sc = rs_providerKey inc \<longrightarrow> f_le (sc_score sc') (f_add (sc_score sc) (rd_hysteresisMargin (rt_defaultOpts r)))" for inc
    proof -
      have set: "set ranked = set (filter executable_candidate (fst ?sa))" by (simp add: rk sortScoredCandidates_def)
      have get: "fst (sticky_get (re_getAt env) (StickyKey req) (rh_sticky h)) = Some inc" using inc by (simp add: sticky_get_def)
      have hd: "hd ranked \<in> set (fst ?sa)" "executable_candidate (hd ranked)" using ne set list.set_sel(1)[of ranked] by auto
      have "sticky"
        using ex le hd set by (intro sticky_route_keeps[OF st[unfolded same] True ne get]) auto
      then show ?thesis using plan by simp
    qed
    ultimately show ?thesis using True plan cs by (auto simp: sticky_entry_def)
  next
    case False
    then show ?thesis using cases h' plan by (auto simp: affinity_def)
  qed
qed

theorem route_sticky_exact_witness:
  "\<exists>plan h'. Route sample_env sample_router sample_chat sample_health = ((Some plan, None), h')
     \<and> rh_sticky h' = rh_sticky sample_health \<and> \<not> pl_wasSticky plan"
proof -
  obtain plan h' where r: "Route sample_env sample_router sample_chat sample_health = ((Some plan, None), h')"
    using sample_route by blast
  have "rq_PreferredChain sample_chat = []" "\<not> affinity sample_chat"
    by (simp_all add: sample_chat_def zero_request_def affinity_def)
  with route_sticky_exact[OF r] r show ?thesis by auto
qed

end
