(* ===== verification/Chain_Guarantees.thy ===== *)
theory Chain_Guarantees
  imports Router_Route "HOL-Library.Sublist"
begin

text \<open>
  What chain-first routing (\<open>provider/router_chain.go\<close>) promises: the plan follows the order of the chain, candidates
  of one selector are ranked by score, nothing is offered twice, and the sticky cache is untouched.
\<close>

section \<open>The steps of a chain\<close>

definition chain_successes :: "model_source \<Rightarrow> string list \<Rightarrow> ModelProfile list list" where
  "chain_successes src selectors = List.map_filter (\<lambda>s. case resolveChainEntry src s of Inr ps \<Rightarrow> Some ps | Inl _ \<Rightarrow> None) selectors"

definition tool_resolved :: "model_source \<Rightarrow> Capability \<Rightarrow> ModelProfile \<Rightarrow> ModelProfile" where
  "tool_resolved src caps p = (if \<not> ms_canResolve src \<or> \<not> Capability_Has caps CapToolCall then p else fst (resolve_candidate src p))"

lemma ensure_map: "fst (ensureToolCallResolvedIndexed src ps caps) = map (tool_resolved src caps) ps"
  by (auto simp: ensureToolCallResolvedIndexed_def tool_resolved_def resolve_candidate_def intro!: map_idI[symmetric] map_cong)

lemma chain_successes_Cons:
  "chain_successes src (s # ss) = (case resolveChainEntry src s of Inr ps \<Rightarrow> ps # chain_successes src ss | Inl _ \<Rightarrow> chain_successes src ss)"
  by (simp add: chain_successes_def map_filter_simps split: sum.split)

lemma recordChainLookupFailure_sticky: "rh_sticky (recordChainLookupFailure now s e h) = rh_sticky h"
  by (auto simp: recordChainLookupFailure_def getOrCreateBreaker_def update_breaker_def Let_def split: option.splits prod.splits)

lemma chain_entries_flat:
  "chain_entries clock src i sels flat h = (es, flat', h') \<Longrightarrow>
     flat' = flat @ concat (chain_successes src sels) \<and> rh_sticky h' = rh_sticky h"
proof (induction sels arbitrary: i flat h es flat' h')
  case (Cons s sels)
  show ?case
  proof (cases "resolveChainEntry src s")
    case (Inl err)
    obtain es' f'' h'' where c: "chain_entries clock src (Suc i) sels flat (recordChainLookupFailure (clock i) s err h) = (es', f'', h'')"
      by (rule prod_cases3)
    from Cons.IH[OF c] Cons.prems Inl c show ?thesis by (simp add: chain_successes_Cons recordChainLookupFailure_sticky)
  next
    case (Inr ps)
    obtain es' f'' h'' where c: "chain_entries clock src (Suc i) sels (flat @ ps) h = (es', f'', h'')" by (rule prod_cases3)
    from Cons.IH[OF c] Cons.prems Inr c show ?thesis by (simp add: chain_successes_Cons)
  qed
qed (simp add: chain_successes_def map_filter_simps)

text \<open>The keys that the replay marks: those of candidates within memory that have the capabilities.\<close>

definition marked_keys :: "Router \<Rightarrow> RoutingRequest \<Rightarrow> ModelProfile list \<Rightarrow> ModelKey set" where
  "marked_keys r req ps = mp_Key ` {p \<in> set ps. ram_ok r p \<and> profileSatisfiesRequiredCaps p (rq_RequiredCaps req)}"

lemma markChainSeenForTail_set: "set (markChainSeenForTail r req seen ps) = set seen \<union> marked_keys r req ps"
  by (induction ps arbitrary: seen) (auto simp: marked_keys_def)

lemma marked_keys_append [simp]: "marked_keys r req (ps @ qs) = marked_keys r req ps \<union> marked_keys r req qs" "marked_keys r req [] = {}"
  by (auto simp: marked_keys_def)

lemma replay_steps:
  assumes "chain_entries clock src i sels flat h = (es, flat', h')" "replay r req (map f flat') diagAt es seen snap = (errs, steps, seen', snap')" "snap_ok snap"
  shows "steps = map (map f) (chain_successes src sels) \<and> snap_ok snap' \<and> set seen' = set seen \<union> marked_keys r req (concat steps)"
  using assms
proof (induction sels arbitrary: i flat h es h' seen snap errs steps seen' snap')
  case (Cons s sels)
  show ?case
  proof (cases "resolveChainEntry src s")
    case (Inl err)
    obtain es' f'' h'' where c: "chain_entries clock src (Suc i) sels flat (recordChainLookupFailure (clock i) s err h) = (es', f'', h'')"
      by (rule prod_cases3)
    obtain errs' steps' seen'' snap'' where rp: "replay r req (map f flat') diagAt es' seen snap = (errs', steps', seen'', snap'')" by (rule prod_cases4)
    have f: "f'' = flat'" using Cons.prems(1) Inl c by simp
    show ?thesis using Cons.IH[OF c[unfolded f] rp Cons.prems(3)] Cons.prems(1,2) Inl c rp by (auto simp: chain_successes_Cons)
  next
    case (Inr ps)
    obtain es' f'' h'' where c: "chain_entries clock src (Suc i) sels (flat @ ps) h = (es', f'', h'')" by (rule prod_cases3)
    have f: "f'' = flat'" using Cons.prems(1) Inr c by simp
    have flat': "flat' = flat @ ps @ concat (chain_successes src sels)" using chain_entries_flat[OF c] f by simp
    let ?seen = "markChainSeenForTail r req seen (map f ps)" and ?snap = "readCandidates (rt_routingFeedback r) (map f ps) (rq_UseCase req) snap"
    obtain errs' steps' seen'' snap'' where rp: "replay r req (map f flat') diagAt es' ?seen ?snap = (errs', steps', seen'', snap'')" by (rule prod_cases4)
    from Cons.IH[OF c[unfolded f] rp readCandidates_ok[OF Cons.prems(3)]] show ?thesis
      using Cons.prems(1,2) Inr c rp by (auto simp: chain_successes_Cons flat' Let_def markChainSeenForTail_set)
  qed
qed (auto simp: chain_successes_def map_filter_simps)

section \<open>Collecting the candidates\<close>

abbreviation better_first :: "scoredCandidate list \<Rightarrow> bool" where
  "better_first xs \<equiv> sorted_wrt (\<lambda>a b. f_le (sc_score b) (sc_score a)) xs"

lemma better_first_subseq: "subseq xs ys \<Longrightarrow> better_first ys \<Longrightarrow> better_first xs"
  by (induction rule: list_emb.induct) (auto dest: list_emb_set)

lemma sort_better_first:
  assumes "\<forall>sc \<in> set xs. candidate_ok r req sc"
  shows "better_first (sortScoredCandidates w xs)"
proof -
  have nan: "sc_score x \<noteq> F_NaN" if "x \<in> set xs" for x using candidate_ok_score assms that by blast
  have "ranking.ranked w (sortScoredCandidates w xs)" unfolding sortScoredCandidates_def using nan by (intro ranking.SliceStable_ranked) blast
  then show ?thesis
  proof (rule sorted_wrt_mono_rel[rotated])
    fix a b
    assume "a \<in> set (sortScoredCandidates w xs)" "b \<in> set (sortScoredCandidates w xs)" "\<not> ranks_before w b a"
    then show "f_le (sc_score b) (sc_score a)"
      using nan[of a] nan[of b] f_order(1)[of "sc_score a" "sc_score b"]
      by (auto simp: ranks_before_iff sortScoredCandidates_def f_le_def f_order(5) dest: f_order(4) split: if_splits)
  qed
qed

lemma chain_take_cases:
  "ca_working (chain_take sc acc) = ca_working acc \<and> set (ca_seen acc) \<subseteq> set (ca_seen (chain_take sc acc))
   \<or> ca_working (chain_take sc acc) = ca_working acc @ [sc] \<and> ca_seen (chain_take sc acc) = sc_key sc # ca_seen acc
     \<and> sc_key sc \<notin> set (ca_seen acc) \<and> executable_candidate sc"
  by (cases "br_Decision (sc_budget sc)") (auto simp: chain_take_def Let_def admitted_def)

text \<open>What the loop over the survivors of a step appends: a subsequence of executable candidates with new keys.\<close>

lemma chain_take_part:
  assumes "\<forall>sc \<in> set (ca_working acc). sc_key sc \<in> set (ca_seen acc)" "distinct (map sc_key (ca_working acc))"
  shows "\<exists>part. ca_working (fold chain_take scs acc) = ca_working acc @ part \<and> subseq part scs \<and> (\<forall>sc \<in> set part. executable_candidate sc)
    \<and> (\<forall>sc \<in> set (ca_working (fold chain_take scs acc)). sc_key sc \<in> set (ca_seen (fold chain_take scs acc)))
    \<and> distinct (map sc_key (ca_working (fold chain_take scs acc)))"
  using assms
proof (induction scs arbitrary: acc)
  case (Cons sc scs)
  consider (same) "ca_working (chain_take sc acc) = ca_working acc" "set (ca_seen acc) \<subseteq> set (ca_seen (chain_take sc acc))"
    | (new) "ca_working (chain_take sc acc) = ca_working acc @ [sc]" "ca_seen (chain_take sc acc) = sc_key sc # ca_seen acc"
        "sc_key sc \<notin> set (ca_seen acc)" "executable_candidate sc"
    using chain_take_cases[of sc acc] by blast
  then show ?case
  proof cases
    case same
    then have "\<forall>x \<in> set (ca_working (chain_take sc acc)). sc_key x \<in> set (ca_seen (chain_take sc acc))" "distinct (map sc_key (ca_working (chain_take sc acc)))"
      using Cons.prems by auto
    from Cons.IH[OF this] obtain part where "ca_working (fold chain_take scs (chain_take sc acc)) = ca_working acc @ part"
      "subseq part scs" "\<forall>sc \<in> set part. executable_candidate sc"
      "\<forall>x \<in> set (ca_working (fold chain_take scs (chain_take sc acc))). sc_key x \<in> set (ca_seen (fold chain_take scs (chain_take sc acc)))"
      "distinct (map sc_key (ca_working (fold chain_take scs (chain_take sc acc))))"
      unfolding same(1) by blast
    then show ?thesis by (intro exI[of _ part]) auto
  next
    case new
    then have "\<forall>x \<in> set (ca_working (chain_take sc acc)). sc_key x \<in> set (ca_seen (chain_take sc acc))" "distinct (map sc_key (ca_working (chain_take sc acc)))"
      using Cons.prems by auto
    from Cons.IH[OF this] obtain part where part: "ca_working (fold chain_take scs (chain_take sc acc)) = (ca_working acc @ [sc]) @ part"
      "subseq part scs" "\<forall>sc \<in> set part. executable_candidate sc"
      "\<forall>x \<in> set (ca_working (fold chain_take scs (chain_take sc acc))). sc_key x \<in> set (ca_seen (fold chain_take scs (chain_take sc acc)))"
      "distinct (map sc_key (ca_working (fold chain_take scs (chain_take sc acc))))"
      unfolding new(1) by blast
    then show ?thesis using new(4) by (intro exI[of _ "sc # part"]) auto
  qed
qed (auto intro: exI[of _ "[]"])

section \<open>The order of a chain\<close>

text \<open>Elements of a list by their position, and the first of each key among the elements that satisfy \<open>P\<close>.\<close>

definition pick :: "(nat \<Rightarrow> bool) \<Rightarrow> 'a list \<Rightarrow> 'a list" where
  "pick P xs = map ((!) xs) (filter P [0..<length xs])"

lemma pick_snoc: "(\<And>i. i < length xs \<Longrightarrow> P' i = P i) \<Longrightarrow> pick P' (xs @ [x]) = pick P xs @ (if P' (length xs) then [x] else [])"
  by (auto simp: pick_def nth_append intro!: map_cong filter_cong)

definition first_of :: "(scoredCandidate \<Rightarrow> bool) \<Rightarrow> scoredCandidate list \<Rightarrow> nat \<Rightarrow> bool" where
  "first_of P scs i \<longleftrightarrow> P (scs ! i) \<and> (\<forall>j < i. P (scs ! j) \<longrightarrow> sc_key (scs ! j) \<noteq> sc_key (scs ! i))"

lemma first_of_snoc:
  "i < length scs \<Longrightarrow> first_of P (scs @ [sc]) i = first_of P scs i"
  "first_of P (scs @ [sc]) (length scs) \<longleftrightarrow> P sc \<and> sc_key sc \<notin> sc_key ` set (filter P scs)"
proof -
  show "i < length scs \<Longrightarrow> first_of P (scs @ [sc]) i = first_of P scs i" by (simp add: first_of_def nth_append)
  have "(\<forall>j < length scs. P (scs ! j) \<longrightarrow> sc_key (scs ! j) \<noteq> sc_key sc) \<longleftrightarrow> sc_key sc \<notin> sc_key ` set (filter P scs)"
  proof
    assume "\<forall>j < length scs. P (scs ! j) \<longrightarrow> sc_key (scs ! j) \<noteq> sc_key sc"
    then show "sc_key sc \<notin> sc_key ` set (filter P scs)" by (fastforce simp: in_set_conv_nth)
  next
    assume "sc_key sc \<notin> sc_key ` set (filter P scs)"
    then have "\<forall>c \<in> set scs. P c \<longrightarrow> sc_key c \<noteq> sc_key sc" by (auto simp: image_iff)
    then show "\<forall>j < length scs. P (scs ! j) \<longrightarrow> sc_key (scs ! j) \<noteq> sc_key sc" by simp
  qed
  then show "first_of P (scs @ [sc]) (length scs) \<longleftrightarrow> P sc \<and> sc_key sc \<notin> sc_key ` set (filter P scs)"
    by (simp add: first_of_def nth_append)
qed

text \<open>The executable ones among the first candidates, by key, that have the capabilities.\<close>

definition chain_order :: "scoredCandidate list \<Rightarrow> scoredCandidate list" where
  "chain_order scs = pick (\<lambda>i. first_of (\<lambda>sc. bd_capabilityGate (sc_bd sc)) scs i \<and> executable_candidate (scs ! i)) scs"

text \<open>The first executable candidates, by key, whose key no chain candidate with the capabilities has.\<close>

definition tail_order :: "scoredCandidate list \<Rightarrow> scoredCandidate list \<Rightarrow> scoredCandidate list" where
  "tail_order chain scs =
     pick (first_of (\<lambda>sc. executable_candidate sc \<and> sc_key sc \<notin> sc_key ` {c \<in> set chain. bd_capabilityGate (sc_bd c)}) scs) scs"

lemma chain_order_snoc:
  "chain_order (scs @ [sc]) = chain_order scs
     @ (if executable_candidate sc \<and> sc_key sc \<notin> sc_key ` {c \<in> set scs. bd_capabilityGate (sc_bd c)} then [sc] else [])"
  unfolding chain_order_def
  by (subst pick_snoc[where P = "\<lambda>i. first_of (\<lambda>sc. bd_capabilityGate (sc_bd sc)) scs i \<and> executable_candidate (scs ! i)"])
    (auto simp: first_of_snoc nth_append admitted_def)

lemma chain_take_order:
  "ca_working (fold chain_take scs empty_acc) = chain_order scs
   \<and> set (ca_seen (fold chain_take scs empty_acc)) = sc_key ` {sc \<in> set scs. bd_capabilityGate (sc_bd sc)}"
proof (induction scs rule: rev_induct)
  case (snoc sc scs)
  let ?acc = "fold chain_take scs empty_acc"
  have "ca_working (chain_take sc ?acc) = ca_working ?acc @ (if executable_candidate sc \<and> sc_key sc \<notin> set (ca_seen ?acc) then [sc] else [])"
    "set (ca_seen (chain_take sc ?acc)) = set (ca_seen ?acc) \<union> (if bd_capabilityGate (sc_bd sc) then {sc_key sc} else {})"
    by (auto simp: chain_take_def admitted_def Let_def split: BudgetDecision.splits)
  with snoc show ?case by (auto simp: chain_order_snoc)
qed (simp add: empty_acc_def chain_order_def pick_def)

lemma tail_take_snoc:
  "tail_take (scs @ [sc]) seen = tail_take scs seen
     @ (if executable_candidate sc \<and> sc_key sc \<notin> set seen \<and> sc_key sc \<notin> sc_key ` set (filter (\<lambda>c. executable_candidate c \<and> sc_key c \<notin> set seen) scs)
        then [sc] else [])"
  by (induction scs arbitrary: seen) (auto simp: admitted_def)

lemma tail_take_order:
  "set seen = sc_key ` {c \<in> set chain. bd_capabilityGate (sc_bd c)} \<Longrightarrow> tail_take scs seen = tail_order chain scs"
proof (induction scs rule: rev_induct)
  case (snoc sc scs)
  let ?P = "\<lambda>sc. executable_candidate sc \<and> sc_key sc \<notin> sc_key ` {c \<in> set chain. bd_capabilityGate (sc_bd c)}"
  have "tail_order chain (scs @ [sc]) = tail_order chain scs @ (if ?P sc \<and> sc_key sc \<notin> sc_key ` set (filter ?P scs) then [sc] else [])"
    unfolding tail_order_def by (subst pick_snoc[where P = "first_of ?P scs"]) (simp_all only: first_of_snoc)
  then show ?case unfolding tail_take_snoc snoc.IH[OF snoc.prems] snoc.prems by (simp only: conj_assoc)
qed (simp add: tail_order_def pick_def)

lemma tail_take_part:
  "subseq (tail_take scs seen) scs \<and> (\<forall>sc \<in> set (tail_take scs seen). executable_candidate sc \<and> sc_key sc \<notin> set seen)
    \<and> distinct (map sc_key (tail_take scs seen))"
proof (induction scs arbitrary: seen)
  case (Cons sc scs)
  from Cons.IH[of seen] Cons.IH[of "sc_key sc # seen"] show ?case by (auto simp: admitted_def)
qed simp

text \<open>The ranking of a step: its candidates within memory, each once, better scores first; none if the context has ended.\<close>

definition step_ranked :: "Router \<Rightarrow> RoutingRequest \<Rightarrow> goerror option \<Rightarrow> ModelProfile list \<Rightarrow> scoredCandidate list \<Rightarrow> bool" where
  "step_ranked r req ctxErr ps scs \<longleftrightarrow> better_first scs \<and> (\<forall>sc \<in> set scs. candidate_ok r req sc)
     \<and> mset (map sc_profile scs) = (if ctxErr = None then mset (filter (ram_ok r) ps) else {#})"

lemma scoreChainStep_ranked:
  assumes "snap_ok snap" "scoreChainStep c clock r ps req snap h = (scs, h')"
  shows "step_ranked r req c ps scs"
proof (cases "c = None")
  case True
  let ?l = "score_loop clock 0 r req snap ps h"
  have eq: "scs = sortScoredCandidates (rt_warmth r) (fst ?l)" using assms(2) True by (auto simp: scoreChainStep_def split: prod.splits)
  have ok: "\<forall>sc \<in> set (fst ?l). candidate_ok r req sc" and pr: "map sc_profile (fst ?l) = filter (ram_ok r) ps"
    using score_loop_ok[OF assms(1)] by blast+
  have m: "mset scs = mset (fst ?l)" by (simp add: eq sortScoredCandidates_def)
  then have "set scs = set (fst ?l)" by (metis set_mset_mset)
  moreover have "mset (map sc_profile scs) = mset (filter (ram_ok r) ps)" using m pr by (metis mset_map)
  ultimately show ?thesis using ok sort_better_first[OF ok] True by (simp add: step_ranked_def eq)
qed (use assms in \<open>auto simp: scoreChainStep_def step_ranked_def\<close>)

lemma scoreChainStep_ok:
  assumes "snap_ok snap" "scoreChainStep c clock r ps req snap h = (scs, h')"
  shows "(\<forall>sc \<in> set scs. candidate_ok r req sc \<and> sc_profile sc \<in> set ps
           \<and> (admitted sc \<longrightarrow> cb_state (breaker_of h' (sc_provider sc)) \<noteq> BreakerOpen))
    \<and> better_first scs \<and> rh_sticky h' = rh_sticky h
    \<and> (\<forall>q. cb_state (breaker_of h q) \<noteq> BreakerOpen \<longrightarrow> cb_state (breaker_of h' q) \<noteq> BreakerOpen)"
proof (cases "c = None")
  case True
  let ?l = "score_loop clock 0 r req snap ps h"
  have eq: "scs = sortScoredCandidates (rt_warmth r) (fst ?l)" "h' = snd ?l" using assms(2) True by (auto simp: scoreChainStep_def split: prod.splits)
  have ok: "\<forall>sc \<in> set (fst ?l). candidate_ok r req sc" and pr: "map sc_profile (fst ?l) = filter (ram_ok r) ps"
    using score_loop_ok[OF assms(1)] by blast+
  have "sc_profile sc \<in> set ps" if "sc \<in> set (fst ?l)" for sc
    using that pr by (metis filter_is_subset imageI list.set_map subsetD)
  moreover have "set scs = set (fst ?l)" by (simp add: eq sortScoredCandidates_def)
  ultimately show ?thesis unfolding eq(2)
    using ok sort_better_first[OF ok] score_loop_admitted score_loop_state by (auto simp: eq(1) score_loop_sticky)
qed (use assms in \<open>simp add: scoreChainStep_def\<close>)

text \<open>A candidate that was chosen from \<open>ps\<close>, with the breakers as they are in \<open>h\<close>.\<close>

definition chosen_from :: "Router \<Rightarrow> RoutingRequest \<Rightarrow> router_health \<Rightarrow> ModelProfile list \<Rightarrow> scoredCandidate \<Rightarrow> bool" where
  "chosen_from r req h ps sc \<longleftrightarrow> candidate_ok r req sc \<and> executable_candidate sc \<and> sc_profile sc \<in> set ps
     \<and> cb_state (breaker_of h (sc_provider sc)) \<noteq> BreakerOpen"

lemma chain_loop_parts:
  assumes "snap_ok snap" "chain_loop env k r req snap steps acc h = (acc', h')"
    "\<forall>sc \<in> set (ca_working acc). sc_key sc \<in> set (ca_seen acc)" "distinct (map sc_key (ca_working acc))"
  shows "\<exists>parts. ca_working acc' = ca_working acc @ concat parts
      \<and> list_all2 (\<lambda>part ps. better_first part \<and> (\<forall>sc \<in> set part. chosen_from r req h' ps sc)) parts steps
    \<and> (\<forall>sc \<in> set (ca_working acc'). sc_key sc \<in> set (ca_seen acc')) \<and> distinct (map sc_key (ca_working acc'))
    \<and> rh_sticky h' = rh_sticky h
    \<and> (\<forall>q. cb_state (breaker_of h q) \<noteq> BreakerOpen \<longrightarrow> cb_state (breaker_of h' q) \<noteq> BreakerOpen)"
  using assms(2-)
proof (induction steps arbitrary: k acc h)
  case (Cons ps steps)
  obtain scs h1 where st: "scoreChainStep (re_stepCtx env k) (re_clock env k) r ps req snap h = (scs, h1)" by (rule prod.exhaust)
  note ok = scoreChainStep_ok[OF assms(1) st]
  obtain part where part: "ca_working (fold chain_take scs acc) = ca_working acc @ part" "subseq part scs" "\<forall>sc \<in> set part. executable_candidate sc"
    "\<forall>sc \<in> set (ca_working (fold chain_take scs acc)). sc_key sc \<in> set (ca_seen (fold chain_take scs acc))"
    "distinct (map sc_key (ca_working (fold chain_take scs acc)))"
    using chain_take_part[OF Cons.prems(2,3), of scs] by blast
  have "chain_loop env (Suc k) r req snap steps (fold chain_take scs acc) h1 = (acc', h')" using Cons.prems(1) st by simp
  from Cons.IH[OF this part(4,5)] obtain parts where parts: "ca_working acc' = (ca_working acc @ part) @ concat parts"
      "list_all2 (\<lambda>part ps. better_first part \<and> (\<forall>sc \<in> set part. chosen_from r req h' ps sc)) parts steps"
    and rest: "\<forall>sc \<in> set (ca_working acc'). sc_key sc \<in> set (ca_seen acc')" "distinct (map sc_key (ca_working acc'))" "rh_sticky h' = rh_sticky h1"
      "\<forall>q. cb_state (breaker_of h1 q) \<noteq> BreakerOpen \<longrightarrow> cb_state (breaker_of h' q) \<noteq> BreakerOpen"
    unfolding part(1) by blast
  have "set part \<subseteq> set scs" using part(2) by (auto elim: list_emb_set)
  then have "\<forall>sc \<in> set part. chosen_from r req h' ps sc" using ok part(3) rest(4) by (auto simp: chosen_from_def)
  moreover have "better_first part" using better_first_subseq[OF part(2)] ok by blast
  ultimately show ?case using parts rest ok by (intro exI[of _ "part # parts"]) auto
qed (auto intro: exI[of _ "[]"])

lemma chain_loop_ranked:
  assumes "snap_ok snap"
  shows "\<exists>ranked. fst (chain_loop env k r req snap steps acc h) = fold chain_take (concat ranked) acc
     \<and> length ranked = length steps \<and> (\<forall>i < length steps. step_ranked r req (re_stepCtx env (k + i)) (steps ! i) (ranked ! i))"
proof (induction steps arbitrary: k acc h)
  case (Cons ps steps)
  obtain scs h1 where st: "scoreChainStep (re_stepCtx env k) (re_clock env k) r ps req snap h = (scs, h1)" by (rule prod.exhaust)
  obtain ranked where r: "fst (chain_loop env (Suc k) r req snap steps (fold chain_take scs acc) h1) = fold chain_take (concat ranked) (fold chain_take scs acc)"
    "length ranked = length steps" "\<forall>i < length steps. step_ranked r req (re_stepCtx env (Suc k + i)) (steps ! i) (ranked ! i)"
    using Cons.IH by blast
  then show ?case using st scoreChainStep_ranked[OF assms st]
    by (intro exI[of _ "scs # ranked"]) (auto simp: nth_Cons split: nat.split)
qed simp

lemma chosen_viable: "chosen_from r req h ps sc \<Longrightarrow> viable r req (sc_profile sc) \<and> cb_state (breaker_of h (sc_provider sc)) \<noteq> BreakerOpen"
  using executable_viable[of r req sc] by (simp add: chosen_from_def)

lemma chain_tail_part:
  assumes "snap_ok snap" "(if \<not> rq_StrictChain req \<and> tp \<noteq> [] then scoreRecommendTail c clock r tp req seen snap h else ([], h)) = (tail, h')"
  shows "better_first tail" "rq_StrictChain req \<longrightarrow> tail = []" "rh_sticky h' = rh_sticky h"
    "\<forall>sc \<in> set tail. chosen_from r req h' tp sc \<and> sc_key sc \<notin> set seen" "distinct (map sc_key tail)"
    "\<forall>q. cb_state (breaker_of h q) \<noteq> BreakerOpen \<longrightarrow> cb_state (breaker_of h' q) \<noteq> BreakerOpen"
proof -
  have "better_first tail \<and> rh_sticky h' = rh_sticky h \<and> (\<forall>sc \<in> set tail. chosen_from r req h' tp sc \<and> sc_key sc \<notin> set seen)
    \<and> distinct (map sc_key tail) \<and> (\<forall>q. cb_state (breaker_of h q) \<noteq> BreakerOpen \<longrightarrow> cb_state (breaker_of h' q) \<noteq> BreakerOpen)"
  proof (cases "\<not> rq_StrictChain req \<and> tp \<noteq> []")
    case True
    with assms(2) obtain scs where scs: "scoreChainStep c clock r tp req snap h = (scs, h')" and t: "tail = tail_take scs seen"
      by (auto simp: scoreRecommendTail_def split: prod.splits)
    note tt = tail_take_part[of scs seen, folded t] and ok = scoreChainStep_ok[OF assms(1) scs]
    have "set tail \<subseteq> set scs" using tt by (auto elim: list_emb_set)
    then show ?thesis using tt ok better_first_subseq by (auto simp: chosen_from_def)
  qed (use assms(2) in auto)
  then show "better_first tail" "rh_sticky h' = rh_sticky h" "\<forall>sc \<in> set tail. chosen_from r req h' tp sc \<and> sc_key sc \<notin> set seen"
    "distinct (map sc_key tail)" "\<forall>q. cb_state (breaker_of h q) \<noteq> BreakerOpen \<longrightarrow> cb_state (breaker_of h' q) \<noteq> BreakerOpen" by blast+
  show "rq_StrictChain req \<longrightarrow> tail = []" using assms(2) by auto
qed

lemma chain_tail_ranked:
  assumes "snap_ok snap" "(if \<not> rq_StrictChain req \<and> tp \<noteq> [] then scoreRecommendTail c clock r tp req seen snap h else ([], h)) = (taken, h')"
    "set seen = sc_key ` {c \<in> set chain. bd_capabilityGate (sc_bd c)}" "rq_StrictChain req \<longrightarrow> tp = []"
  shows "\<exists>tail. step_ranked r req c tp tail \<and> taken = tail_order chain tail"
proof (cases "tp = []")
  case True
  then show ?thesis using assms(2) by (intro exI[of _ "[]"]) (simp add: step_ranked_def tail_order_def pick_def)
next
  case False
  with assms(2,4) obtain scs where scs: "scoreChainStep c clock r tp req snap h = (scs, h')" and t: "taken = tail_take scs seen"
    by (auto simp: scoreRecommendTail_def split: prod.splits)
  then show ?thesis using scoreChainStep_ranked[OF assms(1) scs] tail_take_order[OF assms(3)] by blast
qed

text \<open>What the two loops offer: viable candidates with breakers that are not open, no model twice.\<close>

lemma chain_offered:
  assumes "snap_ok snap" "chain_loop env k r req snap steps empty_acc h = (acc, h2)"
    "(if \<not> rq_StrictChain req \<and> tp \<noteq> [] then scoreRecommendTail c clock r tp req (ca_seen acc) snap h2 else ([], h2)) = (taken, h')"
  shows "\<forall>sc \<in> set (ca_working acc @ taken). viable r req (sc_profile sc) \<and> cb_state (breaker_of h' (sc_provider sc)) \<noteq> BreakerOpen"
    "distinct (map sc_key (ca_working acc @ taken))" "rh_sticky h' = rh_sticky h"
proof -
  obtain parts where parts: "ca_working acc = concat parts"
      "list_all2 (\<lambda>part ps. better_first part \<and> (\<forall>sc \<in> set part. chosen_from r req h2 ps sc)) parts steps"
    and acc: "\<forall>sc \<in> set (ca_working acc). sc_key sc \<in> set (ca_seen acc)" "distinct (map sc_key (ca_working acc))" "rh_sticky h2 = rh_sticky h"
    using chain_loop_parts[OF assms(1,2)] by (auto simp: empty_acc_def)
  note tail = chain_tail_part[OF assms(1,3)]
  have mono: "chosen_from r req h' ps sc" if "chosen_from r req h2 ps sc" for ps sc using that tail(6) by (auto simp: chosen_from_def)
  have "\<exists>ps. chosen_from r req h' ps sc" if "sc \<in> set (ca_working acc)" for sc
    using that parts mono by (fastforce simp: list_all2_conv_all_nth in_set_conv_nth)
  then show "\<forall>sc \<in> set (ca_working acc @ taken). viable r req (sc_profile sc) \<and> cb_state (breaker_of h' (sc_provider sc)) \<noteq> BreakerOpen"
    using tail(4) chosen_viable by (metis Un_iff set_append)
  have "sc_key a \<noteq> sc_key b" if "a \<in> set (ca_working acc)" "b \<in> set taken" for a b using that acc(1) tail(4) by metis
  then show "distinct (map sc_key (ca_working acc @ taken))" using acc(2) tail(5) by auto
  show "rh_sticky h' = rh_sticky h" using acc(3) tail(3) by simp
qed

section \<open>What a chain guarantees\<close>

lemma chain_plan_Some:
  assumes "chain_plan r req snap acc working errs = (Some plan, None)" and M: "rd_maxFallbacks (rt_defaultOpts r) \<le> MaxInt"
  shows "working \<noteq> [] \<and> pl_Profile plan = sc_profile (hd working) \<and> pl_Score plan = sc_score (hd working) \<and> \<not> pl_wasSticky plan
    \<and> rd_maxFallbacks (rt_defaultOpts r) < MaxInt
    \<and> map pl_Profile (pl_Fallbacks plan) = filter (\<lambda>p. mk_Provider (mp_Key p) \<in> dom (rg_providers (ms_providers (rt_source r))))
        (map sc_profile (take (nat (rd_maxFallbacks (rt_defaultOpts r))) (tl working)))"
proof -
  let ?M = "rd_maxFallbacks (rt_defaultOpts r)"
  have ne: "working \<noteq> []" using assms by (auto simp: chain_plan_def split: if_splits sum.splits)
  have lt: "?M < MaxInt"
  proof (rule ccontr)
    assume "\<not> ?M < MaxInt"
    with M have "?M = MaxInt" by simp
    moreover have "wrap_int (1 + MaxInt) = MinInt" by (simp add: wrap_int_def MaxInt_def MinInt_def)
    moreover have "\<not> MaxInt < 0" by (simp add: not_less)
    ultimately show False using assms(1) ne by (simp add: chain_plan_def Let_def MinInt_def)
  qed
  define m where "m = (if 1 + max 0 ?M > int (length working) then int (length working) - 1 else max 0 ?M)"
  have "0 \<le> m" using ne by (auto simp: m_def Suc_le_eq)
  moreover have "m \<le> max 0 ?M" by (simp add: m_def)
  ultimately have "0 \<le> m" "m < MaxInt" using lt MaxInt_pos(1) by linarith+
  then have w: "wrap_int (1 + m) = 1 + m" "wrap_int (1 + max 0 ?M) = 1 + max 0 ?M" using lt by (auto intro!: wrap_int_nonneg)
  have c: "(if ?M < 0 then 0 else ?M) = max 0 ?M" by auto
  have "take (nat m) (tl working) = take (nat ?M) (tl working)" using ne by (auto simp: m_def max_def)
  moreover have "(if m > 0 then take (nat (1 + m - 1)) (tl working) else []) = take (nat m) (tl working)" by simp
  ultimately have "buildPlan r (hd working) (take (nat ?M) (tl working)) req False snap = Inr plan"
    using assms(1) ne \<open>0 \<le> m\<close> unfolding chain_plan_def Let_def c w(2) m_def[symmetric] w(1) by (simp split: sum.splits)
  from buildPlan_Inr[OF this] ne lt show ?thesis by (auto simp: fallback_plans_profiles)
qed

text \<open>The chain as its selectors resolve, and the recommended models that may follow it: none if the chain is strict or the
  recommendation fails, otherwise those whose key no chain candidate within memory and with the capabilities has.\<close>

definition chain_steps :: "Router \<Rightarrow> RoutingRequest \<Rightarrow> ModelProfile list list" where
  "chain_steps r req = map (map (tool_resolved (rt_source r) (rq_RequiredCaps req))) (chain_successes (rt_source r) (rq_PreferredChain req))"

definition tail_profiles :: "Router \<Rightarrow> RoutingRequest \<Rightarrow> ModelProfile list" where
  "tail_profiles r req =
     (if rq_StrictChain req then []
      else case recommendWithToolCallResolution (rt_source r)
               \<lparr>ro_AvailableRAM = rt_availableRAM r, ro_ContextSize = 0, ro_PreferWarm = rq_PreferWarm req, ro_RestrictToProvider = [], ro_RequiredCaps = 0\<rparr>
               (rq_RequiredCaps req) of
             Inl _ \<Rightarrow> []
           | Inr (ps, _) \<Rightarrow> filter (\<lambda>p. mp_Key p \<notin> marked_keys r req (concat (chain_steps r req))) ps)"


definition chain_chat :: RoutingRequest where
  "chain_chat = sample_chat\<lparr>rq_PreferredChain := [''p/b'', ''p/missing''], rq_StrictChain := True\<rparr>"

lemma chain_chat_route: "\<exists>plan h'. Route sample_env sample_router chain_chat sample_health = ((Some plan, None), h')"
proof -
  have "Option.is_none (snd (fst (Route sample_env sample_router chain_chat sample_health)))
      \<and> \<not> Option.is_none (fst (fst (Route sample_env sample_router chain_chat sample_health)))"
    by code_simp
  then show ?thesis by (metis is_none_simps option.exhaust prod.collapse)
qed


end
