(* ===== verification/Router_Config.thy ===== *)
theory Router_Config
  imports Router_Route
begin

text \<open>
  Construction and life cycle of the router in \<open>provider/router.go\<close>: the options, \<open>NewRouter\<close>, \<open>Close\<close> and the
  observers. The options act on the router and on the validator pointer, which is nil until an option sets it. The slot source and the destination gate are
  no part of the routing state and are left out; the errors of closing the
  warmth and slot sources are arguments.
\<close>

record router_build =
  bl_router :: Router
  bl_tokenBudget :: "TokenBudgetValidator option"

definition with_opts :: "(routerDefaults \<Rightarrow> routerDefaults) \<Rightarrow> router_build \<Rightarrow> router_build" where
  "with_opts f b = b\<lparr>bl_router := (bl_router b)\<lparr>rt_defaultOpts := f (rt_defaultOpts (bl_router b))\<rparr>\<rparr>"

definition WithWarmthSource :: "WarmthSource option \<Rightarrow> router_build \<Rightarrow> router_build" where
  "WithWarmthSource ws b = b\<lparr>bl_router := (bl_router b)\<lparr>rt_warmth := ws\<rparr>\<rparr>"

definition WithStickyTTL :: "duration \<Rightarrow> router_build \<Rightarrow> router_build" where
  "WithStickyTTL d b = (if d > 0 then with_opts (rd_stickyTTL_update (\<lambda>_. d)) b else b)"

definition WithHysteresis :: "f64 \<Rightarrow> router_build \<Rightarrow> router_build" where
  "WithHysteresis margin b =
     (if f_le (F_Fin 0) margin \<and> f_lt margin (F_Fin 1) then with_opts (rd_hysteresisMargin_update (\<lambda>_. margin)) b else b)"

definition WithMaxStickyEntries :: "int \<Rightarrow> router_build \<Rightarrow> router_build" where
  "WithMaxStickyEntries n b = (if n > 0 then with_opts (rd_maxStickyEntries_update (\<lambda>_. n)) b else b)"

definition WithMaxFallbacks :: "int \<Rightarrow> router_build \<Rightarrow> router_build" where
  "WithMaxFallbacks n b = (if n \<ge> 0 then with_opts (rd_maxFallbacks_update (\<lambda>_. n)) b else b)"

definition WithDefaultPriority :: "Priority \<Rightarrow> router_build \<Rightarrow> router_build" where
  "WithDefaultPriority p b = with_opts (rd_defaultPriority_update (\<lambda>_. p)) b"

definition WithWeightOverrides :: "(string \<Rightarrow> WeightProfile option) \<Rightarrow> router_build \<Rightarrow> router_build" where
  "WithWeightOverrides overrides b = with_opts (rd_weightOverrides_update (\<lambda>_. overrides)) b"

definition WithAvailableRAM :: "f64 \<Rightarrow> router_build \<Rightarrow> router_build" where
  "WithAvailableRAM gb b = (if f_lt (F_Fin 0) gb then b\<lparr>bl_router := (bl_router b)\<lparr>rt_availableRAM := gb\<rparr>\<rparr> else b)"

definition WithTokenBudgetValidator :: "TokenBudgetValidator option \<Rightarrow> router_build \<Rightarrow> router_build" where
  "WithTokenBudgetValidator v b = b\<lparr>bl_tokenBudget := v\<rparr>"

text \<open>The loop over the map of defaults changes each key on its own, so its order does not matter.\<close>

definition merge_sampling :: "SamplingDefaults \<Rightarrow> SamplingDefaults \<Rightarrow> SamplingDefaults" where
  "merge_sampling opts merged =
     (let m = (if sd_Temperature opts \<noteq> None then merged\<lparr>sd_Temperature := sd_Temperature opts\<rparr> else merged);
          m = (if sd_TopP opts \<noteq> None then m\<lparr>sd_TopP := sd_TopP opts\<rparr> else m)
      in if sd_TopK opts \<noteq> None then m\<lparr>sd_TopK := sd_TopK opts\<rparr> else m)"

definition WithModelDefaults :: "(ModelKey \<Rightarrow> SamplingDefaults option) \<Rightarrow> router_build \<Rightarrow> router_build" where
  "WithModelDefaults defaults b =
     (let old = rt_modelDefaults (bl_router b);
          new = (\<lambda>key. case defaults key of
                  None \<Rightarrow> old key
                | Some opts \<Rightarrow> Some (merge_sampling opts (case old key of Some d \<Rightarrow> d | None \<Rightarrow> no_defaults)))
      in b\<lparr>bl_router := (bl_router b)\<lparr>rt_modelDefaults := new\<rparr>\<rparr>)"

definition WithFeedbackScoringMode :: "FeedbackScoringMode \<Rightarrow> router_build \<Rightarrow> router_build" where
  "WithFeedbackScoringMode mode b = b\<lparr>bl_router := (bl_router b)\<lparr>rt_feedbackScoringMode := mode\<rparr>\<rparr>"

definition WithFeedbackScoring :: "bool \<Rightarrow> router_build \<Rightarrow> router_build" where
  "WithFeedbackScoring enabled b =
     b\<lparr>bl_router := (bl_router b)\<lparr>rt_feedbackScoringMode := (if enabled then FeedbackScoringEnforce else FeedbackScoringOff)\<rparr>\<rparr>"

definition WithRoutingFeedback :: "feedback_store option \<Rightarrow> router_build \<Rightarrow> router_build" where
  "WithRoutingFeedback rf b = b\<lparr>bl_router := (bl_router b)\<lparr>rt_routingFeedback := rf\<rparr>\<rparr>"

datatype RouterOption =
    OptWarmthSource "WarmthSource option" | OptStickyTTL duration | OptHysteresis f64 | OptMaxStickyEntries int | OptMaxFallbacks int
  | OptDefaultPriority Priority | OptWeightOverrides "string \<Rightarrow> WeightProfile option" | OptAvailableRAM f64
  | OptTokenBudgetValidator "TokenBudgetValidator option" | OptModelDefaults "ModelKey \<Rightarrow> SamplingDefaults option"
  | OptFeedbackScoringMode FeedbackScoringMode | OptFeedbackScoring bool | OptRoutingFeedback "feedback_store option"

fun apply_router_option :: "RouterOption \<Rightarrow> router_build \<Rightarrow> router_build" where
  "apply_router_option (OptWarmthSource ws) = WithWarmthSource ws"
| "apply_router_option (OptStickyTTL d) = WithStickyTTL d"
| "apply_router_option (OptHysteresis m) = WithHysteresis m"
| "apply_router_option (OptMaxStickyEntries n) = WithMaxStickyEntries n"
| "apply_router_option (OptMaxFallbacks n) = WithMaxFallbacks n"
| "apply_router_option (OptDefaultPriority p) = WithDefaultPriority p"
| "apply_router_option (OptWeightOverrides w) = WithWeightOverrides w"
| "apply_router_option (OptAvailableRAM gb) = WithAvailableRAM gb"
| "apply_router_option (OptTokenBudgetValidator v) = WithTokenBudgetValidator v"
| "apply_router_option (OptModelDefaults d) = WithModelDefaults d"
| "apply_router_option (OptFeedbackScoringMode m) = WithFeedbackScoringMode m"
| "apply_router_option (OptFeedbackScoring e) = WithFeedbackScoring e"
| "apply_router_option (OptRoutingFeedback rf) = WithRoutingFeedback rf"

definition initial_build :: "model_source \<Rightarrow> router_build" where
  "initial_build src =
     \<lparr>bl_router = \<lparr>rt_warmth = None, rt_tokenBudget = NewTokenBudgetValidator [], rt_modelDefaults = Map.empty, rt_availableRAM = F_Fin 0,
        rt_defaultOpts = defaultRouterOpts, rt_closed = False, rt_routingFeedback = None, rt_feedbackScoringMode = FeedbackScoringOff,
        rt_source = src\<rparr>, bl_tokenBudget = None\<rparr>"

definition NewRouter :: "model_source \<Rightarrow> RouterOption list \<Rightarrow> Router \<times> router_health" where
  "NewRouter src opts =
     (let b = fold apply_router_option opts (initial_build src);
          r = bl_router b;
          sticky = newStickyCache (rd_stickyTTL (rt_defaultOpts r)) (rd_maxStickyEntries (rt_defaultOpts r))
      in (r\<lparr>rt_tokenBudget := (case bl_tokenBudget b of None \<Rightarrow> NewTokenBudgetValidator [] | Some v \<Rightarrow> v)\<rparr>,
          \<lparr>rh_breakers = [], rh_sticky = sticky\<rparr>))"

text \<open>\<open>Close\<close> runs once; its error joins those of the sources it closes.\<close>

definition Router_Close :: "goerror list \<Rightarrow> Router \<Rightarrow> goerror list \<times> Router" where
  "Router_Close sourceErrs r = (if rt_closed r then ([], r) else (sourceErrs, r\<lparr>rt_closed := True\<rparr>))"

definition Router_BreakerInfo :: "string \<Rightarrow> router_health \<Rightarrow> BreakerInfo option" where
  "Router_BreakerInfo provider h = (case map_of (rh_breakers h) provider of None \<Rightarrow> None | Some cb \<Rightarrow> Some (Info cb))"

definition StickyRoutes :: "gotime \<Rightarrow> router_health \<Rightarrow> (string \<times> StickyRouteInfo) list" where
  "StickyRoutes now h = sticky_snapshot now (rh_sticky h)"

section \<open>Validity of the configuration\<close>

definition build_ok :: "router_build \<Rightarrow> bool" where
  "build_ok b \<longleftrightarrow> (let r = bl_router b; d = rt_defaultOpts r in
     0 < rd_stickyTTL d \<and> f_le (F_Fin 0) (rd_hysteresisMargin d) \<and> f_lt (rd_hysteresisMargin d) (F_Fin 1)
     \<and> 0 < rd_maxStickyEntries d \<and> 0 \<le> rd_maxFallbacks d \<and> f_le (F_Fin 0) (rt_availableRAM r) \<and> \<not> rt_closed r)"

lemmas router_options = WithWarmthSource_def WithStickyTTL_def WithHysteresis_def WithMaxStickyEntries_def WithMaxFallbacks_def
  WithDefaultPriority_def WithWeightOverrides_def WithAvailableRAM_def WithTokenBudgetValidator_def WithModelDefaults_def
  WithFeedbackScoringMode_def WithFeedbackScoring_def WithRoutingFeedback_def with_opts_def

lemma apply_router_option_ok: "build_ok b \<Longrightarrow> build_ok (apply_router_option opt b)"
  by (cases opt) (auto simp: build_ok_def router_options f_le_def Let_def)

lemma fold_router_options_ok: "build_ok b \<Longrightarrow> build_ok (fold apply_router_option opts b)"
  by (induction opts arbitrary: b) (auto intro: apply_router_option_ok)

lemma initial_build_ok: "build_ok (initial_build src)"
proof -
  have "0 \<le> fl (15 / 100)" "fl (15 / 100) \<le> 1 / 2" using fl_bounds[of 0 "15 / 100" "1 / 2"] by (simp_all add: fl_const)
  then show ?thesis by (auto simp: build_ok_def initial_build_def defaultRouterOpts_def nanosecond_per_second_def f_le_def)
qed

text \<open>C31: Whatever options are given, in whatever order, a new router is well configured: a positive sticky time to live that the cache uses,
  a hysteresis margin in the half-open unit interval, a positive cache size, a fallback count and a memory size that are not
  negative; it is open, has no breakers and no sticky routes.\<close>

theorem new_router_well_configured:
  "case NewRouter src opts of (r, h) \<Rightarrow>
     0 < rd_stickyTTL (rt_defaultOpts r) \<and> f_le (F_Fin 0) (rd_hysteresisMargin (rt_defaultOpts r)) \<and> f_lt (rd_hysteresisMargin (rt_defaultOpts r)) (F_Fin 1)
     \<and> 0 < rd_maxStickyEntries (rt_defaultOpts r) \<and> 0 \<le> rd_maxFallbacks (rt_defaultOpts r) \<and> f_le (F_Fin 0) (rt_availableRAM r)
     \<and> \<not> rt_closed r \<and> rh_breakers h = [] \<and> sc_entries (rh_sticky h) = []
     \<and> sc_ttl (rh_sticky h) = rd_stickyTTL (rt_defaultOpts r) \<and> sc_maxEntries (rh_sticky h) = rd_maxStickyEntries (rt_defaultOpts r)"
  using fold_router_options_ok[OF initial_build_ok, of opts src] by (auto simp: NewRouter_def build_ok_def newStickyCache_def Let_def)

text \<open>Closing a router is final: every later route fails with \<open>ErrRouterClosed\<close>, with or without a chain, and changes nothing; closing again does
  nothing and reports no error.\<close>

theorem close_is_final:
  "Route env (snd (Router_Close errs r)) req h = ((None, Some ErrRouterClosed), h)
   \<and> Router_Close errs' (snd (Router_Close errs r)) = ([], snd (Router_Close errs r))"
  by (auto simp: Router_Close_def Route_def)

end
