(* ===== verification/Plan_Outcome.thy ===== *)
theory Plan_Outcome
  imports Router_Route
begin

text \<open>
  What the execution of a plan reports, \<open>provider/route_plan.go\<close>, \<open>provider/route_errors.go\<close> and
  \<open>provider/routing_feedback.go\<close>: attempts and their classification, the outcome with the public score breakdown, the
  decomposition of an outcome into feedback signals, and the requests that a plan sends. The JSON forms and the log
  warnings are not represented; the random route identifier is an argument.
\<close>

section \<open>Attempts\<close>

datatype AttemptStatus = AttemptStatusUnknown | AttemptStatusSucceeded | AttemptStatusFailed

definition AttemptStatus_String :: "AttemptStatus \<Rightarrow> string" where
  "AttemptStatus_String s = (case s of AttemptStatusSucceeded \<Rightarrow> ''succeeded'' | AttemptStatusFailed \<Rightarrow> ''failed'' | AttemptStatusUnknown \<Rightarrow> ''unknown'')"

record RouteAttempt =
  at_Key :: ModelKey
  at_Status :: AttemptStatus
  at_LatencyMs :: int
  at_ErrorClass :: string

definition classifyError :: "goerror option \<Rightarrow> string \<times> AttemptStatus" where
  "classifyError err =
     (case err of
        None \<Rightarrow> ([], AttemptStatusSucceeded)
      | Some e \<Rightarrow>
          if errors_is e ErrCanceled then ([], AttemptStatusUnknown)
          else if errors_is e ErrDeadlineExceeded then (''timeout'', AttemptStatusFailed)
          else if errors_is e ErrOp then (''network'', AttemptStatusFailed)
          else if errors_is e ErrDNS then (''network'', AttemptStatusFailed)
          else case httpStatusCode e of
                 Some statusCode \<Rightarrow>
                   if statusCode = 429 then (''rate_limit'', AttemptStatusFailed)
                   else if statusCode \<ge> 500 \<and> statusCode \<le> 599 then (''5xx'', AttemptStatusFailed)
                   else if statusCode \<ge> 400 \<and> statusCode \<le> 499 then (''4xx'', AttemptStatusFailed)
                   else (''unknown'', AttemptStatusFailed)
               | None \<Rightarrow> (''unknown'', AttemptStatusFailed))"

definition ErrorClassOf :: "goerror option \<Rightarrow> string" where
  "ErrorClassOf err = fst (classifyError err)"

text \<open>\<open>Duration.Milliseconds\<close> truncates toward zero.\<close>

definition clampMs :: "duration \<Rightarrow> int" where
  "clampMs d = (let ms = (if d < 0 then - ((- d) div 1000000) else d div 1000000) in if ms < 0 then 0 else ms)"

definition content_denied :: err_layer where
  "content_denied = ErrOther ''provider: request content denied: configured credential''"

definition makeUnknownAttempt :: "ModelKey \<Rightarrow> duration \<Rightarrow> RouteAttempt" where
  "makeUnknownAttempt key d = \<lparr>at_Key = key, at_Status = AttemptStatusUnknown, at_LatencyMs = clampMs d, at_ErrorClass = []\<rparr>"

definition makeAttempt :: "ModelKey \<Rightarrow> goerror option \<Rightarrow> duration \<Rightarrow> RouteAttempt" where
  "makeAttempt key err d =
     (if (case err of Some e \<Rightarrow> errors_is e content_denied | None \<Rightarrow> False) then makeUnknownAttempt key d
      else case classifyError err of (cls, status) \<Rightarrow> \<lparr>at_Key = key, at_Status = status, at_LatencyMs = clampMs d, at_ErrorClass = cls\<rparr>)"

section \<open>Outcomes\<close>

record ScoreBreakdown =
  sb_FeedbackMode :: string
  sb_FeedbackSnapshotStatus :: string
  sb_FeedbackApplied :: bool
  sb_FeedbackScore :: f64
  sb_FeedbackAdjustedScore :: f64
  sb_FeedbackSampleCount :: int
  sb_FeedbackScoredCount :: int
  sb_FeedbackUpdatedAt :: "gotime option"
  sb_ScoreWithoutFeedback :: f64
  sb_ScoreWithFeedback :: f64

record RouteOutcome =
  oc_PlannedModel :: ModelKey
  oc_ActualModel :: ModelKey
  oc_FallbacksUsed :: int
  oc_WasSticky :: bool
  oc_Score :: f64
  oc_Reason :: string
  oc_UseCase :: string
  oc_Attempts :: "RouteAttempt list"
  oc_RouteID :: string
  oc_ScoreBreakdown :: "ScoreBreakdown option"

definition clip :: "f64 \<Rightarrow> f64 \<Rightarrow> f64 \<Rightarrow> f64" where
  "clip x lo hi = (if f_lt x lo then lo else if f_lt hi x then hi else x)"

definition DefaultNeutralScore :: f64 where
  "DefaultNeutralScore = F_Fin (1 / 2)"

definition sanitizeScoreForJSON :: "f64 \<Rightarrow> f64" where
  "sanitizeScoreForJSON score =
     (if score = F_NaN \<or> score = F_PosInf \<or> score = F_NegInf then DefaultNeutralScore else clip score (F_Fin 0) (F_Fin 1))"

definition feedbackSnapshotStatus_string :: "feedbackSnapshotStatus \<Rightarrow> string" where
  "feedbackSnapshotStatus_string s = (case s of StatusOff \<Rightarrow> ''off'' | StatusNoStore \<Rightarrow> ''no_store'' | StatusEmptyUseCase \<Rightarrow> ''empty_use_case''
     | StatusReadError \<Rightarrow> ''read_error'' | StatusActive \<Rightarrow> ''active'')"

definition publicScoreBreakdown :: "scoreBreakdown \<Rightarrow> FeedbackScoringMode \<Rightarrow> feedbackSnapshotStatus option \<Rightarrow> ScoreBreakdown" where
  "publicScoreBreakdown bd mode status =
     \<lparr>sb_FeedbackMode = FeedbackScoringMode_String mode,
      sb_FeedbackSnapshotStatus = (case status of Some s \<Rightarrow> feedbackSnapshotStatus_string s | None \<Rightarrow> []),
      sb_FeedbackApplied = (bd_feedbackActive bd \<and> mode = FeedbackScoringEnforce),
      sb_FeedbackScore = sanitizeScoreForJSON (bd_feedbackRaw bd), sb_FeedbackAdjustedScore = bd_feedbackAdjusted bd,
      sb_FeedbackSampleCount = bd_feedbackSampleCount bd, sb_FeedbackScoredCount = bd_feedbackScoredCount bd,
      sb_FeedbackUpdatedAt = (if bd_feedbackUpdatedAt bd = zero_time then None else Some (bd_feedbackUpdatedAt bd)),
      sb_ScoreWithoutFeedback = bd_scoreWithoutFeedback bd, sb_ScoreWithFeedback = bd_scoreWithFeedback bd\<rparr>"

abbreviation plan_key :: "'a base_plan_scheme \<Rightarrow> ModelKey" where
  "plan_key p \<equiv> mp_Key (pl_Profile p)"

definition buildOutcome :: "string \<Rightarrow> RoutePlan \<Rightarrow> int \<Rightarrow> RouteAttempt list \<Rightarrow> RouteOutcome" where
  "buildOutcome routeID rp fallbacksUsed attempts =
     \<lparr>oc_PlannedModel = plan_key rp,
      oc_ActualModel = (if attempts \<noteq> [] \<and> at_Status (last attempts) = AttemptStatusSucceeded then at_Key (last attempts) else plan_key rp),
      oc_FallbacksUsed = fallbacksUsed, oc_WasSticky = pl_wasSticky rp, oc_Score = pl_Score rp, oc_Reason = pl_Reason rp,
      oc_UseCase = rq_UseCase (pl_Request rp), oc_Attempts = attempts, oc_RouteID = routeID,
      oc_ScoreBreakdown = (case pl_scoreBreakdown rp of
         Some bd \<Rightarrow> Some (publicScoreBreakdown bd (pl_builtUnderMode rp) (pl_feedbackStatus rp)) | None \<Rightarrow> None)\<rparr>"

section \<open>Feedback signals\<close>

datatype RoutingSignalKind = RoutingSignalSuccess | RoutingSignalFailure | RoutingSignalLatency

record FeedbackSignal =
  sg_Kind :: RoutingSignalKind
  sg_LatencyMs :: int
  sg_ErrorClass :: string
  sg_At :: gotime
  sg_RouteID :: string

record FeedbackItem =
  fi_Key :: FeedbackKey
  fi_Signal :: FeedbackSignal

definition attempt_items :: "gotime \<Rightarrow> string \<Rightarrow> string \<Rightarrow> RouteAttempt \<Rightarrow> FeedbackItem list" where
  "attempt_items now useCase routeID a =
     (let key = \<lparr>fk_Provider = mk_Provider (at_Key a), fk_Model = mk_Model (at_Key a), fk_UseCase = useCase\<rparr>;
          signal = (\<lambda>kind ms cls. \<lparr>fi_Key = key, fi_Signal = \<lparr>sg_Kind = kind, sg_LatencyMs = ms, sg_ErrorClass = cls, sg_At = now, sg_RouteID = routeID\<rparr>\<rparr>);
          latency = (if at_LatencyMs a > 0 then [signal RoutingSignalLatency (at_LatencyMs a) []] else [])
      in case at_Status a of
           AttemptStatusUnknown \<Rightarrow> []
         | AttemptStatusSucceeded \<Rightarrow> signal RoutingSignalSuccess 0 [] # latency
         | AttemptStatusFailed \<Rightarrow> signal RoutingSignalFailure 0 (if at_ErrorClass a = [] then ''unknown'' else at_ErrorClass a) # latency)"

datatype feedback_error = ErrInvalidFeedbackKey | ErrInvalidSignalPayload

text \<open>\<open>RecordOutcome\<close> up to the call of the store: the batch that is handed to it, which is empty when there is nothing to record.\<close>

definition RecordOutcome :: "gotime \<Rightarrow> string \<Rightarrow> RouteOutcome \<Rightarrow> feedback_error + FeedbackItem list" where
  "RecordOutcome now useCase out =
     (if oc_Attempts out = [] then Inr []
      else if useCase = [] then Inl ErrInvalidFeedbackKey
      else if \<exists>a \<in> set (oc_Attempts out). at_LatencyMs a < 0 then Inl ErrInvalidSignalPayload
      else Inr (concat (map (attempt_items now useCase (oc_RouteID out)) (oc_Attempts out))))"

section \<open>Requests\<close>

record ChatRequest =
  cq_Model :: string
  cq_Messages :: "ChatMessage list"
  cq_Options :: ModelOptions
  cq_Tools :: "ProviderTool list"
  cq_Stream :: bool
  cq_ParseThinkMode :: "ThinkMode option"
  cq_ParseThinkTags :: "ThinkTags option"
  cq_SessionID :: string

record GenerateRequest =
  gq_Model :: string
  gq_Prompt :: string
  gq_System :: string
  gq_Suffix :: string
  gq_Options :: ModelOptions
  gq_Stream :: bool

record EmbedRequest =
  eq_Model :: string
  eq_Input :: "string list"

definition buildChatRequest :: "bool \<Rightarrow> 'a base_plan_scheme \<Rightarrow> ChatRequest" where
  "buildChatRequest stream rp =
     (let opts = rq_Options (pl_Request rp);
          mode = mp_ThinkMode (pl_Profile rp);
          mode = (if mode = ThinkToggle \<and> mo_Think opts = None \<and> mo_ThinkEffort opts = [] then ThinkAuto else mode);
          opts = (if mp_ThinkMode (pl_Profile rp) = ThinkNone then opts\<lparr>mo_Think := None, mo_ThinkEffort := []\<rparr> else opts)
      in \<lparr>cq_Model = pl_Model rp, cq_Messages = rq_Messages (pl_Request rp), cq_Options = opts, cq_Tools = rq_Tools (pl_Request rp),
          cq_Stream = stream, cq_ParseThinkMode = Some mode, cq_ParseThinkTags = mp_ThinkTags (pl_Profile rp),
          cq_SessionID = rq_SessionID (pl_Request rp)\<rparr>)"

definition buildGenerateRequest :: "bool \<Rightarrow> 'a base_plan_scheme \<Rightarrow> GenerateRequest" where
  "buildGenerateRequest stream rp =
     \<lparr>gq_Model = pl_Model rp, gq_Prompt = rq_Prompt (pl_Request rp), gq_System = rq_System (pl_Request rp),
      gq_Suffix = rq_Suffix (pl_Request rp), gq_Options = rq_Options (pl_Request rp), gq_Stream = stream\<rparr>"

definition buildEmbedRequest :: "'a base_plan_scheme \<Rightarrow> EmbedRequest" where
  "buildEmbedRequest rp = \<lparr>eq_Model = pl_Model rp, eq_Input = rq_Input (pl_Request rp)\<rparr>"

section \<open>Lemmas\<close>

lemma clampMs_nonneg [simp]: "0 \<le> clampMs d"
  by (simp add: clampMs_def Let_def)

lemma makeAttempt_key [simp]: "at_Key (makeAttempt k e d) = k" "at_Key (makeUnknownAttempt k d) = k"
  by (auto simp: makeAttempt_def makeUnknownAttempt_def split: prod.splits)

lemma makeAttempt_latency [simp]: "0 \<le> at_LatencyMs (makeAttempt k e d)" "0 \<le> at_LatencyMs (makeUnknownAttempt k d)"
  by (auto simp: makeAttempt_def makeUnknownAttempt_def split: prod.splits)

lemma makeAttempt_status: "at_Status (makeAttempt k e d) = AttemptStatusSucceeded \<longleftrightarrow> e = None"
  by (auto simp: makeAttempt_def makeUnknownAttempt_def classifyError_def split: option.splits if_splits)

text \<open>An infrastructure error is always a classified failure.\<close>

lemma infrastructure_failed:
  assumes "IsInfrastructureError (Some e)" "\<not> errors_is e content_denied"
  shows "at_Status (makeAttempt k (Some e) d) = AttemptStatusFailed \<and> at_ErrorClass (makeAttempt k (Some e) d) \<noteq> []"
  using assms by (auto simp: makeAttempt_def classifyError_def IsInfrastructureError_def split: if_splits option.splits)

end
