(* ===== verification/Plan_Execution.thy ===== *)
theory Plan_Execution
  imports Plan_Outcome
begin

text \<open>
  Execution of a plan, \<open>provider/route_plan.go\<close>: \<open>ExecuteChat\<close> and \<open>ExecuteGenerate\<close>, which differ only in the request and the
  provider method and are instances of \<open>execute_plan\<close>, and \<open>ExecuteEmbed\<close>. Attempt 0 is the plan itself, attempt
  \<open>Suc i\<close> its fallback \<open>i\<close>. What the environment answers to an attempt is an argument: the destination gate,
  slot admission, the provider, the clock. The state is the router's health together with a log of events, in the order in
  which the code causes them: permits taken and given back, provider calls, and the signals sent to the recorder.
\<close>

record exec_env =
  xe_bind :: "nat \<Rightarrow> goerror option"
  xe_admit :: "nat \<Rightarrow> goerror option"
  xe_duration :: "nat \<Rightarrow> duration"
  xe_failAt :: "nat \<Rightarrow> gotime"
  xe_routeID :: string
  xe_feedback :: bool
  xe_now :: gotime

record ('q, 'r) call_env = exec_env +
  xe_call :: "nat \<Rightarrow> 'q \<Rightarrow> 'r option \<times> goerror option"

datatype 'q exec_event =
    EvAcquire ModelKey | EvCall nat ModelKey 'q | EvAdmittedCall nat ModelKey 'q | EvRelease ModelKey
  | EvFailure ModelKey goerror | EvSuccess ModelKey | EvWarmth ModelKey | EvSlot ModelKey | EvFeedback "FeedbackItem list"

record 'q exec_state =
  xs_health :: router_health
  xs_events :: "'q exec_event list"

datatype exec_error = ExecBudgetAdaptation | ExecError goerror

definition emit :: "'q exec_event list \<Rightarrow> 'q exec_state \<Rightarrow> 'q exec_state" where
  "emit evs st = st\<lparr>xs_events := xs_events st @ evs\<rparr>"

definition exec_gate :: "'a exec_env_scheme \<Rightarrow> nat \<Rightarrow> goerror option" where
  "exec_gate env i = (case xe_bind env i of Some e \<Rightarrow> Some e | None \<Rightarrow> xe_admit env i)"

definition unwrapAdmissionError :: "goerror option \<Rightarrow> goerror option" where
  "unwrapAdmissionError err =
     (case err of None \<Rightarrow> None
      | Some e \<Rightarrow> if errors_is e ErrAdmission then Some (tl (dropWhile (\<lambda>l. l \<noteq> ErrAdmission) e)) else Some e)"

text \<open>The recorder of a plan is the router.\<close>

definition record_failure :: "'a exec_env_scheme \<Rightarrow> nat \<Rightarrow> ModelKey \<Rightarrow> goerror \<Rightarrow> 'q exec_state \<Rightarrow> 'q exec_state" where
  "record_failure env i key err st =
     emit [EvFailure key err] (st\<lparr>xs_health := Router_RecordFailure (xe_failAt env i) key (Some err) (xs_health st)\<rparr>)"

definition recordOutcomeFeedback :: "'a exec_env_scheme \<Rightarrow> RoutePlan \<Rightarrow> RouteOutcome \<Rightarrow> 'q exec_state \<Rightarrow> 'q exec_state" where
  "recordOutcomeFeedback env rp outcome st =
     (if \<not> xe_feedback env \<or> rq_UseCase (pl_Request rp) = [] then st
      else case RecordOutcome (xe_now env) (rq_UseCase (pl_Request rp)) outcome of
             Inl _ \<Rightarrow> st
           | Inr items \<Rightarrow> if items = [] then st else emit [EvFeedback items] st)"

definition recordResult :: "'a exec_env_scheme \<Rightarrow> RoutePlan \<Rightarrow> goerror option \<Rightarrow> RouteAttempt list \<Rightarrow> RouteOutcome \<Rightarrow> 'q exec_state \<Rightarrow> 'q exec_state" where
  "recordResult env rp err attempts outcome st =
     (let actualKey = (if attempts \<noteq> [] then at_Key (last attempts) else plan_key rp);
          st = (case err of
                  None \<Rightarrow> emit [EvSuccess actualKey, EvWarmth actualKey, EvSlot actualKey] (st\<lparr>xs_health := Router_RecordSuccess actualKey (xs_health st)\<rparr>)
                | Some e \<Rightarrow>
                    if errors_is e ErrAdmission then st
                    else if errors_is e ErrCanceled \<or> errors_is e ErrDeadlineExceeded then emit [EvWarmth actualKey] st
                    else st)
      in recordOutcomeFeedback env rp outcome st)"

definition handleResult :: "'a exec_env_scheme \<Rightarrow> RoutePlan \<Rightarrow> goerror option \<Rightarrow> int \<Rightarrow> RouteAttempt list \<Rightarrow> 'q exec_state \<Rightarrow> RouteOutcome \<times> 'q exec_state" where
  "handleResult env rp err fallbacksUsed attempts st =
     (let outcome = buildOutcome (xe_routeID env) rp fallbacksUsed attempts
      in (outcome, recordResult env rp err attempts outcome st))"

section \<open>Chat and generate\<close>

definition attempt_call :: "('q, 'r) call_env \<Rightarrow> nat \<Rightarrow> ModelKey \<Rightarrow> 'q \<Rightarrow> 'q exec_state \<Rightarrow> ('r option \<times> goerror option) \<times> RouteAttempt \<times> 'q exec_state" where
  "attempt_call env i key req st =
     (let (resp, err) = xe_call env i req
      in ((resp, err), makeAttempt key err (xe_duration env i), emit [EvAcquire key, EvCall i key req, EvRelease key] st))"

fun fallback_walk :: "('q, 'r) call_env \<Rightarrow> (base_plan \<Rightarrow> 'q) \<Rightarrow> nat \<Rightarrow> base_plan list \<Rightarrow> 'r option \<Rightarrow> goerror option \<Rightarrow> RouteAttempt list \<Rightarrow> 'q exec_state
    \<Rightarrow> 'r option \<times> goerror option \<times> int \<times> RouteAttempt list \<times> 'q exec_state" where
  "fallback_walk env build i [] resp err attempts st = (resp, err, 0, attempts, st)"
| "fallback_walk env build i (fb # fbs) resp err attempts st =
     (case exec_gate env (Suc i) of
        Some e \<Rightarrow> (resp, Some (ErrAdmission # e), 0, attempts, st)
      | None \<Rightarrow>
          let ((resp, err), a, st) = attempt_call env (Suc i) (plan_key fb) (build fb) st;
              attempts = attempts @ [a]
          in case err of
               None \<Rightarrow> (resp, None, int i + 1, attempts, st)
             | Some e \<Rightarrow>
                 if IsInfrastructureError (Some e)
                 then fallback_walk env build (Suc i) fbs resp err attempts (record_failure env (Suc i) (plan_key fb) e st)
                 else (resp, err, 0, attempts, st))"

definition execute_plan :: "('q, 'r) call_env \<Rightarrow> (base_plan \<Rightarrow> 'q) \<Rightarrow> RoutePlan \<Rightarrow> 'q exec_state
    \<Rightarrow> (('r \<times> RouteOutcome) option \<times> exec_error option) \<times> 'q exec_state" where
  "execute_plan env build rp st =
     (if br_Decision (pl_Budget rp) = BudgetTruncate then ((None, Some ExecBudgetAdaptation), st)
      else case exec_gate env 0 of
             Some e \<Rightarrow> ((None, Some (ExecError e)), st)
           | None \<Rightarrow>
               let ((resp, err), a, st) = attempt_call env 0 (plan_key rp) (build (base_plan.truncate rp)) st;
                   (resp, err, fallbacksUsed, attempts, st) =
                     (case err of
                        Some e \<Rightarrow>
                          if IsInfrastructureError (Some e)
                          then fallback_walk env build 0 (pl_Fallbacks rp) resp err [a] (record_failure env 0 (plan_key rp) e st)
                          else (resp, err, 0, [a], st)
                      | None \<Rightarrow> (resp, err, 0, [a], st));
                   (outcome, st) = handleResult env rp err fallbacksUsed attempts st
               in ((map_option (\<lambda>r. (r, outcome)) resp, map_option ExecError (unwrapAdmissionError err)), st))"

definition ExecuteChat :: "(ChatRequest, 'r) call_env \<Rightarrow> RoutePlan \<Rightarrow> ChatRequest exec_state
    \<Rightarrow> (('r \<times> RouteOutcome) option \<times> exec_error option) \<times> ChatRequest exec_state" where
  "ExecuteChat env rp st = execute_plan env (buildChatRequest False) rp st"

definition ExecuteGenerate :: "(GenerateRequest, 'r) call_env \<Rightarrow> RoutePlan \<Rightarrow> GenerateRequest exec_state
    \<Rightarrow> (('r \<times> RouteOutcome) option \<times> exec_error option) \<times> GenerateRequest exec_state" where
  "ExecuteGenerate env rp st = execute_plan env (buildGenerateRequest False) rp st"

section \<open>Embeddings\<close>

text \<open>A provider that admits inside its own deduplicated flight makes the call without a permit of the route; its
  admission failure comes back wrapped.\<close>

record 'r embed_env = exec_env +
  xe_admitted :: "nat \<Rightarrow> bool"
  xe_ctxDead :: "nat \<Rightarrow> bool"
  xe_embed :: "nat \<Rightarrow> EmbedRequest \<Rightarrow> 'r option \<times> goerror option"

definition embed_attempt :: "'r embed_env \<Rightarrow> nat \<Rightarrow> ModelKey \<Rightarrow> EmbedRequest \<Rightarrow> 'r option \<Rightarrow> EmbedRequest exec_state
    \<Rightarrow> 'r option \<times> (goerror + goerror option \<times> RouteAttempt) \<times> EmbedRequest exec_state" where
  "embed_attempt env i key req resp st =
     (let (resp', err) = xe_embed env i req
      in if xe_admitted env i
         then if xe_ctxDead env i \<and> xe_admit env i \<noteq> None then (resp, Inl (the (xe_admit env i)), st)
              else let st = (if xe_ctxDead env i then emit [EvAcquire key, EvRelease key] st else st);
                       st = emit [EvAdmittedCall i key req] st
                   in if (case err of Some e \<Rightarrow> errors_is e ErrAdmission | None \<Rightarrow> False)
                      then (resp', Inl (the (unwrapAdmissionError err)), st)
                      else (resp', Inr (err, makeAttempt key err (xe_duration env i)), st)
         else case xe_admit env i of
                Some e \<Rightarrow> (resp, Inl e, st)
              | None \<Rightarrow> (resp', Inr (err, makeAttempt key err (xe_duration env i)), emit [EvAcquire key, EvCall i key req, EvRelease key] st))"

fun embed_walk :: "'r embed_env \<Rightarrow> nat \<Rightarrow> base_plan list \<Rightarrow> 'r option \<Rightarrow> goerror option \<Rightarrow> RouteAttempt list \<Rightarrow> EmbedRequest exec_state
    \<Rightarrow> 'r option \<times> goerror option \<times> int \<times> RouteAttempt list \<times> EmbedRequest exec_state" where
  "embed_walk env i [] resp err attempts st = (resp, err, 0, attempts, st)"
| "embed_walk env i (fb # fbs) resp err attempts st =
     (case xe_bind env (Suc i) of
        Some e \<Rightarrow> (resp, Some (ErrAdmission # e), 0, attempts, st)
      | None \<Rightarrow>
          case embed_attempt env (Suc i) (plan_key fb) (buildEmbedRequest fb) resp st of
            (resp, Inl e, st) \<Rightarrow> (resp, Some (ErrAdmission # e), 0, attempts, st)
          | (resp, Inr (err, a), st) \<Rightarrow>
              (case err of
                 None \<Rightarrow> (resp, None, int i + 1, attempts @ [a], st)
               | Some e \<Rightarrow>
                   if IsInfrastructureError (Some e)
                   then embed_walk env (Suc i) fbs resp err (attempts @ [a]) (record_failure env (Suc i) (plan_key fb) e st)
                   else (resp, err, 0, attempts @ [a], st)))"

definition ExecuteEmbed :: "'r embed_env \<Rightarrow> RoutePlan \<Rightarrow> EmbedRequest exec_state
    \<Rightarrow> (('r \<times> RouteOutcome) option \<times> exec_error option) \<times> EmbedRequest exec_state" where
  "ExecuteEmbed env rp st =
     (if br_Decision (pl_Budget rp) = BudgetTruncate then ((None, Some ExecBudgetAdaptation), st)
      else case xe_bind env 0 of
             Some e \<Rightarrow> ((None, Some (ExecError e)), st)
           | None \<Rightarrow>
               case embed_attempt env 0 (plan_key rp) (buildEmbedRequest rp) None st of
                 (_, Inl e, st) \<Rightarrow> ((None, Some (ExecError e)), st)
               | (resp, Inr (err, a), st) \<Rightarrow>
                   let (resp, err, fallbacksUsed, attempts, st) =
                         (case err of
                            Some e \<Rightarrow>
                              if IsInfrastructureError (Some e)
                              then embed_walk env 0 (pl_Fallbacks rp) resp err [a] (record_failure env 0 (plan_key rp) e st)
                              else (resp, err, 0, [a], st)
                          | None \<Rightarrow> (resp, err, 0, [a], st));
                       (outcome, st) = handleResult env rp err fallbacksUsed attempts st
                   in ((map_option (\<lambda>r. (r, outcome)) resp, map_option ExecError (unwrapAdmissionError err)), st))"

section \<open>What an execution does\<close>

abbreviation plan_list :: "RoutePlan \<Rightarrow> base_plan list" where
  "plan_list rp \<equiv> base_plan.truncate rp # pl_Fallbacks rp"

definition call_resp :: "('q, 'r) call_env \<Rightarrow> (base_plan \<Rightarrow> 'q) \<Rightarrow> base_plan list \<Rightarrow> nat \<Rightarrow> 'r option" where
  "call_resp env build ps j = fst (xe_call env j (build (ps ! j)))"

definition call_err :: "('q, 'r) call_env \<Rightarrow> (base_plan \<Rightarrow> 'q) \<Rightarrow> base_plan list \<Rightarrow> nat \<Rightarrow> goerror option" where
  "call_err env build ps j = snd (xe_call env j (build (ps ! j)))"

abbreviation infra_at :: "('q, 'r) call_env \<Rightarrow> (base_plan \<Rightarrow> 'q) \<Rightarrow> base_plan list \<Rightarrow> nat \<Rightarrow> bool" where
  "infra_at env build ps j \<equiv> IsInfrastructureError (call_err env build ps j)"

definition attempt_at :: "('q, 'r) call_env \<Rightarrow> (base_plan \<Rightarrow> 'q) \<Rightarrow> base_plan list \<Rightarrow> nat \<Rightarrow> RouteAttempt" where
  "attempt_at env build ps j = makeAttempt (plan_key (ps ! j)) (call_err env build ps j) (xe_duration env j)"

text \<open>The log of one attempt: the permit, the call, the permit back, and a failure signal exactly for an infrastructure error.\<close>

definition attempt_events :: "('q, 'r) call_env \<Rightarrow> (base_plan \<Rightarrow> 'q) \<Rightarrow> base_plan list \<Rightarrow> nat \<Rightarrow> 'q exec_event list" where
  "attempt_events env build ps j =
     [EvAcquire (plan_key (ps ! j)), EvCall j (plan_key (ps ! j)) (build (ps ! j)), EvRelease (plan_key (ps ! j))]
     @ (if infra_at env build ps j then [EvFailure (plan_key (ps ! j)) (the (call_err env build ps j))] else [])"

text \<open>The first \<open>n\<close> plans are contacted: all pass the gates, all but the last fail with an infrastructure error, and the
  walk does not stop early.\<close>

definition walked :: "('q, 'r) call_env \<Rightarrow> (base_plan \<Rightarrow> 'q) \<Rightarrow> base_plan list \<Rightarrow> nat \<Rightarrow> bool" where
  "walked env build ps n \<longleftrightarrow> 1 \<le> n \<and> n \<le> length ps \<and> (\<forall>j < n. exec_gate env j = None) \<and> (\<forall>j. Suc j < n \<longrightarrow> infra_at env build ps j)
     \<and> (infra_at env build ps (n - 1) \<longrightarrow> n = length ps \<or> exec_gate env n \<noteq> None)"

definition walk_error :: "('q, 'r) call_env \<Rightarrow> (base_plan \<Rightarrow> 'q) \<Rightarrow> base_plan list \<Rightarrow> nat \<Rightarrow> goerror option" where
  "walk_error env build ps n =
     (if infra_at env build ps (n - 1) \<and> n < length ps then Some (ErrAdmission # the (exec_gate env n)) else call_err env build ps (n - 1))"

lemma emit_simps [simp]: "xs_events (emit evs st) = xs_events st @ evs" "xs_health (emit evs st) = xs_health st"
  by (simp_all add: emit_def)

lemma record_failure_events [simp]: "xs_events (record_failure env i k e st) = xs_events st @ [EvFailure k e]"
  by (simp add: record_failure_def)

lemma infra_Some: "IsInfrastructureError e \<Longrightarrow> \<exists>x. e = Some x"
  by (cases e) (auto simp: IsInfrastructureError_def)

lemma attempt_call_at:
  "attempt_call env j (plan_key (ps ! j)) (build (ps ! j)) st =
     ((call_resp env build ps j, call_err env build ps j), attempt_at env build ps j,
      emit [EvAcquire (plan_key (ps ! j)), EvCall j (plan_key (ps ! j)) (build (ps ! j)), EvRelease (plan_key (ps ! j))] st)"
  by (simp add: attempt_call_def call_resp_def call_err_def attempt_at_def split_beta)

lemma fallback_walk_spec:
  assumes "fallback_walk env build i fbs resp err attempts st = (resp', err', used, attempts', st')"
    and "fbs = drop (Suc i) ps" "Suc i \<le> length ps"
    and "\<forall>j \<le> i. exec_gate env j = None \<and> infra_at env build ps j"
    and "resp = call_resp env build ps i" "err = call_err env build ps i"
    and "attempts = map (attempt_at env build ps) [0..<Suc i]" "xs_events st = evs @ concat (map (attempt_events env build ps) [0..<Suc i])"
  shows "\<exists>n. walked env build ps n \<and> resp' = call_resp env build ps (n - 1) \<and> err' = walk_error env build ps n
    \<and> used = (if call_err env build ps (n - 1) = None then int (n - 1) else 0)
    \<and> attempts' = map (attempt_at env build ps) [0..<n] \<and> xs_events st' = evs @ concat (map (attempt_events env build ps) [0..<n])"
  using assms
proof (induction fbs arbitrary: i resp err attempts st)
  case Nil
  then have len: "length ps = Suc i" by simp
  have infra: "infra_at env build ps i" "call_err env build ps i \<noteq> None" using Nil.prems(4) infra_Some by (auto simp del: not_None_eq)
  have "walked env build ps (Suc i)" using Nil.prems(4) len by (simp add: walked_def less_Suc_eq_le)
  moreover have "walk_error env build ps (Suc i) = call_err env build ps i" using len by (simp add: walk_error_def)
  ultimately show ?case using Nil.prems(1,5-8) infra by (intro exI[of _ "Suc i"]) auto
next
  case (Cons fb fbs)
  have drop: "drop (Suc i) ps = fb # fbs" using Cons.prems(2) by simp
  then have len: "Suc i < length ps" by (metis drop_all linorder_not_less list.distinct(1))
  have "ps ! Suc i # drop (Suc (Suc i)) ps = fb # fbs" using drop Cons_nth_drop_Suc [OF len] by simp
  then have fb: "fb = ps ! Suc i" and fbs: "fbs = drop (Suc (Suc i)) ps" by simp_all
  show ?case
  proof (cases "exec_gate env (Suc i)")
    case (Some e)
    have infra: "infra_at env build ps i" "call_err env build ps i \<noteq> None" using Cons.prems(4) infra_Some by (auto simp del: not_None_eq)
    have "walked env build ps (Suc i)" using Cons.prems(4) len Some by (simp add: walked_def less_Suc_eq_le)
    moreover have "walk_error env build ps (Suc i) = Some (ErrAdmission # e)" using infra len Some by (simp add: walk_error_def)
    ultimately show ?thesis using Some Cons.prems(1,5-8) infra by (intro exI[of _ "Suc i"]) auto
  next
    case None
    let ?st = "emit [EvAcquire (plan_key fb), EvCall (Suc i) (plan_key fb) (build fb), EvRelease (plan_key fb)] st"
    let ?atts = "map (attempt_at env build ps) [0..<Suc (Suc i)]"
    have at: "attempt_call env (Suc i) (plan_key fb) (build fb) st = ((call_resp env build ps (Suc i), call_err env build ps (Suc i)), attempt_at env build ps (Suc i), ?st)"
      unfolding fb by (rule attempt_call_at)
    have gates: "\<forall>j \<le> Suc i. exec_gate env j = None" using Cons.prems(4) None by (auto simp: le_Suc_eq)
    show ?thesis
    proof (cases "infra_at env build ps (Suc i)")
      case True
      then obtain x where x: "call_err env build ps (Suc i) = Some x" using infra_Some by blast
      have walk: "fallback_walk env build (Suc i) fbs (call_resp env build ps (Suc i)) (call_err env build ps (Suc i)) ?atts (record_failure env (Suc i) (plan_key fb) x ?st)
          = (resp', err', used, attempts', st')"
        using Cons.prems(1,7) None at True x by simp
      have pre: "\<forall>j \<le> Suc i. exec_gate env j = None \<and> infra_at env build ps j" using gates Cons.prems(4) True by (auto simp: le_Suc_eq)
      have evs: "xs_events (record_failure env (Suc i) (plan_key fb) x ?st) = evs @ concat (map (attempt_events env build ps) [0..<Suc (Suc i)])"
        using Cons.prems(8) True x fb by (simp add: attempt_events_def [of env build ps "Suc i"])
      show ?thesis by (rule Cons.IH [OF walk fbs _ pre refl refl refl evs]) (use len in simp)
    next
      case False
      then have res: "resp' = call_resp env build ps (Suc i)" "err' = call_err env build ps (Suc i)" "attempts' = ?atts" "st' = ?st"
          "used = (if call_err env build ps (Suc i) = None then int (Suc i) else 0)"
        using Cons.prems(1,7) None at by (cases "call_err env build ps (Suc i)"; auto simp: Let_def)+
      have "walked env build ps (Suc (Suc i))" using len gates False Cons.prems(4) by (auto simp: walked_def less_Suc_eq_le)
      then show ?thesis using res False Cons.prems(8) fb
        by (intro exI[of _ "Suc (Suc i)"]) (auto simp: walk_error_def attempt_events_def [of env build ps "Suc i"])
    qed
  qed
qed

text \<open>The signals sent once the walk is over, for the model of the last attempt.\<close>

definition result_signals :: "ModelKey \<Rightarrow> goerror option \<Rightarrow> 'q exec_event list" where
  "result_signals k err =
     (case err of
        None \<Rightarrow> [EvSuccess k, EvWarmth k, EvSlot k]
      | Some e \<Rightarrow> if \<not> errors_is e ErrAdmission \<and> (errors_is e ErrCanceled \<or> errors_is e ErrDeadlineExceeded) then [EvWarmth k] else [])"

definition feedback_events :: "'a exec_env_scheme \<Rightarrow> RoutePlan \<Rightarrow> RouteAttempt list \<Rightarrow> 'q exec_event list" where
  "feedback_events env rp attempts =
     (let items = concat (map (attempt_items (xe_now env) (rq_UseCase (pl_Request rp)) (xe_routeID env)) attempts)
      in if \<not> xe_feedback env \<or> rq_UseCase (pl_Request rp) = [] \<or> items = [] then [] else [EvFeedback items])"

lemma handleResult_spec:
  fixes st :: "'q exec_state"
  assumes "handleResult env rp err used attempts st = (outcome, st')" "attempts \<noteq> []" "\<forall>a \<in> set attempts. 0 \<le> at_LatencyMs a"
  shows "outcome = buildOutcome (xe_routeID env) rp used attempts"
    and "xs_events st' = xs_events st @ result_signals (at_Key (last attempts)) err @ feedback_events env rp attempts"
proof -
  show outcome: "outcome = buildOutcome (xe_routeID env) rp used attempts" using assms(1) by (simp add: handleResult_def Let_def)
  have "\<not> (\<exists>a \<in> set attempts. at_LatencyMs a < 0)" using assms(3) by force
  then have fb: "xs_events (recordOutcomeFeedback env rp outcome s) = xs_events s @ feedback_events env rp attempts" for s :: "'q exec_state"
    using assms(2) outcome by (simp add: recordOutcomeFeedback_def feedback_events_def RecordOutcome_def buildOutcome_def Let_def)
  show "xs_events st' = xs_events st @ result_signals (at_Key (last attempts)) err @ feedback_events env rp attempts"
    using assms(1,2) fb outcome
    by (auto simp: handleResult_def recordResult_def result_signals_def Let_def split: option.splits)
qed

lemma execute_plan_spec:
  assumes ok: "br_Decision (pl_Budget rp) \<noteq> BudgetTruncate" "exec_gate env 0 = None"
    and run: "execute_plan env build rp st = ((out, err), st')"
  shows "\<exists>n. walked env build (plan_list rp) n
    \<and> out = map_option (\<lambda>r. (r, buildOutcome (xe_routeID env) rp (if call_err env build (plan_list rp) (n - 1) = None then int (n - 1) else 0)
              (map (attempt_at env build (plan_list rp)) [0..<n]))) (call_resp env build (plan_list rp) (n - 1))
    \<and> err = map_option ExecError (unwrapAdmissionError (walk_error env build (plan_list rp) n))
    \<and> xs_events st' = xs_events st @ concat (map (attempt_events env build (plan_list rp)) [0..<n])
         @ result_signals (plan_key (plan_list rp ! (n - 1))) (walk_error env build (plan_list rp) n)
         @ feedback_events env rp (map (attempt_at env build (plan_list rp)) [0..<n])"
proof -
  let ?ps = "plan_list rp"
  let ?e0 = "call_err env build ?ps 0"
  let ?st0 = "emit [EvAcquire (plan_key rp), EvCall 0 (plan_key rp) (build (base_plan.truncate rp)), EvRelease (plan_key rp)] st"
  have key: "plan_key (base_plan.truncate rp) = plan_key rp" by (simp add: base_plan.truncate_def)
  have at: "attempt_call env 0 (plan_key rp) (build (base_plan.truncate rp)) st = ((call_resp env build ?ps 0, ?e0), attempt_at env build ?ps 0, ?st0)"
    using attempt_call_at [of env 0 ?ps build st] key by simp
  define w where "w = (case ?e0 of
      Some e \<Rightarrow> if IsInfrastructureError (Some e)
        then fallback_walk env build 0 (pl_Fallbacks rp) (call_resp env build ?ps 0) ?e0 [attempt_at env build ?ps 0] (record_failure env 0 (plan_key rp) e ?st0)
        else (call_resp env build ?ps 0, ?e0, 0, [attempt_at env build ?ps 0], ?st0)
    | None \<Rightarrow> (call_resp env build ?ps 0, ?e0, 0, [attempt_at env build ?ps 0], ?st0))"
  obtain resp werr used atts st1 where w: "w = (resp, werr, used, atts, st1)" by (cases w)
  obtain outcome where h: "handleResult env rp werr used atts st1 = (outcome, st')"
      and out: "out = map_option (\<lambda>r. (r, outcome)) resp" and err: "err = map_option ExecError (unwrapAdmissionError werr)"
    using run ok at w unfolding w_def by (auto simp: execute_plan_def Let_def split: prod.splits option.splits)
  have "\<exists>n. walked env build ?ps n \<and> resp = call_resp env build ?ps (n - 1) \<and> werr = walk_error env build ?ps n
      \<and> used = (if call_err env build ?ps (n - 1) = None then int (n - 1) else 0)
      \<and> atts = map (attempt_at env build ?ps) [0..<n] \<and> xs_events st1 = xs_events st @ concat (map (attempt_events env build ?ps) [0..<n])"
  proof (cases "infra_at env build ?ps 0")
    case True
    then obtain e where e: "?e0 = Some e" using infra_Some by blast
    have walk: "fallback_walk env build 0 (pl_Fallbacks rp) (call_resp env build ?ps 0) ?e0 [attempt_at env build ?ps 0] (record_failure env 0 (plan_key rp) e ?st0)
        = (resp, werr, used, atts, st1)"
      using w True e by (simp add: w_def)
    show ?thesis
      by (rule fallback_walk_spec [OF walk]) (use True ok(2) e key in \<open>simp_all add: attempt_events_def\<close>)
  next
    case False
    then have "w = (call_resp env build ?ps 0, ?e0, 0, [attempt_at env build ?ps 0], ?st0)" by (auto simp: w_def split: option.splits)
    moreover have "walked env build ?ps 1" "walk_error env build ?ps 1 = ?e0" using False ok(2) by (simp_all add: walked_def walk_error_def)
    ultimately show ?thesis using w False key by (intro exI[of _ 1]) (auto simp: attempt_events_def)
  qed
  then obtain n where n: "walked env build ?ps n" "resp = call_resp env build ?ps (n - 1)" "werr = walk_error env build ?ps n"
      "used = (if call_err env build ?ps (n - 1) = None then int (n - 1) else 0)" "atts = map (attempt_at env build ?ps) [0..<n]"
      "xs_events st1 = xs_events st @ concat (map (attempt_events env build ?ps) [0..<n])" by blast
  have pos: "0 < n" using n(1) by (simp add: walked_def)
  then have atts: "atts \<noteq> []" "\<forall>a \<in> set atts. 0 \<le> at_LatencyMs a" "at_Key (last atts) = plan_key (?ps ! (n - 1))"
    using n(5) by (auto simp: attempt_at_def last_map)
  show ?thesis using n out err handleResult_spec [OF h atts(1,2)] atts(3) by (intro exI[of _ n]) simp
qed

section \<open>Permits\<close>

text \<open>A monitor over the log: which permit the plan holds. A call needs the permit of its own model, a second permit may not be
  taken while one is held, and signals are sent with no permit held.\<close>

fun permit_scan :: "ModelKey option \<Rightarrow> 'q exec_event list \<Rightarrow> ModelKey option option" where
  "permit_scan held [] = Some held"
| "permit_scan held (EvAcquire k # evs) = (if held = None then permit_scan (Some k) evs else None)"
| "permit_scan held (EvCall i k q # evs) = (if held = Some k then permit_scan held evs else None)"
| "permit_scan held (EvRelease k # evs) = (if held = Some k then permit_scan None evs else None)"
| "permit_scan held (ev # evs) = (if held = None then permit_scan None evs else None)"

lemma permit_scan_append: "permit_scan h (xs @ ys) = (case permit_scan h xs of None \<Rightarrow> None | Some h' \<Rightarrow> permit_scan h' ys)"
  by (induction h xs rule: permit_scan.induct) auto

abbreviation permits_clean :: "'q exec_state \<Rightarrow> bool" where
  "permits_clean st \<equiv> permit_scan None (xs_events st) = Some None"

lemma clean_record_failure: "permits_clean st \<Longrightarrow> permits_clean (record_failure env i k e st)"
  by (simp add: permit_scan_append)

lemma clean_attempt_call: "attempt_call env i k q st = (r, a, st') \<Longrightarrow> permits_clean st \<Longrightarrow> permits_clean st'"
  by (auto simp: attempt_call_def permit_scan_append split: prod.splits)

lemma clean_embed_attempt: "embed_attempt env i k q r st = (r', x, st') \<Longrightarrow> permits_clean st \<Longrightarrow> permits_clean st'"
  by (auto simp: embed_attempt_def permit_scan_append Let_def split: prod.splits if_splits option.splits)

lemma clean_handleResult: "handleResult env rp err n atts st = (oc, st') \<Longrightarrow> permits_clean st \<Longrightarrow> permits_clean st'"
  by (auto simp: handleResult_def recordResult_def recordOutcomeFeedback_def permit_scan_append Let_def split: option.splits sum.splits)

lemma clean_fallback_walk:
  "fallback_walk env build i fbs resp err atts st = (resp', err', n, atts', st') \<Longrightarrow> permits_clean st \<Longrightarrow> permits_clean st'"
proof (induction fbs arbitrary: i resp err atts st)
  case (Cons fb fbs)
  from Cons.prems show ?case
    by (auto simp: Let_def simp del: record_failure_events split: option.splits prod.splits if_splits
        dest: clean_attempt_call intro: Cons.IH [OF _ clean_record_failure])
qed simp

lemma clean_embed_walk:
  "embed_walk env i fbs resp err atts st = (resp', err', n, atts', st') \<Longrightarrow> permits_clean st \<Longrightarrow> permits_clean st'"
proof (induction fbs arbitrary: i resp err atts st)
  case (Cons fb fbs)
  from Cons.prems show ?case
    by (auto simp del: record_failure_events split: option.splits prod.splits sum.splits if_splits
        dest: clean_embed_attempt intro: Cons.IH [OF _ clean_record_failure])
qed simp

lemma clean_execute_plan: "permits_clean st \<Longrightarrow> permits_clean (snd (execute_plan env build rp st))"
  by (auto simp: execute_plan_def Let_def simp del: record_failure_events split: option.splits prod.splits if_splits
      intro: clean_record_failure dest: clean_attempt_call clean_fallback_walk [OF _ clean_record_failure] clean_handleResult)

lemma clean_ExecuteEmbed: "permits_clean st \<Longrightarrow> permits_clean (snd (ExecuteEmbed env rp st))"
  by (auto simp: ExecuteEmbed_def Let_def simp del: record_failure_events split: option.splits prod.splits sum.splits if_splits
      dest: clean_embed_attempt clean_embed_walk [OF _ clean_record_failure] clean_handleResult)

section \<open>Guarantees\<close>

text \<open>C5: Executing a chat plan whose budget needs no adaptation and whose destination is admitted contacts a prefix of the plan and
  its fallbacks in order, one call each under the request built for that model: every model but the last one contacted failed with an
  infrastructure error, and the walk goes on after such an error unless the chain is exhausted or the next gate refuses. The caller gets the
  response and error of the last call (the bare gate error when a gate stopped the walk), the outcome has one attempt per call and the number
  of the fallback that served. A failure signal is sent exactly for each infrastructure error, success exactly when the
  last call succeeded, warmth alone when it was cancelled, and the feedback batch last.\<close>

theorem execute_failover:
  assumes "br_Decision (pl_Budget rp) \<noteq> BudgetTruncate" "exec_gate env 0 = None"
    and "ExecuteChat env rp st = ((out, err), st')"
  shows "\<exists>n. walked env (buildChatRequest False) (plan_list rp) n
    \<and> out = map_option (\<lambda>r. (r, buildOutcome (xe_routeID env) rp
              (if call_err env (buildChatRequest False) (plan_list rp) (n - 1) = None then int (n - 1) else 0)
              (map (attempt_at env (buildChatRequest False) (plan_list rp)) [0..<n]))) (call_resp env (buildChatRequest False) (plan_list rp) (n - 1))
    \<and> err = map_option ExecError (unwrapAdmissionError (walk_error env (buildChatRequest False) (plan_list rp) n))
    \<and> xs_events st' = xs_events st @ concat (map (attempt_events env (buildChatRequest False) (plan_list rp)) [0..<n])
         @ result_signals (plan_key (plan_list rp ! (n - 1))) (walk_error env (buildChatRequest False) (plan_list rp) n)
         @ feedback_events env rp (map (attempt_at env (buildChatRequest False) (plan_list rp)) [0..<n])"
  using execute_plan_spec [OF assms(1,2)] assms(3) unfolding ExecuteChat_def .

definition sample_base_plan :: "string \<Rightarrow> base_plan" where
  "sample_base_plan m = \<lparr>pl_Kind = RouteKindChat, pl_Provider = \<lparr>pv_Name = ''p''\<rparr>, pl_Model = m, pl_Profile = sample_profile m TierGood, pl_Request = zero_request,
     pl_Score = F_Fin 1, pl_Budget = \<lparr>br_Decision = BudgetOK, br_RequestTokens = 0, br_BudgetTokens = 0, br_HeadroomPct = F_Fin 0,
       br_HeadroomScore = F_Fin 0, br_Reason = []\<rparr>, pl_Reason = []\<rparr>"

definition sample_exec_plan :: RoutePlan where
  "sample_exec_plan = base_plan.extend (sample_base_plan ''a'') \<lparr>pl_Fallbacks = [sample_base_plan ''b''], pl_Degraded = False, pl_wasSticky = False,
     pl_scoreBreakdown = None, pl_builtUnderMode = FeedbackScoringOff, pl_feedbackStatus = None\<rparr>"

definition sample_call_env :: "(ChatRequest, string) call_env" where
  "sample_call_env = \<lparr>xe_bind = (\<lambda>_. None), xe_admit = (\<lambda>_. None), xe_duration = (\<lambda>_. 0), xe_failAt = (\<lambda>_. zero_time), xe_routeID = ''r'',
     xe_feedback = False, xe_now = zero_time, xe_call = (\<lambda>i q. if i = 0 then (None, Some [ErrHTTPStatus 503]) else (Some ''hello'', None))\<rparr>"

lemmas sample_exec_defs = sample_exec_plan_def sample_base_plan_def sample_profile_def sample_call_env_def base_plan.defs zero_request_def

theorem execute_failover_witness:
  "let ((out, err), st') = ExecuteChat sample_call_env sample_exec_plan \<lparr>xs_health = sample_health, xs_events = []\<rparr>
   in map_option fst out = Some ''hello'' \<and> map_option (oc_FallbacksUsed \<circ> snd) out = Some 1 \<and> err = None
     \<and> EvSuccess \<lparr>mk_Provider = ''p'', mk_Model = ''b''\<rparr> \<in> set (xs_events st')"
proof -
  let ?st = "\<lparr>xs_health = sample_health, xs_events = []\<rparr> :: ChatRequest exec_state"
  let ?b = "buildChatRequest False" and ?ps = "plan_list sample_exec_plan"
  obtain out err st' where run: "ExecuteChat sample_call_env sample_exec_plan ?st = ((out, err), st')" by (metis prod.collapse)
  have ok: "br_Decision (pl_Budget sample_exec_plan) \<noteq> BudgetTruncate" "exec_gate sample_call_env 0 = None"
    by (simp_all add: sample_exec_defs exec_gate_def)
  have ps: "?ps = [sample_base_plan ''a'', sample_base_plan ''b'']" by (simp add: sample_exec_plan_def sample_base_plan_def base_plan.defs)
  have e: "call_err sample_call_env ?b qs j = (if j = 0 then Some [ErrHTTPStatus 503] else None)"
      "call_resp sample_call_env ?b qs j = (if j = 0 then None else Some ''hello'')" for j qs
    by (simp_all add: call_err_def call_resp_def sample_call_env_def)
  have gates: "exec_gate sample_call_env j = None" for j by (simp add: exec_gate_def sample_call_env_def)
  have infra: "IsInfrastructureError (Some [ErrHTTPStatus 503])" "\<not> IsInfrastructureError None" by (simp_all add: IsInfrastructureError_def errors_is_def)
  obtain n where n: "walked sample_call_env ?b ?ps n"
    and res: "out = map_option (\<lambda>r. (r, buildOutcome (xe_routeID sample_call_env) sample_exec_plan
              (if call_err sample_call_env ?b ?ps (n - 1) = None then int (n - 1) else 0) (map (attempt_at sample_call_env ?b ?ps) [0..<n])))
              (call_resp sample_call_env ?b ?ps (n - 1))"
      "err = map_option ExecError (unwrapAdmissionError (walk_error sample_call_env ?b ?ps n))"
      "xs_events st' = xs_events ?st @ concat (map (attempt_events sample_call_env ?b ?ps) [0..<n])
         @ result_signals (plan_key (?ps ! (n - 1))) (walk_error sample_call_env ?b ?ps n)
         @ feedback_events sample_call_env sample_exec_plan (map (attempt_at sample_call_env ?b ?ps) [0..<n])"
    using execute_failover [OF ok run] by blast
  have "n = 2" using n infra ps gates unfolding walked_def e by (cases "n = 1") auto
  moreover have "plan_key (?ps ! 1) = \<lparr>mk_Provider = ''p'', mk_Model = ''b''\<rparr>" by (simp add: ps) (simp add: sample_base_plan_def sample_profile_def)
  ultimately show ?thesis using res run infra
    by (simp add: e walk_error_def result_signals_def unwrapAdmissionError_def buildOutcome_def)
qed

text \<open>In every execution of a chat, generate or embedding plan, whatever the gates and providers answer, at most one permit
  is held at a time, a bracketed provider call is made under the permit of its own model, signals are sent with no permit held, and every permit taken is
  given back before the execution returns.\<close>

theorem execute_permits:
  "permit_scan None (xs_events (snd (ExecuteChat env rp \<lparr>xs_health = h, xs_events = []\<rparr>))) = Some None
   \<and> permit_scan None (xs_events (snd (ExecuteGenerate env' rp \<lparr>xs_health = h, xs_events = []\<rparr>))) = Some None
   \<and> permit_scan None (xs_events (snd (ExecuteEmbed env'' rp \<lparr>xs_health = h, xs_events = []\<rparr>))) = Some None"
  unfolding ExecuteChat_def ExecuteGenerate_def by (simp add: clean_execute_plan clean_ExecuteEmbed)

end
