(* ===== verification/Plan_Stream.thy ===== *)
theory Plan_Stream
  imports Plan_Execution
begin

text \<open>
  Streaming execution of a plan, \<open>provider/route_plan.go\<close>: \<open>ExecuteChatStream\<close> and \<open>ExecuteGenerateStream\<close>, which differ in the request, the
  chunk and the test for visible content and are instances of \<open>execute_stream\<close>. A provider is the list of chunks it delivers to a request and the
  error it ends with; by the contract of \<open>Provider.ChatStream\<close> it calls back serially, and an error of the callback aborts the stream and comes back,
  possibly wrapped (\<open>xe_propagate\<close>). The caller's callback may depend on all it has received. The variables that the callback closures
  capture are the record \<open>stream_vars\<close>; \<open>sv_received\<close> logs the chunks that reached the caller with the attempt that sent them.
  Latency details and confidence, and the token usage of a generation, are carried through unchanged and are not represented.
\<close>

record ChatResponse =
  cr_Model :: string
  cr_Provider :: string
  cr_Content :: string
  cr_Thinking :: string
  cr_ToolCalls :: "ToolCall list"
  cr_Done :: bool
  cr_Partial :: bool
  cr_Usage :: Usage
  cr_RouteOutcome :: "RouteOutcome option"

record GenerateResponse =
  gr_Model :: string
  gr_Provider :: string
  gr_Response :: string
  gr_Done :: bool
  gr_Partial :: bool
  gr_RouteOutcome :: "RouteOutcome option"

definition hasVisibleContent :: "string \<Rightarrow> string \<Rightarrow> ToolCall list \<Rightarrow> bool" where
  "hasVisibleContent content thinking toolCalls \<longleftrightarrow> content \<noteq> [] \<or> thinking \<noteq> [] \<or> length toolCalls > 0"

record 'c chunk_ops =
  co_visible :: "'c \<Rightarrow> bool"
  co_final :: "'c \<Rightarrow> bool"
  co_stamp :: "RouteOutcome \<Rightarrow> 'c \<Rightarrow> 'c"

definition chat_chunk :: "ChatResponse chunk_ops" where
  "chat_chunk = \<lparr>co_visible = (\<lambda>c. hasVisibleContent (cr_Content c) (cr_Thinking c) (cr_ToolCalls c)),
     co_final = (\<lambda>c. cr_Done c \<and> \<not> cr_Partial c), co_stamp = (\<lambda>oc c. c\<lparr>cr_RouteOutcome := Some oc\<rparr>)\<rparr>"

definition generate_chunk :: "GenerateResponse chunk_ops" where
  "generate_chunk = \<lparr>co_visible = (\<lambda>c. gr_Response c \<noteq> []), co_final = (\<lambda>c. gr_Done c \<and> \<not> gr_Partial c),
     co_stamp = (\<lambda>oc c. c\<lparr>gr_RouteOutcome := Some oc\<rparr>)\<rparr>"

record ('q, 'c) stream_env = exec_env +
  xe_chunks :: "nat \<Rightarrow> 'q \<Rightarrow> 'c list"
  xe_streamEnd :: "nat \<Rightarrow> 'q \<Rightarrow> goerror option"
  xe_propagate :: "nat \<Rightarrow> goerror \<Rightarrow> goerror"
  xe_doneAfter :: "nat \<Rightarrow> duration"
  xe_doneRouteID :: "nat \<Rightarrow> string"
  xe_callback :: "(nat \<times> 'c) list \<Rightarrow> 'c \<Rightarrow> goerror option"

record 'c stream_vars =
  sv_delivered :: bool
  sv_streamDone :: bool
  sv_callbackErr :: "goerror option"
  sv_attempts :: "RouteAttempt list"
  sv_fallbacksUsed :: int
  sv_outcome :: "RouteOutcome option"
  sv_received :: "(nat \<times> 'c) list"

definition init_stream_vars :: "'c stream_vars" where
  "init_stream_vars = \<lparr>sv_delivered = False, sv_streamDone = False, sv_callbackErr = None, sv_attempts = [], sv_fallbacksUsed = 0,
     sv_outcome = None, sv_received = []\<rparr>"

text \<open>\<open>errors.Is(err, target)\<close> for a target that is itself a chain: some unwrapping of \<open>err\<close> is the target.\<close>

definition errors_Is_chain :: "goerror \<Rightarrow> goerror \<Rightarrow> bool" where
  "errors_Is_chain err target \<longleftrightarrow> (\<exists>k \<le> length err. drop k err = target)"

text \<open>The caller's callback on a chunk of attempt \<open>j\<close>.\<close>

definition call_fn :: "('q, 'c) stream_env \<Rightarrow> nat \<Rightarrow> 'c \<Rightarrow> 'c stream_vars \<Rightarrow> goerror option \<times> 'c stream_vars" where
  "call_fn env j chunk sv = (xe_callback env (sv_received sv) chunk, sv\<lparr>sv_received := sv_received sv @ [(j, chunk)]\<rparr>)"

text \<open>\<open>wrappedFn\<close> of attempt \<open>j\<close>, which is the plan for \<open>j = 0\<close> and fallback \<open>j - 1\<close> otherwise: the number of fallbacks
  it reports is \<open>j\<close> in both cases.\<close>

definition wrappedFn :: "'c chunk_ops \<Rightarrow> ('q, 'c) stream_env \<Rightarrow> RoutePlan \<Rightarrow> nat \<Rightarrow> ModelKey \<Rightarrow> 'c \<Rightarrow> 'c stream_vars \<Rightarrow> goerror option \<times> 'c stream_vars" where
  "wrappedFn ops env rp j key chunk sv =
     (let sv = (if \<not> sv_delivered sv \<and> co_visible ops chunk then sv\<lparr>sv_delivered := True\<rparr> else sv)
      in if co_final ops chunk \<and> \<not> sv_streamDone sv
         then let pendingAttempts = sv_attempts sv @ [makeAttempt key None (xe_doneAfter env j)];
                  pendingOutcome = buildOutcome (xe_doneRouteID env j) rp (int j) pendingAttempts;
                  (e, sv) = call_fn env j (co_stamp ops pendingOutcome chunk) sv
              in case e of
                   Some x \<Rightarrow> (Some x, sv\<lparr>sv_callbackErr := Some x\<rparr>)
                 | None \<Rightarrow> (None, sv\<lparr>sv_attempts := pendingAttempts, sv_fallbacksUsed := int j, sv_streamDone := True, sv_outcome := Some pendingOutcome\<rparr>)
         else let (e, sv) = call_fn env j chunk sv
              in case e of
                   Some x \<Rightarrow> (Some x, sv\<lparr>sv_callbackErr := Some x\<rparr>)
                 | None \<Rightarrow> (None, sv))"

fun stream_chunks :: "'c chunk_ops \<Rightarrow> ('q, 'c) stream_env \<Rightarrow> RoutePlan \<Rightarrow> nat \<Rightarrow> ModelKey \<Rightarrow> 'c list \<Rightarrow> 'c stream_vars \<Rightarrow> goerror option \<times> 'c stream_vars" where
  "stream_chunks ops env rp j key [] sv = (None, sv)"
| "stream_chunks ops env rp j key (c # cs) sv =
     (case wrappedFn ops env rp j key c sv of
        (Some e, sv) \<Rightarrow> (Some e, sv)
      | (None, sv) \<Rightarrow> stream_chunks ops env rp j key cs sv)"

definition stream_attempt :: "'c chunk_ops \<Rightarrow> ('q, 'c) stream_env \<Rightarrow> RoutePlan \<Rightarrow> nat \<Rightarrow> ModelKey \<Rightarrow> 'q \<Rightarrow> 'c stream_vars \<Rightarrow> 'q exec_state
    \<Rightarrow> goerror option \<times> 'c stream_vars \<times> 'q exec_state" where
  "stream_attempt ops env rp j key req sv st =
     (let (abort, sv) = stream_chunks ops env rp j key (xe_chunks env j req) (sv\<lparr>sv_delivered := False, sv_streamDone := False, sv_callbackErr := None\<rparr>);
          err = (case abort of Some e \<Rightarrow> Some (xe_propagate env j e) | None \<Rightarrow> xe_streamEnd env j req);
          st = emit [EvAcquire key, EvCall j key req, EvRelease key] st;
          err = (case err of
                   Some e \<Rightarrow> if sv_streamDone sv \<and> (sv_callbackErr sv = None \<or> \<not> errors_Is_chain e (the (sv_callbackErr sv))) then None else Some e
                 | None \<Rightarrow> None);
          sv = (if sv_streamDone sv then sv
                else if sv_callbackErr sv \<noteq> None then sv\<lparr>sv_attempts := sv_attempts sv @ [makeUnknownAttempt key (xe_duration env j)]\<rparr>
                else sv\<lparr>sv_attempts := sv_attempts sv @ [makeAttempt key err (xe_duration env j)]\<rparr>)
      in (err, sv, st))"

fun stream_walk :: "'c chunk_ops \<Rightarrow> ('q, 'c) stream_env \<Rightarrow> (base_plan \<Rightarrow> 'q) \<Rightarrow> RoutePlan \<Rightarrow> nat \<Rightarrow> base_plan list \<Rightarrow> goerror option \<Rightarrow> 'c stream_vars \<Rightarrow> 'q exec_state
    \<Rightarrow> goerror option \<times> 'c stream_vars \<times> 'q exec_state" where
  "stream_walk ops env build rp i [] err sv st = (err, sv, st)"
| "stream_walk ops env build rp i (fb # fbs) err sv st =
     (case exec_gate env (Suc i) of
        Some e \<Rightarrow> (Some (ErrAdmission # e), sv, st)
      | None \<Rightarrow>
          let (err, sv, st) = stream_attempt ops env rp (Suc i) (plan_key fb) (build fb) sv st
          in case err of
               None \<Rightarrow> (None, sv\<lparr>sv_fallbacksUsed := int i + 1\<rparr>, st)
             | Some e \<Rightarrow>
                 if IsInfrastructureError (Some e)
                 then let st = record_failure env (Suc i) (plan_key fb) e st
                      in if sv_delivered sv then (err, sv, st) else stream_walk ops env build rp (Suc i) fbs err sv st
                 else (err, sv, st))"

text \<open>Besides the error the model returns the final values of the captured variables.\<close>

definition execute_stream :: "'c chunk_ops \<Rightarrow> ('q, 'c) stream_env \<Rightarrow> (base_plan \<Rightarrow> 'q) \<Rightarrow> RoutePlan \<Rightarrow> 'q exec_state \<Rightarrow> exec_error option \<times> 'c stream_vars \<times> 'q exec_state" where
  "execute_stream ops env build rp st =
     (if br_Decision (pl_Budget rp) = BudgetTruncate then (Some ExecBudgetAdaptation, init_stream_vars, st)
      else case exec_gate env 0 of
             Some e \<Rightarrow> (Some (ExecError e), init_stream_vars, st)
           | None \<Rightarrow>
               let (err, sv, st) = stream_attempt ops env rp 0 (plan_key rp) (build (base_plan.truncate rp)) init_stream_vars st;
                   (err, sv, st) =
                     (case err of
                        Some e \<Rightarrow>
                          if IsInfrastructureError (Some e)
                          then let st = record_failure env 0 (plan_key rp) e st
                               in if \<not> sv_delivered sv then stream_walk ops env build rp 0 (pl_Fallbacks rp) err sv st else (err, sv, st)
                          else (err, sv, st)
                      | None \<Rightarrow> (err, sv, st));
                   st = (case sv_outcome sv of
                           None \<Rightarrow> snd (handleResult env rp err (sv_fallbacksUsed sv) (sv_attempts sv) st)
                         | Some outcome \<Rightarrow> if err = None then recordResult env rp None (sv_attempts sv) outcome st else st)
               in (map_option ExecError (unwrapAdmissionError err), sv, st))"

definition ExecuteChatStream :: "(ChatRequest, ChatResponse) stream_env \<Rightarrow> RoutePlan \<Rightarrow> ChatRequest exec_state
    \<Rightarrow> exec_error option \<times> ChatResponse stream_vars \<times> ChatRequest exec_state" where
  "ExecuteChatStream env rp st = execute_stream chat_chunk env (buildChatRequest True) rp st"

definition ExecuteGenerateStream :: "(GenerateRequest, GenerateResponse) stream_env \<Rightarrow> RoutePlan \<Rightarrow> GenerateRequest exec_state
    \<Rightarrow> exec_error option \<times> GenerateResponse stream_vars \<times> GenerateRequest exec_state" where
  "ExecuteGenerateStream env rp st = execute_stream generate_chunk env (buildGenerateRequest True) rp st"

section \<open>Chunks of either kind\<close>

text \<open>The calls of a log, by attempt and by model.\<close>

fun calls :: "'q exec_event list \<Rightarrow> (nat \<times> ModelKey) list" where
  "calls [] = []"
| "calls (EvCall j k q # evs) = (j, k) # calls evs"
| "calls (ev # evs) = calls evs"

lemma calls_append [simp]: "calls (xs @ ys) = calls xs @ calls ys"
  by (induction xs rule: calls.induct) auto

lemma calls_recordResult [simp]: "calls (xs_events (recordResult env rp err atts oc st)) = calls (xs_events st)"
  by (auto simp: recordResult_def recordOutcomeFeedback_def Let_def split: option.splits sum.splits)

lemma calls_handleResult [simp]: "calls (xs_events (snd (handleResult env rp err n atts st))) = calls (xs_events st)"
  by (simp add: handleResult_def Let_def)

lemma clean_recordResult: "permits_clean st \<Longrightarrow> permits_clean (recordResult env rp err atts oc st)"
  by (auto simp: recordResult_def recordOutcomeFeedback_def permit_scan_append Let_def split: option.splits sum.splits)

text \<open>What an execution relies on of a chunk: stamping the outcome does not change whether it is visible.\<close>

locale chunk_kind =
  fixes ops :: "'c chunk_ops"
  assumes stamp_visible: "co_visible ops (co_stamp ops oc c) = co_visible ops c"
begin

text \<open>The state of the closure of attempt \<open>j\<close>: nothing visible came from elsewhere, and the attempt is listed once it is done.\<close>

definition closure_inv :: "nat \<Rightarrow> ModelKey \<Rightarrow> ModelKey list \<Rightarrow> 'c stream_vars \<Rightarrow> bool" where
  "closure_inv j key keys sv \<longleftrightarrow> (\<forall>(k, c) \<in> set (sv_received sv). co_visible ops c \<longrightarrow> k = j \<and> sv_delivered sv)
     \<and> map at_Key (sv_attempts sv) = keys @ (if sv_streamDone sv then [key] else [])"

lemma closure_wrappedFn: "closure_inv j key keys sv \<Longrightarrow> wrappedFn ops env rp j key c sv = (e, sv') \<Longrightarrow> closure_inv j key keys sv'"
  by (auto simp: closure_inv_def wrappedFn_def call_fn_def stamp_visible Let_def split: if_splits option.splits)

lemma closure_chunks: "stream_chunks ops env rp j key cs sv = (e, sv') \<Longrightarrow> closure_inv j key keys sv \<Longrightarrow> closure_inv j key keys sv'"
proof (induction cs arbitrary: sv)
  case (Cons c cs)
  obtain x sv1 where w: "wrappedFn ops env rp j key c sv = (x, sv1)" by (cases "wrappedFn ops env rp j key c sv")
  have "closure_inv j key keys sv1" using closure_wrappedFn [OF Cons.prems(2) w] .
  then show ?case using Cons.prems(1) w Cons.IH by (cases x) auto
qed simp

lemma attempt_spec:
  assumes "stream_attempt ops env rp j key req sv st = (err, sv', st')" "\<forall>(k, c) \<in> set (sv_received sv). \<not> co_visible ops c"
  shows "(\<forall>(k, c) \<in> set (sv_received sv'). co_visible ops c \<longrightarrow> k = j \<and> sv_delivered sv')"
    and "map at_Key (sv_attempts sv') = map at_Key (sv_attempts sv) @ [key]"
    and "xs_events st' = xs_events st @ [EvAcquire key, EvCall j key req, EvRelease key]"
proof -
  let ?sv = "sv\<lparr>sv_delivered := False, sv_streamDone := False, sv_callbackErr := None\<rparr>"
  obtain abort sv1 where c: "stream_chunks ops env rp j key (xe_chunks env j req) ?sv = (abort, sv1)"
    by (cases "stream_chunks ops env rp j key (xe_chunks env j req) ?sv")
  have "closure_inv j key (map at_Key (sv_attempts sv)) ?sv" using assms(2) by (auto simp: closure_inv_def)
  then have inv: "closure_inv j key (map at_Key (sv_attempts sv)) sv1" by (rule closure_chunks [OF c])
  have "sv_received sv' = sv_received sv1" "sv_delivered sv' = sv_delivered sv1" using assms(1) c by (auto simp: stream_attempt_def Let_def split: if_splits)
  then show "(\<forall>(k, c) \<in> set (sv_received sv'). co_visible ops c \<longrightarrow> k = j \<and> sv_delivered sv')" using inv by (simp add: closure_inv_def)
  show "map at_Key (sv_attempts sv') = map at_Key (sv_attempts sv) @ [key]"
    using assms(1) c inv by (auto simp: stream_attempt_def closure_inv_def Let_def)
  show "xs_events st' = xs_events st @ [EvAcquire key, EvCall j key req, EvRelease key]"
    using assms(1) c by (auto simp: stream_attempt_def Let_def)
qed

text \<open>The state between two attempts, \<open>n\<close> of them made.\<close>

definition walk_inv :: "base_plan list \<Rightarrow> nat \<Rightarrow> 'c stream_vars \<Rightarrow> 'q exec_state \<Rightarrow> bool" where
  "walk_inv ps n sv st \<longleftrightarrow> n \<le> length ps \<and> (\<forall>(k, c) \<in> set (sv_received sv). co_visible ops c \<longrightarrow> Suc k = n \<and> sv_delivered sv)
     \<and> map at_Key (sv_attempts sv) = map (\<lambda>j. plan_key (ps ! j)) [0..<n]
     \<and> calls (xs_events st) = map (\<lambda>j. (j, plan_key (ps ! j))) [0..<n] \<and> permits_clean st"

lemma walk_attempt:
  assumes "stream_attempt ops env rp n (plan_key (ps ! n)) req sv st = (err, sv', st')" "walk_inv ps n sv st" "\<not> sv_delivered sv" "n < length ps"
  shows "walk_inv ps (Suc n) sv' st'"
proof -
  have "\<forall>(k, c) \<in> set (sv_received sv). \<not> co_visible ops c" using assms(2,3) by (auto simp: walk_inv_def)
  from attempt_spec [OF assms(1) this] show ?thesis using assms(2,4) by (auto simp: walk_inv_def permit_scan_append)
qed

lemma walk_failure: "walk_inv ps n sv st \<Longrightarrow> walk_inv ps n sv (record_failure env i k e st)"
  by (auto simp: walk_inv_def permit_scan_append)

lemma walk_spec:
  assumes "stream_walk ops env build rp i fbs err sv st = (err', sv', st')" "walk_inv ps (Suc i) sv st" "\<not> sv_delivered sv" "fbs = drop (Suc i) ps"
  shows "\<exists>n. walk_inv ps n sv' st'"
  using assms
proof (induction fbs arbitrary: i err sv st)
  case (Cons fb fbs)
  have drop: "drop (Suc i) ps = fb # fbs" using Cons.prems(4) by simp
  then have len: "Suc i < length ps" by (metis drop_all linorder_not_less list.distinct(1))
  have "ps ! Suc i # drop (Suc (Suc i)) ps = fb # fbs" using drop Cons_nth_drop_Suc [OF len] by simp
  then have fb: "fb = ps ! Suc i" and fbs: "fbs = drop (Suc (Suc i)) ps" by simp_all
  show ?case
  proof (cases "exec_gate env (Suc i)")
    case None
    obtain e1 sv1 st1 where a: "stream_attempt ops env rp (Suc i) (plan_key fb) (build fb) sv st = (e1, sv1, st1)"
      by (cases "stream_attempt ops env rp (Suc i) (plan_key fb) (build fb) sv st")
    have inv: "walk_inv ps (Suc (Suc i)) sv1 st1" by (rule walk_attempt [OF _ Cons.prems(2,3) len]) (use a fb in simp)
    have served: "walk_inv ps (Suc (Suc i)) (sv1\<lparr>sv_fallbacksUsed := x\<rparr>) st1" for x using inv by (simp add: walk_inv_def)
    show ?thesis
      using Cons.prems(1) None a inv served fbs walk_failure [OF inv] Cons.IH [OF _ walk_failure [OF inv] _ fbs]
      by (auto simp: Let_def simp del: record_failure_events split: option.splits if_splits intro: exI walk_failure)
  qed (use Cons.prems(1,2) in auto)
qed auto

lemma execute_spec:
  assumes "execute_stream ops env build rp st = (err, sv, st')" "xs_events st = []"
  shows "\<exists>n. walk_inv (plan_list rp) n sv st'"
proof -
  let ?ps = "plan_list rp" and ?req = "build (base_plan.truncate rp)"
  have init: "walk_inv ?ps 0 init_stream_vars st" using assms(2) by (simp add: walk_inv_def init_stream_vars_def)
  have key: "plan_key (?ps ! 0) = plan_key rp" by (simp add: base_plan.truncate_def)
  obtain e0 sv0 st0 where a: "stream_attempt ops env rp 0 (plan_key rp) ?req init_stream_vars st = (e0, sv0, st0)"
    by (cases "stream_attempt ops env rp 0 (plan_key rp) ?req init_stream_vars st")
  have inv: "walk_inv ?ps 1 sv0 st0"
    using walk_attempt [of env rp 0 ?ps ?req init_stream_vars st e0 sv0 st0] a init key by (simp add: init_stream_vars_def)
  define w where "w = (case e0 of
      Some e \<Rightarrow> if IsInfrastructureError (Some e)
        then if \<not> sv_delivered sv0 then stream_walk ops env build rp 0 (pl_Fallbacks rp) e0 sv0 (record_failure env 0 (plan_key rp) e st0)
             else (e0, sv0, record_failure env 0 (plan_key rp) e st0)
        else (e0, sv0, st0)
    | None \<Rightarrow> (e0, sv0, st0))"
  obtain e1 sv1 st1 where w: "w = (e1, sv1, st1)" by (cases w)
  have "\<exists>n. walk_inv ?ps n sv1 st1"
  proof (cases "IsInfrastructureError e0 \<and> \<not> sv_delivered sv0")
    case True
    then obtain e where e: "e0 = Some e" using infra_Some by blast
    then have walk: "stream_walk ops env build rp 0 (pl_Fallbacks rp) e0 sv0 (record_failure env 0 (plan_key rp) e st0) = (e1, sv1, st1)"
      using w True by (simp add: w_def)
    show ?thesis by (rule walk_spec [OF walk]) (use walk_failure [OF inv] True in simp_all)
  next
    case False
    then show ?thesis using w inv walk_failure [OF inv] by (cases e0) (auto simp: w_def split: if_splits intro: exI walk_failure)
  qed
  then obtain n where n: "walk_inv ?ps n sv1 st1" by blast
  have rec: "walk_inv ?ps n sv1 (recordResult env rp x y z st1)" for x y z
    using n clean_recordResult [of st1] by (simp add: walk_inv_def)
  then have hand: "walk_inv ?ps n sv1 (snd (handleResult env rp x y z st1))" for x y z by (simp add: handleResult_def Let_def)
  have "execute_stream ops env build rp st = (if br_Decision (pl_Budget rp) = BudgetTruncate then (Some ExecBudgetAdaptation, init_stream_vars, st)
      else case exec_gate env 0 of Some e \<Rightarrow> (Some (ExecError e), init_stream_vars, st)
        | None \<Rightarrow> (map_option ExecError (unwrapAdmissionError e1), sv1,
            case sv_outcome sv1 of None \<Rightarrow> snd (handleResult env rp e1 (sv_fallbacksUsed sv1) (sv_attempts sv1) st1)
              | Some oc \<Rightarrow> if e1 = None then recordResult env rp None (sv_attempts sv1) oc st1 else st1))"
    unfolding execute_stream_def Let_def a prod.case w_def [symmetric] w by (rule refl)
  then show ?thesis using assms(1) init n by (auto split: option.splits if_splits intro: exI rec hand)
qed

end

interpretation chat_stream: chunk_kind chat_chunk
  by unfold_locales (simp add: chat_chunk_def)

interpretation generate_stream: chunk_kind generate_chunk
  by unfold_locales (simp add: generate_chunk_def)

section \<open>A callback that never fails\<close>

definition done_inv :: "('q, 'c) stream_env \<Rightarrow> RoutePlan \<Rightarrow> nat \<Rightarrow> ModelKey \<Rightarrow> RouteAttempt list \<Rightarrow> 'c stream_vars \<Rightarrow> bool" where
  "done_inv env rp j key atts sv \<longleftrightarrow>
     (if sv_streamDone sv
      then sv_attempts sv = atts @ [makeAttempt key None (xe_doneAfter env j)] \<and> sv_fallbacksUsed sv = int j
        \<and> sv_outcome sv = Some (buildOutcome (xe_doneRouteID env j) rp (int j) (sv_attempts sv))
      else sv_attempts sv = atts) \<and> sv_callbackErr sv = None"

lemma wrappedFn_silent:
  assumes "\<And>h c. xe_callback env h c = None" "wrappedFn ops env rp j key c sv = (e, sv')" "done_inv env rp j key atts sv"
  shows "e = None \<and> done_inv env rp j key atts sv' \<and> length (sv_received sv') = Suc (length (sv_received sv))
    \<and> sv_streamDone sv' = (sv_streamDone sv \<or> co_final ops c)"
  using assms by (auto simp: wrappedFn_def call_fn_def done_inv_def Let_def split: if_splits)

lemma chunks_silent:
  assumes "\<And>h c. xe_callback env h c = None"
  shows "stream_chunks ops env rp j key cs sv = (e, sv') \<Longrightarrow> done_inv env rp j key atts sv
    \<Longrightarrow> e = None \<and> done_inv env rp j key atts sv' \<and> length (sv_received sv') = length (sv_received sv) + length cs
      \<and> sv_streamDone sv' = (sv_streamDone sv \<or> (\<exists>c \<in> set cs. co_final ops c))"
proof (induction cs arbitrary: sv)
  case (Cons c cs)
  obtain x sv1 where w: "wrappedFn ops env rp j key c sv = (x, sv1)" by (cases "wrappedFn ops env rp j key c sv")
  note one = wrappedFn_silent [OF assms w Cons.prems(2)]
  then have "stream_chunks ops env rp j key cs sv1 = (e, sv')" using Cons.prems(1) w by simp
  from Cons.IH [OF this] one show ?case by auto
qed auto

text \<open>The feedback batch of a stream carries the route identifier of its final chunk.\<close>

lemma recordResult_done:
  assumes "oc = buildOutcome rid rp n atts" "atts \<noteq> []" "\<forall>a \<in> set atts. 0 \<le> at_LatencyMs a"
  shows "xs_events (recordResult env rp None atts oc st)
    = xs_events st @ result_signals (at_Key (last atts)) None @ feedback_events (env\<lparr>xe_routeID := rid\<rparr>) rp atts"
proof -
  have "\<not> (\<exists>a \<in> set atts. at_LatencyMs a < 0)" using assms(3) by force
  then show ?thesis using assms(1,2)
    by (simp add: recordResult_def recordOutcomeFeedback_def feedback_events_def RecordOutcome_def buildOutcome_def result_signals_def Let_def)
qed

lemma execute_stream_done:
  assumes ok: "br_Decision (pl_Budget rp) \<noteq> BudgetTruncate" "exec_gate env 0 = None" and silent: "\<And>h c. xe_callback env h c = None"
    and final: "\<exists>c \<in> set (xe_chunks env 0 req). co_final ops c" and req: "req = build (base_plan.truncate rp)"
    and run: "execute_stream ops env build rp st = (err, sv, st')"
  shows "err = None \<and> length (sv_received sv) = length (xe_chunks env 0 req)
    \<and> sv_outcome sv = Some (buildOutcome (xe_doneRouteID env 0) rp 0 [makeAttempt (plan_key rp) None (xe_doneAfter env 0)])
    \<and> xs_events st' = xs_events st @ [EvAcquire (plan_key rp), EvCall 0 (plan_key rp) req, EvRelease (plan_key rp)]
        @ result_signals (plan_key rp) None
        @ feedback_events (env\<lparr>xe_routeID := xe_doneRouteID env 0\<rparr>) rp [makeAttempt (plan_key rp) None (xe_doneAfter env 0)]"
proof -
  let ?sv = "init_stream_vars\<lparr>sv_delivered := False, sv_streamDone := False, sv_callbackErr := None\<rparr> :: 'b stream_vars"
  let ?a = "makeAttempt (plan_key rp) None (xe_doneAfter env 0)"
  obtain e sv1 where c: "stream_chunks ops env rp 0 (plan_key rp) (xe_chunks env 0 req) ?sv = (e, sv1)"
    by (cases "stream_chunks ops env rp 0 (plan_key rp) (xe_chunks env 0 req) ?sv")
  have "done_inv env rp 0 (plan_key rp) [] ?sv" by (simp add: done_inv_def init_stream_vars_def)
  note s = chunks_silent [OF silent c this]
  have sv1: "e = None" "sv_streamDone sv1" "sv_attempts sv1 = [?a]" "sv_callbackErr sv1 = None" "sv_fallbacksUsed sv1 = 0"
      "sv_outcome sv1 = Some (buildOutcome (xe_doneRouteID env 0) rp 0 [?a])" "length (sv_received sv1) = length (xe_chunks env 0 req)"
    using s final by (auto simp: done_inv_def init_stream_vars_def)
  have att: "stream_attempt ops env rp 0 (plan_key rp) req init_stream_vars st
      = (None, sv1, emit [EvAcquire (plan_key rp), EvCall 0 (plan_key rp) req, EvRelease (plan_key rp)] st)"
    using c sv1 by (auto simp: stream_attempt_def Let_def split: option.splits)
  have "err = None" "sv = sv1"
      "st' = recordResult env rp None [?a] (buildOutcome (xe_doneRouteID env 0) rp 0 [?a])
          (emit [EvAcquire (plan_key rp), EvCall 0 (plan_key rp) req, EvRelease (plan_key rp)] st)"
    using run ok att sv1 by (auto simp: execute_stream_def unwrapAdmissionError_def Let_def simp flip: req)
  then show ?thesis using sv1 by (simp add: recordResult_done)
qed

section \<open>Guarantees\<close>

lemma chat_view:
  "chat_stream.walk_inv ps n sv st \<Longrightarrow> n \<le> length ps \<and> calls (xs_events st) = map (\<lambda>j. (j, plan_key (ps ! j))) [0..<n]
     \<and> map at_Key (sv_attempts sv) = map (\<lambda>j. plan_key (ps ! j)) [0..<n]
     \<and> filter (\<lambda>(k, c). hasVisibleContent (cr_Content c) (cr_Thinking c) (cr_ToolCalls c) \<and> Suc k \<noteq> n) (sv_received sv) = []
     \<and> permit_scan None (xs_events st) = Some None"
  unfolding chat_stream.walk_inv_def by (auto simp: chat_chunk_def filter_empty_conv)

lemma generate_view:
  "generate_stream.walk_inv ps n sv st \<Longrightarrow> n \<le> length ps \<and> calls (xs_events st) = map (\<lambda>j. (j, plan_key (ps ! j))) [0..<n]
     \<and> map at_Key (sv_attempts sv) = map (\<lambda>j. plan_key (ps ! j)) [0..<n]
     \<and> filter (\<lambda>(k, c). gr_Response c \<noteq> [] \<and> Suc k \<noteq> n) (sv_received sv) = []
     \<and> permit_scan None (xs_events st) = Some None"
  unfolding generate_stream.walk_inv_def by (auto simp: generate_chunk_def filter_empty_conv)

text \<open>C6: In every streaming execution, chat or generate, whatever gates, providers and callback answer: the models contacted are a
  prefix of the plan and its fallbacks, in order; there is exactly one attempt per provider call; every chunk with visible content that reaches
  the caller comes from the last model contacted, so that the caller never sees text of two models; and every permit is given back.\<close>

theorem stream_single_source:
  "(let (err, sv, st) = ExecuteChatStream env rp \<lparr>xs_health = h, xs_events = []\<rparr>
    in \<exists>n \<le> length (plan_list rp). calls (xs_events st) = map (\<lambda>j. (j, plan_key (plan_list rp ! j))) [0..<n]
      \<and> map at_Key (sv_attempts sv) = map (\<lambda>j. plan_key (plan_list rp ! j)) [0..<n]
      \<and> filter (\<lambda>(k, c). hasVisibleContent (cr_Content c) (cr_Thinking c) (cr_ToolCalls c) \<and> Suc k \<noteq> n) (sv_received sv) = []
      \<and> permit_scan None (xs_events st) = Some None)
   \<and> (let (err, sv, st) = ExecuteGenerateStream env' rp \<lparr>xs_health = h, xs_events = []\<rparr>
    in \<exists>n \<le> length (plan_list rp). calls (xs_events st) = map (\<lambda>j. (j, plan_key (plan_list rp ! j))) [0..<n]
      \<and> map at_Key (sv_attempts sv) = map (\<lambda>j. plan_key (plan_list rp ! j)) [0..<n]
      \<and> filter (\<lambda>(k, c). gr_Response c \<noteq> [] \<and> Suc k \<noteq> n) (sv_received sv) = []
      \<and> permit_scan None (xs_events st) = Some None)"
proof -
  obtain e sv st e' sv' st' where run: "ExecuteChatStream env rp \<lparr>xs_health = h, xs_events = []\<rparr> = (e, sv, st)"
      "ExecuteGenerateStream env' rp \<lparr>xs_health = h, xs_events = []\<rparr> = (e', sv', st')"
    by (metis prod_cases3)
  obtain n where n: "chat_stream.walk_inv (plan_list rp) n sv st"
    using chat_stream.execute_spec [OF run(1) [unfolded ExecuteChatStream_def]] by auto
  obtain n' where n': "generate_stream.walk_inv (plan_list rp) n' sv' st'"
    using generate_stream.execute_spec [OF run(2) [unfolded ExecuteGenerateStream_def]] by auto
  show ?thesis
    unfolding run Let_def prod.case using chat_view [OF n] generate_view [OF n'] by blast
qed

text \<open>A final chunk that the caller accepted is authoritative: when the callback accepts everything and the planned model
  delivers a final chunk, the execution returns no error, whatever the provider returns afterwards; every chunk reaches the caller, no fallback is
  contacted, and the planned model is signalled as successful, with feedback for its one attempt.\<close>

theorem stream_done_authoritative:
  assumes "br_Decision (pl_Budget rp) \<noteq> BudgetTruncate" "exec_gate env 0 = None" "\<And>h c. xe_callback env h c = None"
    and "\<exists>c \<in> set (xe_chunks env 0 (buildChatRequest True (base_plan.truncate rp))). cr_Done c \<and> \<not> cr_Partial c"
    and "ExecuteChatStream env rp st = (err, sv, st')"
  shows "err = None \<and> length (sv_received sv) = length (xe_chunks env 0 (buildChatRequest True (base_plan.truncate rp)))
    \<and> sv_outcome sv = Some (buildOutcome (xe_doneRouteID env 0) rp 0 [makeAttempt (plan_key rp) None (xe_doneAfter env 0)])
    \<and> xs_events st' = xs_events st
        @ [EvAcquire (plan_key rp), EvCall 0 (plan_key rp) (buildChatRequest True (base_plan.truncate rp)), EvRelease (plan_key rp)]
        @ [EvSuccess (plan_key rp), EvWarmth (plan_key rp), EvSlot (plan_key rp)]
        @ feedback_events (env\<lparr>xe_routeID := xe_doneRouteID env 0\<rparr>) rp [makeAttempt (plan_key rp) None (xe_doneAfter env 0)]"
  using execute_stream_done [OF assms(1-3) _ refl assms(5) [unfolded ExecuteChatStream_def]] assms(4)
  by (simp add: chat_chunk_def result_signals_def)

definition sample_chunk :: "string \<Rightarrow> bool \<Rightarrow> ChatResponse" where
  "sample_chunk text fin = \<lparr>cr_Model = ''m'', cr_Provider = ''p'', cr_Content = text, cr_Thinking = [], cr_ToolCalls = [], cr_Done = fin, cr_Partial = False, cr_Usage = zero_usage, cr_RouteOutcome = None\<rparr>"

definition sample_stream_env :: "ChatResponse list \<Rightarrow> goerror option \<Rightarrow> goerror option \<Rightarrow> (ChatRequest, ChatResponse) stream_env" where
  "sample_stream_env chunks endErr cb = \<lparr>xe_bind = (\<lambda>_. None), xe_admit = (\<lambda>_. None), xe_duration = (\<lambda>_. 0), xe_failAt = (\<lambda>_. zero_time), xe_routeID = ''r'',
     xe_feedback = False, xe_now = zero_time, xe_chunks = (\<lambda>_ _. chunks), xe_streamEnd = (\<lambda>_ _. endErr), xe_propagate = (\<lambda>_ e. e),
     xe_doneAfter = (\<lambda>_. 0), xe_doneRouteID = (\<lambda>_. ''d''), xe_callback = (\<lambda>_ _. cb)\<rparr>"

theorem stream_done_authoritative_witness:
  "let (err, sv, st) = ExecuteChatStream (sample_stream_env [sample_chunk ''hi'' False, sample_chunk [] True] (Some [ErrOp]) None) sample_exec_plan
       \<lparr>xs_health = sample_health, xs_events = []\<rparr>
   in err = None \<and> length (sv_received sv) = 2 \<and> EvSuccess (plan_key sample_exec_plan) \<in> set (xs_events st)"
proof -
  let ?env = "sample_stream_env [sample_chunk ''hi'' False, sample_chunk [] True] (Some [ErrOp]) None"
  let ?st = "\<lparr>xs_health = sample_health, xs_events = []\<rparr> :: ChatRequest exec_state"
  obtain err sv st where run: "ExecuteChatStream ?env sample_exec_plan ?st = (err, sv, st)" by (metis prod_cases3)
  have ok: "br_Decision (pl_Budget sample_exec_plan) \<noteq> BudgetTruncate" by (simp add: sample_exec_defs)
  show ?thesis
    using stream_done_authoritative [OF ok _ _ _ run] run by (simp add: sample_stream_env_def sample_chunk_def exec_gate_def)
qed

section \<open>A callback that fails\<close>

text \<open>Attempts and events are only ever appended.\<close>

lemma wrappedFn_grows: "wrappedFn ops env rp j key c sv = (e, sv') \<Longrightarrow> prefix (sv_attempts sv) (sv_attempts sv')"
  by (auto simp: wrappedFn_def call_fn_def Let_def split: if_splits option.splits)

lemma stream_chunks_grows: "stream_chunks ops env rp j key cs sv = (e, sv') \<Longrightarrow> prefix (sv_attempts sv) (sv_attempts sv')"
proof (induction cs arbitrary: sv)
  case (Cons c cs)
  obtain x sv1 where w: "wrappedFn ops env rp j key c sv = (x, sv1)" by (cases "wrappedFn ops env rp j key c sv")
  then show ?case using Cons prefix_order.trans [OF wrappedFn_grows [OF w]] wrappedFn_grows [OF w] by (cases x) auto
qed simp

lemma stream_attempt_grows:
  assumes "stream_attempt ops env rp j key req sv st = (err, sv', st')"
  shows "prefix (sv_attempts sv) (sv_attempts sv')" "xs_events st' = xs_events st @ [EvAcquire key, EvCall j key req, EvRelease key]"
proof -
  let ?sv = "sv\<lparr>sv_delivered := False, sv_streamDone := False, sv_callbackErr := None\<rparr>"
  obtain abort sv1 where c: "stream_chunks ops env rp j key (xe_chunks env j req) ?sv = (abort, sv1)"
    by (cases "stream_chunks ops env rp j key (xe_chunks env j req) ?sv")
  have "prefix (sv_attempts sv) (sv_attempts sv1)" using stream_chunks_grows [OF c] by simp
  then show "prefix (sv_attempts sv) (sv_attempts sv')" using assms c by (auto simp: stream_attempt_def Let_def split: if_splits)
  show "xs_events st' = xs_events st @ [EvAcquire key, EvCall j key req, EvRelease key]"
    using assms c by (auto simp: stream_attempt_def Let_def)
qed

lemma stream_walk_grows:
  "stream_walk ops env build rp i fbs err sv st = (err', sv', st') \<Longrightarrow>
   prefix (sv_attempts sv) (sv_attempts sv') \<and> prefix (xs_events st) (xs_events st')"
proof (induction fbs arbitrary: i err sv st)
  case (Cons fb fbs)
  obtain e1 sv1 st1 where a: "stream_attempt ops env rp (Suc i) (plan_key fb) (build fb) sv st = (e1, sv1, st1)"
    by (cases "stream_attempt ops env rp (Suc i) (plan_key fb) (build fb) sv st")
  note g = stream_attempt_grows [OF a]
  have step: "prefix (sv_attempts sv) (sv_attempts sv') \<and> prefix (xs_events st) (xs_events st')"
    if "prefix (sv_attempts sv1) (sv_attempts sv') \<and> prefix (xs_events st1 @ evs) (xs_events st')" for evs
    using that g by (auto intro: prefix_order.trans dest: append_prefixD)
  have failed: "stream_walk ops env build rp (Suc i) fbs (Some e) sv1 (record_failure env (Suc i) (plan_key fb) e st1) = (err', sv', st') \<Longrightarrow>
      prefix (sv_attempts sv) (sv_attempts sv') \<and> prefix (xs_events st) (xs_events st')" for e
    using Cons.IH step [of "[EvFailure (plan_key fb) e]"] by fastforce
  show ?case
    using Cons.prems a failed step [of "[]"] step [of "[EvFailure (plan_key fb) (the e1)]"]
    by (cases "exec_gate env (Suc i)"; cases e1) (auto simp: Let_def split: if_splits)
qed simp

lemma recordResult_grows: "prefix (xs_events st) (xs_events (recordResult env rp err atts oc st))"
  by (auto simp: recordResult_def recordOutcomeFeedback_def Let_def split: option.splits sum.splits)

text \<open>Chunks without visible content, none of them final, that the callback takes until it rejects one.\<close>

lemma stream_chunks_rejected:
  assumes "\<forall>x \<in> set (pre @ [c]). \<not> co_visible ops x \<and> \<not> co_final ops x"
    and "\<forall>i < length pre. xe_callback env (map (Pair j) (taken @ take i pre)) (pre ! i) = None"
    and "xe_callback env (map (Pair j) (taken @ pre)) c = Some e" and "sv_received sv = map (Pair j) taken"
  shows "stream_chunks ops env rp j key (pre @ c # post) sv = (Some e, sv\<lparr>sv_received := map (Pair j) (taken @ pre @ [c]), sv_callbackErr := Some e\<rparr>)"
  using assms
proof (induction pre arbitrary: taken sv)
  case Nil
  then show ?case by (simp add: wrappedFn_def call_fn_def)
next
  case (Cons x pre)
  have "xe_callback env (map (Pair j) taken) x = None" using Cons.prems(2) by force
  then have "wrappedFn ops env rp j key x sv = (None, sv\<lparr>sv_received := map (Pair j) (taken @ [x])\<rparr>)"
    using Cons.prems(1,4) by (simp add: wrappedFn_def call_fn_def)
  moreover have "\<forall>i < length pre. xe_callback env (map (Pair j) ((taken @ [x]) @ take i pre)) (pre ! i) = None"
    using Cons.prems(2) by force
  ultimately show ?case using Cons.IH [of "taken @ [x]" "sv\<lparr>sv_received := map (Pair j) (taken @ [x])\<rparr>"] Cons.prems by simp
qed

text \<open>C36: An error of the caller's own callback counts against the provider. Whenever the planned model's stream is taken until the callback rejects a
  chunk, nothing delivered so far is visible or final, and the error that comes back is an infrastructure error, as when the caller relays the stream to a
  connection that broke: then the attempt is reported as unknown, yet the failure is recorded on the provider's breaker, and the first fallback, if there is
  one and its gate is open, is called, whatever the plan, the provider and the rest of the stream.\<close>

theorem callback_error_blamed:
  assumes "br_Decision (pl_Budget rp) \<noteq> BudgetTruncate" "exec_gate env 0 = None"
    and "xe_chunks env 0 (buildChatRequest True (base_plan.truncate rp)) = pre @ c # post"
    and "\<forall>x \<in> set (pre @ [c]). \<not> hasVisibleContent (cr_Content x) (cr_Thinking x) (cr_ToolCalls x) \<and> \<not> (cr_Done x \<and> \<not> cr_Partial x)"
    and "\<forall>i < length pre. xe_callback env (map (Pair 0) (take i pre)) (pre ! i) = None" "xe_callback env (map (Pair 0) pre) c = Some e"
    and "IsInfrastructureError (Some (xe_propagate env 0 e))"
    and "ExecuteChatStream env rp st = (err, sv, st')"
  shows "(\<exists>atts. sv_attempts sv = makeUnknownAttempt (plan_key rp) (xe_duration env 0) # atts)
    \<and> (\<exists>evs. xs_events st' = xs_events st
          @ [EvAcquire (plan_key rp), EvCall 0 (plan_key rp) (buildChatRequest True (base_plan.truncate rp)), EvRelease (plan_key rp)]
          @ [EvFailure (plan_key rp) (xe_propagate env 0 e)] @ evs
        \<and> (\<forall>fb fbs. pl_Fallbacks rp = fb # fbs \<and> exec_gate env 1 = None \<longrightarrow> EvCall 1 (plan_key fb) (buildChatRequest True fb) \<in> set evs))"
proof -
  let ?b = "buildChatRequest True" and ?e = "xe_propagate env 0 e" and ?k = "plan_key rp"
  let ?ev = "[EvAcquire ?k, EvCall 0 ?k (?b (base_plan.truncate rp)), EvRelease ?k]"
  define sv0 where "sv0 = init_stream_vars\<lparr>sv_received := map (Pair 0) (pre @ [c]), sv_callbackErr := Some e, sv_attempts := [makeUnknownAttempt ?k (xe_duration env 0)]\<rparr>"
  define st0 where "st0 = record_failure env 0 ?k ?e (emit ?ev st)"
  have "stream_chunks chat_chunk env rp 0 ?k (pre @ c # post) init_stream_vars
      = (Some e, init_stream_vars\<lparr>sv_received := map (Pair 0) (pre @ [c]), sv_callbackErr := Some e\<rparr>)"
    using stream_chunks_rejected [of pre c chat_chunk env 0 "[]" e init_stream_vars rp ?k post] assms(4-6) by (simp add: chat_chunk_def init_stream_vars_def)
  then have att: "stream_attempt chat_chunk env rp 0 ?k (?b (base_plan.truncate rp)) init_stream_vars st = (Some ?e, sv0, emit ?ev st)"
    by (simp add: stream_attempt_def assms(3) sv0_def init_stream_vars_def)
  obtain e1 sv1 st1 where w: "stream_walk chat_chunk env ?b rp 0 (pl_Fallbacks rp) (Some ?e) sv0 st0 = (e1, sv1, st1)" by (rule prod_cases3)
  have del: "\<not> sv_delivered sv0" by (simp add: sv0_def init_stream_vars_def)
  have run: "sv = sv1" "prefix (xs_events st1) (xs_events st')"
    using assms(8) recordResult_grows unfolding ExecuteChatStream_def execute_stream_def att Let_def
    by (auto simp: assms(1,2,7) del w st0_def [symmetric] handleResult_def Let_def split: option.splits if_splits)
  note g = stream_walk_grows [OF w]
  have ev: "xs_events st0 = xs_events st @ ?ev @ [EvFailure ?k ?e]" by (simp add: st0_def)
  obtain evs where evs: "xs_events st' = xs_events st0 @ evs" using g run(2) prefix_order.trans by (metis prefixE)
  have "EvCall 1 (plan_key fb) (?b fb) \<in> set evs" if fb: "pl_Fallbacks rp = fb # fbs" "exec_gate env 1 = None" for fb fbs
  proof -
    obtain e2 sv2 st2 where a: "stream_attempt chat_chunk env rp 1 (plan_key fb) (?b fb) sv0 st0 = (e2, sv2, st2)" by (rule prod_cases3)
    have "prefix (xs_events st2) (xs_events st1)"
      using w fb a stream_walk_grows [of chat_chunk env ?b rp 1 fbs e2 sv2 "record_failure env 1 (plan_key fb) (the e2) st2" e1 sv1 st1]
      by (cases e2) (auto simp: Let_def split: if_splits dest: append_prefixD)
    then have "prefix (xs_events st0 @ [EvAcquire (plan_key fb), EvCall 1 (plan_key fb) (?b fb), EvRelease (plan_key fb)]) (xs_events st0 @ evs)"
      using stream_attempt_grows(2) [OF a] run(2) evs by (metis prefix_order.trans)
    then show ?thesis by (auto simp: prefix_def)
  qed
  then show ?thesis using evs ev g run(1) by (auto simp: sv0_def prefix_def)
qed

theorem callback_error_blamed_witness:
  "let (err, sv, st) = ExecuteChatStream (sample_stream_env [sample_chunk [] False, sample_chunk ''hi'' True] None (Some [ErrOp])) sample_exec_plan
       \<lparr>xs_health = sample_health, xs_events = []\<rparr>
   in at_Status (hd (sv_attempts sv)) = AttemptStatusUnknown
     \<and> EvFailure (plan_key sample_exec_plan) [ErrOp] \<in> set (xs_events st) \<and> (\<exists>k q. EvCall 1 k q \<in> set (xs_events st))"
proof -
  let ?env = "sample_stream_env [sample_chunk [] False, sample_chunk ''hi'' True] None (Some [ErrOp])"
  let ?st = "\<lparr>xs_health = sample_health, xs_events = []\<rparr> :: ChatRequest exec_state"
  obtain err sv st where run: "ExecuteChatStream ?env sample_exec_plan ?st = (err, sv, st)" by (metis prod_cases3)
  have ok: "br_Decision (pl_Budget sample_exec_plan) \<noteq> BudgetTruncate" "pl_Fallbacks sample_exec_plan = [sample_base_plan ''b'']" by (simp_all add: sample_exec_defs)
  have gate: "exec_gate ?env j = None" for j by (simp add: exec_gate_def sample_stream_env_def)
  have infra: "IsInfrastructureError (Some [ErrOp])" by (simp add: IsInfrastructureError_def errors_is_def)
  show ?thesis
    using callback_error_blamed [OF ok(1) gate, of "[]" "sample_chunk [] False" "[sample_chunk ''hi'' True]" "[ErrOp]", OF _ _ _ _ _ run] run gate ok(2) infra
    by (fastforce simp: sample_stream_env_def sample_chunk_def hasVisibleContent_def makeUnknownAttempt_def)
qed

end
