(* ===== verification/Context_Set.thy ===== *)
theory Context_Set
  imports Agent_Types
begin

text \<open>
  Validation of the structured payload of a tool result, \<open>agent/context_set.go\<close>: the carrier bounds checked before a set is taken over, and
  the boundary checks of mixed assembly. An error names the rule and the position it failed at; the deep copy of a set is the same value.
\<close>

definition maxContextGroups :: int where "maxContextGroups = 256"
definition maxContextAlternatives :: int where "maxContextAlternatives = 64"

datatype set_error =
    TooManyGroups int | TooManyAlternatives nat int | NegativeMinVerbatim int | ZeroGroups | AssemblerDomain nat | UnknownDomain nat string
  | BlankSubject nat | DuplicateSubject nat nat | NoAlternatives nat | InvalidDescriptor nat nat | EmptyContent nat nat
  | AttributionNotVerbatim nat nat | VerbatimDecreases nat nat int int

definition verbatimComponents :: "AlternativeDesc \<Rightarrow> int" where
  "verbatimComponents d = int (length (filter (\<lambda>r. rd_Kind r = RepresentationVerbatim) (ad_Representations d)))"

fun cardinality_from :: "nat \<Rightarrow> ContextGroup list \<Rightarrow> set_error option" where
  "cardinality_from i [] = None"
| "cardinality_from i (g # gs) =
     (if go_len (cg_Alternatives g) > maxContextAlternatives then Some (TooManyAlternatives i (go_len (cg_Alternatives g)))
      else cardinality_from (Suc i) gs)"

definition validateContextSetCardinality :: "ContextSet option \<Rightarrow> set_error option" where
  "validateContextSetCardinality s =
     (case s of
        None \<Rightarrow> None
      | Some s \<Rightarrow> if go_len (cs_Groups s) > maxContextGroups then Some (TooManyGroups (go_len (cs_Groups s))) else cardinality_from 0 (cs_Groups s))"

fun alternatives_from :: "nat \<Rightarrow> nat \<Rightarrow> int \<Rightarrow> ContextAlternative list \<Rightarrow> set_error option" where
  "alternatives_from i j prevVerbatim [] = None"
| "alternatives_from i j prevVerbatim (a # as) =
     (if \<not> AlternativeDesc_Valid (ca_Desc a) then Some (InvalidDescriptor i j)
      else if ca_Content a = [] then Some (EmptyContent i j)
      else let verbatim = verbatimComponents (ca_Desc a)
           in if ca_Attrib a \<noteq> None \<and> verbatim = 0 then Some (AttributionNotVerbatim i j)
              else if verbatim < prevVerbatim then Some (VerbatimDecreases i j prevVerbatim verbatim)
              else alternatives_from i (Suc j) verbatim as)"

fun set_groups_from :: "nat \<Rightarrow> (SubjectRef \<times> nat) list \<Rightarrow> ContextGroup list \<Rightarrow> set_error option" where
  "set_groups_from i seen [] = None"
| "set_groups_from i seen (g # gs) =
     (let subject = gd_Subject (cg_Desc g)
      in if sr_Domain subject = DomainConversation then Some (AssemblerDomain i)
         else if \<not> (sr_Domain subject = DomainRAG \<or> sr_Domain subject = DomainMemory) then Some (UnknownDomain i (sr_Domain subject))
         else if sr_ID subject = [] then Some (BlankSubject i)
         else case map_of seen subject of
                Some prev \<Rightarrow> Some (DuplicateSubject i prev)
              | None \<Rightarrow>
                  if cg_Alternatives g = [] then Some (NoAlternatives i)
                  else case alternatives_from i 0 0 (cg_Alternatives g) of
                         Some e \<Rightarrow> Some e
                       | None \<Rightarrow> set_groups_from (Suc i) ((subject, i) # seen) gs)"

definition validateContextSet :: "ContextSet option \<Rightarrow> set_error option" where
  "validateContextSet s =
     (case s of
        None \<Rightarrow> None
      | Some cs \<Rightarrow>
          if cs_MinVerbatim cs < 0 then Some (NegativeMinVerbatim (cs_MinVerbatim cs))
          else if cs_Groups cs = [] then Some ZeroGroups
          else case validateContextSetCardinality s of
                 Some e \<Rightarrow> Some e
               | None \<Rightarrow> set_groups_from 0 [] (cs_Groups cs))"

section \<open>What an accepted set satisfies\<close>

definition alternative_ok :: "ContextAlternative \<Rightarrow> bool" where
  "alternative_ok a \<longleftrightarrow> AlternativeDesc_Valid (ca_Desc a) \<and> ca_Content a \<noteq> [] \<and> (ca_Attrib a \<noteq> None \<longrightarrow> verbatimComponents (ca_Desc a) \<noteq> 0)"

lemma verbatimComponents_nonneg: "0 \<le> verbatimComponents d"
  by (simp add: verbatimComponents_def)

lemma alternatives_from_iff:
  "alternatives_from i j p as = None \<longleftrightarrow>
     (\<forall>a \<in> set as. alternative_ok a \<and> p \<le> verbatimComponents (ca_Desc a)) \<and> sorted (map (\<lambda>a. verbatimComponents (ca_Desc a)) as)"
  by (induction i j p as rule: alternatives_from.induct) (auto simp: alternative_ok_def Let_def)

definition group_ok :: "ContextGroup \<Rightarrow> bool" where
  "group_ok g \<longleftrightarrow> sr_Domain (gd_Subject (cg_Desc g)) \<in> {DomainRAG, DomainMemory} \<and> sr_ID (gd_Subject (cg_Desc g)) \<noteq> []
     \<and> cg_Alternatives g \<noteq> [] \<and> list_all alternative_ok (cg_Alternatives g)
     \<and> sorted (map (\<lambda>a. verbatimComponents (ca_Desc a)) (cg_Alternatives g))"

lemma domains_distinct: "DomainConversation \<noteq> DomainRAG" "DomainConversation \<noteq> DomainMemory"
  by (simp_all add: DomainConversation_def DomainRAG_def DomainMemory_def)

lemma set_groups_from_iff:
  "set_groups_from i seen gs = None \<longleftrightarrow>
     list_all group_ok gs \<and> (\<forall>g \<in> set gs. gd_Subject (cg_Desc g) \<notin> fst ` set seen) \<and> distinct (map (\<lambda>g. gd_Subject (cg_Desc g)) gs)"
proof (induction gs arbitrary: i seen)
  case (Cons g gs)
  have alts: "alternatives_from i 0 0 (cg_Alternatives g) = None
      \<longleftrightarrow> list_all alternative_ok (cg_Alternatives g) \<and> sorted (map (\<lambda>a. verbatimComponents (ca_Desc a)) (cg_Alternatives g))"
    by (simp add: alternatives_from_iff verbatimComponents_nonneg list_all_iff)
  have seen: "map_of seen x = None \<longleftrightarrow> x \<notin> fst ` set seen" for x by (rule map_of_eq_None_iff)
  show ?case
  proof (cases "group_ok g \<and> gd_Subject (cg_Desc g) \<notin> fst ` set seen")
    case True
    moreover have "map_of seen (gd_Subject (cg_Desc g)) = None" using True seen by blast
    ultimately have e: "set_groups_from i seen (g # gs) = set_groups_from (Suc i) ((gd_Subject (cg_Desc g), i) # seen) gs"
      using alts domains_distinct by (auto simp: group_ok_def Let_def)
    show ?thesis unfolding e Cons.IH using True by (auto simp: image_iff)
  next
    case False
    then have "set_groups_from i seen (g # gs) \<noteq> None"
      using alts seen by (auto simp: group_ok_def Let_def split: option.split)
    with False show ?thesis by auto
  qed
qed simp

lemma cardinality_from_iff:
  "cardinality_from i gs = None \<longleftrightarrow> list_all (\<lambda>g. go_len (cg_Alternatives g) \<le> maxContextAlternatives) gs"
  by (induction i gs rule: cardinality_from.induct) auto

text \<open>A structured result is accepted for mixed assembly exactly when it is within the carrier bounds and well formed: subjects are distinct, named
  and of a domain a tool may use, and within each group there is an alternative, every alternative has content and a valid descriptor and carries attribution only with verbatim
  evidence, and the verbatim evidence never decreases along the ladder.\<close>

theorem context_set_accepted_iff:
  "validateContextSet (Some s) = None \<longleftrightarrow>
     0 \<le> cs_MinVerbatim s \<and> cs_Groups s \<noteq> [] \<and> go_len (cs_Groups s) \<le> 256 \<and> list_all (\<lambda>g. go_len (cg_Alternatives g) \<le> 64) (cs_Groups s)
     \<and> list_all group_ok (cs_Groups s) \<and> distinct (map (\<lambda>g. gd_Subject (cg_Desc g)) (cs_Groups s))"
proof -
  have "validateContextSetCardinality (Some s) = None \<longleftrightarrow> go_len (cs_Groups s) \<le> 256 \<and> list_all (\<lambda>g. go_len (cg_Alternatives g) \<le> 64) (cs_Groups s)"
    by (auto simp: validateContextSetCardinality_def cardinality_from_iff maxContextGroups_def maxContextAlternatives_def)
  moreover have "set_groups_from 0 [] (cs_Groups s) = None \<longleftrightarrow> list_all group_ok (cs_Groups s) \<and> distinct (map (\<lambda>g. gd_Subject (cg_Desc g)) (cs_Groups s))"
    by (simp add: set_groups_from_iff)
  ultimately show ?thesis by (auto simp: validateContextSet_def split: option.split)
qed

end
