(* ===== verification/Tool_Dispatch.thy ===== *)
theory Tool_Dispatch
  imports Interceptor_Chain Context_Set Plan_Stream
begin

text \<open>
  Dispatch of the tool calls of one model turn, \<open>agent/dispatch.go\<close>, \<open>agent/dispatch_parallel.go\<close> and \<open>agent/verify.go\<close>, with the
  records of a run of \<open>agent/types.go\<close> and the observer events of \<open>agent/observer.go\<close>. The state of a batch is the record \<open>dispatch\<close>:
  the result, the transcript, the governor, the interceptors and the batch accumulator, which the functions of the source share through pointers. What the surroundings answer (context, budget, clock, tools, approver, observers,
  verifier) is the record \<open>dispatch_env\<close>; every question advances \<open>d_tick\<close> and the answers are functions of it, so they may
  change in any way from one question to the next. \<open>d_log\<close> records what was done to the outside in order. Copies made against
  mutation are equal values. The table of graphic runes behind \<open>SanitizePreview\<close> is not represented; it is the function \<open>de_sanitize\<close>.
\<close>

section \<open>Records of a run\<close>

record ToolOutput =
  to_Result :: ToolResult
  to_RouteOutcome :: "RouteOutcome option"

definition zero_result :: ToolResult where
  "zero_result = \<lparr>tr_Content = [], tr_IsError = False, tr_Preview = [], tr_Truncated = False, tr_Provenance = [], tr_Attrib = None,
     tr_Context = None, tr_Origin = OriginUnknown, tr_ChildScopeDenials = []\<rparr>"

definition error_output :: "string \<Rightarrow> Origin \<Rightarrow> ToolOutput" where
  "error_output content origin = \<lparr>to_Result = zero_result\<lparr>tr_IsError := True, tr_Content := content, tr_Origin := origin\<rparr>, to_RouteOutcome = None\<rparr>"

record StepRecord =
  sp_Index :: int
  sp_Response :: ChatResponse
  sp_RouteOutcome :: "RouteOutcome option"
  sp_Pressure :: Pressure
  sp_Latency :: duration

record ToolCallRecord =
  tcr_Step :: int
  tcr_Name :: string
  tcr_IsError :: bool
  tcr_Denied :: bool
  tcr_Invoked :: bool
  tcr_Latency :: duration
  tcr_Provenance :: string
  tcr_AutoApproved :: bool
  tcr_Blocked :: bool
  tcr_RouteOutcome :: "RouteOutcome option"

definition new_record :: "int \<Rightarrow> string \<Rightarrow> ToolCallRecord" where
  "new_record step name = \<lparr>tcr_Step = step, tcr_Name = name, tcr_IsError = False, tcr_Denied = False, tcr_Invoked = False, tcr_Latency = 0,
     tcr_Provenance = [], tcr_AutoApproved = False, tcr_Blocked = False, tcr_RouteOutcome = None\<rparr>"

record Result =
  rs_Answer :: string
  rs_Messages :: "ChatMessage list"
  rs_Steps :: "StepRecord list"
  rs_Events :: "EventRecord list"
  rs_Usage :: Usage
  rs_DescendantUsage :: "Usage option"
  rs_ToolCalls :: "ToolCallRecord list"
  rs_StopReason :: StopReason
  rs_Risk :: "RiskReport option"
  rs_SystemKeys :: "string list"

record ToolCallEvent =
  tce_Step :: int
  tce_Call :: ToolCall
  tce_Effect :: Effect
  tce_Preview :: string

record ToolResultEvent =
  tre_Step :: int
  tre_Call :: ToolCall
  tre_Effect :: Effect
  tre_Result :: ToolOutput
  tre_Denied :: bool
  tre_Invoked :: bool
  tre_Latency :: duration
  tre_AutoApproved :: bool
  tre_Blocked :: bool

record ApprovalDecision =
  apd_Approved :: bool
  apd_ViaGrant :: bool

section \<open>State and surroundings\<close>

text \<open>The optional interfaces of an approver, in the order \<open>approve\<close> tests them.\<close>

datatype approver =
    NoApprover
  | RiskApprover "nat \<Rightarrow> ToolCall \<Rightarrow> string \<Rightarrow> string \<Rightarrow> RiskReport \<Rightarrow> ApprovalDecision \<times> run_error option"
  | KeyedApprover "nat \<Rightarrow> ToolCall \<Rightarrow> string \<Rightarrow> string \<Rightarrow> ApprovalDecision \<times> run_error option"
  | PlainApprover "nat \<Rightarrow> ToolCall \<Rightarrow> string \<Rightarrow> bool \<times> run_error option"

record dispatch_env =
  de_ctx :: "nat \<Rightarrow> err_layer option"
  de_stopped :: "nat \<Rightarrow> bool"
  de_clock :: "nat \<Rightarrow> gotime"
  de_invoke :: "nat \<Rightarrow> Tool \<Rightarrow> duration \<Rightarrow> string \<Rightarrow> string + ToolOutput"
  de_approver :: approver
  de_onToolCall :: "nat \<Rightarrow> ToolCallEvent \<Rightarrow> run_error option"
  de_onToolResult :: "(nat \<Rightarrow> ToolResultEvent \<Rightarrow> run_error option) option"
  de_onInterception :: interception_observer
  de_verifier :: "(nat \<Rightarrow> run_error + string) option"
  de_mixed :: bool
  de_sanitize :: "string \<Rightarrow> string"

record batch =
  ba_completed :: "nat list"
  ba_verifyAnchor :: int

definition newBatch :: batch where
  "newBatch = \<lparr>ba_completed = [], ba_verifyAnchor = - 1\<rparr>"

text \<open>The answer of the interceptors to a call, the answer of the approver, an announcement to the observer, an invocation, a published
  result, a verification.\<close>

datatype dispatch_event =
    EvGate ToolCall "run_error + string option" | EvDecision ToolCall ApprovalDecision "run_error option" | EvAnnounced ToolCallEvent | EvInvoke Tool string | EvResult ToolResultEvent | EvVerify

record dispatch =
  d_res :: Result
  d_state :: State
  d_gov :: restraintGovernor
  d_ic :: interceptorRun
  d_batch :: batch
  d_tick :: nat
  d_log :: "dispatch_event list"

definition tick :: "dispatch \<Rightarrow> dispatch" where
  "tick d = d\<lparr>d_tick := Suc (d_tick d)\<rparr>"

definition emit :: "dispatch_event \<Rightarrow> dispatch \<Rightarrow> dispatch" where
  "emit e d = d\<lparr>d_log := d_log d @ [e]\<rparr>"

definition add_event :: "int \<Rightarrow> string \<Rightarrow> dispatch \<Rightarrow> dispatch" where
  "add_event step kind d = d\<lparr>d_res := (d_res d)\<lparr>rs_Events := rs_Events (d_res d) @ [\<lparr>ev_Step = step, ev_Kind = kind\<rparr>]\<rparr>\<rparr>"

definition ctx_Err :: "dispatch_env \<Rightarrow> dispatch \<Rightarrow> run_error option \<times> dispatch" where
  "ctx_Err env d = (case de_ctx env (d_tick d) of None \<Rightarrow> None | Some e \<Rightarrow> Some [LayerContext e], tick d)"

definition ask_stopped :: "dispatch_env \<Rightarrow> dispatch \<Rightarrow> bool \<times> dispatch" where
  "ask_stopped env d = (de_stopped env (d_tick d), tick d)"

definition check_budget :: "dispatch_env \<Rightarrow> dispatch \<Rightarrow> run_error option \<times> dispatch" where
  "check_budget env d =
     (let (err, d) = ctx_Err env d
      in if err \<noteq> None then (err, d)
         else let (stopped, d) = ask_stopped env d
              in if stopped then (Some [LayerBudgetExhausted], d) else (None, d))"

definition budget_exhausted :: "run_error \<Rightarrow> bool" where
  "budget_exhausted e \<longleftrightarrow> LayerBudgetExhausted \<in> set e"

definition now :: "dispatch_env \<Rightarrow> dispatch \<Rightarrow> gotime \<times> dispatch" where
  "now env d = (de_clock env (d_tick d), tick d)"

section \<open>One call\<close>

definition capOutput :: "ToolResult \<Rightarrow> int \<Rightarrow> ToolResult" where
  "capOutput r limit =
     (if limit > 0 \<and> go_len (tr_Content r) > limit
      then r\<lparr>tr_Content := take (rune_end (tr_Content r) (nat limit)) (tr_Content r), tr_Truncated := True\<rparr>
      else r)"

definition toolObservation :: "ToolCall \<Rightarrow> ToolResult \<Rightarrow> Message" where
  "toolObservation call r =
     (mk_Message ((mk_ChatMessage ''tool'' (tr_Content r))\<lparr>cm_ToolName := call_name call, cm_ToolCallID := tc_ID call\<rparr>) Elastic)\<lparr>m_Attrib := tr_Attrib r\<rparr>"

definition approve :: "dispatch_env \<Rightarrow> ToolCall \<Rightarrow> string \<Rightarrow> string \<Rightarrow> RiskReport \<Rightarrow> dispatch \<Rightarrow> (ApprovalDecision \<times> run_error option) \<times> dispatch" where
  "approve env call preview approvalKey risk d =
     (let preview = de_sanitize env preview;
          answer = (case de_approver env of
                      NoApprover \<Rightarrow> None
                    | RiskApprover f \<Rightarrow> Some (f (d_tick d) call preview approvalKey risk)
                    | KeyedApprover f \<Rightarrow> Some (f (d_tick d) call preview approvalKey)
                    | PlainApprover f \<Rightarrow> let (ok, err) = f (d_tick d) call preview in Some (\<lparr>apd_Approved = ok, apd_ViaGrant = False\<rparr>, err))
      in case answer of
           None \<Rightarrow> ((\<lparr>apd_Approved = False, apd_ViaGrant = False\<rparr>, None), d)
         | Some (decision, err) \<Rightarrow> ((decision, err), emit (EvDecision call decision err) (tick d)))"

record preparedCall =
  pc_call :: ToolCall
  pc_tool :: "Tool option"
  pc_effect :: Effect
  pc_rec :: ToolCallRecord
  pc_result :: "ToolOutput option"
  pc_inspectResult :: bool

definition zero_effect :: Effect where
  "zero_effect = \<lparr>ef_Class = 0, ef_Scope = \<lparr>sc_Paths = [], sc_CWD = []\<rparr>, ef_Timeout = 0, ef_OutputCap = 0, ef_Approval = ApprovalDefault\<rparr>"

definition new_prepared :: "ToolCall \<Rightarrow> ToolCallRecord \<Rightarrow> preparedCall" where
  "new_prepared call rec = \<lparr>pc_call = call, pc_tool = None, pc_effect = zero_effect, pc_rec = rec, pc_result = None, pc_inspectResult = False\<rparr>"

definition zero_call :: ToolCall where
  "zero_call = \<lparr>tc_ID = [], tc_Type = [], tc_Function = \<lparr>tcf_Index = 0, tcf_Name = [], tcf_Arguments = []\<rparr>\<rparr>"

definition synthetic :: "ToolOutput \<Rightarrow> preparedCall \<Rightarrow> preparedCall" where
  "synthetic out p = p\<lparr>pc_rec := (pc_rec p)\<lparr>tcr_IsError := True\<rparr>, pc_result := Some out\<rparr>"

text \<open>The last part of \<open>prepareCall\<close>, from the reservation of the invocation on.\<close>

definition prepare_announce :: "dispatch_env \<Rightarrow> Tool \<Rightarrow> ToolCall \<Rightarrow> string \<Rightarrow> int \<Rightarrow> preparedCall \<Rightarrow> dispatch \<Rightarrow> (preparedCall \<times> run_error option) \<times> dispatch" where
  "prepare_announce env tool call preview step p d =
     (let name = call_name call;
          (gov, limit, ok) = reserveInvocation name (d_gov d);
          d = d\<lparr>d_gov := gov\<rparr>
      in if \<not> ok
         then ((synthetic (error_output (''tool invocation budget reached for '' @ name @ '' ('' @ itoa limit @ '' per run)'') OriginUnknown) p, None), d)
         else let ev = \<lparr>tce_Step = step, tce_Call = call, tce_Effect = pc_effect p, tce_Preview = preview\<rparr>;
                  err = de_onToolCall env (d_tick d) ev;
                  d = emit (EvAnnounced ev) (tick d)
              in if err \<noteq> None then ((p, err), d) else ((p\<lparr>pc_tool := Some tool\<rparr>, None), d))"

text \<open>The part after the plan: approval of the effect, then the reservation.\<close>

definition prepare_approve :: "dispatch_env \<Rightarrow> Tool \<Rightarrow> ToolCall \<Rightarrow> Effect \<Rightarrow> string \<Rightarrow> string \<Rightarrow> int \<Rightarrow> preparedCall \<Rightarrow> dispatch \<Rightarrow> (preparedCall \<times> run_error option) \<times> dispatch" where
  "prepare_approve env tool call effect preview approvalKey step p d =
     (let effect = normalizeEffect effect;
          p = p\<lparr>pc_effect := effect\<rparr>
      in if needsApproval (ef_Approval effect) (ef_Class effect)
         then let ((decision, err), d) = approve env call preview approvalKey (ir_snapshot (d_ic d)) d
              in if err \<noteq> None then ((p, err), d)
                 else if \<not> apd_Approved decision
                 then let p = synthetic (error_output ''tool call denied by approver'' OriginUnknown) p
                      in ((p\<lparr>pc_rec := (pc_rec p)\<lparr>tcr_Denied := True\<rparr>\<rparr>, None), d)
                 else prepare_announce env tool call preview step (p\<lparr>pc_rec := (pc_rec p)\<lparr>tcr_AutoApproved := apd_ViaGrant decision\<rparr>\<rparr>) d
         else prepare_announce env tool call preview step p d)"

definition prepareCall :: "dispatch_env \<Rightarrow> toolRegistry \<Rightarrow> ToolCall \<Rightarrow> int \<Rightarrow> dispatch \<Rightarrow> (preparedCall \<times> run_error option) \<times> dispatch" where
  "prepareCall env reg call step d =
     (let (err, d) = check_budget env d
      in if err \<noteq> None then ((new_prepared zero_call (new_record 0 []), err), d)
         else let name = call_name call;
                  p = new_prepared call (new_record step name)
              in case reg_lookup reg name of
                   None \<Rightarrow> (((synthetic (error_output (''unknown tool: '' @ name) OriginModel) p)\<lparr>pc_inspectResult := True\<rparr>, None), d)
                 | Some tool \<Rightarrow>
                     if \<not> json_Valid (call_args call)
                     then ((synthetic (error_output ''malformed tool arguments (not valid JSON)'' OriginUnknown) p, None), d)
                     else let p = p\<lparr>pc_effect := normalizeEffect (tl_Effect tool)\<rparr>;
                              (gate, ic) = inspectToolCall (de_onInterception env) step call (pc_effect p) (d_ic d);
                              d = emit (EvGate call gate) (d\<lparr>d_ic := ic\<rparr>)
                          in case gate of
                               Inl e \<Rightarrow> ((p, Some e), d)
                             | Inr (Some content) \<Rightarrow>
                                 let p = synthetic (error_output content OriginUnknown) p
                                 in ((p\<lparr>pc_rec := (pc_rec p)\<lparr>tcr_Blocked := True\<rparr>\<rparr>, None), d)
                             | Inr None \<Rightarrow>
                                 (case tl_Plan tool of
                                    None \<Rightarrow> prepare_approve env tool call (tl_Effect tool) [] [] step p d
                                  | Some plan \<Rightarrow>
                                      (case plan (d_tick d) (call_args call) of
                                         Inl e \<Rightarrow> (((synthetic (error_output (''plan failed: '' @ e) (staticOrigin tool)) p)\<lparr>pc_inspectResult := True\<rparr>, None), tick d)
                                       | Inr pl \<Rightarrow> prepare_approve env tool call (tp_Effect pl) (tp_Preview pl) (tp_ApprovalKey pl) step p (tick d))))"

definition result_origin :: "Tool \<Rightarrow> Origin \<Rightarrow> Origin" where
  "result_origin tool origin =
     (let static = staticOrigin tool
      in if origin = OriginUnknown then static
         else if \<not> trusted static \<and> trusted (normalizeOrigin origin) then static
         else normalizeOrigin origin)"

definition invokeCall :: "dispatch_env \<Rightarrow> Tool \<Rightarrow> Effect \<Rightarrow> string \<Rightarrow> dispatch \<Rightarrow> (run_error + ToolOutput) \<times> dispatch" where
  "invokeCall env tool effect args d =
     (let (err, d) = check_budget env d
      in case err of
           Some e \<Rightarrow> (Inl e, d)
         | None \<Rightarrow>
             let answer = de_invoke env (d_tick d) tool (ef_Timeout effect) args;
                 d = emit (EvInvoke tool args) (tick d)
             in case answer of
                  Inl e \<Rightarrow> (Inr (error_output e (staticOrigin tool)), d)
                | Inr out \<Rightarrow>
                    let r = capOutput (to_Result out) (ef_OutputCap effect)
                    in (Inr (out\<lparr>to_Result := r\<lparr>tr_Origin := result_origin tool (tr_Origin r)\<rparr>\<rparr>), d))"

text \<open>Output, effect, record, the inspection mark and the error of a hard abort.\<close>

definition dispatch_call :: "dispatch_env \<Rightarrow> toolRegistry \<Rightarrow> ToolCall \<Rightarrow> int \<Rightarrow> dispatch \<Rightarrow> (ToolOutput \<times> Effect \<times> ToolCallRecord \<times> bool \<times> run_error option) \<times> dispatch" where
  "dispatch_call env reg call step d =
     (let zero = \<lparr>to_Result = zero_result, to_RouteOutcome = None\<rparr>;
          ((p, err), d) = prepareCall env reg call step d
      in if err \<noteq> None then ((zero, pc_effect p, pc_rec p, pc_inspectResult p, err), d)
         else case pc_result p of
                Some out \<Rightarrow> ((out, pc_effect p, pc_rec p, pc_inspectResult p, None), d)
              | None \<Rightarrow>
                  case pc_tool p of
                    None \<Rightarrow> ((zero, pc_effect p, pc_rec p, pc_inspectResult p, None), d)
                  | Some tool \<Rightarrow>
                      let (start, d) = now env d;
                          (answer, d) = invokeCall env tool (pc_effect p) (call_args (pc_call p)) d
                      in case answer of
                           Inl e \<Rightarrow> ((zero, pc_effect p, pc_rec p, False, Some e), d)
                         | Inr out \<Rightarrow>
                             let (stop, d) = now env d;
                                 rec = (pc_rec p)\<lparr>tcr_Invoked := True, tcr_Latency := time_sub stop start, tcr_IsError := tr_IsError (to_Result out)\<rparr>;
                                 (cerr, d) = ctx_Err env d
                             in ((out, pc_effect p, rec, False, cerr), d))"

section \<open>Recording\<close>

definition appendToolCallRecord :: "int \<Rightarrow> ToolCallRecord \<Rightarrow> RouteOutcome option \<Rightarrow> dispatch \<Rightarrow> dispatch" where
  "appendToolCallRecord step rec routeOutcome d =
     add_event step ''tool_result'' (d\<lparr>d_res := (d_res d)\<lparr>rs_ToolCalls := rs_ToolCalls (d_res d) @ [rec\<lparr>tcr_RouteOutcome := routeOutcome\<rparr>]\<rparr>\<rparr>)"

definition appendInvokedToolCallRecord :: "int \<Rightarrow> ToolCallRecord \<Rightarrow> RouteOutcome option \<Rightarrow> dispatch \<Rightarrow> dispatch" where
  "appendInvokedToolCallRecord step rec routeOutcome d = (if tcr_Invoked rec then appendToolCallRecord step rec routeOutcome d else d)"

definition WriteFileToolName :: string where "WriteFileToolName = ''write_file''"
definition EditFileToolName :: string where "EditFileToolName = ''edit_file''"

definition mutatesWorkspaceFiles :: "string \<Rightarrow> bool" where
  "mutatesWorkspaceFiles name \<longleftrightarrow> name = WriteFileToolName \<or> name = EditFileToolName"

definition batch_note :: "State \<Rightarrow> ToolCall \<Rightarrow> ToolCallRecord \<Rightarrow> ToolResult \<Rightarrow> batch \<Rightarrow> batch" where
  "batch_note state call rec out b =
     (if tcr_Invoked rec \<and> \<not> tr_IsError out \<and> mutatesWorkspaceFiles (call_name call)
      then b\<lparr>ba_verifyAnchor := int (length (st_Messages state)) - 1\<rparr> else b)"

text \<open>The inspection of an observation at ingress: the final output and record, and the output cap widened by tag trailers; or the error of
  a hard abort together with the record to keep.\<close>

definition inspect_ingress :: "dispatch_env \<Rightarrow> int \<Rightarrow> ToolCall \<Rightarrow> ToolCallRecord \<Rightarrow> ToolOutput \<Rightarrow> int \<Rightarrow> dispatch
    \<Rightarrow> (ToolCallRecord \<times> run_error + ToolOutput \<times> ToolCallRecord \<times> int) \<times> dispatch" where
  "inspect_ingress env step call rec out outputCap d =
     (let r = to_Result out;
          msg = \<lparr>im_StateIndex = int (length (st_Messages (d_state d))), im_Role = ''tool'', im_Origin = tr_Origin r, im_ToolName = call_name call,
                 im_ToolCallID = tc_ID call, im_Content = tr_Content r, im_Alternatives = (if de_mixed env then alternativesOf (tr_Context r) else []),
                 im_ChildScopeDenials = tr_ChildScopeDenials r\<rparr>;
          (answer, ic) = inspectObservation (de_onInterception env) step msg (d_ic d);
          d = d\<lparr>d_ic := ic\<rparr>
      in case answer of
           Inl e \<Rightarrow> (Inl (if as_blocked e \<noteq> None then rec\<lparr>tcr_IsError := True, tcr_Blocked := True\<rparr> else rec, e), d)
         | Inr (_, Some block, _) \<Rightarrow>
             (Inr ((error_output (blockedResultContent block) (tr_Origin r))\<lparr>to_RouteOutcome := to_RouteOutcome out\<rparr>,
                   rec\<lparr>tcr_IsError := True, tcr_Blocked := True\<rparr>, outputCap), d)
         | Inr (tags, None, _) \<Rightarrow>
             if tags \<noteq> []
             then let (r, widen) = annotateResult r tags (de_mixed env) in (Inr (out\<lparr>to_Result := r\<rparr>, rec, addSaturating outputCap widen), d)
             else (Inr (out, rec, outputCap), d))"

text \<open>The last part of \<open>recordResult\<close>: the record, the observer, the observation in the transcript, the batch policy and the governor.\<close>

definition record_observation :: "dispatch_env \<Rightarrow> int \<Rightarrow> ToolCall \<Rightarrow> Effect \<Rightarrow> ToolCallRecord \<Rightarrow> ToolOutput \<Rightarrow> int \<Rightarrow> dispatch \<Rightarrow> (run_error + bool) \<times> dispatch" where
  "record_observation env step call effect rec out outputCap d =
     (let d = appendToolCallRecord step rec (to_RouteOutcome out) d;
          (err, d) =
            (case de_onToolResult env of
               None \<Rightarrow> (None, d)
             | Some tro \<Rightarrow>
                 let ev = \<lparr>tre_Step = step, tre_Call = call, tre_Effect = effect,
                           tre_Result = out\<lparr>to_Result := (to_Result out)\<lparr>tr_Provenance := tcr_Provenance rec\<rparr>\<rparr>,
                           tre_Denied = tcr_Denied rec, tre_Invoked = tcr_Invoked rec, tre_Latency = tcr_Latency rec,
                           tre_AutoApproved = tcr_AutoApproved rec, tre_Blocked = tcr_Blocked rec\<rparr>
                 in (tro (d_tick d) ev, emit (EvResult ev) (tick d)))
      in case err of
           Some e \<Rightarrow> (Inl e, d)
         | None \<Rightarrow>
             let msg = (toolObservation call (to_Result out))\<lparr>m_OutputCap := outputCap\<rparr>;
                 msg = (if de_mixed env then msg\<lparr>m_Context := tr_Context (to_Result out)\<rparr> else msg);
                 state = (d_state d)\<lparr>st_Messages := st_Messages (d_state d) @ [msg]\<rparr>;
                 gov = observe call (to_Result out) (d_gov d);
                 d = d\<lparr>d_state := state, d_batch := batch_note state call rec (to_Result out) (d_batch d), d_gov := gov\<rparr>;
                 (sr, tripped) = stopReason gov
             in if tripped then (Inr True, d\<lparr>d_res := (d_res d)\<lparr>rs_StopReason := sr\<rparr>\<rparr>) else (Inr False, d))"

definition recordToolResult :: "dispatch_env \<Rightarrow> int \<Rightarrow> ToolCall \<Rightarrow> Effect \<Rightarrow> ToolCallRecord \<Rightarrow> ToolOutput \<Rightarrow> bool \<Rightarrow> dispatch \<Rightarrow> (run_error + bool) \<times> dispatch" where
  "recordToolResult env step call effect rec out inspectResult d =
     (let provenance = tr_Provenance (to_Result out);
          invalid = (if de_mixed env then validateContextSetCardinality (tr_Context (to_Result out)) else None)
      in if invalid \<noteq> None
         then (Inl [LayerText ''agent: context set''], appendToolCallRecord step rec (to_RouteOutcome out) d)
         else let (answer, d) = (if tcr_Invoked rec \<or> inspectResult then inspect_ingress env step call rec out (ef_OutputCap effect) d
                                 else (Inr (out, rec, ef_OutputCap effect), d))
              in case answer of
                   Inl (rec, e) \<Rightarrow> (Inl e, appendToolCallRecord step rec (to_RouteOutcome out) d)
                 | Inr (out, rec, outputCap) \<Rightarrow>
                     let rec = (if \<not> tcr_Blocked rec then rec\<lparr>tcr_Provenance := provenance\<rparr> else rec)
                     in record_observation env step call effect rec out outputCap d)"

section \<open>Batches\<close>

definition complete_call :: "nat \<Rightarrow> dispatch \<Rightarrow> dispatch" where
  "complete_call i d = d\<lparr>d_batch := (d_batch d)\<lparr>ba_completed := ba_completed (d_batch d) @ [i]\<rparr>\<rparr>"

fun serial_from :: "dispatch_env \<Rightarrow> toolRegistry \<Rightarrow> int \<Rightarrow> nat \<Rightarrow> ToolCall list \<Rightarrow> dispatch \<Rightarrow> run_error option \<times> dispatch" where
  "serial_from env reg step i [] d = (None, d)"
| "serial_from env reg step i (call # cs) d =
     (let d = add_event step ''tool_call'' d;
          ((out, effect, rec, inspectResult, err), d) = dispatch_call env reg call step d
      in case err of
           Some e \<Rightarrow>
             let d = (if budget_exhausted e then d\<lparr>d_res := (d_res d)\<lparr>rs_Events := butlast (rs_Events (d_res d))\<rparr>\<rparr> else d)
             in (Some e, appendInvokedToolCallRecord step rec (to_RouteOutcome out) d)
         | None \<Rightarrow>
             (case recordToolResult env step call effect rec out inspectResult d of
                (Inl e, d) \<Rightarrow> (Some e, d)
              | (Inr stop, d) \<Rightarrow> let d = complete_call i d in if stop then (None, d) else serial_from env reg step (Suc i) cs d))"

definition runToolCallsSerial :: "dispatch_env \<Rightarrow> toolRegistry \<Rightarrow> ToolCall list \<Rightarrow> int \<Rightarrow> dispatch \<Rightarrow> run_error option \<times> dispatch" where
  "runToolCallsSerial env reg cs step d = serial_from env reg step 0 cs d"

text \<open>The filter of call events; its start lies within the events of the run.\<close>

definition retain_events :: "nat \<Rightarrow> (nat \<Rightarrow> bool) \<Rightarrow> dispatch \<Rightarrow> dispatch" where
  "retain_events start keep d =
     (case retainToolCallEvents (rs_Events (d_res d)) start keep of Some events \<Rightarrow> d\<lparr>d_res := (d_res d)\<lparr>rs_Events := events\<rparr>\<rparr> | None \<Rightarrow> d)"

fun prepare_from :: "dispatch_env \<Rightarrow> toolRegistry \<Rightarrow> int \<Rightarrow> nat \<Rightarrow> ToolCall list \<Rightarrow> preparedCall list \<Rightarrow> dispatch \<Rightarrow> (run_error + preparedCall list) \<times> dispatch" where
  "prepare_from env reg step start [] prepared d = (Inr prepared, d)"
| "prepare_from env reg step start (call # cs) prepared d =
     (let d = add_event step ''tool_call'' d;
          ((p, err), d) = prepareCall env reg call step d
      in case err of
           Some e \<Rightarrow>
             let d = (if budget_exhausted e then retain_events start (\<lambda>j. j < length prepared \<and> pc_result (prepared ! j) \<noteq> None) d else d)
             in (Inl e, foldl (\<lambda>d q. case pc_result q of Some out \<Rightarrow> appendToolCallRecord step (pc_rec q) (to_RouteOutcome out) d | None \<Rightarrow> d) d prepared)
         | None \<Rightarrow> prepare_from env reg step start cs (prepared @ [p]) d)"

record worker =
  wk_result :: ToolOutput
  wk_latency :: duration
  wk_invoked :: bool
  wk_error :: "run_error option"

text \<open>One worker. A synthetic result is copied through.\<close>

definition run_worker :: "dispatch_env \<Rightarrow> preparedCall \<Rightarrow> dispatch \<Rightarrow> worker \<times> dispatch" where
  "run_worker env p d =
     (let zero = \<lparr>to_Result = zero_result, to_RouteOutcome = None\<rparr>
      in case pc_result p of
           Some out \<Rightarrow> (\<lparr>wk_result = out, wk_latency = 0, wk_invoked = False, wk_error = None\<rparr>, d)
         | None \<Rightarrow>
             case pc_tool p of
               None \<Rightarrow> (\<lparr>wk_result = zero, wk_latency = 0, wk_invoked = False, wk_error = None\<rparr>, d)
             | Some tool \<Rightarrow>
                 let (start, d) = now env d;
                     (answer, d) = invokeCall env tool (pc_effect p) (call_args (pc_call p)) d;
                     (stop, d) = now env d
                 in case answer of
                      Inl e \<Rightarrow> (\<lparr>wk_result = zero, wk_latency = time_sub stop start, wk_invoked = False, wk_error = Some e\<rparr>, d)
                    | Inr out \<Rightarrow> (\<lparr>wk_result = out, wk_latency = time_sub stop start, wk_invoked = True, wk_error = None\<rparr>, d))"

text \<open>The workers share nothing of the run but the answers of the surroundings, which vary freely, so listing them in the order of the calls
  fixes only the order of their invocations in the log.\<close>

fun run_workers :: "dispatch_env \<Rightarrow> preparedCall list \<Rightarrow> dispatch \<Rightarrow> worker list \<times> dispatch" where
  "run_workers env [] d = ([], d)"
| "run_workers env (p # ps) d =
     (let (w, d) = run_worker env p d;
          (ws, d) = run_workers env ps d
      in (w # ws, d))"

definition worker_record :: "preparedCall \<Rightarrow> worker \<Rightarrow> ToolCallRecord" where
  "worker_record p w =
     (let rec = (pc_rec p)\<lparr>tcr_IsError := tr_IsError (to_Result (wk_result w))\<rparr>
      in if wk_invoked w then rec\<lparr>tcr_Invoked := True, tcr_Latency := wk_latency w\<rparr> else rec)"

fun appendTrailingToolCallRecords :: "int \<Rightarrow> (preparedCall \<times> worker) list \<Rightarrow> dispatch \<Rightarrow> dispatch" where
  "appendTrailingToolCallRecords step [] d = d"
| "appendTrailingToolCallRecords step ((p, w) # rest) d =
     (if \<not> wk_invoked w \<and> pc_result p = None then appendTrailingToolCallRecords step rest d
      else appendTrailingToolCallRecords step rest (appendToolCallRecord step (worker_record p w) (to_RouteOutcome (wk_result w)) d))"

fun record_from :: "dispatch_env \<Rightarrow> int \<Rightarrow> nat \<Rightarrow> (preparedCall \<times> worker) list \<Rightarrow> dispatch \<Rightarrow> run_error option \<times> dispatch" where
  "record_from env step i [] d = (None, d)"
| "record_from env step i ((p, w) # rest) d =
     (if wk_error w \<noteq> None then record_from env step (Suc i) rest d
      else case recordToolResult env step (pc_call p) (pc_effect p) (worker_record p w) (wk_result w) (pc_inspectResult p) d of
             (Inl e, d) \<Rightarrow> (Some e, appendTrailingToolCallRecords step rest d)
           | (Inr stop, d) \<Rightarrow>
               let d = complete_call i d
               in if stop then (None, appendTrailingToolCallRecords step rest d) else record_from env step (Suc i) rest d)"

definition runToolCallsParallel :: "dispatch_env \<Rightarrow> toolRegistry \<Rightarrow> ToolCall list \<Rightarrow> int \<Rightarrow> dispatch \<Rightarrow> run_error option \<times> dispatch" where
  "runToolCallsParallel env reg cs step d =
     (let eventStart = length (rs_Events (d_res d))
      in case prepare_from env reg step eventStart cs [] d of
           (Inl e, d) \<Rightarrow> (Some e, d)
         | (Inr prepared, d) \<Rightarrow>
             let (workers, d) = run_workers env prepared d;
                 d = retain_events eventStart (\<lambda>i. i < length workers \<and> \<not> (case wk_error (workers ! i) of Some e \<Rightarrow> budget_exhausted e | None \<Rightarrow> False)) d;
                 (err, d) = ctx_Err env d
             in if err \<noteq> None then (err, appendTrailingToolCallRecords step (zip prepared workers) d)
                else record_from env step 0 (zip prepared workers) d)"

definition append_content :: "nat \<Rightarrow> string \<Rightarrow> State \<Rightarrow> State" where
  "append_content i text st =
     (let m = st_Messages st ! i; cm = m_chat m
      in st\<lparr>st_Messages := (st_Messages st)[i := m\<lparr>m_chat := cm\<lparr>cm_Content := cm_Content cm @ text\<rparr>\<rparr>]\<rparr>)"

definition verifyBatch :: "dispatch_env \<Rightarrow> int \<Rightarrow> dispatch \<Rightarrow> run_error option \<times> dispatch" where
  "verifyBatch env step d =
     (case de_verifier env of
        None \<Rightarrow> (None, d)
      | Some verify \<Rightarrow>
          if ba_verifyAnchor (d_batch d) < 0 then (None, d)
          else let answer = verify (d_tick d); d = emit EvVerify (tick d)
               in case answer of
                    Inl e \<Rightarrow> (Some e, d)
                  | Inr out \<Rightarrow>
                      let (cerr, d) = ctx_Err env d
                      in if cerr \<noteq> None then (cerr, d)
                         else if out = [] then (None, d)
                         else let i = nat (ba_verifyAnchor (d_batch d));
                                  anchor = st_Messages (d_state d) ! i;
                                  msg = \<lparr>im_StateIndex = ba_verifyAnchor (d_batch d), im_Role = ''tool'', im_Origin = OriginWorkspace,
                                         im_ToolName = cm_ToolName (m_chat anchor), im_ToolCallID = cm_ToolCallID (m_chat anchor), im_Content = out,
                                         im_Alternatives = [], im_ChildScopeDenials = []\<rparr>;
                                  (answer, ic) = inspectObservation (de_onInterception env) step msg (d_ic d);
                                  d = d\<lparr>d_ic := ic\<rparr>
                              in case answer of
                                   Inl e \<Rightarrow> (Some e, d)
                                 | Inr (tags, block, _) \<Rightarrow>
                                     let (cerr, d) = ctx_Err env d
                                     in if cerr \<noteq> None then (cerr, d)
                                        else let text = (case block of Some f \<Rightarrow> CHR 0x0A # blockedResultContent f
                                                         | None \<Rightarrow> out @ concat (map tagTrailer tags))
                                             in (None, d\<lparr>d_state := append_content i text (d_state d)\<rparr>))"

text \<open>A batch ended by the budget keeps only the completed calls in the assistant message.\<close>

definition prune_calls :: "nat \<Rightarrow> dispatch \<Rightarrow> dispatch" where
  "prune_calls assistantIndex d =
     (let ms = st_Messages (d_state d); m = ms ! assistantIndex; cm = m_chat m;
          kept = map (\<lambda>i. cm_ToolCalls cm ! i) (ba_completed (d_batch d));
          ms = (if kept = [] \<and> cm_Content cm = [] then take assistantIndex ms else ms[assistantIndex := m\<lparr>m_chat := cm\<lparr>cm_ToolCalls := kept\<rparr>\<rparr>]);
          res = (if rs_StopReason (d_res d) = Completed then (d_res d)\<lparr>rs_StopReason := BudgetReached\<rparr> else d_res d)
      in d\<lparr>d_state := (d_state d)\<lparr>st_Messages := ms\<rparr>, d_res := res\<rparr>)"

text \<open>The assistant message of the turn is the last message when a batch starts.\<close>

definition runToolCalls :: "dispatch_env \<Rightarrow> toolRegistry \<Rightarrow> ToolCall list \<Rightarrow> int \<Rightarrow> dispatch \<Rightarrow> run_error option \<times> dispatch" where
  "runToolCalls env reg cs step d =
     (let d = d\<lparr>d_batch := newBatch\<rparr>;
          assistantIndex = length (st_Messages (d_state d)) - 1;
          (err, d) = (if length cs \<ge> 2 \<and> canRunParallel reg cs \<and> parallelUncapped (d_gov d) cs
                      then runToolCallsParallel env reg cs step d else runToolCallsSerial env reg cs step d);
          (err, d) = (if err = None then let (stopped, d) = ask_stopped env d in (if stopped then Some [LayerBudgetExhausted] else None, d)
                      else (err, d))
      in case err of
           Some e \<Rightarrow>
             if budget_exhausted e
             then let (cerr, d) = ctx_Err env d in if cerr \<noteq> None then (cerr, d) else (None, prune_calls assistantIndex d)
             else (Some e, d)
         | None \<Rightarrow> if rs_StopReason (d_res d) \<noteq> Completed then (None, d) else verifyBatch env step d)"

end
