(* ===== verification/Dispatch_Transcript.thy ===== *)
theory Dispatch_Transcript
  imports Tool_Dispatch
begin

text \<open>
  The transcript of a dispatched batch (\<open>agent/dispatch.go\<close>, \<open>dispatch_parallel.go\<close>): what each part of the dispatch leaves alone, the
  progress of the serial and of the concurrent loop, and that no call of an orderly ended batch is left unanswered.
\<close>

section \<open>What the parts leave alone\<close>

definition keeps :: "dispatch \<Rightarrow> dispatch \<Rightarrow> bool" where
  "keeps d d' \<longleftrightarrow> d_state d' = d_state d \<and> d_batch d' = d_batch d \<and> rs_StopReason (d_res d') = rs_StopReason (d_res d) \<and> d_tick d \<le> d_tick d'"

lemma keeps_refl [simp]: "keeps d d"
  by (simp add: keeps_def)

lemma keeps_trans: "keeps a b \<Longrightarrow> keeps b c \<Longrightarrow> keeps a c"
  by (auto simp: keeps_def)

lemma keeps_parts [simp]:
  "keeps d (tick d)" "keeps d (emit e d)" "keeps d (emit e (tick d))" "keeps d (add_event s k d)" "keeps d (d\<lparr>d_ic := ic\<rparr>)"
  "keeps d (d\<lparr>d_gov := gov\<rparr>)" "keeps d (emit e (d\<lparr>d_ic := ic\<rparr>))" "keeps d (emit e (tick (d\<lparr>d_gov := gov\<rparr>)))"
  "keeps d (appendToolCallRecord s r ro d)" "keeps d (appendInvokedToolCallRecord s r ro d)"
  by (simp_all add: keeps_def tick_def emit_def add_event_def appendToolCallRecord_def appendInvokedToolCallRecord_def)

lemma keeps_queries [simp]:
  "keeps d (snd (ctx_Err env d))" "keeps d (snd (ask_stopped env d))" "keeps d (snd (now env d))"
  by (simp_all add: ctx_Err_def ask_stopped_def now_def)

lemma check_budget_keeps [simp]: "keeps d (snd (check_budget env d))"
  using keeps_trans [OF keeps_queries(1) keeps_queries(2)] by (auto simp: check_budget_def Let_def split_beta)

lemma approve_keeps [simp]: "keeps d (snd (approve env c p k r d))"
  by (auto simp: approve_def Let_def split_beta split: approver.split option.split)

lemma prepare_announce_keeps [simp]: "keeps d (snd (prepare_announce env t c p s q d))"
  by (auto simp: prepare_announce_def Let_def split_beta)

lemma prepare_approve_keeps [simp]: "keeps d (snd (prepare_approve env t c e p k s q d))"
  by (auto simp: prepare_approve_def Let_def split_beta intro: keeps_trans [OF approve_keeps prepare_announce_keeps])

lemma keeps_chain:
  "keeps a b \<Longrightarrow> keeps a (tick b)" "keeps a b \<Longrightarrow> keeps a (emit e b)" "keeps a b \<Longrightarrow> keeps a (b\<lparr>d_ic := ic\<rparr>)"
  "keeps a b \<Longrightarrow> keeps a (snd (ctx_Err env b))" "keeps a b \<Longrightarrow> keeps a (snd (now env b))" "keeps a b \<Longrightarrow> keeps a (snd (check_budget env b))"
  "keeps a b \<Longrightarrow> keeps a (snd (prepare_approve env t c ef p k s q b))" "keeps a b \<Longrightarrow> keeps a (appendToolCallRecord s r ro b)"
  "keeps a b \<Longrightarrow> keeps a (appendInvokedToolCallRecord s r ro b)" "keeps a b \<Longrightarrow> keeps a (add_event s kd b)"
  by (blast intro: keeps_trans keeps_parts keeps_queries check_budget_keeps prepare_approve_keeps)+

lemma prepareCall_keeps [simp]: "keeps d (snd (prepareCall env reg c s d))"
  by (auto simp: prepareCall_def Let_def split_beta split: option.split sum.split intro!: keeps_chain)

lemma invokeCall_keeps [simp]: "keeps d (snd (invokeCall env t e a d))"
  by (auto simp: invokeCall_def Let_def split_beta split: option.split sum.split intro!: keeps_chain)

lemma dispatch_call_keeps [simp]: "keeps d (snd (dispatch_call env reg c s d))"
proof -
  have "keeps d (snd (invokeCall env t e a (snd (now env (snd (prepareCall env reg c s d))))))" for t e a
    by (blast intro: keeps_trans prepareCall_keeps keeps_queries invokeCall_keeps)
  then show ?thesis
    by (auto simp: dispatch_call_def Let_def split_beta split: option.split sum.split intro!: keeps_chain)
qed

lemma run_worker_keeps [simp]: "keeps d (snd (run_worker env p d))"
proof -
  have "keeps d (snd (invokeCall env t e a (snd (now env d))))" for t e a
    by (blast intro: keeps_trans keeps_queries invokeCall_keeps)
  then show ?thesis
    by (auto simp: run_worker_def Let_def split_beta split: option.split sum.split intro!: keeps_chain)
qed

lemma run_workers_keeps [simp]: "keeps d (snd (run_workers env ps d))"
  by (induction ps arbitrary: d) (auto simp: Let_def split_beta intro: keeps_trans [OF run_worker_keeps])

lemma retain_events_keeps [simp]: "keeps d (retain_events st k d)"
  by (auto simp: retain_events_def keeps_def split: option.split)

lemma appendTrailing_keeps [simp]: "keeps d (appendTrailingToolCallRecords s xs d)"
  by (induction s xs d rule: appendTrailingToolCallRecords.induct) (auto intro: keeps_trans [OF keeps_parts(9)])

lemma prepare_from_keeps:
  "prepare_from env reg s st cs ps d = (ans, d') \<Longrightarrow> keeps d d' \<and> (\<forall>qs. ans = Inr qs \<longrightarrow> (\<exists>new. qs = ps @ new \<and> length new = length cs))"
proof (induction cs arbitrary: ps d)
  case (Cons c cs)
  obtain p err e where pr: "prepareCall env reg c s (add_event s ''tool_call'' d) = ((p, err), e)" by (metis prod_cases3 surj_pair)
  have k: "keeps d e" using keeps_trans [OF keeps_parts(4) prepareCall_keeps [of "add_event s ''tool_call'' d" env reg c s]] by (simp add: pr)
  show ?case
  proof (cases err)
    case None
    then have "prepare_from env reg s st cs (ps @ [p]) e = (ans, d')" using Cons.prems pr by simp
    from Cons.IH [OF this] show ?thesis using keeps_trans [OF k] by fastforce
  next
    case (Some x)
    have fold: "keeps a (foldl (\<lambda>d q. case pc_result q of Some out \<Rightarrow> appendToolCallRecord s (pc_rec q) (to_RouteOutcome out) d | None \<Rightarrow> d) a qs)" for a qs
      by (induction qs arbitrary: a) (auto intro: keeps_trans [OF keeps_parts(9)] split: option.split)
    show ?thesis
      using Cons.prems pr Some keeps_trans [OF k fold] keeps_trans [OF keeps_trans [OF k retain_events_keeps] fold] by (auto simp: Let_def split: if_splits)
  qed
qed auto

section \<open>Recording a result\<close>

definition answers :: "Message \<Rightarrow> ToolCall \<Rightarrow> bool" where
  "answers m call \<longleftrightarrow> m_Role m = ''tool'' \<and> cm_ToolName (m_chat m) = call_name call \<and> cm_ToolCallID (m_chat m) = tc_ID call"

text \<open>One observation is appended for the call; only a governor stop sets the stop reason.\<close>

definition observed :: "ToolCall \<Rightarrow> bool \<Rightarrow> dispatch \<Rightarrow> dispatch \<Rightarrow> bool" where
  "observed call stop d d' \<longleftrightarrow> (\<exists>m. answers m call \<and> d_state d' = (d_state d)\<lparr>st_Messages := st_Messages (d_state d) @ [m]\<rparr>)
     \<and> ba_completed (d_batch d') = ba_completed (d_batch d)
     \<and> ba_verifyAnchor (d_batch d') \<in> {ba_verifyAnchor (d_batch d), int (length (st_Messages (d_state d)))}
     \<and> (if stop then rs_StopReason (d_res d') \<notin> {Completed, BudgetReached} else rs_StopReason (d_res d') = rs_StopReason (d_res d)) \<and> d_tick d \<le> d_tick d'"

lemma stopReason_tripped: "stopReason g = (sr, True) \<Longrightarrow> sr \<notin> {Completed, BudgetReached}"
  by (auto simp: stopReason_def split: if_splits)

lemma record_observation_spec:
  assumes "record_observation env step call effect rec out cap d = (ans, d')"
  shows "case ans of Inl e \<Rightarrow> keeps d d' | Inr stop \<Rightarrow> observed call stop d d'"
proof -
  let ?a = "appendToolCallRecord step rec (to_RouteOutcome out) d"
  obtain err e where o: "(case de_onToolResult env of
       None \<Rightarrow> (None, ?a)
     | Some tro \<Rightarrow>
         let ev = \<lparr>tre_Step = step, tre_Call = call, tre_Effect = effect,
                   tre_Result = out\<lparr>to_Result := (to_Result out)\<lparr>tr_Provenance := tcr_Provenance rec\<rparr>\<rparr>,
                   tre_Denied = tcr_Denied rec, tre_Invoked = tcr_Invoked rec, tre_Latency = tcr_Latency rec,
                   tre_AutoApproved = tcr_AutoApproved rec, tre_Blocked = tcr_Blocked rec\<rparr>
         in (tro (d_tick ?a) ev, emit (EvResult ev) (tick ?a))) = (err, e)" by (metis surj_pair)
  have k: "keeps d e" using o keeps_trans [OF keeps_parts(9) keeps_parts(3)] by (auto simp: Let_def split: option.splits)
  show ?thesis
  proof (cases err)
    case None
    let ?r = "to_Result out"
    obtain m where m: "(if de_mixed env then (toolObservation call ?r)\<lparr>m_OutputCap := cap, m_Context := tr_Context ?r\<rparr> else (toolObservation call ?r)\<lparr>m_OutputCap := cap\<rparr>) = m"
      by blast
    then have ans: "answers m call" by (auto simp: answers_def toolObservation_def mk_Message_def mk_ChatMessage_def)
    obtain sr tr where s: "stopReason (observe call ?r (d_gov e)) = (sr, tr)" by (metis surj_pair)
    let ?st = "(d_state e)\<lparr>st_Messages := st_Messages (d_state e) @ [m]\<rparr>"
    let ?e = "e\<lparr>d_state := ?st, d_batch := batch_note ?st call rec ?r (d_batch e), d_gov := observe call ?r (d_gov e)\<rparr>"
    have "record_observation env step call effect rec out cap d = (if tr then (Inr True, ?e\<lparr>d_res := (d_res ?e)\<lparr>rs_StopReason := sr\<rparr>\<rparr>) else (Inr False, ?e))"
      unfolding record_observation_def Let_def o [unfolded Let_def] prod.case None option.case m s ..
    then have "(if tr then (Inr True, ?e\<lparr>d_res := (d_res e)\<lparr>rs_StopReason := sr\<rparr>\<rparr>) else (Inr False, ?e)) = (ans, d')" using assms by simp
    moreover have "ba_verifyAnchor (batch_note ?st call rec ?r (d_batch e)) \<in> {ba_verifyAnchor (d_batch e), int (length (st_Messages (d_state e)))}"
      "ba_completed (batch_note ?st call rec ?r (d_batch e)) = ba_completed (d_batch e)" by (auto simp: batch_note_def)
    ultimately show ?thesis
      using ans k stopReason_tripped [of "observe call ?r (d_gov e)" sr] s by (auto simp: keeps_def observed_def split: if_splits)
  next
    case (Some x)
    then show ?thesis using assms k unfolding record_observation_def Let_def o [unfolded Let_def] prod.case by auto
  qed
qed

lemma inspect_ingress_keeps: "inspect_ingress env step call rec out cap d = (ans, d') \<Longrightarrow> keeps d d'"
  by (auto simp: inspect_ingress_def Let_def split_beta split: sum.splits option.splits if_splits prod.splits)

lemma recordToolResult_spec:
  assumes "recordToolResult env step call effect rec out ins d = (ans, d')"
  shows "case ans of Inl e \<Rightarrow> keeps d d' | Inr stop \<Rightarrow> observed call stop d d'"
proof (cases "(if de_mixed env then validateContextSetCardinality (tr_Context (to_Result out)) else None) = None")
  case True
  obtain a e where i: "(if tcr_Invoked rec \<or> ins then inspect_ingress env step call rec out (ef_OutputCap effect) d
      else (Inr (out, rec, ef_OutputCap effect), d)) = (a, e)" by (metis surj_pair)
  have k: "keeps d e" using i inspect_ingress_keeps by (auto split: if_splits)
  show ?thesis
  proof (cases a)
    case (Inl x)
    then show ?thesis using assms True i k unfolding recordToolResult_def Let_def i prod.case by (auto intro: keeps_trans [OF _ keeps_parts(9)] split: prod.splits)
  next
    case (Inr x)
    obtain out' rec' cap where x: "x = (out', rec', cap)" by (metis prod_cases3)
    let ?rec = "if \<not> tcr_Blocked rec' then rec'\<lparr>tcr_Provenance := tr_Provenance (to_Result out)\<rparr> else rec'"
    have "record_observation env step call effect ?rec out' cap e = (ans, d')"
      using assms True i Inr x unfolding recordToolResult_def Let_def i prod.case by auto
    from record_observation_spec [OF this] show ?thesis using k by (auto simp: observed_def keeps_def split: sum.splits)
  qed
qed (use assms in \<open>auto simp: recordToolResult_def\<close>)

section \<open>Progress of a batch\<close>

text \<open>The calls at positions \<open>js\<close> were answered, in this order, and nothing else happened to the transcript.\<close>

definition progressed :: "ToolCall list \<Rightarrow> nat list \<Rightarrow> dispatch \<Rightarrow> dispatch \<Rightarrow> bool" where
  "progressed cs js d d' \<longleftrightarrow>
     (\<exists>obs. d_state d' = (d_state d)\<lparr>st_Messages := st_Messages (d_state d) @ obs\<rparr> \<and> list_all2 answers obs (map ((!) cs) js))
     \<and> ba_completed (d_batch d') = ba_completed (d_batch d) @ js
     \<and> (ba_verifyAnchor (d_batch d') = ba_verifyAnchor (d_batch d)
        \<or> (int (length (st_Messages (d_state d))) \<le> ba_verifyAnchor (d_batch d') \<and> ba_verifyAnchor (d_batch d') < int (length (st_Messages (d_state d')))))
     \<and> (rs_StopReason (d_res d') = rs_StopReason (d_res d) \<or> rs_StopReason (d_res d') \<notin> {Completed, BudgetReached}) \<and> d_tick d \<le> d_tick d'"

lemma progressed_keeps: "keeps d d' \<Longrightarrow> progressed cs [] d d'"
  by (auto simp: progressed_def keeps_def)

lemma progressed_trans:
  assumes "progressed cs js a b" "progressed cs ks b c"
  shows "progressed cs (js @ ks) a c"
proof -
  obtain os ps where o: "d_state b = (d_state a)\<lparr>st_Messages := st_Messages (d_state a) @ os\<rparr>" "list_all2 answers os (map ((!) cs) js)"
    and p: "d_state c = (d_state b)\<lparr>st_Messages := st_Messages (d_state b) @ ps\<rparr>" "list_all2 answers ps (map ((!) cs) ks)"
    using assms unfolding progressed_def by blast
  have "d_state c = (d_state a)\<lparr>st_Messages := st_Messages (d_state a) @ (os @ ps)\<rparr>" "list_all2 answers (os @ ps) (map ((!) cs) (js @ ks))"
    using o p by (simp_all add: list_all2_appendI)
  then show ?thesis using assms o(1) p(1) unfolding progressed_def by auto
qed

lemma observed_progressed:
  "observed call stop d d' \<Longrightarrow> cs ! i = call \<Longrightarrow> progressed cs [i] d (complete_call i d')"
  by (auto simp: observed_def progressed_def complete_call_def split: if_splits)

lemma progressed_stop: "progressed cs js a b \<Longrightarrow> rs_StopReason (d_res a) \<notin> {Completed, BudgetReached} \<Longrightarrow> rs_StopReason (d_res b) \<notin> {Completed, BudgetReached}"
  by (auto simp: progressed_def)

lemma complete_call_stop [simp]: "rs_StopReason (d_res (complete_call i d)) = rs_StopReason (d_res d)"
  by (simp add: complete_call_def)

lemma serial_progress:
  assumes "serial_from env reg step i (drop i cs) d = (err, d')" "i \<le> length cs"
  shows "\<exists>n. i \<le> n \<and> n \<le> length cs \<and> progressed cs [i..<n] d d' \<and> (err = None \<and> n < length cs \<longrightarrow> rs_StopReason (d_res d') \<notin> {Completed, BudgetReached})"
  using assms
proof (induction "length cs - i" arbitrary: i d)
  case 0
  then show ?case using progressed_keeps [OF keeps_refl] by (intro exI [of _ i]) auto
next
  case (Suc k)
  then have i: "drop i cs = cs ! i # drop (Suc i) cs" "Suc i \<le> length cs" "k = length cs - Suc i" by (simp_all add: Cons_nth_drop_Suc)
  obtain out effect rec ins derr e where dc: "dispatch_call env reg (cs ! i) step (add_event step ''tool_call'' d) = ((out, effect, rec, ins, derr), e)"
    by (cases "dispatch_call env reg (cs ! i) step (add_event step ''tool_call'' d)") (metis prod_cases5)
  have ke: "keeps d e" using keeps_trans [OF keeps_parts(4) dispatch_call_keeps [of "add_event step ''tool_call'' d" env reg "cs ! i" step]] by (simp add: dc)
  show ?case
  proof (cases derr)
    case (Some x)
    let ?e = "if budget_exhausted x then e\<lparr>d_res := (d_res e)\<lparr>rs_Events := butlast (rs_Events (d_res e))\<rparr>\<rparr> else e"
    have "(Some x, appendInvokedToolCallRecord step rec (to_RouteOutcome out) ?e) = (err, d')"
      using Suc.prems(1) unfolding i(1) by (simp add: dc Some Let_def)
    moreover have "keeps e ?e" by (simp add: keeps_def)
    ultimately have "keeps d d'" "err \<noteq> None" using keeps_trans [OF keeps_trans [OF ke] keeps_parts(10)] by auto
    then show ?thesis using progressed_keeps Suc.prems(2) by (intro exI [of _ i]) auto
  next
    case None
    obtain ans e' where rt: "recordToolResult env step (cs ! i) effect rec out ins e = (ans, e')" by (metis surj_pair)
    note sp = recordToolResult_spec [OF rt]
    show ?thesis
    proof (cases ans)
      case (Inl x)
      then have "keeps d d'" "err \<noteq> None" using Suc.prems(1) None dc rt sp keeps_trans [OF ke] unfolding i(1) by auto
      then show ?thesis using progressed_keeps Suc.prems(2) by (intro exI [of _ i]) auto
    next
      case (Inr stop)
      then have one: "progressed cs [i] d (complete_call i e')"
        using observed_progressed sp progressed_trans [OF progressed_keeps [OF ke]] by fastforce
      show ?thesis
      proof (cases stop)
        case True
        then have "d' = complete_call i e'" using Suc.prems(1) None dc rt Inr unfolding i(1) by auto
        moreover have "rs_StopReason (d_res e') \<notin> {Completed, BudgetReached}" using sp Inr True by (simp add: observed_def)
        ultimately show ?thesis using one i(2) by (intro exI [of _ "Suc i"]) auto
      next
        case False
        then have "serial_from env reg step (Suc i) (drop (Suc i) cs) (complete_call i e') = (err, d')" using Suc.prems(1) None dc rt Inr unfolding i(1) by auto
        from Suc.hyps(1) [OF i(3) this i(2)] obtain n where n: "Suc i \<le> n" "n \<le> length cs" "progressed cs [Suc i..<n] (complete_call i e') d'"
          "err = None \<and> n < length cs \<longrightarrow> rs_StopReason (d_res d') \<notin> {Completed, BudgetReached}" by blast
        then have "progressed cs [i..<n] d d'" using progressed_trans [OF one n(3)] by (simp add: upt_conv_Cons)
        then show ?thesis using n by (intro exI [of _ n]) auto
      qed
    qed
  qed
qed

lemma record_progress:
  assumes "record_from env step i pws d = (err, d')" "\<And>k. k < length pws \<Longrightarrow> pc_call (fst (pws ! k)) = cs ! (i + k)"
  shows "\<exists>js. sorted_wrt (<) js \<and> set js \<subseteq> {i..<i + length pws} \<and> progressed cs js d d'
    \<and> (err = None \<and> list_all (\<lambda>(p, w). wk_error w = None) pws \<and> js \<noteq> [i..<i + length pws] \<longrightarrow> rs_StopReason (d_res d') \<notin> {Completed, BudgetReached})"
  using assms
proof (induction pws arbitrary: i d)
  case Nil
  then show ?case using progressed_keeps [OF keeps_refl] by (intro exI [of _ "[]"]) auto
next
  case (Cons pw pws)
  obtain p w where pw: "pw = (p, w)" by (cases pw)
  have calls: "k < length pws \<Longrightarrow> pc_call (fst (pws ! k)) = cs ! (Suc i + k)" for k using Cons.prems(2) [of "Suc k"] by simp
  have here: "cs ! i = pc_call p" using Cons.prems(2) [of 0] pw by simp
  show ?case
  proof (cases "wk_error w")
    case (Some x)
    then have "record_from env step (Suc i) pws d = (err, d')" using Cons.prems(1) pw by simp
    from Cons.IH [OF this calls] obtain js where "sorted_wrt (<) js" "set js \<subseteq> {Suc i..<Suc i + length pws}" "progressed cs js d d'" by blast
    then show ?thesis using Some pw by (intro exI [of _ js]) auto
  next
    case None
    obtain ans e where rt: "recordToolResult env step (pc_call p) (pc_effect p) (worker_record p w) (wk_result w) (pc_inspectResult p) d = (ans, e)"
      by (metis surj_pair)
    note sp = recordToolResult_spec [OF rt]
    show ?thesis
    proof (cases ans)
      case (Inl x)
      then have "keeps d d'" "err \<noteq> None" using Cons.prems(1) pw None rt sp keeps_trans [OF _ appendTrailing_keeps] by auto
      then show ?thesis using progressed_keeps by (intro exI [of _ "[]"]) auto
    next
      case (Inr stop)
      then have one: "progressed cs [i] d (complete_call i e)" using observed_progressed sp here by fastforce
      show ?thesis
      proof (cases stop)
        case True
        then have d': "d' = appendTrailingToolCallRecords step pws (complete_call i e)" using Cons.prems(1) pw None rt Inr by auto
        have "progressed cs [i] d d'" using progressed_trans [OF one progressed_keeps [OF appendTrailing_keeps]] d' by simp
        moreover have "rs_StopReason (d_res (complete_call i e)) \<notin> {Completed, BudgetReached}" using sp Inr True by (simp add: observed_def)
        then have "rs_StopReason (d_res d') \<notin> {Completed, BudgetReached}"
          using appendTrailing_keeps [of "complete_call i e" step pws] by (simp add: d' keeps_def)
        ultimately show ?thesis by (intro exI [of _ "[i]"]) auto
      next
        case False
        then have "record_from env step (Suc i) pws (complete_call i e) = (err, d')" using Cons.prems(1) pw None rt Inr by auto
        from Cons.IH [OF this calls] obtain js where js: "sorted_wrt (<) js" "set js \<subseteq> {Suc i..<Suc i + length pws}" "progressed cs js (complete_call i e) d'"
          "err = None \<and> list_all (\<lambda>(p, w). wk_error w = None) pws \<and> js \<noteq> [Suc i..<Suc i + length pws] \<longrightarrow> rs_StopReason (d_res d') \<notin> {Completed, BudgetReached}" by blast
        have "progressed cs (i # js) d d'" using progressed_trans [OF one js(3)] by simp
        moreover have "[i..<i + length (pw # pws)] = i # [Suc i..<Suc i + length pws]"
          by (metis upt_conv_Cons add_Suc_right add_Suc length_Cons less_add_Suc1)
        ultimately show ?thesis using js pw None by (intro exI [of _ "i # js"]) (auto simp: Suc_le_eq)
      qed
    qed
  qed
qed

section \<open>Stops that last\<close>

text \<open>A cancelled context stays cancelled, and a spent allowance stays spent.\<close>

definition lasting :: "dispatch_env \<Rightarrow> bool" where
  "lasting env \<longleftrightarrow> (\<forall>m n. m \<le> n \<longrightarrow> (de_ctx env m \<noteq> None \<longrightarrow> de_ctx env n \<noteq> None) \<and> (de_stopped env m \<longrightarrow> de_stopped env n))"

definition refused :: "dispatch_env \<Rightarrow> nat \<Rightarrow> bool" where
  "refused env n \<longleftrightarrow> (\<exists>m < n. de_ctx env m \<noteq> None \<or> de_stopped env m)"

lemma refused_mono: "refused env m \<Longrightarrow> m \<le> n \<Longrightarrow> refused env n"
  unfolding refused_def by (meson order.strict_trans2)

lemma check_budget_refused: "fst (check_budget env d) \<noteq> None \<Longrightarrow> refused env (d_tick (snd (check_budget env d)))"
  by (auto simp: check_budget_def ctx_Err_def ask_stopped_def refused_def tick_def Let_def split: option.splits if_splits)

lemma invokeCall_refused: "invokeCall env t ef a d = (Inl e, d') \<Longrightarrow> refused env (d_tick d')"
  using check_budget_refused [of env d] by (auto simp: invokeCall_def Let_def split_beta split: option.splits sum.splits)

lemma run_worker_refused:
  assumes "run_worker env p d = (w, d')" "wk_error w \<noteq> None"
  shows "refused env (d_tick d')"
proof -
  obtain tool where pt: "pc_result p = None" "pc_tool p = Some tool" using assms by (auto simp: run_worker_def Let_def split: option.splits)
  obtain ans e where iv: "invokeCall env tool (pc_effect p) (call_args (pc_call p)) (snd (now env d)) = (ans, e)" by (metis surj_pair)
  have "ans \<noteq> Inr x" for x using assms pt iv by (auto simp: run_worker_def Let_def split_beta)
  then obtain x where "ans = Inl x" by (cases ans) auto
  then have "refused env (d_tick e)" using invokeCall_refused iv by blast
  moreover have "d_tick e \<le> d_tick d'" using assms(1) pt iv keeps_queries(3) [of e env] \<open>ans = Inl x\<close>
    by (auto simp: run_worker_def Let_def split_beta keeps_def)
  ultimately show ?thesis by (rule refused_mono)
qed

lemma run_workers_spec:
  "run_workers env ps d = (ws, d') \<Longrightarrow> length ws = length ps \<and> (list_all (\<lambda>w. wk_error w = None) ws \<or> refused env (d_tick d'))"
proof (induction ps arbitrary: d ws d')
  case (Cons p ps)
  obtain w e where w: "run_worker env p d = (w, e)" by (metis surj_pair)
  obtain us e' where u: "run_workers env ps e = (us, e')" by (metis surj_pair)
  have "d_tick e \<le> d_tick e'" using run_workers_keeps [of e env ps] u by (simp add: keeps_def)
  then have "wk_error w = None \<or> refused env (d_tick e')" using run_worker_refused [OF w] refused_mono by blast
  then show ?case using Cons.IH [OF u] Cons.prems w u by (auto simp: Let_def)
qed simp

lemma prepareCall_call: "prepareCall env reg c s d = ((p, None), d') \<Longrightarrow> pc_call p = c"
  by (auto simp: prepareCall_def prepare_approve_def prepare_announce_def synthetic_def new_prepared_def Let_def split_beta
      split: option.splits sum.splits if_splits)

lemma prepare_from_calls:
  "prepare_from env reg s st cs ps d = (Inr qs, d') \<Longrightarrow> map pc_call qs = map pc_call ps @ cs"
proof (induction cs arbitrary: ps d)
  case (Cons c cs)
  obtain p err e where pr: "prepareCall env reg c s (add_event s ''tool_call'' d) = ((p, err), e)" by (metis prod_cases3 surj_pair)
  then have "err = None" "prepare_from env reg s st cs (ps @ [p]) e = (Inr qs, d')" using Cons.prems by (auto simp: Let_def split: option.splits)
  then show ?case using Cons.IH prepareCall_call pr by fastforce
qed auto

lemma parallel_progress:
  assumes "runToolCallsParallel env reg cs step d = (err, d')" "lasting env"
  shows "\<exists>js. sorted_wrt (<) js \<and> set js \<subseteq> {0..<length cs} \<and> progressed cs js d d'
    \<and> (err = None \<and> js \<noteq> [0..<length cs] \<longrightarrow> rs_StopReason (d_res d') \<notin> {Completed, BudgetReached} \<or> (\<exists>m < d_tick d'. de_stopped env m))"
proof -
  let ?start = "length (rs_Events (d_res d))"
  obtain ans a where pf: "prepare_from env reg step ?start cs [] d = (ans, a)" by (metis surj_pair)
  note ka = prepare_from_keeps [OF pf]
  show ?thesis
  proof (cases ans)
    case (Inl x)
    then have "err \<noteq> None" "keeps d d'" using assms(1) pf ka by (auto simp: runToolCallsParallel_def)
    then show ?thesis using progressed_keeps by (intro exI [of _ "[]"]) auto
  next
    case (Inr ps)
    obtain ws b where rw: "run_workers env ps a = (ws, b)" by (metis surj_pair)
    obtain c where rt: "retain_events ?start (\<lambda>i. i < length ws \<and> \<not> (case wk_error (ws ! i) of Some e \<Rightarrow> budget_exhausted e | None \<Rightarrow> False)) b = c" by blast
    obtain cerr f where ce: "ctx_Err env c = (cerr, f)" by (metis surj_pair)
    have bc: "keeps b c" using rt retain_events_keeps by blast
    have kb: "keeps d b" using keeps_trans [OF conjunct1 [OF ka] run_workers_keeps [of a env ps]] by (simp add: rw)
    have kf: "keeps d f" using keeps_trans [OF keeps_trans [OF kb bc] keeps_queries(1) [of c env]] by (simp add: ce)
    have len: "map pc_call ps = cs" "length ws = length ps" using prepare_from_calls [OF pf [unfolded Inr]] run_workers_spec [OF rw] by simp_all
    then have pcs: "length (zip ps ws) = length cs" "\<And>k. k < length (zip ps ws) \<Longrightarrow> pc_call (fst (zip ps ws ! k)) = cs ! (0 + k)" by auto
    show ?thesis
    proof (cases cerr)
      case (Some x)
      then have "d' = appendTrailingToolCallRecords step (zip ps ws) f" "err \<noteq> None"
        using assms(1) pf Inr rw rt ce by (auto simp: runToolCallsParallel_def Let_def)
      then show ?thesis using progressed_keeps [OF keeps_trans [OF kf appendTrailing_keeps]] by (intro exI [of _ "[]"]) auto
    next
      case None
      then have rec: "record_from env step 0 (zip ps ws) f = (err, d')" using assms(1) pf Inr rw rt ce by (auto simp: runToolCallsParallel_def Let_def)
      from record_progress [OF rec pcs(2)] obtain js where js: "sorted_wrt (<) js" "set js \<subseteq> {0..<length cs}" "progressed cs js f d'"
        "err = None \<and> list_all (\<lambda>(p, w). wk_error w = None) (zip ps ws) \<and> js \<noteq> [0..<length cs] \<longrightarrow> rs_StopReason (d_res d') \<notin> {Completed, BudgetReached}"
        unfolding pcs(1) by auto
      have "list_all (\<lambda>(p, w). wk_error w = None) (zip ps ws) \<or> (\<exists>m < d_tick d'. de_stopped env m)"
      proof (cases "list_all (\<lambda>w. wk_error w = None) ws")
        case True
        then show ?thesis by (auto simp: list_all_iff dest: set_zip_rightD)
      next
        case False
        then obtain m where m: "m < d_tick b" "de_ctx env m \<noteq> None \<or> de_stopped env m" using run_workers_spec [OF rw] by (auto simp: refused_def)
        have ticks: "d_tick b \<le> d_tick c" "d_tick c < d_tick f" "d_tick f \<le> d_tick d'" "de_ctx env (d_tick c) = None"
          using bc ce None js(3) by (auto simp: keeps_def progressed_def ctx_Err_def tick_def split: option.splits)
        have "de_ctx env m = None" using assms(2) m(1) ticks unfolding lasting_def by (meson less_imp_le order.trans)
        then show ?thesis using m ticks by (auto intro!: exI [of _ m])
      qed
      then show ?thesis using js progressed_trans [OF progressed_keeps [OF kf] js(3)] by (intro exI [of _ js]) auto
    qed
  qed
qed

section \<open>The transcript of a batch\<close>

lemma positions_nths:
  assumes "sorted_wrt (<) js" "set js \<subseteq> {0..<length cs}"
  shows "map ((!) cs) js = nths cs (set js)"
proof -
  have "js = filter (\<lambda>i. i \<in> set js) [0..<length cs]"
    using assms by (intro sorted_distinct_set_unique) (auto simp: strict_sorted_iff sorted_wrt_filter)
  moreover have "nths cs (set js) = map ((!) cs) (filter (\<lambda>i. i \<in> set js) [0..<length cs])"
  proof -
    have "zip cs [0..<length cs] = map (\<lambda>i. (cs ! i, i)) [0..<length cs]" by (rule nth_equalityI) auto
    then show ?thesis by (simp add: nths_def filter_map comp_def)
  qed
  ultimately show ?thesis by metis
qed

lemma batch_progress:
  assumes "lasting env"
    and "(if length cs \<ge> 2 \<and> canRunParallel reg cs \<and> parallelUncapped (d_gov d) cs then runToolCallsParallel env reg cs step d
          else runToolCallsSerial env reg cs step d) = (err, d')"
  shows "\<exists>js. sorted_wrt (<) js \<and> set js \<subseteq> {0..<length cs} \<and> progressed cs js d d'
    \<and> (err = None \<and> js \<noteq> [0..<length cs] \<longrightarrow> rs_StopReason (d_res d') \<notin> {Completed, BudgetReached} \<or> (\<exists>m < d_tick d'. de_stopped env m))"
proof (cases "length cs \<ge> 2 \<and> canRunParallel reg cs \<and> parallelUncapped (d_gov d) cs")
  case True
  then show ?thesis using assms parallel_progress by (simp split: if_splits)
next
  case False
  then have "serial_from env reg step 0 (drop 0 cs) d = (err, d')" using assms(2) unfolding runToolCallsSerial_def by (simp only: if_False drop_0)
  from serial_progress [OF this] obtain n where "n \<le> length cs" "progressed cs [0..<n] d d'" "err = None \<and> n < length cs \<longrightarrow> rs_StopReason (d_res d') \<notin> {Completed, BudgetReached}"
    by auto
  then show ?thesis by (intro exI [of _ "[0..<n]"]) (auto simp: order_le_less)
qed

lemma append_content_answers:
  assumes "list_all2 answers obs qs" "i < length base + length obs" "length base \<le> i" "st_Messages st = base @ obs"
  shows "\<exists>obs'. list_all2 answers obs' qs \<and> st_Messages (append_content i text st) = base @ obs'"
proof -
  let ?k = "i - length base"
  have k: "?k < length obs" "(base @ obs) ! i = obs ! ?k" using assms(2,3) by (auto simp: nth_append)
  let ?m = "(obs ! ?k)\<lparr>m_chat := (m_chat (obs ! ?k))\<lparr>cm_Content := m_Content (obs ! ?k) @ text\<rparr>\<rparr>"
  have "answers ?m (qs ! ?k)" using list_all2_nthD [OF assms(1) k(1)] by (simp add: answers_def)
  then have "list_all2 answers (obs[?k := ?m]) qs" using assms(1) k(1) by (auto simp: list_all2_conv_all_nth nth_list_update)
  moreover have "st_Messages (append_content i text st) = base @ obs[?k := ?m]"
    using assms(3,4) k by (simp add: append_content_def Let_def list_update_append)
  ultimately show ?thesis by blast
qed

lemma verifyBatch_answers:
  assumes "verifyBatch env step d = (None, d')" "list_all2 answers obs qs" "st_Messages (d_state d) = base @ obs"
    and "ba_verifyAnchor (d_batch d) < 0 \<or> int (length base) \<le> ba_verifyAnchor (d_batch d) \<and> ba_verifyAnchor (d_batch d) < int (length base + length obs)"
  shows "rs_StopReason (d_res d') = rs_StopReason (d_res d) \<and> (\<exists>obs'. list_all2 answers obs' qs \<and> st_Messages (d_state d') = base @ obs')"
proof (cases "d_state d' = d_state d \<and> rs_StopReason (d_res d') = rs_StopReason (d_res d)")
  case True
  then show ?thesis using assms(2,3) by auto
next
  case False
  have "\<exists>text. d_state d' = append_content (nat (ba_verifyAnchor (d_batch d))) text (d_state d)" "0 \<le> ba_verifyAnchor (d_batch d)" "rs_StopReason (d_res d') = rs_StopReason (d_res d)"
    using assms(1) False by (auto simp: verifyBatch_def ctx_Err_def tick_def emit_def Let_def split_beta split: option.splits sum.splits if_splits)
  then show ?thesis using append_content_answers [OF assms(2) _ _ assms(3)] assms(4) by (auto simp: nat_less_iff nat_le_iff le_nat_iff)
qed

lemma prune_calls_kept:
  assumes "st_Messages (d_state d) = ms @ assistantMessage content cs # obs" "list_all2 answers obs kept" "kept = map ((!) cs) (ba_completed (d_batch d))"
  shows "st_Messages (d_state (prune_calls (length ms) d)) = ms @ assistantMessage content kept # obs
    \<or> (st_Messages (d_state (prune_calls (length ms) d)) = ms \<and> kept = [] \<and> content = [])"
  using assms by (auto simp: prune_calls_def Let_def nth_append assistantMessage_def mk_Message_def mk_ChatMessage_def list_update_append)

lemma runToolCalls_tail:
  assumes run: "runToolCalls env reg cs step d = (None, d')" and len: "length (st_Messages (d_state d)) = Suc n"
    and b: "(if length cs \<ge> 2 \<and> canRunParallel reg cs \<and> parallelUncapped (d_gov (d\<lparr>d_batch := newBatch\<rparr>)) cs
       then runToolCallsParallel env reg cs step (d\<lparr>d_batch := newBatch\<rparr>) else runToolCallsSerial env reg cs step (d\<lparr>d_batch := newBatch\<rparr>)) = (err, e)"
  shows "(\<exists>f. keeps e f \<and> d' = prune_calls n f)
    \<or> (err = None \<and> \<not> de_stopped env (d_tick e) \<and> (if rs_StopReason (d_res e) \<noteq> Completed then d' = tick e else verifyBatch env step (tick e) = (None, d')))"
proof -
  let ?err = "if err = None then if de_stopped env (d_tick e) then Some [LayerBudgetExhausted] else None else err"
  let ?e = "if err = None then tick e else e"
  have n: "length (st_Messages (d_state (d\<lparr>d_batch := newBatch\<rparr>))) - 1 = n" using len by simp
  have run': "(case ?err of Some x \<Rightarrow> if budget_exhausted x
        then let (cerr, f) = ctx_Err env ?e in if cerr \<noteq> None then (cerr, f) else (None, prune_calls n f) else (Some x, ?e)
      | None \<Rightarrow> if rs_StopReason (d_res ?e) \<noteq> Completed then (None, ?e) else verifyBatch env step ?e) = (None, d')"
    using run unfolding runToolCalls_def Let_def b prod.case n by (auto simp: ask_stopped_def split: if_splits)
  show ?thesis
  proof (cases ?err)
    case (Some x)
    obtain cerr f where f: "ctx_Err env ?e = (cerr, f)" by (metis surj_pair)
    then have "keeps e f" using keeps_trans [OF _ keeps_queries(1) [of ?e env], of e] by auto
    moreover have "d' = prune_calls n f" using run' Some f by (auto split: if_splits)
    ultimately show ?thesis by blast
  next
    case None
    then have "err = None" "\<not> de_stopped env (d_tick e)" by (auto split: if_splits)
    then show ?thesis using run' by (auto simp: tick_def split: if_splits)
  qed
qed

text \<open>C2: A batch of tool calls that ends without an error, either completed or stopped by the token budget, leaves a transcript without
  dangling calls: the assistant message carries exactly the calls that were answered, in their order, and is followed by one tool message for each, with its
  name and identifier; a completed batch answers every call. This holds on the serial and on the concurrent path and for whatever tools, approver, interceptors,
  observers and verifier do.\<close>

theorem transcript_answered:
  assumes start: "st_Messages (d_state d) = ms @ [assistantMessage content cs]" "rs_StopReason (d_res d) = Completed" and "lasting env"
    and run: "runToolCalls env reg cs step d = (None, d')" and "rs_StopReason (d_res d') \<in> {Completed, BudgetReached}"
  shows "\<exists>answered obs. list_all2 answers obs (nths cs answered) \<and> (rs_StopReason (d_res d') = Completed \<longrightarrow> nths cs answered = cs)
    \<and> (st_Messages (d_state d') = ms @ assistantMessage content (nths cs answered) # obs
       \<or> (st_Messages (d_state d') = ms \<and> nths cs answered = [] \<and> content = []))"
proof -
  let ?d = "d\<lparr>d_batch := newBatch\<rparr>" and ?base = "ms @ [assistantMessage content cs]"
  obtain err e where b: "(if length cs \<ge> 2 \<and> canRunParallel reg cs \<and> parallelUncapped (d_gov ?d) cs then runToolCallsParallel env reg cs step ?d
      else runToolCallsSerial env reg cs step ?d) = (err, e)" by (metis surj_pair)
  from batch_progress [OF assms(3) b] obtain js where js: "sorted_wrt (<) js" "set js \<subseteq> {0..<length cs}" "progressed cs js ?d e"
    "err = None \<and> js \<noteq> [0..<length cs] \<longrightarrow> rs_StopReason (d_res e) \<notin> {Completed, BudgetReached} \<or> (\<exists>m < d_tick e. de_stopped env m)" by blast
  have kept: "map ((!) cs) js = nths cs (set js)" using positions_nths js(1,2) .
  obtain obs where obs: "st_Messages (d_state e) = ?base @ obs" "list_all2 answers obs (nths cs (set js))"
    using js(3) start(1) kept by (auto simp: progressed_def)
  have completed: "ba_completed (d_batch e) = js" and anchor: "ba_verifyAnchor (d_batch e) < 0
      \<or> int (length ?base) \<le> ba_verifyAnchor (d_batch e) \<and> ba_verifyAnchor (d_batch e) < int (length ?base + length obs)"
    using js(3) obs(1) start(1) by (auto simp: progressed_def newBatch_def)
  consider (pruned) f where "keeps e f" "d' = prune_calls (length ms) f"
    | (ended) "err = None" "\<not> de_stopped env (d_tick e)" "if rs_StopReason (d_res e) \<noteq> Completed then d' = tick e else verifyBatch env step (tick e) = (None, d')"
    using runToolCalls_tail [OF run _ b, of "length ms"] start(1) by auto
  then show ?thesis
  proof cases
    case pruned
    have f: "st_Messages (d_state f) = ms @ assistantMessage content cs # obs" "nths cs (set js) = map ((!) cs) (ba_completed (d_batch f))"
      using pruned(1) obs(1) completed kept by (simp_all add: keeps_def)
    have "rs_StopReason (d_res d') \<noteq> Completed" by (simp add: pruned(2) prune_calls_def Let_def)
    moreover note prune_calls_kept [OF f(1) obs(2) f(2), folded pruned(2)]
    ultimately show ?thesis using obs(2) by blast
  next
    case ended
    have sr: "rs_StopReason (d_res e) = Completed"
      using ended(3) assms(5) js(3) start(2) by (auto simp: progressed_def tick_def split: if_splits)
    have "\<not> (\<exists>m < d_tick e. de_stopped env m)" using ended(2) assms(3) unfolding lasting_def by (meson less_imp_le)
    then have all: "nths cs (set js) = cs" using js(4) ended(1) sr kept by (metis insertCI map_nth)
    have "verifyBatch env step (tick e) = (None, d')" using ended(3) sr by simp
    from verifyBatch_answers [OF this obs(2), of ?base]
    obtain obs' where "list_all2 answers obs' cs" "st_Messages (d_state d') = ms @ assistantMessage content cs # obs'"
      using obs(1) anchor all by (auto simp: tick_def)
    then show ?thesis using all by (intro exI [of _ "set js"] exI [of _ obs']) simp
  qed
qed

definition sample_env :: dispatch_env where
  "sample_env = \<lparr>de_ctx = (\<lambda>_. None), de_stopped = (\<lambda>_. False), de_clock = (\<lambda>_. 0), de_invoke = (\<lambda>_ _ _ _. Inr \<lparr>to_Result = sample_result False, to_RouteOutcome = None\<rparr>),
     de_approver = PlainApprover (\<lambda>_ _ _. (True, None)), de_onToolCall = (\<lambda>_ _. None), de_onToolResult = None, de_onInterception = None, de_verifier = None,
     de_mixed = False, de_sanitize = (\<lambda>s. s)\<rparr>"

definition sample_dispatch :: "ToolCall list \<Rightarrow> dispatch" where
  "sample_dispatch cs = \<lparr>d_res = \<lparr>rs_Answer = [], rs_Messages = [], rs_Steps = [], rs_Events = [], rs_Usage = zero_usage, rs_DescendantUsage = None,
       rs_ToolCalls = [], rs_StopReason = Completed, rs_Risk = None, rs_SystemKeys = []\<rparr>,
     d_state = \<lparr>st_System = [], st_DurableSummary = [], st_Messages = [assistantMessage ''hi'' cs], st_systemKeys = []\<rparr>,
     d_gov = sample_governor, d_ic = new_interceptor_run, d_batch = newBatch, d_tick = 0, d_log = []\<rparr>"

text \<open>The budget is spent after the first of two calls.\<close>

definition spent_batch :: "run_error option \<times> dispatch" where
  "spent_batch = runToolCalls (sample_env\<lparr>de_stopped := (\<lambda>n. n > 7)\<rparr>) sample_registry [demo_call ''ls'', demo_call ''rm''] 0 (sample_dispatch [demo_call ''ls'', demo_call ''rm''])"

theorem transcript_answered_witness:
  "fst spent_batch = None \<and> length (st_Messages (d_state (snd spent_batch))) = 2
   \<and> (\<exists>answered obs. list_all2 answers obs (nths [demo_call ''ls'', demo_call ''rm''] answered)
        \<and> st_Messages (d_state (snd spent_batch)) = assistantMessage ''hi'' (nths [demo_call ''ls'', demo_call ''rm''] answered) # obs)"
proof -
  have c: "(case spent_batch of (err, d) \<Rightarrow> (err = None, rs_StopReason (d_res d), length (st_Messages (d_state d)))) = (True, BudgetReached, 2)" by code_simp
  then obtain d' where d': "spent_batch = (None, d')" "rs_StopReason (d_res d') = BudgetReached" "length (st_Messages (d_state d')) = 2"
    by (auto split: prod.splits)
  have "lasting (sample_env\<lparr>de_stopped := (\<lambda>n. n > 7)\<rparr>)" by (auto simp: lasting_def sample_env_def)
  from transcript_answered [OF _ _ this d'(1) [unfolded spent_batch_def], of "[]" "''hi''"]
  show ?thesis unfolding d'(1) using d'(2,3) by (auto simp: sample_dispatch_def)
qed

end
