(* ===== verification/Dispatch_Gates.thy ===== *)
theory Dispatch_Gates
  imports Dispatch_Transcript
begin

text \<open>
  The gates of a dispatched batch (\<open>agent/dispatch.go\<close>), stated on the log of what was done to the outside: a tool runs only after its gates, and
  its result never gains trust.
\<close>

section \<open>The gates in front of an invocation\<close>

text \<open>What must have happened before an event: an announcement comes after the interceptors let the call pass and, where its effect needs one, after an
  approval; an invocation comes after its announcement.\<close>

fun event_ok :: "toolRegistry \<Rightarrow> ToolCall list \<Rightarrow> dispatch_event list \<Rightarrow> dispatch_event \<Rightarrow> bool" where
  "event_ok reg cs L (EvAnnounced ev) =
     (let call = tce_Call ev; ef = tce_Effect ev
      in call \<in> set cs \<and> json_Valid (call_args call) \<and> EvGate call (Inr None) \<in> set L
         \<and> (needsApproval (ef_Approval ef) (ef_Class ef) \<longrightarrow> (\<exists>g. EvDecision call \<lparr>apd_Approved = True, apd_ViaGrant = g\<rparr> None \<in> set L))
         \<and> (\<exists>tool. reg_lookup reg (call_name call) = Some tool \<and> (tl_Plan tool = None \<longrightarrow> ef = normalizeEffect (tl_Effect tool))))"
| "event_ok reg cs L (EvInvoke tool args) = (\<exists>ev. EvAnnounced ev \<in> set L \<and> call_args (tce_Call ev) = args \<and> reg_lookup reg (call_name (tce_Call ev)) = Some tool)"
| "event_ok reg cs L _ = True"

definition log_ok :: "toolRegistry \<Rightarrow> ToolCall list \<Rightarrow> dispatch_event list \<Rightarrow> bool" where
  "log_ok reg cs evs \<longleftrightarrow> (\<forall>k < length evs. event_ok reg cs (take k evs) (evs ! k))"

lemma log_ok_Nil [simp]: "log_ok reg cs []"
  by (simp add: log_ok_def)

lemma log_ok_snoc [simp]: "log_ok reg cs (evs @ [e]) \<longleftrightarrow> log_ok reg cs evs \<and> event_ok reg cs evs e"
  by (auto simp: log_ok_def nth_append less_Suc_eq)

text \<open>The events after the first \<open>n\<close> are in order, and the log only grows.\<close>

definition gated :: "toolRegistry \<Rightarrow> ToolCall list \<Rightarrow> nat \<Rightarrow> dispatch \<Rightarrow> dispatch \<Rightarrow> bool" where
  "gated reg cs n d d' \<longleftrightarrow> (n \<le> length (d_log d) \<and> log_ok reg cs (drop n (d_log d))
     \<longrightarrow> n \<le> length (d_log d') \<and> log_ok reg cs (drop n (d_log d')) \<and> set (drop n (d_log d)) \<subseteq> set (drop n (d_log d')))"

lemma gated_trans: "gated reg cs n a b \<Longrightarrow> gated reg cs n b c \<Longrightarrow> gated reg cs n a c"
  by (auto simp: gated_def)

lemma gated_same: "d_log d' = d_log d \<Longrightarrow> gated reg cs n d d'"
  by (simp add: gated_def)

lemma gated_emit: "d_log d' = d_log d @ [e] \<Longrightarrow> (log_ok reg cs (drop n (d_log d)) \<Longrightarrow> event_ok reg cs (drop n (d_log d)) e) \<Longrightarrow> gated reg cs n d d'"
  by (auto simp: gated_def)

lemma quiet_log [simp]:
  "d_log (tick d) = d_log d" "d_log (emit e d) = d_log d @ [e]" "d_log (add_event s k d) = d_log d" "d_log (snd (ctx_Err env d)) = d_log d"
  "d_log (snd (ask_stopped env d)) = d_log d" "d_log (snd (now env d)) = d_log d" "d_log (appendToolCallRecord s r ro d) = d_log d"
  "d_log (appendInvokedToolCallRecord s r ro d) = d_log d" "d_log (complete_call i d) = d_log d" "d_log (prune_calls i d) = d_log d"
  by (simp_all add: tick_def emit_def add_event_def ctx_Err_def ask_stopped_def now_def appendToolCallRecord_def appendInvokedToolCallRecord_def
      complete_call_def prune_calls_def Let_def)

lemma quiet_log_more [simp]:
  "d_log (snd (check_budget env d)) = d_log d" "d_log (retain_events st k d) = d_log d" "d_log (appendTrailingToolCallRecords s xs d) = d_log d"
  by (auto simp: check_budget_def Let_def split_beta) (auto simp: retain_events_def split: option.split, induction s xs d rule: appendTrailingToolCallRecords.induct, auto)

definition announced :: "toolRegistry \<Rightarrow> dispatch_event list \<Rightarrow> preparedCall \<Rightarrow> bool" where
  "announced reg L p \<longleftrightarrow> (\<forall>tool. pc_result p = None \<and> pc_tool p = Some tool
     \<longrightarrow> (\<exists>ev. EvAnnounced ev \<in> set L \<and> tce_Call ev = pc_call p \<and> reg_lookup reg (call_name (pc_call p)) = Some tool))"

lemma prepare_announce_log:
  "prepare_announce env tool call pv step p d = ((q, err), d') \<Longrightarrow>
     pc_call q = pc_call p \<and> (pc_result q \<noteq> None \<or> err \<noteq> None \<or> pc_tool q = Some tool)
     \<and> (d_log d' = d_log d \<and> (pc_result q \<noteq> None) \<or> d_log d' = d_log d @ [EvAnnounced \<lparr>tce_Step = step, tce_Call = call, tce_Effect = pc_effect p, tce_Preview = pv\<rparr>])"
  by (auto simp: prepare_announce_def synthetic_def Let_def split: prod.splits if_splits)

lemma approve_log:
  "approve env call pv key risk d = ((decision, err), d') \<Longrightarrow>
     (d_log d' = d_log d \<and> \<not> apd_Approved decision) \<or> d_log d' = d_log d @ [EvDecision call decision err]"
  by (auto simp: approve_def Let_def split: approver.splits option.splits prod.splits)

lemma prepare_approve_log:
  assumes "prepare_approve env tool call effect pv key step p d = ((q, err), d')" "pc_call p = call" "pc_tool p = None"
    and "call \<in> set cs" "json_Valid (call_args call)" "reg_lookup reg (call_name call) = Some tool" "tl_Plan tool = None \<longrightarrow> effect = tl_Effect tool"
    and pass: "n \<le> length (d_log d)" "EvGate call (Inr None) \<in> set (drop n (d_log d))"
  shows "gated reg cs n d d' \<and> (err = None \<longrightarrow> announced reg (drop n (d_log d')) q)"
proof -
  let ?ef = "normalizeEffect effect"
  have final: "gated reg cs n e d' \<and> (err = None \<longrightarrow> announced reg (drop n (d_log d')) q)"
    if t: "prepare_announce env tool call pv step p' e = ((q, err), d')" "pc_call p' = call" "pc_effect p' = ?ef"
      "set (drop n (d_log d)) \<subseteq> set (drop n (d_log e))" "n \<le> length (d_log e)"
      "needsApproval (ef_Approval ?ef) (ef_Class ?ef) \<longrightarrow> (\<exists>g. EvDecision call \<lparr>apd_Approved = True, apd_ViaGrant = g\<rparr> None \<in> set (drop n (d_log e)))" for p' e
  proof -
    let ?ev = "\<lparr>tce_Step = step, tce_Call = call, tce_Effect = ?ef, tce_Preview = pv\<rparr>"
    have ok: "event_ok reg cs (drop n (d_log e)) (EvAnnounced ?ev)" using t assms by auto
    from prepare_announce_log [OF t(1)] consider "d_log d' = d_log e" "pc_result q \<noteq> None"
      | "d_log d' = d_log e @ [EvAnnounced ?ev]" "pc_call q = call" "err \<noteq> None \<or> pc_result q \<noteq> None \<or> pc_tool q = Some tool" using t(2,3) by auto
    then show ?thesis
    proof cases
      case 1
      then show ?thesis by (auto simp: gated_same announced_def)
    next
      case 2
      have "gated reg cs n e d'" using gated_emit [OF 2(1)] ok by blast
      moreover have "EvAnnounced ?ev \<in> set (drop n (d_log d'))" using 2(1) t(5) by simp
      ultimately show ?thesis using 2 assms(6) by (force simp: announced_def)
    qed
  qed
  show ?thesis
  proof (cases "needsApproval (ef_Approval ?ef) (ef_Class ?ef)")
    case False
    then show ?thesis using assms final by (auto simp: prepare_approve_def Let_def)
  next
    case True
    obtain decision aerr e where ap: "approve env call pv key (ir_snapshot (d_ic d)) d = ((decision, aerr), e)" by (metis prod_cases3 surj_pair)
    have step1: "gated reg cs n d e" "n \<le> length (d_log e)" "set (drop n (d_log d)) \<subseteq> set (drop n (d_log e))"
      using approve_log [OF ap] pass(1) gated_emit gated_same by fastforce+
    show ?thesis
    proof (cases "aerr = None \<and> apd_Approved decision")
      case False
      then show ?thesis using assms(1) True ap step1 by (auto simp: prepare_approve_def Let_def announced_def synthetic_def split: if_splits)
    next
      case ok: True
      then have "\<exists>g. EvDecision call \<lparr>apd_Approved = True, apd_ViaGrant = g\<rparr> None \<in> set (drop n (d_log e))"
        using approve_log [OF ap] pass(1) by (cases decision) auto
      then show ?thesis using final [of "p\<lparr>pc_effect := ?ef, pc_rec := (pc_rec p)\<lparr>tcr_AutoApproved := apd_ViaGrant decision\<rparr>\<rparr>" e] assms(1,2) True ap ok step1 gated_trans
        by (auto simp: prepare_approve_def Let_def)
    qed
  qed
qed

lemma prepareCall_log:
  assumes "prepareCall env reg call step d = ((p, err), d')" "call \<in> set cs" "n \<le> length (d_log d)"
  shows "gated reg cs n d d' \<and> (err = None \<longrightarrow> announced reg (drop n (d_log d')) p)"
proof -
  obtain berr b where cb: "check_budget env d = (berr, b)" by (metis surj_pair)
  have lb: "d_log b = d_log d" using quiet_log_more(1) [of env d] by (simp add: cb)
  show ?thesis
  proof (cases "berr = None \<and> (\<exists>tool. reg_lookup reg (call_name call) = Some tool) \<and> json_Valid (call_args call)")
    case False
    then have "d' = b" "err = None \<longrightarrow> pc_result p \<noteq> None"
      using assms(1) cb by (auto simp: prepareCall_def synthetic_def Let_def split: option.splits if_splits)
    then show ?thesis using lb by (auto simp: gated_same announced_def)
  next
    case True
    then obtain tool where tool: "berr = None" "reg_lookup reg (call_name call) = Some tool" "json_Valid (call_args call)" by blast
    let ?p = "(new_prepared call (new_record step (call_name call)))\<lparr>pc_effect := normalizeEffect (tl_Effect tool)\<rparr>"
    have p: "pc_call ?p = call" "pc_tool ?p = None" by (simp_all add: new_prepared_def)
    obtain gate ic where ga: "inspectToolCall (de_onInterception env) step call (pc_effect ?p) (d_ic b) = (gate, ic)" by (metis surj_pair)
    define e where "e = emit (EvGate call gate) (b\<lparr>d_ic := ic\<rparr>)"
    have le: "d_log e = d_log d @ [EvGate call gate]" by (simp add: e_def lb)
    have ge: "gated reg cs n d e" by (rule gated_emit [OF le]) simp
    show ?thesis
    proof (cases "gate = Inr None")
      case False
      then have "d' = e" "err = None \<longrightarrow> pc_result p \<noteq> None"
        using assms(1) cb tool ga by (auto simp: prepareCall_def synthetic_def Let_def e_def split: sum.splits option.splits)
      then show ?thesis using ge by (auto simp: announced_def)
    next
      case True
      have pass: "n \<le> length (d_log e)" "EvGate call (Inr None) \<in> set (drop n (d_log e))" using le True assms(3) by auto
      have go: "gated reg cs n d d' \<and> (err = None \<longrightarrow> announced reg (drop n (d_log d')) p)"
        if "prepare_approve env tool call effect pv key step ?p f = ((p, err), d')" "d_log f = d_log e" "tl_Plan tool = None \<longrightarrow> effect = tl_Effect tool" for effect pv key f
        using prepare_approve_log [OF that(1) p assms(2) tool(3,2) that(3)] pass that(2) gated_trans [OF ge gated_trans [OF gated_same [OF that(2)]]] by auto
      show ?thesis
      proof (cases "tl_Plan tool")
        case None
        then show ?thesis using go [of "tl_Effect tool" "[]" "[]" e] assms(1) cb tool ga True by (simp add: prepareCall_def Let_def e_def)
      next
        case (Some plan)
        then show ?thesis
        proof (cases "plan (d_tick e) (call_args call)")
          case (Inl x)
          then have "d' = tick e" "pc_result p \<noteq> None"
            using assms(1) cb tool ga True Some by (auto simp: prepareCall_def synthetic_def Let_def e_def)
          then show ?thesis using gated_trans [OF ge gated_same] by (auto simp: announced_def)
        next
          case (Inr pl)
          then show ?thesis using go [of "tp_Effect pl" "tp_Preview pl" "tp_ApprovalKey pl" "tick e"] assms(1) cb tool ga True Some
            by (simp add: prepareCall_def Let_def e_def)
        qed
      qed
    qed
  qed
qed

lemma invokeCall_log:
  assumes "invokeCall env tool ef args d = (ans, d')" "EvAnnounced ev \<in> set (drop n (d_log d))" "call_args (tce_Call ev) = args"
    and "reg_lookup reg (call_name (tce_Call ev)) = Some tool"
  shows "gated reg cs n d d'"
proof -
  have "d_log d' = d_log d \<or> d_log d' = d_log d @ [EvInvoke tool args]"
    using assms(1) quiet_log_more(1) [of env d] by (auto simp: invokeCall_def Let_def split_beta split: option.splits sum.splits)
  then show ?thesis using assms(2-4) gated_same gated_emit by (metis event_ok.simps(2))
qed

lemma record_observation_log:
  "record_observation env step call ef rec out cap d = (ans, d') \<Longrightarrow> d_log d' = d_log d \<or> (\<exists>ev. d_log d' = d_log d @ [EvResult ev])"
  by (auto simp: record_observation_def Let_def split_beta split: option.splits if_splits)

lemma inspect_ingress_log: "d_log (snd (inspect_ingress env step call rec out cap d)) = d_log d"
  by (auto simp: inspect_ingress_def Let_def split_beta split: sum.split option.split)

lemma recordToolResult_log: "recordToolResult env step call ef rec out ins d = (ans, d') \<Longrightarrow> gated reg cs n d d'"
proof -
  assume r: "recordToolResult env step call ef rec out ins d = (ans, d')"
  obtain a e where i: "(if tcr_Invoked rec \<or> ins then inspect_ingress env step call rec out (ef_OutputCap ef) d
      else (Inr (out, rec, ef_OutputCap ef), d)) = (a, e)" by (metis surj_pair)
  have e: "d_log e = d_log d" using i inspect_ingress_log [of env step call rec out "ef_OutputCap ef" d] by (auto split: if_splits)
  have "d_log d' = d_log d \<or> (\<exists>ev. d_log d' = d_log d @ [EvResult ev])"
    using r e record_observation_log unfolding recordToolResult_def Let_def i prod.case
    by (cases a) (fastforce split: if_splits prod.splits)+
  then show ?thesis using gated_same gated_emit by (metis event_ok.simps(5))
qed

lemma verifyBatch_log: "verifyBatch env step d = (err, d') \<Longrightarrow> gated reg cs n d d'"
proof -
  assume v: "verifyBatch env step d = (err, d')"
  have "d_log d' = d_log d \<or> d_log d' = d_log d @ [EvVerify]"
    using v by (auto simp: verifyBatch_def Let_def split_beta split: sum.splits option.splits if_splits)
  then show ?thesis using gated_same gated_emit by (metis event_ok.simps(6))
qed

lemma dispatch_call_log:
  assumes "dispatch_call env reg call step d = (q, d')" "call \<in> set cs" "n \<le> length (d_log d)"
  shows "gated reg cs n d d'"
proof -
  obtain p err e where pr: "prepareCall env reg call step d = ((p, err), e)" by (metis prod_cases3 surj_pair)
  note pl = prepareCall_log [OF pr assms(2,3)]
  show ?thesis
  proof (cases "\<exists>tool. err = None \<and> pc_result p = None \<and> pc_tool p = Some tool")
    case False
    then have "d' = e" using assms(1) pr by (auto simp: dispatch_call_def Let_def split: option.splits if_splits)
    then show ?thesis using pl by blast
  next
    case True
    then obtain tool where tool: "err = None" "pc_result p = None" "pc_tool p = Some tool" by blast
    then obtain ev where ev: "EvAnnounced ev \<in> set (drop n (d_log e))" "tce_Call ev = pc_call p" "reg_lookup reg (call_name (pc_call p)) = Some tool"
      using pl by (auto simp: announced_def)
    obtain ans f where iv: "invokeCall env tool (pc_effect p) (call_args (pc_call p)) (snd (now env e)) = (ans, f)" by (metis surj_pair)
    have "gated reg cs n (snd (now env e)) f" using invokeCall_log [OF iv, of ev] ev by simp
    then have "gated reg cs n d f" using gated_trans [OF conjunct1 [OF pl] gated_trans [OF gated_same]] by (metis quiet_log(6))
    moreover have "d_log d' = d_log f" using assms(1) pr tool iv by (auto simp: dispatch_call_def Let_def split_beta split: sum.splits)
    ultimately show ?thesis using gated_trans gated_same by blast
  qed
qed

text \<open>The condition under which the log lemmas compose.\<close>

definition growing :: "toolRegistry \<Rightarrow> ToolCall list \<Rightarrow> nat \<Rightarrow> dispatch \<Rightarrow> bool" where
  "growing reg cs n d \<longleftrightarrow> n \<le> length (d_log d) \<and> log_ok reg cs (drop n (d_log d))"

lemma growing_gated: "growing reg cs n d \<Longrightarrow> gated reg cs n d d' \<Longrightarrow> growing reg cs n d' \<and> set (drop n (d_log d)) \<subseteq> set (drop n (d_log d'))"
  by (simp add: growing_def gated_def)

lemma growing_same: "growing reg cs n d \<Longrightarrow> d_log d' = d_log d \<Longrightarrow> growing reg cs n d'"
  by (simp add: growing_def)

lemma serial_log:
  "serial_from env reg step i ds d = (err, d') \<Longrightarrow> set ds \<subseteq> set cs \<Longrightarrow> growing reg cs n d \<Longrightarrow> growing reg cs n d'"
proof (induction ds arbitrary: i d)
  case (Cons c ds)
  obtain out effect rec ins derr e where dc: "dispatch_call env reg c step (add_event step ''tool_call'' d) = ((out, effect, rec, ins, derr), e)"
    by (cases "dispatch_call env reg c step (add_event step ''tool_call'' d)") (metis prod_cases5)
  have g: "growing reg cs n (add_event step ''tool_call'' d)" using Cons.prems(3) by (rule growing_same) simp
  have "gated reg cs n (add_event step ''tool_call'' d) e" using dispatch_call_log [OF dc, of cs n] Cons.prems(2,3) by (simp add: growing_def)
  then have e: "growing reg cs n e" using growing_gated [OF g] by blast
  show ?case
  proof (cases derr)
    case (Some x)
    then have "d_log d' = d_log e" using Cons.prems(1) dc by (auto simp: Let_def split: if_splits)
    then show ?thesis using growing_same [OF e] by blast
  next
    case None
    obtain ans f where rt: "recordToolResult env step c effect rec out ins e = (ans, f)" by (metis surj_pair)
    have f: "growing reg cs n f" using growing_gated [OF e recordToolResult_log [OF rt]] by blast
    then have "growing reg cs n (complete_call i f)" by (rule growing_same) simp
    then show ?thesis using Cons.prems(1,2) Cons.IH [of "Suc i" "complete_call i f"] f dc rt None
      by (auto simp: Let_def split: sum.splits if_splits)
  qed
qed auto

lemma prepare_from_log:
  "prepare_from env reg step st ds ps d = (ans, d') \<Longrightarrow> set ds \<subseteq> set cs \<Longrightarrow> growing reg cs n d \<Longrightarrow> list_all (announced reg (drop n (d_log d))) ps
     \<Longrightarrow> growing reg cs n d' \<and> (\<forall>qs. ans = Inr qs \<longrightarrow> list_all (announced reg (drop n (d_log d'))) qs)"
proof (induction ds arbitrary: ps d)
  case (Cons c ds)
  obtain p err e where pr: "prepareCall env reg c step (add_event step ''tool_call'' d) = ((p, err), e)" by (metis prod_cases3 surj_pair)
  have g: "growing reg cs n (add_event step ''tool_call'' d)" using Cons.prems(3) by (rule growing_same) simp
  then have pl: "gated reg cs n (add_event step ''tool_call'' d) e" "err = None \<longrightarrow> announced reg (drop n (d_log e)) p"
    using prepareCall_log [OF pr] Cons.prems(2) by (auto simp: growing_def)
  note e = growing_gated [OF g pl(1)]
  have mono: "announced reg A q \<Longrightarrow> set A \<subseteq> set B \<Longrightarrow> announced reg B q" for A B q by (fastforce simp: announced_def)
  show ?case
  proof (cases err)
    case None
    have "list_all (announced reg (drop n (d_log e))) (ps @ [p])" using Cons.prems(4) pl(2) None e mono by (auto simp: list_all_iff)
    moreover have "prepare_from env reg step st ds (ps @ [p]) e = (ans, d')" using Cons.prems(1) pr None by simp
    moreover have "set ds \<subseteq> set cs" using Cons.prems(2) by simp
    ultimately show ?thesis using Cons.IH e by blast
  next
    case (Some x)
    have fold: "d_log (foldl (\<lambda>d q. case pc_result q of Some out \<Rightarrow> appendToolCallRecord step (pc_rec q) (to_RouteOutcome out) d | None \<Rightarrow> d) a qs) = d_log a" for a qs
      by (induction qs arbitrary: a) (auto split: option.split)
    have "d_log d' = d_log e" "\<exists>y. ans = Inl y" using Cons.prems(1) pr Some fold by (auto simp: Let_def split: if_splits)
    then show ?thesis using growing_same e by blast
  qed
qed auto

lemma run_workers_log:
  "run_workers env ps d = (ws, d') \<Longrightarrow> growing reg cs n d \<Longrightarrow> list_all (announced reg (drop n (d_log d))) ps \<Longrightarrow> growing reg cs n d'"
proof (induction ps arbitrary: d ws)
  case (Cons p ps)
  obtain w e where w: "run_worker env p d = (w, e)" by (metis surj_pair)
  have "gated reg cs n d e"
  proof (cases "\<exists>tool. pc_result p = None \<and> pc_tool p = Some tool")
    case True
    then obtain tool where tool: "pc_result p = None" "pc_tool p = Some tool" by blast
    then obtain ev where ev: "EvAnnounced ev \<in> set (drop n (d_log d))" "tce_Call ev = pc_call p" "reg_lookup reg (call_name (pc_call p)) = Some tool"
      using Cons.prems(3) by (auto simp: announced_def)
    obtain ans f where iv: "invokeCall env tool (pc_effect p) (call_args (pc_call p)) (snd (now env d)) = (ans, f)" by (metis surj_pair)
    have "gated reg cs n (snd (now env d)) f" using invokeCall_log [OF iv, of ev] ev by simp
    moreover have "d_log e = d_log f" using w tool iv by (auto simp: run_worker_def Let_def split_beta split: sum.splits)
    ultimately show ?thesis by (simp add: gated_def)
  next
    case False
    then have "e = d" using w by (auto simp: run_worker_def Let_def split: option.splits)
    then show ?thesis by (simp add: gated_same)
  qed
  note e = growing_gated [OF Cons.prems(2) this]
  have "list_all (announced reg (drop n (d_log e))) ps" using Cons.prems(3) e by (fastforce simp: list_all_iff announced_def)
  then show ?case using Cons.prems(1) Cons.IH w e by (auto simp: Let_def split_beta) (metis prod.collapse)
qed auto

lemma record_from_log: "record_from env step i pws d = (err, d') \<Longrightarrow> growing reg cs n d \<Longrightarrow> growing reg cs n d'"
proof (induction pws arbitrary: i d)
  case (Cons pw pws)
  obtain p w where pw: "pw = (p, w)" by (cases pw)
  obtain ans e where rt: "recordToolResult env step (pc_call p) (pc_effect p) (worker_record p w) (wk_result w) (pc_inspectResult p) d = (ans, e)" by (metis surj_pair)
  have e: "growing reg cs n e" using growing_gated [OF Cons.prems(2) recordToolResult_log [OF rt]] by blast
  then have c: "growing reg cs n (complete_call i e)" "growing reg cs n (appendTrailingToolCallRecords step pws e)"
    "growing reg cs n (appendTrailingToolCallRecords step pws (complete_call i e))" by (simp_all add: growing_def)
  show ?case using Cons.prems Cons.IH [of "Suc i"] c pw rt by (auto simp: Let_def split: if_splits sum.splits)
qed auto

lemma batch_log:
  assumes "(if length cs \<ge> 2 \<and> canRunParallel reg cs \<and> parallelUncapped (d_gov d) cs then runToolCallsParallel env reg cs step d
     else runToolCallsSerial env reg cs step d) = (err, d')" "growing reg cs n d"
  shows "growing reg cs n d'"
proof (cases "length cs \<ge> 2 \<and> canRunParallel reg cs \<and> parallelUncapped (d_gov d) cs")
  case True
  then have r: "runToolCallsParallel env reg cs step d = (err, d')" using assms(1) by simp
  let ?start = "length (rs_Events (d_res d))"
  obtain ans a where pf: "prepare_from env reg step ?start cs [] d = (ans, a)" by (metis surj_pair)
  note pl = prepare_from_log [OF pf subset_refl assms(2)]
  show ?thesis
  proof (cases ans)
    case (Inl x)
    then show ?thesis using r pf pl by (simp add: runToolCallsParallel_def)
  next
    case (Inr ps)
    obtain ws b where rw: "run_workers env ps a = (ws, b)" by (metis surj_pair)
    have b: "growing reg cs n b" using run_workers_log [OF rw] pl Inr by simp
    let ?c = "retain_events ?start (\<lambda>i. i < length ws \<and> \<not> (case wk_error (ws ! i) of Some e \<Rightarrow> budget_exhausted e | None \<Rightarrow> False)) b"
    have c: "growing reg cs n (snd (ctx_Err env ?c))" by (rule growing_same [OF b]) simp
    then have "growing reg cs n (appendTrailingToolCallRecords step (zip ps ws) (snd (ctx_Err env ?c)))" by (rule growing_same) simp
    then show ?thesis using r pf Inr rw record_from_log [OF _ c] by (auto simp: runToolCallsParallel_def Let_def split_beta split: if_splits)
  qed
next
  case False
  then have "serial_from env reg step 0 cs d = (err, d')" using assms(1) unfolding runToolCallsSerial_def by (simp only: if_False)
  then show ?thesis using serial_log assms(2) by blast
qed

lemma runToolCalls_log:
  assumes "runToolCalls env reg cs step d = (err, d')" "growing reg cs n d"
  shows "growing reg cs n d'"
proof -
  let ?d = "d\<lparr>d_batch := newBatch\<rparr>"
  obtain berr e where b: "(if length cs \<ge> 2 \<and> canRunParallel reg cs \<and> parallelUncapped (d_gov ?d) cs then runToolCallsParallel env reg cs step ?d
      else runToolCallsSerial env reg cs step ?d) = (berr, e)" by (metis surj_pair)
  have "growing reg cs n ?d" using assms(2) by (rule growing_same) simp
  then have e: "growing reg cs n e" using batch_log [OF b] by blast
  then have more: "growing reg cs n (tick e)" "growing reg cs n (snd (ctx_Err env e))" "growing reg cs n (prune_calls k (snd (ctx_Err env e)))"
    "growing reg cs n (snd (ctx_Err env (tick e)))" "growing reg cs n (prune_calls k (snd (ctx_Err env (tick e))))" for k
    by (simp_all add: growing_def)
  have verified: "growing reg cs n d'" if "verifyBatch env step f = (err, d')" "growing reg cs n f" for f
    using growing_gated verifyBatch_log that by blast
  show ?thesis
    using assms(1) e more verified unfolding runToolCalls_def Let_def b prod.case
    by (auto simp: ask_stopped_def split_beta split: if_splits option.splits)
qed

text \<open>C3: Whatever the model, the tools, the interceptors, the approver and the observers do, a tool is invoked only for a call of the turn, with that
  call's arguments, when the tool is registered under the called name and the arguments are valid JSON, after the interceptors let the call pass, after the call was announced
  to the observer with its effect, and, when that effect needs approval, after an approver approved this call. The effect is the tool's own declaration unless the tool plans it.\<close>

theorem invoked_behind_gates:
  assumes "runToolCalls env reg cs step d = (err, d')" "drop (length (d_log d)) (d_log d') = L @ EvInvoke tool args # M"
  shows "\<exists>ev. EvAnnounced ev \<in> set L \<and> tce_Call ev \<in> set cs \<and> call_args (tce_Call ev) = args \<and> reg_lookup reg (call_name (tce_Call ev)) = Some tool
    \<and> json_Valid args \<and> EvGate (tce_Call ev) (Inr None) \<in> set L
    \<and> (needsApproval (ef_Approval (tce_Effect ev)) (ef_Class (tce_Effect ev)) \<longrightarrow> (\<exists>g. EvDecision (tce_Call ev) \<lparr>apd_Approved = True, apd_ViaGrant = g\<rparr> None \<in> set L))
    \<and> (tl_Plan tool = None \<longrightarrow> tce_Effect ev = normalizeEffect (tl_Effect tool))"
proof -
  let ?new = "drop (length (d_log d)) (d_log d')"
  have "growing reg cs (length (d_log d)) d" by (simp add: growing_def)
  then have ok: "log_ok reg cs ?new" using runToolCalls_log [OF assms(1)] by (simp add: growing_def)
  have "event_ok reg cs L (EvInvoke tool args)" using ok assms(2) by (auto simp: log_ok_def dest: spec [of _ "length L"])
  then obtain ev where ev: "EvAnnounced ev \<in> set L" "call_args (tce_Call ev) = args" "reg_lookup reg (call_name (tce_Call ev)) = Some tool" by auto
  then obtain k where k: "k < length L" "L ! k = EvAnnounced ev" by (auto simp: in_set_conv_nth)
  then have "event_ok reg cs (take k L) (EvAnnounced ev)" using ok assms(2) by (auto simp: log_ok_def nth_append dest: spec [of _ k])
  moreover have "set (take k L) \<subseteq> set L" by (rule set_take_subset)
  ultimately show ?thesis using ev by (intro exI [of _ ev]) (auto simp: Let_def)
qed

text \<open>The context is cancelled while the tool runs.\<close>

definition late_batch :: "run_error option \<times> dispatch" where
  "late_batch = runToolCalls (sample_env\<lparr>de_ctx := (\<lambda>n. if n > 6 then Some ErrCanceled else None)\<rparr>) sample_registry [demo_call ''rm''] 0 (sample_dispatch [demo_call ''rm''])"

theorem invoked_behind_gates_witness:
  "\<exists>L M tool args ev. d_log (snd late_batch) = L @ EvInvoke tool args # M \<and> EvAnnounced ev \<in> set L \<and> tce_Call ev = demo_call ''rm'' \<and> EvGate (demo_call ''rm'') (Inr None) \<in> set L"
proof -
  have "list_ex (\<lambda>e. case e of EvInvoke _ _ \<Rightarrow> True | _ \<Rightarrow> False) (d_log (snd late_batch))" by code_simp
  then obtain e where e: "e \<in> set (d_log (snd late_batch))" "case e of EvInvoke _ _ \<Rightarrow> True | _ \<Rightarrow> False" by (auto simp: list_ex_iff)
  from e(2) obtain tool args where "e = EvInvoke tool args" by (cases e) auto
  with e(1) have "EvInvoke tool args \<in> set (d_log (snd late_batch))" by simp
  then obtain L M where l: "d_log (snd late_batch) = L @ EvInvoke tool args # M" by (meson split_list)
  have "runToolCalls (sample_env\<lparr>de_ctx := (\<lambda>n. if n > 6 then Some ErrCanceled else None)\<rparr>) sample_registry [demo_call ''rm''] 0 (sample_dispatch [demo_call ''rm''])
      = (fst late_batch, snd late_batch)" by (simp add: late_batch_def)
  from invoked_behind_gates [OF this, of L tool args M] l
  obtain ev where "EvAnnounced ev \<in> set L" "tce_Call ev = demo_call ''rm''" "EvGate (tce_Call ev) (Inr None) \<in> set L" by (auto simp: sample_dispatch_def)
  then show ?thesis using l by metis
qed

text \<open>C16: What comes back from an invoked tool: a result is cut at the effect's output cap, an error becomes an error result with its full text, and in either case the
  result counts as trusted only when the tool itself is declared trusted, whatever provenance the result claims.\<close>

theorem invoke_result_exact:
  assumes "invokeCall env tool ef args d = (Inr out, d')"
  shows "(trusted (tr_Origin (to_Result out)) \<longrightarrow> trusted (staticOrigin tool))
    \<and> (\<exists>n. case de_invoke env n tool (ef_Timeout ef) args of
         Inl e \<Rightarrow> tr_IsError (to_Result out) \<and> tr_Content (to_Result out) = e
       | Inr r \<Rightarrow> (0 < ef_OutputCap ef \<longrightarrow> go_len (tr_Content (to_Result out)) \<le> ef_OutputCap ef)
           \<and> (\<exists>rest. tr_Content (to_Result r) = tr_Content (to_Result out) @ rest \<and> (rest \<noteq> [] \<longrightarrow> tr_Truncated (to_Result out))))"
proof -
  obtain berr b where cb: "check_budget env d = (berr, b)" by (metis surj_pair)
  let ?a = "de_invoke env (d_tick b) tool (ef_Timeout ef) args"
  have origin: "trusted (result_origin tool og) \<longrightarrow> trusted (staticOrigin tool)" for og by (auto simp: result_origin_def Let_def)
  have cap: "(0 < l \<longrightarrow> go_len (tr_Content (capOutput r l)) \<le> l) \<and> (\<exists>rest. tr_Content r = tr_Content (capOutput r l) @ rest \<and> (rest \<noteq> [] \<longrightarrow> tr_Truncated (capOutput r l)))" for r l
  proof (cases "0 < l \<and> go_len (tr_Content r) > l")
    case True
    then have "go_len (take (rune_end (tr_Content r) (nat l)) (tr_Content r)) \<le> l"
      using rune_end_le [of "tr_Content r" "nat l"] by (auto simp: go_len_def min_def)
    then show ?thesis using True by (auto simp: capOutput_def intro!: exI [of _ "drop (rune_end (tr_Content r) (nat l)) (tr_Content r)"])
  next
    case False
    then have "capOutput r l = r" by (auto simp: capOutput_def)
    with False show ?thesis by auto
  qed
  have "berr = None" using assms cb by (auto simp: invokeCall_def split: option.splits)
  show ?thesis
  proof (cases ?a)
    case (Inl e)
    then have "out = error_output e (staticOrigin tool)" using assms cb \<open>berr = None\<close> by (simp add: invokeCall_def Let_def)
    then show ?thesis using Inl by (auto simp: error_output_def intro!: exI [of _ "d_tick b"])
  next
    case (Inr r)
    let ?r = "capOutput (to_Result r) (ef_OutputCap ef)"
    have "out = r\<lparr>to_Result := ?r\<lparr>tr_Origin := result_origin tool (tr_Origin ?r)\<rparr>\<rparr>" using assms cb \<open>berr = None\<close> Inr by (simp add: invokeCall_def Let_def)
    then show ?thesis using Inr origin cap [of "ef_OutputCap ef" "to_Result r"] by (auto intro!: exI [of _ "d_tick b"])
  qed
qed

theorem invoke_result_exact_witness:
  "\<exists>out d'. invokeCall (sample_env\<lparr>de_invoke := (\<lambda>_ _ _ _. Inl ''boom'')\<rparr>) (sample_tool ''ls'' Read) (sample_effect Read) ''{}'' (sample_dispatch []) = (Inr out, d')
     \<and> (trusted (tr_Origin (to_Result out)) \<longrightarrow> trusted (staticOrigin (sample_tool ''ls'' Read))) \<and> tr_Content (to_Result out) = ''boom''"
proof -
  let ?env = "sample_env\<lparr>de_invoke := (\<lambda>_ _ _ _. Inl ''boom'')\<rparr>"
  obtain out d' where r: "invokeCall ?env (sample_tool ''ls'' Read) (sample_effect Read) ''{}'' (sample_dispatch []) = (Inr out, d')"
    by (simp add: invokeCall_def check_budget_def ctx_Err_def ask_stopped_def sample_env_def Let_def)
  show ?thesis using invoke_result_exact [OF r] r by auto
qed

end
