(* ===== verification/Dispatch_Parallel.thy ===== *)
theory Dispatch_Parallel
  imports Dispatch_Transcript
begin

text \<open>
  The concurrent path of a batch against the serial path (\<open>agent/dispatch_parallel.go\<close>, \<open>dispatch.go\<close>): for a batch that the pre-check admits, in surroundings that
  answer the same at every time, both show the model the same transcript and leave the governor, the batch policy and the stop reason the same.
\<close>

section \<open>Steady surroundings\<close>

definition steady :: "dispatch_env \<Rightarrow> bool" where
  "steady env \<longleftrightarrow> (\<forall>n. de_ctx env n = None \<and> \<not> de_stopped env n \<and> de_clock env n = de_clock env 0 \<and> de_invoke env n = de_invoke env 0 \<and> (\<forall>ev. de_onToolCall env n ev = None)
     \<and> (case de_onToolResult env of None \<Rightarrow> True | Some f \<Rightarrow> \<forall>ev. f n ev = None))"

text \<open>What both paths must agree on.\<close>

definition view :: "dispatch \<Rightarrow> State \<times> restraintGovernor \<times> batch \<times> StopReason \<times> interceptorRun" where
  "view d = (d_state d, d_gov d, d_batch d, rs_StopReason (d_res d), d_ic d)"

lemma view_parts [simp]:
  "view (tick d) = view d" "view (emit e d) = view d" "view (add_event s k d) = view d" "view (appendToolCallRecord s r ro d) = view d" "view (d\<lparr>d_ic := d_ic d\<rparr>) = view d"
  "view (d\<lparr>d_gov := d_gov d\<rparr>) = view d" "view (retain_events st keep d) = view d" "view (snd (now env d)) = view d" "view (snd (ctx_Err env d)) = view d"
  by (simp_all add: view_def tick_def emit_def add_event_def appendToolCallRecord_def retain_events_def now_def ctx_Err_def split: option.split)

lemma view_trailing [simp]: "view (appendTrailingToolCallRecords s xs d) = view d"
  by (induction s xs d rule: appendTrailingToolCallRecords.induct) auto

lemma view_complete: "view d = view e \<Longrightarrow> view (complete_call i d) = view (complete_call i e)"
  by (simp add: view_def complete_call_def)

lemma steady_budget: "steady env \<Longrightarrow> check_budget env d = (None, tick (tick d))"
  by (simp add: steady_def check_budget_def ctx_Err_def ask_stopped_def Let_def)

text \<open>The preparation and the output of an admitted call.\<close>

definition prepared_of :: "toolRegistry \<Rightarrow> int \<Rightarrow> ToolCall \<Rightarrow> preparedCall" where
  "prepared_of reg step c =
     (let tool = the (reg_lookup reg (call_name c))
      in (new_prepared c (new_record step (call_name c)))\<lparr>pc_effect := normalizeEffect (tl_Effect tool), pc_tool := Some tool\<rparr>)"

definition output_of :: "dispatch_env \<Rightarrow> toolRegistry \<Rightarrow> ToolCall \<Rightarrow> ToolOutput" where
  "output_of env reg c =
     (let tool = the (reg_lookup reg (call_name c)); ef = normalizeEffect (tl_Effect tool)
      in case de_invoke env 0 tool (ef_Timeout ef) (call_args c) of
           Inl e \<Rightarrow> error_output e (staticOrigin tool)
         | Inr out \<Rightarrow> let r = capOutput (to_Result out) (ef_OutputCap ef) in out\<lparr>to_Result := r\<lparr>tr_Origin := result_origin tool (tr_Origin r)\<rparr>\<rparr>)"

definition record_of :: "dispatch_env \<Rightarrow> toolRegistry \<Rightarrow> int \<Rightarrow> ToolCall \<Rightarrow> ToolCallRecord" where
  "record_of env reg step c = (pc_rec (prepared_of reg step c))\<lparr>tcr_Invoked := True, tcr_Latency := time_sub (de_clock env 0) (de_clock env 0),
     tcr_IsError := tr_IsError (to_Result (output_of env reg c))\<rparr>"

definition worker_of :: "dispatch_env \<Rightarrow> toolRegistry \<Rightarrow> ToolCall \<Rightarrow> worker" where
  "worker_of env reg c = \<lparr>wk_result = output_of env reg c, wk_latency = time_sub (de_clock env 0) (de_clock env 0), wk_invoked = True, wk_error = None\<rparr>"

definition admitted :: "toolRegistry \<Rightarrow> restraintGovernor \<Rightarrow> ToolCall \<Rightarrow> bool" where
  "admitted reg gov c \<longleftrightarrow> batch_call_ok reg c \<and> call_name c \<noteq> il_Tool (gv_invocationLimit gov)"

lemma prepareCall_steady:
  assumes "steady env" "admitted reg (d_gov d) c" "ir_chain (d_ic d) = []"
  shows "fst (prepareCall env reg c step d) = (prepared_of reg step c, None)" "view (snd (prepareCall env reg c step d)) = view d"
proof -
  obtain tool where tool: "reg_lookup reg (call_name c) = Some tool" "json_Valid (call_args c)" "tl_Plan tool = None" "parallelSafe (tl_Effect tool)"
    using assms(2) by (auto simp: admitted_def batch_call_ok_def parallelSafe_iff)
  let ?ef = "normalizeEffect (tl_Effect tool)"
  have na: "\<not> needsApproval (ef_Approval ?ef) (ef_Class ?ef)" using tool(4) by (auto simp: parallelSafe_iff needsApproval_iff)
  have res: "reserveInvocation (call_name c) (d_gov d) = (d_gov d, 0, True)" using assms(2) by (simp add: admitted_def reserveInvocation_def Let_def)
  have gate: "inspectToolCall (de_onInterception env) step c ?ef (d_ic d) = (Inr None, d_ic d)" using assms(3) by (simp add: inspectToolCall_def)
  define e where "e = emit (EvGate c (Inr None)) ((tick (tick d))\<lparr>d_ic := d_ic d\<rparr>)"
  have e: "d_gov e = d_gov d" "view e = view d" by (simp_all add: e_def view_def tick_def emit_def)
  have silent: "de_onToolCall env n ev = None" for n ev using assms(1) by (simp add: steady_def)
  have "prepareCall env reg c step d = prepare_announce env tool c [] step ((new_prepared c (new_record step (call_name c)))\<lparr>pc_effect := ?ef\<rparr>) e"
    using tool na gate by (simp add: prepareCall_def steady_budget [OF assms(1)] prepare_approve_def Let_def e_def tick_def emit_def)
  moreover have "fst (prepare_announce env tool c [] step ((new_prepared c (new_record step (call_name c)))\<lparr>pc_effect := ?ef\<rparr>) e) = (prepared_of reg step c, None)"
    "view (snd (prepare_announce env tool c [] step ((new_prepared c (new_record step (call_name c)))\<lparr>pc_effect := ?ef\<rparr>) e)) = view d"
    using res e tool(1) silent by (simp_all add: prepare_announce_def prepared_of_def Let_def view_def tick_def emit_def)
  ultimately show "fst (prepareCall env reg c step d) = (prepared_of reg step c, None)" "view (snd (prepareCall env reg c step d)) = view d" by simp_all
qed

lemma invokeCall_steady:
  assumes "steady env" "tool = the (reg_lookup reg (call_name c))" "ef = normalizeEffect (tl_Effect tool)"
  shows "fst (invokeCall env tool ef (call_args c) d) = Inr (output_of env reg c)" "view (snd (invokeCall env tool ef (call_args c) d)) = view d"
proof -
  have i: "de_invoke env (d_tick (tick (tick d))) = de_invoke env 0" using assms(1) unfolding steady_def by blast
  have "output_of env reg c = (case de_invoke env 0 tool (ef_Timeout ef) (call_args c) of
           Inl e \<Rightarrow> error_output e (staticOrigin tool)
         | Inr out \<Rightarrow> let r = capOutput (to_Result out) (ef_OutputCap ef) in out\<lparr>to_Result := r\<lparr>tr_Origin := result_origin tool (tr_Origin r)\<rparr>\<rparr>)"
    unfolding output_of_def Let_def assms(2) [symmetric] assms(3) [symmetric] ..
  then show "fst (invokeCall env tool ef (call_args c) d) = Inr (output_of env reg c)" "view (snd (invokeCall env tool ef (call_args c) d)) = view d"
    by (auto simp: invokeCall_def steady_budget [OF assms(1)] i Let_def split: sum.split)
qed

lemma steady_clock: "steady env \<Longrightarrow> fst (now env d) = de_clock env 0"
  unfolding steady_def now_def by (metis fst_conv)

lemma prepared_fields [simp]:
  "pc_result (prepared_of reg step c) = None" "pc_tool (prepared_of reg step c) = Some (the (reg_lookup reg (call_name c)))" "pc_call (prepared_of reg step c) = c"
  "pc_effect (prepared_of reg step c) = normalizeEffect (tl_Effect (the (reg_lookup reg (call_name c))))" "pc_inspectResult (prepared_of reg step c) = False"
  by (simp_all add: prepared_of_def new_prepared_def Let_def)

lemma run_worker_steady:
  assumes "steady env"
  shows "fst (run_worker env (prepared_of reg step c) d) = worker_of env reg c" "view (snd (run_worker env (prepared_of reg step c) d)) = view d"
  using invokeCall_steady [OF assms refl refl, of reg c] steady_clock [OF assms]
  by (auto simp: run_worker_def Let_def split_beta worker_of_def split: sum.split)

lemma worker_record_steady: "worker_record (prepared_of reg step c) (worker_of env reg c) = record_of env reg step c"
  by (simp add: worker_record_def worker_of_def record_of_def Let_def)

lemma dispatch_call_steady:
  assumes "steady env" "admitted reg (d_gov d) c" "ir_chain (d_ic d) = []"
  shows "fst (dispatch_call env reg c step d) = (output_of env reg c, pc_effect (prepared_of reg step c), record_of env reg step c, False, None)"
    "view (snd (dispatch_call env reg c step d)) = view d"
proof -
  obtain e where e: "prepareCall env reg c step d = ((prepared_of reg step c, None), e)" "view e = view d"
    using prepareCall_steady [OF assms] by (metis prod.collapse)
  have "\<forall>n. de_ctx env n = None" using assms(1) by (simp add: steady_def)
  then have ctx: "fst (ctx_Err env x) = None" for x by (simp add: ctx_Err_def)
  show "fst (dispatch_call env reg c step d) = (output_of env reg c, pc_effect (prepared_of reg step c), record_of env reg step c, False, None)"
    "view (snd (dispatch_call env reg c step d)) = view d"
    using e invokeCall_steady [OF assms(1) refl refl, of reg c] steady_clock [OF assms(1)] ctx
    by (auto simp: dispatch_call_def Let_def split_beta record_of_def split: sum.split)
qed

section \<open>Recording depends on the view only\<close>

lemma record_observation_view:
  assumes "steady env" "view d = view e"
  shows "fst (record_observation env step call ef rec out cap d) = fst (record_observation env step call ef rec out cap e)"
    "view (snd (record_observation env step call ef rec out cap d)) = view (snd (record_observation env step call ef rec out cap e))"
proof -
  obtain sr tr where s: "stopReason (observe call (to_Result out) (d_gov e)) = (sr, tr)" by (metis surj_pair)
  have same: "d_state d = d_state e" "d_gov d = d_gov e" "d_batch d = d_batch e" "rs_StopReason (d_res d) = rs_StopReason (d_res e)" "d_ic d = d_ic e"
    using assms(2) by (simp_all add: view_def)
  have "fst (record_observation env step call ef rec out cap d) = fst (record_observation env step call ef rec out cap e)
    \<and> view (snd (record_observation env step call ef rec out cap d)) = view (snd (record_observation env step call ef rec out cap e))"
  proof (cases "de_onToolResult env")
    case None
    then show ?thesis using s same by (simp add: record_observation_def Let_def view_def appendToolCallRecord_def add_event_def)
  next
    case (Some f)
    then have "f n ev = None" for n ev using assms(1) by (simp add: steady_def)
    then show ?thesis using Some s same by (simp add: record_observation_def Let_def view_def tick_def emit_def appendToolCallRecord_def add_event_def)
  qed
  then show "fst (record_observation env step call ef rec out cap d) = fst (record_observation env step call ef rec out cap e)"
    "view (snd (record_observation env step call ef rec out cap d)) = view (snd (record_observation env step call ef rec out cap e))" by blast+
qed

lemma recordToolResult_view:
  assumes "steady env" "view d = view e" "ir_chain (d_ic d) = []"
  shows "fst (recordToolResult env step call ef rec out ins d) = fst (recordToolResult env step call ef rec out ins e)"
    "view (snd (recordToolResult env step call ef rec out ins d)) = view (snd (recordToolResult env step call ef rec out ins e))"
proof -
  have ingress: "inspect_ingress env step call rec out cap x = (Inr (out, rec, cap), x\<lparr>d_ic := d_ic x\<rparr>)" if "ir_chain (d_ic x) = []" for x cap
    using that by (simp add: inspect_ingress_def inspectObservation_def Let_def)
  have chain: "ir_chain (d_ic e) = []" using assms(2,3) by (simp add: view_def)
  show "fst (recordToolResult env step call ef rec out ins d) = fst (recordToolResult env step call ef rec out ins e)"
    "view (snd (recordToolResult env step call ef rec out ins d)) = view (snd (recordToolResult env step call ef rec out ins e))"
    using record_observation_view [OF assms(1,2)] assms(2) ingress [OF assms(3)] ingress [OF chain]
    by (auto simp: recordToolResult_def Let_def)
qed

lemma record_observation_gov:
  "d_ic (snd (record_observation env step call ef rec out cap d)) = d_ic d
     \<and> gv_invocationLimit (d_gov (snd (record_observation env step call ef rec out cap d))) = gv_invocationLimit (d_gov d)"
  by (auto simp: record_observation_def Let_def split_beta tick_def emit_def appendToolCallRecord_def add_event_def observe_def split: option.split)

lemma recordToolResult_gov:
  assumes "ir_chain (d_ic d) = []"
  shows "d_ic (snd (recordToolResult env step call ef rec out ins d)) = d_ic d
     \<and> gv_invocationLimit (d_gov (snd (recordToolResult env step call ef rec out ins d))) = gv_invocationLimit (d_gov d)"
proof -
  have ingress: "inspect_ingress env step call rec out cap d = (Inr (out, rec, cap), d\<lparr>d_ic := d_ic d\<rparr>)" for cap
    using assms by (simp add: inspect_ingress_def inspectObservation_def Let_def)
  show ?thesis using record_observation_gov by (auto simp: recordToolResult_def ingress Let_def appendToolCallRecord_def add_event_def)
qed

section \<open>Both loops\<close>

lemma loops_agree:
  assumes "steady env" "view d = view e" "ir_chain (d_ic d) = []" "list_all (admitted reg (d_gov d)) cs"
  shows "fst (serial_from env reg step i cs d) = fst (record_from env step i (map (\<lambda>c. (prepared_of reg step c, worker_of env reg c)) cs) e)
    \<and> view (snd (serial_from env reg step i cs d)) = view (snd (record_from env step i (map (\<lambda>c. (prepared_of reg step c, worker_of env reg c)) cs) e))"
  using assms(2-4)
proof (induction cs arbitrary: i d e)
  case (Cons c cs)
  let ?d = "add_event step ''tool_call'' d"
  have v: "view ?d = view d" by simp
  then have adm: "admitted reg (d_gov ?d) c" "ir_chain (d_ic ?d) = []" using Cons.prems by (simp_all add: view_def)
  obtain f where f: "dispatch_call env reg c step ?d = ((output_of env reg c, pc_effect (prepared_of reg step c), record_of env reg step c, False, None), f)" "view f = view d"
    using dispatch_call_steady [OF assms(1) adm, of step] v by (metis prod.collapse)
  have fe: "view f = view e" "ir_chain (d_ic f) = []" using f(2) Cons.prems(1,2) by (simp_all add: view_def)
  let ?R = "recordToolResult env step c (pc_effect (prepared_of reg step c)) (record_of env reg step c) (output_of env reg c) False"
  obtain a f' e' where r: "?R f = (a, f')" "?R e = (a, e')" "view f' = view e'"
    using recordToolResult_view [OF assms(1) fe] by (metis prod.collapse)
  have w: "wk_error (worker_of env reg c) = None" "wk_result (worker_of env reg c) = output_of env reg c" by (simp_all add: worker_of_def)
  have gov: "ir_chain (d_ic f') = []" "gv_invocationLimit (d_gov f') = gv_invocationLimit (d_gov d)"
    using recordToolResult_gov [OF fe(2), of env step c "pc_effect (prepared_of reg step c)" "record_of env reg step c" "output_of env reg c" False] r(1) f(2) fe(2)
    by (simp_all add: view_def)
  then have "list_all (admitted reg (d_gov (complete_call i f'))) cs" "ir_chain (d_ic (complete_call i f')) = []"
    using Cons.prems(3) by (simp_all add: admitted_def complete_call_def list_all_iff)
  note IH = Cons.IH [OF view_complete [OF r(3)] this(2,1), of "Suc i"]
  show ?case
    using IH f(1) r w worker_record_steady [of reg step c env] view_complete [OF r(3)] by (auto simp: Let_def split: sum.split)
qed simp

lemma prepare_from_steady:
  assumes "steady env" "ir_chain (d_ic d) = []" "list_all (admitted reg (d_gov d)) cs"
  shows "fst (prepare_from env reg step st cs ps d) = Inr (ps @ map (prepared_of reg step) cs) \<and> view (snd (prepare_from env reg step st cs ps d)) = view d"
  using assms(2,3)
proof (induction cs arbitrary: ps d)
  case (Cons c cs)
  let ?d = "add_event step ''tool_call'' d"
  have adm: "admitted reg (d_gov ?d) c" "ir_chain (d_ic ?d) = []" using Cons.prems by (simp_all add: add_event_def)
  obtain e where e: "prepareCall env reg c step ?d = ((prepared_of reg step c, None), e)" "view e = view d"
    using prepareCall_steady [OF assms(1) adm, of step] by (metis prod.collapse view_parts(3))
  have "ir_chain (d_ic e) = []" "list_all (admitted reg (d_gov e)) cs" using e(2) Cons.prems by (simp_all add: view_def)
  then show ?case using Cons.IH [of e "ps @ [prepared_of reg step c]"] e by simp
qed simp

lemma run_workers_steady:
  assumes "steady env"
  shows "fst (run_workers env (map (prepared_of reg step) cs) d) = map (worker_of env reg) cs \<and> view (snd (run_workers env (map (prepared_of reg step) cs) d)) = view d"
  by (induction cs arbitrary: d) (auto simp: Let_def split_beta run_worker_steady [OF assms])

text \<open>C15: For a batch that may run concurrently, the concurrent path shows the model exactly what the serial path would, as long as nothing cuts the
  batch short: the context is never cancelled, the run budget never stops, \<open>OnToolCall\<close> and \<open>OnToolResult\<close> return no error, the clock and the tools answer
  the same at every time, and there are no interceptors. Then both paths end with the same error, the same transcript, the same governor state, the same completed calls and
  verification anchor and the same stop reason.\<close>

theorem parallel_equals_serial:
  assumes "canRunParallel reg cs" "parallelUncapped (d_gov d) cs" "steady env" "ir_chain (d_ic d) = []"
  shows "fst (runToolCallsParallel env reg cs step d) = fst (runToolCallsSerial env reg cs step d)
    \<and> d_state (snd (runToolCallsParallel env reg cs step d)) = d_state (snd (runToolCallsSerial env reg cs step d))
    \<and> d_gov (snd (runToolCallsParallel env reg cs step d)) = d_gov (snd (runToolCallsSerial env reg cs step d))
    \<and> d_batch (snd (runToolCallsParallel env reg cs step d)) = d_batch (snd (runToolCallsSerial env reg cs step d))
    \<and> rs_StopReason (d_res (snd (runToolCallsParallel env reg cs step d))) = rs_StopReason (d_res (snd (runToolCallsSerial env reg cs step d)))"
proof -
  have adm: "list_all (admitted reg (d_gov d)) cs"
    using assms(1,2) by (auto simp: list_all_iff admitted_def canRunParallel_def can_run_from_iff parallelUncapped_def)
  let ?start = "length (rs_Events (d_res d))"
  obtain a where a: "prepare_from env reg step ?start cs [] d = (Inr (map (prepared_of reg step) cs), a)" "view a = view d"
    using prepare_from_steady [OF assms(3,4) adm, of step ?start "[]"] by (metis append_Nil prod.collapse)
  obtain b where b: "run_workers env (map (prepared_of reg step) cs) a = (map (worker_of env reg) cs, b)" "view b = view d"
    using run_workers_steady [OF assms(3), of reg step cs a] a(2) by (metis prod.collapse)
  let ?ws = "map (worker_of env reg) cs"
  define f where "f = snd (ctx_Err env (retain_events ?start (\<lambda>i. i < length ?ws \<and> \<not> (case wk_error (?ws ! i) of Some e \<Rightarrow> budget_exhausted e | None \<Rightarrow> False)) b))"
  have f: "view d = view f" by (simp add: f_def b(2))
  have ctx: "fst (ctx_Err env x) = None" for x using assms(3) unfolding steady_def ctx_Err_def by simp
  have "zip (map (prepared_of reg step) cs) ?ws = map (\<lambda>c. (prepared_of reg step c, worker_of env reg c)) cs" by (simp add: zip_map_map zip_same_conv_map)
  then have "runToolCallsParallel env reg cs step d = record_from env step 0 (map (\<lambda>c. (prepared_of reg step c, worker_of env reg c)) cs) f"
    by (simp add: runToolCallsParallel_def a(1) b(1) Let_def split_beta ctx f_def)
  then show ?thesis using loops_agree [OF assms(3) f assms(4) adm, of step 0] unfolding runToolCallsSerial_def by (simp add: view_def)
qed

theorem parallel_equals_serial_witness:
  "canRunParallel sample_registry [demo_call ''ls'', demo_call ''cat'']
   \<and> d_state (snd (runToolCallsParallel sample_env sample_registry [demo_call ''ls'', demo_call ''cat''] 0 (sample_dispatch [])))
     = d_state (snd (runToolCallsSerial sample_env sample_registry [demo_call ''ls'', demo_call ''cat''] 0 (sample_dispatch [])))"
proof -
  have "canRunParallel sample_registry [demo_call ''ls'', demo_call ''cat'']" by code_simp
  moreover have "parallelUncapped (d_gov (sample_dispatch [])) [demo_call ''ls'', demo_call ''cat'']"
    by (simp add: parallelUncapped_def sample_dispatch_def sample_governor_def demo_call_def)
  moreover have "steady sample_env" "ir_chain (d_ic (sample_dispatch [])) = []" by (simp_all add: steady_def sample_env_def sample_dispatch_def new_interceptor_run_def)
  ultimately show ?thesis using parallel_equals_serial by blast
qed

end
