(* ===== verification/Go_Utf8.thy ===== *)
theory Go_Utf8
  imports Prelude
begin

text \<open>
  UTF-8 as \<open>unicode/utf8\<close> and \<open>strings.Builder\<close> read and write it: the first rune of a string with its width, where every byte that starts no valid encoding
  counts as U+FFFD of width one, and the encoding of a rune. A rune is an integer, a string the list of its bytes.
\<close>

abbreviation byte :: "char \<Rightarrow> int" where "byte c \<equiv> of_char c"

definition RuneError :: int where "RuneError = 0xFFFD"

definition cont :: "int \<Rightarrow> bool" where
  "cont b \<longleftrightarrow> 0x80 \<le> b \<and> b \<le> 0xBF"

definition DecodeRune :: "string \<Rightarrow> int \<times> nat" where
  "DecodeRune s =
     (case s of
        [] \<Rightarrow> (RuneError, 0)
      | c0 # s1 \<Rightarrow>
          let b0 = byte c0
          in if b0 < 0x80 then (b0, 1)
             else if 0xC2 \<le> b0 \<and> b0 \<le> 0xDF then
               (case s1 of
                  c1 # _ \<Rightarrow> if cont (byte c1) then ((b0 - 0xC0) * 64 + (byte c1 - 0x80), 2) else (RuneError, 1)
                | _ \<Rightarrow> (RuneError, 1))
             else if 0xE0 \<le> b0 \<and> b0 \<le> 0xEF then
               (case s1 of
                  c1 # c2 # _ \<Rightarrow>
                    if (if b0 = 0xE0 then 0xA0 else 0x80) \<le> byte c1 \<and> byte c1 \<le> (if b0 = 0xED then 0x9F else 0xBF) \<and> cont (byte c2)
                    then (((b0 - 0xE0) * 64 + (byte c1 - 0x80)) * 64 + (byte c2 - 0x80), 3) else (RuneError, 1)
                | _ \<Rightarrow> (RuneError, 1))
             else if 0xF0 \<le> b0 \<and> b0 \<le> 0xF4 then
               (case s1 of
                  c1 # c2 # c3 # _ \<Rightarrow>
                    if (if b0 = 0xF0 then 0x90 else 0x80) \<le> byte c1 \<and> byte c1 \<le> (if b0 = 0xF4 then 0x8F else 0xBF) \<and> cont (byte c2) \<and> cont (byte c3)
                    then ((((b0 - 0xF0) * 64 + (byte c1 - 0x80)) * 64 + (byte c2 - 0x80)) * 64 + (byte c3 - 0x80), 4) else (RuneError, 1)
                | _ \<Rightarrow> (RuneError, 1))
             else (RuneError, 1))"

definition valid_rune :: "int \<Rightarrow> bool" where
  "valid_rune r \<longleftrightarrow> 0 \<le> r \<and> r \<le> 0x10FFFF \<and> \<not> (0xD800 \<le> r \<and> r \<le> 0xDFFF)"

definition encode_bytes :: "int \<Rightarrow> int list" where
  "encode_bytes r =
     (if r < 0x80 then [r]
      else if r < 0x800 then [0xC0 + r div 64, 0x80 + r mod 64]
      else if r < 0x10000 then [0xE0 + r div 4096, 0x80 + r div 64 mod 64, 0x80 + r mod 64]
      else [0xF0 + r div 262144, 0x80 + r div 4096 mod 64, 0x80 + r div 64 mod 64, 0x80 + r mod 64])"

definition EncodeRune :: "int \<Rightarrow> string" where
  "EncodeRune r = map char_of (encode_bytes (if valid_rune r then r else RuneError))"

lemma DecodeRune_width: "s \<noteq> [] \<Longrightarrow> 1 \<le> snd (DecodeRune s) \<and> snd (DecodeRune s) \<le> length s"
  by (auto simp: DecodeRune_def Let_def split: list.splits)

lemma EncodeRune_short: "length (EncodeRune r) \<le> 4" "r < 0x10000 \<Longrightarrow> length (EncodeRune r) \<le> 3" "EncodeRune r \<noteq> []"
  by (auto simp: EncodeRune_def encode_bytes_def RuneError_def Let_def)

lemma byte_char_of: "0 \<le> n \<Longrightarrow> n < 256 \<Longrightarrow> byte (char_of n) = n"
  by simp

lemma Decode2:
  assumes "2 \<le> a" "a \<le> 31" "0 \<le> b" "b < 64"
  shows "DecodeRune (char_of (0xC0 + a) # char_of (0x80 + b) # rest) = (a * 64 + b, 2)"
  using assms by (simp add: DecodeRune_def cont_def byte_char_of del: of_char_of)

lemma Decode3:
  assumes "0 \<le> a" "a \<le> 15" "0 \<le> b" "b < 64" "0 \<le> c" "c < 64" "a = 0 \<longrightarrow> 32 \<le> b" "a = 13 \<longrightarrow> b \<le> 31"
  shows "DecodeRune (char_of (0xE0 + a) # char_of (0x80 + b) # char_of (0x80 + c) # rest) = ((a * 64 + b) * 64 + c, 3)"
  using assms by (simp add: DecodeRune_def cont_def byte_char_of del: of_char_of)

lemma Decode4:
  assumes "0 \<le> a" "a \<le> 4" "0 \<le> b" "b < 64" "0 \<le> c" "c < 64" "0 \<le> d" "d < 64" "a = 0 \<longrightarrow> 16 \<le> b" "a = 4 \<longrightarrow> b \<le> 15"
  shows "DecodeRune (char_of (0xF0 + a) # char_of (0x80 + b) # char_of (0x80 + c) # char_of (0x80 + d) # rest) = (((a * 64 + b) * 64 + c) * 64 + d, 4)"
  using assms by (simp add: DecodeRune_def cont_def byte_char_of del: of_char_of)

lemma sextets:
  fixes r :: int
  shows "r = r div 64 * 64 + r mod 64" "r div 64 = r div 4096 * 64 + r div 64 mod 64" "r div 4096 = r div 262144 * 64 + r div 4096 mod 64"
proof -
  have "r div 4096 = r div 64 div 64" "r div 262144 = r div 4096 div 64" by (simp_all add: zdiv_zmult2_eq [symmetric])
  then show "r = r div 64 * 64 + r mod 64" "r div 64 = r div 4096 * 64 + r div 64 mod 64" "r div 4096 = r div 262144 * 64 + r div 4096 mod 64"
    by (metis div_mult_mod_eq)+
qed

lemma third_sextet:
  fixes r :: int
  assumes "0x800 \<le> r" "r \<le> 0x10FFFF" "\<not> (0xD800 \<le> r \<and> r \<le> 0xDFFF)"
  shows "r div 4096 = 0 \<longrightarrow> 32 \<le> r div 64 mod 64" "r div 4096 = 13 \<longrightarrow> r div 64 mod 64 \<le> 31"
proof -
  have "32 \<le> r div 64" using assms(1) by linarith
  then show "r div 4096 = 0 \<longrightarrow> 32 \<le> r div 64 mod 64" using sextets(2) [of r] by simp
  show "r div 4096 = 13 \<longrightarrow> r div 64 mod 64 \<le> 31"
  proof
    assume a: "r div 4096 = 13"
    then have "r < 0xE000" by linarith
    then have "r < 0xD800" using assms(3) by linarith
    then have "r div 64 \<le> 863" by linarith
    then show "r div 64 mod 64 \<le> 31" using a sextets(2) [of r] by simp
  qed
qed

lemma fourth_sextet:
  fixes r :: int
  assumes "0x10000 \<le> r" "r \<le> 0x10FFFF"
  shows "r div 262144 \<le> 4" "r div 262144 = 0 \<longrightarrow> 16 \<le> r div 4096 mod 64" "r div 262144 = 4 \<longrightarrow> r div 4096 mod 64 \<le> 15"
proof -
  have "16 \<le> r div 4096" "r div 4096 \<le> 271" "r div 262144 \<le> 4" using assms by linarith+
  then show "r div 262144 \<le> 4" "r div 262144 = 0 \<longrightarrow> 16 \<le> r div 4096 mod 64" "r div 262144 = 4 \<longrightarrow> r div 4096 mod 64 \<le> 15"
    using sextets(3) [of r] by simp_all
qed

text \<open>Decoding what was encoded gives the rune back, with its width, whatever follows it.\<close>

theorem utf8_roundtrip:
  assumes "valid_rune r"
  shows "DecodeRune (EncodeRune r @ rest) = (r, length (EncodeRune r))"
proof -
  have v: "r \<le> 0x10FFFF" "0 \<le> r" "\<not> (0xD800 \<le> r \<and> r \<le> 0xDFFF)" using assms unfolding valid_rune_def by auto
  have m: "0 \<le> x mod 64" "x mod 64 < 64" for x :: int by auto
  consider "r < 0x80" | "0x80 \<le> r" "r < 0x800" | "0x800 \<le> r" "r < 0x10000" | "0x10000 \<le> r"
    by linarith
  then show ?thesis
  proof cases
    case 1
    then show ?thesis using assms v by (simp add: EncodeRune_def encode_bytes_def DecodeRune_def byte_char_of del: of_char_of)
  next
    case 2
    then have "2 \<le> r div 64" "r div 64 \<le> 31" by linarith+
    then show ?thesis using assms 2 Decode2 [of "r div 64" "r mod 64" rest] by (simp add: EncodeRune_def encode_bytes_def)
  next
    case 3
    have a: "0 \<le> r div 4096" "r div 4096 \<le> 15" using 3 by linarith+
    have eq: "(r div 4096 * 64 + r div 64 mod 64) * 64 + r mod 64 = r" by (simp only: sextets [symmetric])
    have e: "EncodeRune r = [char_of (0xE0 + r div 4096), char_of (0x80 + r div 64 mod 64), char_of (0x80 + r mod 64)]"
      using assms 3 by (simp add: EncodeRune_def encode_bytes_def del: char_of_mod_256)
    show ?thesis using Decode3 [OF a m m third_sextet [OF 3(1) v(1,3)], of r rest, unfolded eq] unfolding e by simp
  next
    case 4
    have a: "0 \<le> r div 262144" using 4 by linarith
    have eq: "((r div 262144 * 64 + r div 4096 mod 64) * 64 + r div 64 mod 64) * 64 + r mod 64 = r" by (simp only: sextets [symmetric])
    have e: "EncodeRune r = [char_of (0xF0 + r div 262144), char_of (0x80 + r div 4096 mod 64), char_of (0x80 + r div 64 mod 64), char_of (0x80 + r mod 64)]"
      using assms 4 by (simp add: EncodeRune_def encode_bytes_def del: char_of_mod_256)
    show ?thesis
      using Decode4 [OF a fourth_sextet(1) [OF 4 v(1)] m m m fourth_sextet(2,3) [OF 4 v(1)], of "r div 64" r rest, unfolded eq]
      unfolding e by simp
  qed
qed

theorem utf8_roundtrip_witness: "DecodeRune (EncodeRune 0x212A @ ''x'') = (0x212A, 3)"
proof -
  have "valid_rune 0x212A" by (simp add: valid_rune_def)
  moreover have "length (EncodeRune 0x212A) = 3" by code_simp
  ultimately show ?thesis using utf8_roundtrip [of "0x212A" "''x''"] by simp
qed

function runes :: "string \<Rightarrow> int list" where
  "runes s = (if s = [] then [] else case DecodeRune s of (r, n) \<Rightarrow> r # runes (drop n s))"
  by auto
termination
proof (relation "measure length")
  fix s r n assume "s \<noteq> []" "(r, n) = DecodeRune s"
  then have "1 \<le> n" using DecodeRune_width [of s] by (metis snd_conv)
  then show "(drop n s, s) \<in> measure length" using \<open>s \<noteq> []\<close> by (cases s) auto
qed simp

declare runes.simps [simp del]

end
