(* ===== verification/Fence_Text.thy ===== *)
theory Fence_Text
  imports Go_Utf8 "HOL-Library.Sublist"
begin

text \<open>
  What the search for quoted fence keys reads of a text (\<open>agent/fencekeys.go\<close>): the projection onto the key alphabet, and the layers that
  decoding the escapes of the text gives one after the other. \<open>layers\<close> is the list of texts that the loop of \<open>inspect\<close> visits; that it ends is the
  measure argument of its termination proof, since every decoding that changes a text shortens it.
\<close>

definition compatibleASCII :: "int \<Rightarrow> int" where
  "compatibleASCII r =
     (if r < 0x80 then r
      else if 0xFF01 \<le> r \<and> r \<le> 0xFF5E then r - 0xFEE0
      else 0)"

definition hexNibble :: "int \<Rightarrow> int" where
  "hexNibble c =
     (if 48 \<le> c \<and> c \<le> 57 then c - 48
      else if 97 \<le> c \<and> c \<le> 102 then c - 97 + 10
      else if 65 \<le> c \<and> c \<le> 70 then c - 65 + 10
      else - 1)"

text \<open>
  \<open>unicode.ToUpper(unicode.ToLower(r))\<close>, as far as it decides what is a key character: the letters of ASCII, and the four runes of the case tables outside ASCII that
  fold into it (dotted and dotless I, long s, the Kelvin sign). Every other rune folds to a rune outside ASCII, which is no key character, as the rune itself.
\<close>

definition fold_case :: "int \<Rightarrow> int" where
  "fold_case r =
     (if 97 \<le> r \<and> r \<le> 122 then r - 32
      else if r = 0x130 \<or> r = 0x131 then 73
      else if r = 0x17F then 83
      else if r = 0x212A then 75
      else r)"

definition key_rune :: "int \<Rightarrow> bool" where
  "key_rune r \<longleftrightarrow> 65 \<le> r \<and> r \<le> 90 \<or> 50 \<le> r \<and> r \<le> 55"

definition key_letter :: "int \<Rightarrow> int option" where
  "key_letter r =
     (let c = compatibleASCII r;
          r = (if c \<noteq> 0 then c else r);
          r = fold_case r
      in if key_rune r then Some r else None)"

definition keyLetters :: "string \<Rightarrow> string" where
  "keyLetters text = concat (map (\<lambda>r. case key_letter r of Some c \<Rightarrow> EncodeRune c | None \<Rightarrow> []) (runes text))"

text \<open>One escape: the position is given as the rest of the text from it on, and so is the position behind the escape.\<close>

fun hex_digits :: "nat \<Rightarrow> int \<Rightarrow> string \<Rightarrow> (int \<times> string) option" where
  "hex_digits 0 val rest = Some (val, rest)"
| "hex_digits (Suc n) val rest =
     (if rest = [] then None
      else let (r, width) = DecodeRune rest;
               nibble = hexNibble (compatibleASCII r)
           in if nibble < 0 then None else hex_digits n (val * 16 + nibble) (drop width rest))"

definition compatibleEscapeAt :: "string \<Rightarrow> nat \<Rightarrow> (int \<times> nat) option" where
  "compatibleEscapeAt text start =
     (if length text \<le> start then None
      else case DecodeRune (drop start text) of (r, width) \<Rightarrow>
           if compatibleASCII r \<noteq> 117 then None
              else case hex_digits 4 0 (drop (start + width) text) of
                     None \<Rightarrow> None
                   | Some (val, rest) \<Rightarrow> Some (val, length text - length rest))"

text \<open>The end of the run of backslashes that starts at \<open>j\<close>.\<close>

function slashes :: "string \<Rightarrow> nat \<Rightarrow> nat" where
  "slashes t j =
     (if length t \<le> j then j
      else case DecodeRune (drop j t) of (slash, n) \<Rightarrow>
           if compatibleASCII slash \<noteq> 92 then j else slashes t (j + n))"
  by auto
termination
proof (relation "measure (\<lambda>(t, j). length t - j)")
  fix t j slash n
  assume "\<not> length t \<le> j" "(slash, n) = DecodeRune (drop j t)"
  then have "1 \<le> n" "\<not> length t \<le> j" using DecodeRune_width [of "drop j t"] by (auto simp: prod_eq_iff)
  then show "((t, j + n), (t, j)) \<in> measure (\<lambda>(t, j). length t - j)" by auto
qed simp

declare slashes.simps [simp del]

lemma slashes_ge: "j \<le> slashes t j"
proof (induction t j rule: slashes.induct)
  case (1 t j)
  show ?case using 1 by (subst slashes.simps) (force simp: Let_def split: prod.splits)
qed

lemma slashes_step:
  assumes "j < length t" "compatibleASCII (fst (DecodeRune (drop j t))) = 92"
  shows "j < slashes t j"
proof -
  have "1 \<le> snd (DecodeRune (drop j t))" using assms DecodeRune_width [of "drop j t"] by simp
  then show ?thesis using assms slashes_ge [of "j + snd (DecodeRune (drop j t))" t]
    by (subst slashes.simps) (auto simp: case_prod_unfold Let_def)
qed

lemma slashes_le: "j \<le> length t \<Longrightarrow> slashes t j \<le> length t"
proof (induction t j rule: slashes.induct)
  case (1 t j)
  have "j < length t \<Longrightarrow> j + snd (DecodeRune (drop j t)) \<le> length t"
    using DecodeRune_width [of "drop j t"] by auto
  with 1 show ?case by (subst slashes.simps) (auto simp: Let_def split: prod.splits)
qed

lemma hex_digits_rest:
  assumes "hex_digits n v s = Some (w, rest)" "0 \<le> v"
  shows "length rest + n \<le> length s \<and> (\<exists>k. rest = drop k s) \<and> 0 \<le> w \<and> w < (v + 1) * 16 ^ n"
  using assms
proof (induction n arbitrary: v s)
  case 0
  then show ?case by (auto intro: exI [of _ 0])
next
  case (Suc n)
  let ?k = "snd (DecodeRune s)" and ?h = "hexNibble (compatibleASCII (fst (DecodeRune s)))"
  have s: "s \<noteq> []" and h: "0 \<le> ?h" and r: "hex_digits n (v * 16 + ?h) (drop ?k s) = Some (w, rest)"
    using Suc.prems(1) by (auto simp: Let_def case_prod_unfold split: if_splits)
  have h15: "?h \<le> 15" by (auto simp: hexNibble_def)
  have ih: "length rest + n \<le> length (drop ?k s) \<and> (\<exists>k. rest = drop k (drop ?k s)) \<and> 0 \<le> w \<and> w < (v * 16 + ?h + 1) * 16 ^ n"
    using Suc.IH [OF r] h Suc.prems(2) by simp
  have "(v * 16 + ?h + 1) * 16 ^ n \<le> (v * 16 + 16) * 16 ^ n" using h15 by (intro mult_right_mono) auto
  moreover have "(v * 16 + 16) * 16 ^ n = (v + 1) * 16 ^ Suc n" by (simp add: algebra_simps)
  ultimately have "w < (v + 1) * 16 ^ Suc n" using ih by linarith
  moreover have "length rest + Suc n \<le> length s" using ih DecodeRune_width [OF s] by auto
  ultimately show ?case using ih by (metis drop_drop)
qed

lemma escape_end:
  assumes "compatibleEscapeAt t start = Some (v, i)"
  shows "start + 5 \<le> i \<and> i \<le> length t \<and> v < 0x10000"
proof -
  let ?n = "snd (DecodeRune (drop start t))"
  obtain w rest where r: "start < length t" "hex_digits 4 0 (drop (start + ?n) t) = Some (w, rest)" "v = w" "i = length t - length rest"
    using assms by (auto simp: compatibleEscapeAt_def Let_def case_prod_unfold split: if_splits option.splits)
  have "1 \<le> ?n" using r(1) DecodeRune_width [of "drop start t"] by simp
  with r hex_digits_rest [OF r(2)] show ?thesis by auto
qed

text \<open>
  The decoder with the loop of the code. One pass of the loop moves from \<open>i\<close> to a later position and either copies what lies between or, when an
  escape stands behind the backslashes, writes its rune; nothing is written before the first escape.
\<close>

definition decode_pass :: "string \<Rightarrow> nat \<Rightarrow> nat \<times> int option" where
  "decode_pass t i =
     (case DecodeRune (drop i t) of (r, n) \<Rightarrow>
        if compatibleASCII r = 92 then
          (case compatibleEscapeAt t (slashes t i) of
             Some (decoded, fin) \<Rightarrow> (fin, Some decoded)
           | None \<Rightarrow> (slashes t i, None))
        else (i + n, None))"

definition decode_write :: "string \<Rightarrow> nat \<Rightarrow> nat \<times> int option \<Rightarrow> string \<Rightarrow> bool \<Rightarrow> string" where
  "decode_write t i p out changed =
     (case snd p of
        Some decoded \<Rightarrow> (if \<not> changed then take i t else out) @ EncodeRune decoded
      | None \<Rightarrow> if changed then out @ take (fst p - i) (drop i t) else out)"

lemma decode_pass_moves:
  assumes "i < length t"
  shows "i < fst (decode_pass t i)" "fst (decode_pass t i) \<le> length t"
    "snd (decode_pass t i) = Some d \<Longrightarrow> i + 6 \<le> fst (decode_pass t i) \<and> length (EncodeRune d) \<le> 3"
proof -
  obtain r n where d: "DecodeRune (drop i t) = (r, n)" by (metis surj_pair)
  have w: "1 \<le> n" "i + n \<le> length t" using DecodeRune_width [of "drop i t"] d assms by auto
  have sl: "compatibleASCII r = 92 \<Longrightarrow> i < slashes t i" "slashes t i \<le> length t" using slashes_step [of i t] slashes_le [of i t] d assms by auto
  note e = escape_end [of t "slashes t i"]
  show "i < fst (decode_pass t i)" "fst (decode_pass t i) \<le> length t"
    using d w sl e by (force simp: decode_pass_def split: option.split)+
  show "i + 6 \<le> fst (decode_pass t i) \<and> length (EncodeRune d) \<le> 3" if "snd (decode_pass t i) = Some d"
    using that d sl e EncodeRune_short(2) [of d] by (fastforce simp: decode_pass_def split: option.splits if_splits)
qed

function decode_loop :: "string \<Rightarrow> nat \<Rightarrow> string \<Rightarrow> bool \<Rightarrow> string" where
  "decode_loop t i out changed =
     (if length t \<le> i then (if \<not> changed then t else out)
      else decode_loop t (fst (decode_pass t i)) (decode_write t i (decode_pass t i) out changed) (changed \<or> snd (decode_pass t i) \<noteq> None))"
  by auto
termination
  by (relation "measure (\<lambda>(t, i, out, changed). length t - i)") (auto simp: decode_pass_moves diff_less_mono2)

declare decode_loop.simps [simp del]

definition decodeCompatibleEscapes :: "string \<Rightarrow> string" where
  "decodeCompatibleEscapes t = decode_loop t 0 [] False"

text \<open>The same decoder without the flag: what is written for the rest of the text.\<close>

function decoded_rest :: "string \<Rightarrow> nat \<Rightarrow> string" where
  "decoded_rest t i =
     (if length t \<le> i then []
      else (case snd (decode_pass t i) of Some d \<Rightarrow> EncodeRune d | None \<Rightarrow> take (fst (decode_pass t i) - i) (drop i t)) @ decoded_rest t (fst (decode_pass t i)))"
  by auto
termination by (relation "measure (\<lambda>(t, i). length t - i)") (auto simp: decode_pass_moves diff_less_mono2)

declare decoded_rest.simps [simp del]

lemma decode_loop_rest:
  "i \<le> length t \<Longrightarrow> decode_loop t i out changed = (if changed then out else take i t) @ decoded_rest t i"
proof (induction t i out changed rule: decode_loop.induct)
  case (1 t i out changed)
  show ?case
  proof (cases "length t \<le> i")
    case True
    then show ?thesis by (simp add: decode_loop.simps [of t i] decoded_rest.simps [of t i])
  next
    case False
    let ?j = "fst (decode_pass t i)"
    have j: "i < ?j" "?j \<le> length t" using decode_pass_moves [of i t] False by auto
    then have tk: "take ?j t = take i t @ take (?j - i) (drop i t)" by (metis le_add_diff_inverse less_imp_le_nat take_add)
    show ?thesis using 1(1) [OF False j(2)] tk False
      by (cases "snd (decode_pass t i)") (simp_all add: decode_loop.simps [of t i] decoded_rest.simps [of t i] decode_write_def)
  qed
qed

lemma decodeCompatibleEscapes_rest: "decodeCompatibleEscapes t = decoded_rest t 0"
  by (simp add: decodeCompatibleEscapes_def decode_loop_rest)

lemma copied:
  assumes "i + k \<le> length t" "D = drop (i + k) t \<or> length D + 3 \<le> length t - (i + k)"
  shows "take k (drop i t) @ D = drop i t \<or> length (take k (drop i t) @ D) + 3 \<le> length t - i"
  using assms(2)
proof
  assume "D = drop (i + k) t"
  then show ?thesis by (metis append_take_drop_id drop_drop add.commute)
next
  assume "length D + 3 \<le> length t - (i + k)"
  then show ?thesis using assms(1) by auto
qed

text \<open>What the decoder writes for the rest of a text is that rest, or something at least three bytes shorter.\<close>

lemma decoded_rest_shrinks: "i \<le> length t \<Longrightarrow> decoded_rest t i = drop i t \<or> length (decoded_rest t i) + 3 \<le> length t - i"
proof (induction t i rule: decoded_rest.induct)
  case (1 t i)
  show ?case
  proof (cases "length t \<le> i")
    case True
    then show ?thesis by (simp add: decoded_rest.simps [of t i])
  next
    case False
    let ?j = "fst (decode_pass t i)"
    have j: "i < ?j" "?j \<le> length t" using decode_pass_moves [of i t] False by auto
    note ih = 1(1) [OF False j(2)]
    show ?thesis
    proof (cases "snd (decode_pass t i)")
      case None
      then show ?thesis using copied [of i "?j - i" t "decoded_rest t ?j"] ih j False
        by (simp add: decoded_rest.simps [of t i])
    next
      case (Some d)
      have "length (decoded_rest t ?j) \<le> length t - ?j" using ih by auto
      moreover have "i + 6 \<le> ?j" "length (EncodeRune d) \<le> 3" using decode_pass_moves(3) [OF _ Some] False by auto
      ultimately have "length (EncodeRune d @ decoded_rest t ?j) + 3 \<le> length t - i" using j by simp
      then show ?thesis using Some False by (simp add: decoded_rest.simps [of t i])
    qed
  qed
qed

lemma decode_shrinks: "decodeCompatibleEscapes t = t \<or> length (decodeCompatibleEscapes t) + 3 \<le> length t"
  using decoded_rest_shrinks [of 0 t] by (simp add: decodeCompatibleEscapes_rest)

text \<open>The layers of a text: the text, and what each decoding gives while it changes something.\<close>

function layers :: "string \<Rightarrow> string list" where
  "layers t = t # (if decodeCompatibleEscapes t = t then [] else layers (decodeCompatibleEscapes t))"
  by auto
termination
proof (relation "measure length")
  fix t assume "decodeCompatibleEscapes t \<noteq> t"
  then show "(decodeCompatibleEscapes t, t) \<in> measure length" using decode_shrinks [of t] by auto
qed simp

declare layers.simps [simp del]

text \<open>A text quotes a key when some layer of it spells the key, read through the projection.\<close>

definition exposes :: "string \<Rightarrow> string \<Rightarrow> bool" where
  "exposes key t \<longleftrightarrow> (\<exists>l \<in> set (layers t). sublist key (keyLetters l))"

text \<open>C37: Decoding escapes comes to an end: the layers that \<open>inspect\<close> visits are the iterates of the decoder up to the first one that it leaves alone, at
  most one for every three bytes of the text and one more, and each is at least three bytes shorter than the one before.\<close>

theorem escape_layers_end:
  "\<exists>k \<le> length t div 3. layers t = map (\<lambda>i. (decodeCompatibleEscapes ^^ i) t) [0..<Suc k] \<and>
     decodeCompatibleEscapes ((decodeCompatibleEscapes ^^ k) t) = (decodeCompatibleEscapes ^^ k) t \<and>
     (\<forall>i<k. length ((decodeCompatibleEscapes ^^ Suc i) t) + 3 \<le> length ((decodeCompatibleEscapes ^^ i) t))"
proof (induction t rule: layers.induct)
  case (1 t)
  let ?d = "decodeCompatibleEscapes"
  show ?case
  proof (cases "?d t = t")
    case True
    then show ?thesis by (intro exI [of _ 0]) (simp add: layers.simps [of t])
  next
    case False
    then obtain k where k: "k \<le> length (?d t) div 3" "layers (?d t) = map (\<lambda>i. (?d ^^ i) (?d t)) [0..<Suc k]"
      "?d ((?d ^^ k) (?d t)) = (?d ^^ k) (?d t)" "\<forall>i<k. length ((?d ^^ Suc i) (?d t)) + 3 \<le> length ((?d ^^ i) (?d t))"
      using 1 by blast
    have sh: "length (?d t) + 3 \<le> length t" using decode_shrinks [of t] False by simp
    have it: "(?d ^^ i) (?d t) = (?d ^^ Suc i) t" for i by (simp add: funpow_swap1)
    have "layers t = map (\<lambda>i. (?d ^^ i) t) [0..<Suc (Suc k)]"
      using k(2) False unfolding it by (simp add: layers.simps [of t] upt_conv_Cons map_Suc_upt [symmetric] del: upt_Suc funpow.simps)
    moreover have "\<forall>i<Suc k. length ((?d ^^ Suc i) t) + 3 \<le> length ((?d ^^ i) t)"
    proof (intro allI impI)
      fix i assume "i < Suc k"
      then show "length ((?d ^^ Suc i) t) + 3 \<le> length ((?d ^^ i) t)" using k(4) sh unfolding it by (cases i) simp_all
    qed
    ultimately show ?thesis using k(1,3) sh unfolding it by (intro exI [of _ "Suc k"]) (auto simp: less_eq_div_iff_mult_less_eq)
  qed
qed

lemma nested_escapes: "layers (CHR 0x5C # ''u005cu004B'') = [(CHR 0x5C # ''u005cu004B''), CHR 0x5C # ''u004B'', ''K'']"
  by code_simp

theorem escape_layers_end_witness:
  "\<exists>k \<le> 11 div 3. [(CHR 0x5C # ''u005cu004B''), CHR 0x5C # ''u004B'', ''K''] = map (\<lambda>i. (decodeCompatibleEscapes ^^ i) (CHR 0x5C # ''u005cu004B'')) [0..<Suc k] \<and>
     decodeCompatibleEscapes ((decodeCompatibleEscapes ^^ k) (CHR 0x5C # ''u005cu004B'')) = (decodeCompatibleEscapes ^^ k) (CHR 0x5C # ''u005cu004B'') \<and>
     (\<forall>i<k. length ((decodeCompatibleEscapes ^^ Suc i) (CHR 0x5C # ''u005cu004B'')) + 3 \<le> length ((decodeCompatibleEscapes ^^ i) (CHR 0x5C # ''u005cu004B'')))"
  using escape_layers_end [of "CHR 0x5C # ''u005cu004B''"] unfolding nested_escapes by simp

end
