(* ===== verification/Fence_Keys.thy ===== *)
theory Fence_Keys
  imports Fence_Text Context_Manager "HOL-Library.AList"
begin

text \<open>
  The keys under which untrusted text is framed (\<open>internal/promptfence\<close>, \<open>agent/fencekeys.go\<close>; the frames themselves are in \<open>Context_Manager\<close>): minting, the scan of the texts the model
  reads, and the rotation of every key that a text quotes. A fence is its id, the zero fence the empty string; a nil pointer to the advisory fence is None.
  \<open>crypto/rand\<close> is the argument \<open>rnd\<close>, whose n-th value is what the n-th call of \<open>rand.Text\<close> gives; the number of calls made so far is threaded through. Maps that the
  code ranges over are association lists, and the order in which a range visits the exposed keys is the argument \<open>ord\<close>.
\<close>

definition idLen :: nat where "idLen = 12"

definition promptfence_New :: "(nat \<Rightarrow> string) \<Rightarrow> nat \<Rightarrow> string" where
  "promptfence_New rnd k = (let t = rnd k in if idLen < length t then take idLen t else t)"

definition Lead :: "string \<Rightarrow> string \<Rightarrow> string" where
  "Lead f label = ''['' @ f @ '' '' @ label @ '']''"

fun mint_from :: "(nat \<Rightarrow> string) \<Rightarrow> nat \<Rightarrow> nat \<Rightarrow> Message list \<Rightarrow> nat \<times> Message list" where
  "mint_from rnd k from [] = (k, [])"
| "mint_from rnd k (Suc from) (m # ms) = (case mint_from rnd k from ms of (k, ms) \<Rightarrow> (k, m # ms))"
| "mint_from rnd k 0 (m # ms) =
     (if m_Role m = ''tool'' \<and> m_fence m = []
      then (case mint_from rnd (Suc k) 0 ms of (k', ms) \<Rightarrow> (k', m\<lparr>m_fence := promptfence_New rnd k\<rparr> # ms))
      else (case mint_from rnd k 0 ms of (k, ms) \<Rightarrow> (k, m # ms)))"

definition mintFenceKeys :: "(nat \<Rightarrow> string) \<Rightarrow> nat \<Rightarrow> State \<Rightarrow> nat \<Rightarrow> nat \<times> State \<times> nat" where
  "mintFenceKeys rnd k st from =
     (case mint_from rnd k from (st_Messages st) of (k, ms) \<Rightarrow> (k, st\<lparr>st_Messages := ms\<rparr>, length ms))"

definition advisoryOwner :: int where "advisoryOwner = - 1"
definition systemOwner :: int where "systemOwner = - 2"

definition replayedTexts :: "Message \<Rightarrow> string list" where
  "replayedTexts m =
     [m_Content m, cm_ToolName (m_chat m), cm_ToolCallID (m_chat m)]
     @ concat (map (\<lambda>c. [tc_ID c, tc_Type c, tcf_Name (tc_Function c), tcf_Arguments (tc_Function c)]) (m_ToolCalls m))
     @ (case m_Context m of
          None \<Rightarrow> []
        | Some cs \<Rightarrow>
            concat (map (\<lambda>g. [sr_Domain (gd_Subject (cg_Desc g)), sr_ID (gd_Subject (cg_Desc g))] @ map ca_Content (cg_Alternatives g)) (cs_Groups cs)))"

text \<open>The live keys: each with its owner, a message index or one of the two owners outside the messages.\<close>

fun message_keys :: "nat \<Rightarrow> Message list \<Rightarrow> (string \<times> int) list \<Rightarrow> (string \<times> int) list" where
  "message_keys i [] live = live"
| "message_keys i (m # ms) live =
     message_keys (Suc i) ms (if m_fence m \<noteq> [] then AList.update (m_fence m) (int i) live else live)"

definition liveFenceKeys :: "State \<Rightarrow> string option \<Rightarrow> (string \<times> int) list" where
  "liveFenceKeys st advisory =
     (let live = message_keys 0 (st_Messages st) [];
          live = (case advisory of Some a \<Rightarrow> if a \<noteq> [] then AList.update a advisoryOwner live else live | None \<Rightarrow> live)
      in fold (\<lambda>k live. AList.update k systemOwner live) (st_systemKeys st) live)"

definition maxFenceScanBytes :: int where "maxFenceScanBytes = 8 * 2 ^ 20"

record fenceScan =
  fs_live :: "(string \<times> int) list"
  fs_exposed :: "(string \<times> int) list"
  fs_remaining :: int
  fs_keyLengths :: "nat list"

definition newFenceScan :: "State \<Rightarrow> string option \<Rightarrow> fenceScan" where
  "newFenceScan st advisory =
     (let live = liveFenceKeys st advisory
      in \<lparr>fs_live = live, fs_exposed = [], fs_remaining = maxFenceScanBytes, fs_keyLengths = remdups (map (length \<circ> fst) live)\<rparr>)"

text \<open>One window of the projected text, looked up among the live keys.\<close>

definition expose :: "(string \<times> int) list \<Rightarrow> string \<Rightarrow> (string \<times> int) list \<Rightarrow> (string \<times> int) list" where
  "expose live key exposed = (case map_of live key of Some owner \<Rightarrow> AList.update key owner exposed | None \<Rightarrow> exposed)"

definition windows :: "nat \<Rightarrow> string \<Rightarrow> string list" where
  "windows n letters = (if n \<le> length letters then map (\<lambda>i. take n (drop i letters)) [0..<length letters - n + 1] else [])"

definition scanLayer :: "fenceScan \<Rightarrow> string \<Rightarrow> fenceScan" where
  "scanLayer s t =
     (let letters = keyLetters t
      in s\<lparr>fs_exposed := fold (\<lambda>n. fold (expose (fs_live s)) (windows n letters)) (fs_keyLengths s) (fs_exposed s)\<rparr>)"

function inspect :: "fenceScan \<Rightarrow> string \<Rightarrow> fenceScan \<times> bool" where
  "inspect s t =
     (if fs_keyLengths s = [] then (s, True)
      else if fs_remaining s < int (length t) then (s, False)
      else if decodeCompatibleEscapes t = t
           then (scanLayer (s\<lparr>fs_remaining := fs_remaining s - int (length t)\<rparr>) t, True)
           else inspect (scanLayer (s\<lparr>fs_remaining := fs_remaining s - int (length t)\<rparr>) t) (decodeCompatibleEscapes t))"
  by auto
termination
proof (relation "measure (\<lambda>(s, t). length t)")
  fix t and s :: fenceScan assume "decodeCompatibleEscapes t \<noteq> t"
  then show "((scanLayer (s\<lparr>fs_remaining := fs_remaining s - int (length t)\<rparr>) t, decodeCompatibleEscapes t), (s, t)) \<in> measure (\<lambda>(s, t). length t)"
    using decode_shrinks [of t] by auto
qed simp

declare inspect.simps [simp del]

text \<open>The texts of a refresh in order; the scan stops at the first that the work limit refuses.\<close>

fun inspect_all :: "fenceScan \<Rightarrow> string list \<Rightarrow> fenceScan \<times> bool" where
  "inspect_all s [] = (s, True)"
| "inspect_all s (t # ts) = (case inspect s t of (s, ok) \<Rightarrow> if \<not> ok then (s, False) else inspect_all s ts)"

text \<open>\<open>strings.ReplaceAll\<close>: non-overlapping occurrences from the left, and with an empty pattern before every rune and at the end.\<close>

function replace_from :: "string \<Rightarrow> string \<Rightarrow> string \<Rightarrow> string" where
  "replace_from old new s =
     (if s = [] \<or> old = [] then s
      else if take (length old) s = old then new @ replace_from old new (drop (length old) s)
      else hd s # replace_from old new (tl s))"
  by auto
termination by (relation "measure (\<lambda>(old, new, s). length s)") auto

declare replace_from.simps [simp del]

function explode :: "string \<Rightarrow> string list" where
  "explode s = (if s = [] then [] else take (snd (DecodeRune s)) s # explode (drop (max 1 (snd (DecodeRune s))) s))"
  by auto
termination by (relation "measure length") (auto simp: max_def)

declare explode.simps [simp del]

definition ReplaceAll :: "string \<Rightarrow> string \<Rightarrow> string \<Rightarrow> string" where
  "ReplaceAll s old new =
     (if old = [] then new @ concat (map (\<lambda>c. c @ new) (explode s)) else replace_from old new s)"

text \<open>
  What a rotation changes: the state, the assembled copy when there is one, the advisory fence, the live keys and the number of keys drawn.
  An owner that is a message index is in range: \<open>liveFenceKeys\<close> took it from the same messages.
\<close>

record rotation =
  ro_st :: State
  ro_assembled :: "State option"
  ro_advisory :: "string option"
  ro_live :: "(string \<times> int) list"
  ro_drawn :: nat

definition rotateFenceKey :: "(nat \<Rightarrow> string) \<Rightarrow> string \<times> int \<Rightarrow> rotation \<Rightarrow> rotation" where
  "rotateFenceKey rnd x w =
     (let (key, owner) = x;
          fresh = promptfence_New rnd (ro_drawn w);
          w = w\<lparr>ro_drawn := Suc (ro_drawn w)\<rparr>;
          w = (if owner = advisoryOwner then w\<lparr>ro_advisory := map_option (\<lambda>_. fresh) (ro_advisory w)\<rparr>
               else if owner = systemOwner then
                 w\<lparr>ro_st := (ro_st w)\<lparr>st_System := ReplaceAll (st_System (ro_st w)) key fresh,
                                      st_systemKeys := map (\<lambda>k. if k = key then fresh else k) (st_systemKeys (ro_st w))\<rparr>,
                   ro_assembled := map_option (\<lambda>a. a\<lparr>st_System := ReplaceAll (st_System a) key fresh\<rparr>) (ro_assembled w)\<rparr>
               else
                 w\<lparr>ro_st := (ro_st w)\<lparr>st_Messages := (st_Messages (ro_st w))[nat owner := (st_Messages (ro_st w) ! nat owner)\<lparr>m_fence := fresh\<rparr>]\<rparr>,
                   ro_assembled := map_option
                     (\<lambda>a. a\<lparr>st_Messages := map (\<lambda>m. if m_fence m = key then m\<lparr>m_fence := fresh\<rparr> else m) (st_Messages a)\<rparr>) (ro_assembled w)\<rparr>)
      in w\<lparr>ro_live := AList.update fresh owner (AList.delete key (ro_live w))\<rparr>)"

definition rotate_keys :: "(nat \<Rightarrow> string) \<Rightarrow> (string \<times> int) list \<Rightarrow> rotation \<Rightarrow> rotation" where
  "rotate_keys rnd xs w = fold (rotateFenceKey rnd) xs w"

type_synonym key_order = "(string \<times> int) list \<Rightarrow> (string \<times> int) list"

definition scan_rotate :: "(nat \<Rightarrow> string) \<Rightarrow> key_order \<Rightarrow> nat \<Rightarrow> fenceScan \<Rightarrow> State \<Rightarrow> State option \<Rightarrow> string option \<Rightarrow> rotation \<times> int" where
  "scan_rotate rnd ord k s st assembled advisory =
     (rotate_keys rnd (ord (fs_exposed s))
        \<lparr>ro_st = st, ro_assembled = assembled, ro_advisory = advisory, ro_live = fs_live s, ro_drawn = k\<rparr>,
      int (length (ord (fs_exposed s))))"

definition expose_all :: "int set \<Rightarrow> fenceScan \<Rightarrow> fenceScan" where
  "expose_all alreadyRotated s =
     s\<lparr>fs_exposed := fold (\<lambda>(key, owner) ex. if owner \<notin> alreadyRotated then AList.update key owner ex else AList.delete key ex) (fs_live s) (fs_exposed s)\<rparr>"

definition rotateAll :: "(nat \<Rightarrow> string) \<Rightarrow> key_order \<Rightarrow> nat \<Rightarrow> fenceScan \<Rightarrow> State \<Rightarrow> State option \<Rightarrow> string option \<Rightarrow> int set \<Rightarrow> rotation \<times> int" where
  "rotateAll rnd ord k s st assembled advisory alreadyRotated = scan_rotate rnd ord k (expose_all alreadyRotated s) st assembled advisory"

definition rotatedOwners :: "fenceScan \<Rightarrow> int set" where
  "rotatedOwners s = snd ` set (fs_exposed s)"

record refresh =
  rf_st :: State
  rf_advisory :: "string option"
  rf_drawn :: nat
  rf_next :: nat
  rf_rotated :: int
  rf_limited :: bool
  rf_owners :: "int set"

definition refreshFenceKeys :: "(nat \<Rightarrow> string) \<Rightarrow> key_order \<Rightarrow> nat \<Rightarrow> State \<Rightarrow> string option \<Rightarrow> nat \<Rightarrow> string list \<Rightarrow> refresh" where
  "refreshFenceKeys rnd ord k st advisory from pinned =
     (let (s, ok) = inspect_all (newFenceScan st advisory) (pinned @ concat (map replayedTexts (drop from (st_Messages st))));
          s = (if ok then s else expose_all {} s);
          (w, rotated) = scan_rotate rnd ord k s st None advisory;
          (k, st, next) = mintFenceKeys rnd (ro_drawn w) (ro_st w) from
      in \<lparr>rf_st = st, rf_advisory = ro_advisory w, rf_drawn = k, rf_next = next, rf_rotated = rotated, rf_limited = \<not> ok, rf_owners = rotatedOwners s\<rparr>)"

text \<open>The second look, at the joined content that mixed assembly selected for a tool result of several groups.\<close>

definition structured_keys :: "State \<Rightarrow> nat \<Rightarrow> string set" where
  "structured_keys st skipBefore =
     set (map m_fence (filter (\<lambda>m. (case m_Context m of Some cs \<Rightarrow> 1 < length (cs_Groups cs) | None \<Rightarrow> False) \<and> m_fence m \<noteq> []) (drop skipBefore (st_Messages st))))"

definition refreshMaterializedFenceKeys ::
  "(nat \<Rightarrow> string) \<Rightarrow> key_order \<Rightarrow> nat \<Rightarrow> State \<Rightarrow> State \<Rightarrow> string option \<Rightarrow> nat \<Rightarrow> int set \<Rightarrow> rotation \<times> int \<times> bool" where
  "refreshMaterializedFenceKeys rnd ord k st assembled advisory skipBefore alreadyRotated =
     (let structured = structured_keys st skipBefore
      in if structured = {}
         then (\<lparr>ro_st = st, ro_assembled = Some assembled, ro_advisory = advisory, ro_live = [], ro_drawn = k\<rparr>, 0, False)
         else let (s, ok) = inspect_all (newFenceScan st advisory) (map m_Content (filter (\<lambda>m. m_fence m \<in> structured) (st_Messages assembled)))
              in if ok then (case scan_rotate rnd ord k s st (Some assembled) advisory of (w, n) \<Rightarrow> (w, n, False))
                 else (case rotateAll rnd ord k s st (Some assembled) advisory alreadyRotated of (w, n) \<Rightarrow> (w, n, True)))"

datatype key_error = NotAFenceKey nat | OverlapsEntry nat nat

fun overlap_with :: "string \<Rightarrow> nat \<Rightarrow> string list \<Rightarrow> nat option" where
  "overlap_with key j [] = None"
| "overlap_with key j (prior # ps) =
     (if key \<noteq> prior \<and> (sublist prior key \<or> sublist key prior) then Some j else overlap_with key (Suc j) ps)"

fun validate_keys_from :: "string list \<Rightarrow> string list \<Rightarrow> key_error option" where
  "validate_keys_from prior [] = None"
| "validate_keys_from prior (key # ks) =
     (if length key < 12 \<or> keyLetters key \<noteq> key then Some (NotAFenceKey (length prior))
      else case overlap_with key 0 prior of
             Some j \<Rightarrow> Some (OverlapsEntry (length prior) j)
           | None \<Rightarrow> validate_keys_from (prior @ [key]) ks)"

definition validateSystemKeys :: "string list \<Rightarrow> key_error option" where
  "validateSystemKeys keys = validate_keys_from [] keys"

end
