(* ===== verification/Fence_Rotation.thy ===== *)
theory Fence_Rotation
  imports Fence_Keys
begin

text \<open>
  What a refresh of the fence keys guarantees: no text that the model reads quotes a key that frames something, in any layer of its escapes; exactly the
  quoted keys are replaced, or all of them when the work limit of the scan is reached; and no two values are ever framed under the same key.
  The keys of a state are looked at through three lists: those of the messages, of the advisory, of the system prompt.
\<close>

section \<open>Keys and their owners\<close>

abbreviation nonzero :: "string list \<Rightarrow> string list" where
  "nonzero fs \<equiv> filter (\<lambda>f. f \<noteq> []) fs"

abbreviation fences :: "State \<Rightarrow> string list" where
  "fences st \<equiv> map m_fence (st_Messages st)"

definition key_list :: "string list \<Rightarrow> string option \<Rightarrow> string list \<Rightarrow> string list" where
  "key_list fs a sys = nonzero fs @ nonzero (case a of None \<Rightarrow> [] | Some x \<Rightarrow> [x]) @ remdups sys"

definition live_keys :: "State \<Rightarrow> string option \<Rightarrow> string set" where
  "live_keys st advisory = set (key_list (fences st) advisory (st_systemKeys st))"

definition unshared :: "string list \<Rightarrow> string option \<Rightarrow> string list \<Rightarrow> bool" where
  "unshared fs a sys \<longleftrightarrow> distinct (key_list fs a sys) \<and> [] \<notin> set sys"

definition keys_unshared :: "State \<Rightarrow> string option \<Rightarrow> bool" where
  "keys_unshared st advisory = unshared (fences st) advisory (st_systemKeys st)"

definition owns :: "string list \<Rightarrow> string option \<Rightarrow> string list \<Rightarrow> string \<Rightarrow> int \<Rightarrow> bool" where
  "owns fs a sys key owner \<longleftrightarrow>
     key \<noteq> [] \<and>
     (if owner = advisoryOwner then a = Some key
      else if owner = systemOwner then key \<in> set sys
      else 0 \<le> owner \<and> nat owner < length fs \<and> fs ! nat owner = key)"

definition swap :: "string \<Rightarrow> string \<Rightarrow> string \<Rightarrow> string" where
  "swap key fresh x = (if x = key then fresh else x)"

lemma owns_listed: "owns fs a sys key owner \<Longrightarrow> key \<in> set (key_list fs a sys)"
  by (auto simp: owns_def key_list_def split: if_splits intro: nth_mem)

lemma remdups_map_inj: "inj_on f (set xs) \<Longrightarrow> remdups (map f xs) = map f (remdups xs)"
  by (induction xs) (auto simp: inj_on_def)

lemma nonzero_swap: "key \<noteq> [] \<Longrightarrow> fresh \<noteq> [] \<Longrightarrow> nonzero (map (swap key fresh) fs) = map (swap key fresh) (nonzero fs)"
  by (induction fs) (auto simp: swap_def)

lemma key_list_swap:
  assumes "key \<noteq> []" "fresh \<noteq> []" "fresh \<notin> set sys"
  shows "key_list (map (swap key fresh) fs) (map_option (swap key fresh) a) (map (swap key fresh) sys) = map (swap key fresh) (key_list fs a sys)"
proof -
  have "inj_on (swap key fresh) (set sys)" using assms(3) by (auto simp: inj_on_def swap_def)
  then show ?thesis using nonzero_swap [OF assms(1,2)] assms(1,2)
    by (cases a) (auto simp: key_list_def remdups_map_inj swap_def)
qed

lemma swap_step:
  assumes "unshared fs a sys" "key \<in> set (key_list fs a sys)" "key \<noteq> []" "fresh \<noteq> []" "fresh \<notin> set (key_list fs a sys)"
  shows "unshared (map (swap key fresh) fs) (map_option (swap key fresh) a) (map (swap key fresh) sys)"
    and "set (key_list (map (swap key fresh) fs) (map_option (swap key fresh) a) (map (swap key fresh) sys)) = insert fresh (set (key_list fs a sys) - {key})"
proof -
  have sys: "fresh \<notin> set sys" using assms(5) by (simp add: key_list_def)
  have "inj_on (swap key fresh) (set (key_list fs a sys))" using assms(5) by (auto simp: inj_on_def swap_def)
  then show "unshared (map (swap key fresh) fs) (map_option (swap key fresh) a) (map (swap key fresh) sys)"
    using assms by (auto simp: unshared_def key_list_swap [OF assms(3,4) sys] distinct_map) (auto simp: swap_def split: if_splits)
  show "set (key_list (map (swap key fresh) fs) (map_option (swap key fresh) a) (map (swap key fresh) sys)) = insert fresh (set (key_list fs a sys) - {key})"
    using assms(2) by (auto simp: key_list_swap [OF assms(3,4) sys] swap_def image_iff)
qed

lemma owns_swap:
  assumes "owns fs a sys key' owner" "key' \<noteq> key"
  shows "owns (map (swap key fresh) fs) (map_option (swap key fresh) a) (map (swap key fresh) sys) key' owner"
  using assms by (auto simp: owns_def swap_def image_iff split: if_splits)

lemma filter_distinct_nth:
  "distinct (filter P xs) \<Longrightarrow> i < length xs \<Longrightarrow> j < length xs \<Longrightarrow> P (xs ! i) \<Longrightarrow> xs ! i = xs ! j \<Longrightarrow> i = j"
proof (induction xs arbitrary: i j)
  case (Cons x xs)
  then show ?case by (cases i; cases j) (auto split: if_splits dest: nth_mem)
qed simp

text \<open>A message key is at its owner's place only, and nowhere among the other two.\<close>

lemma owner_place:
  assumes "unshared fs a sys" "owns fs a sys key owner" "owner \<noteq> advisoryOwner" "owner \<noteq> systemOwner"
  shows "map (swap key fresh) fs = fs[nat owner := fresh]" "map_option (swap key fresh) a = a" "map (swap key fresh) sys = sys"
proof -
  have o: "nat owner < length fs" "fs ! nat owner = key" "key \<noteq> []" using assms by (auto simp: owns_def)
  then have k: "key \<in> set (nonzero fs)" by auto
  have dist: "distinct (nonzero fs)" "a \<noteq> Some key" "key \<notin> set sys" using assms(1) k by (auto simp: unshared_def key_list_def)
  have "fs ! j \<noteq> key" if "j < length fs" "j \<noteq> nat owner" for j
    using filter_distinct_nth [OF dist(1), of j "nat owner"] that o by auto
  then show "map (swap key fresh) fs = fs[nat owner := fresh]" using o by (intro nth_equalityI) (auto simp: swap_def nth_list_update)
  show "map_option (swap key fresh) a = a" using dist by (cases a) (auto simp: swap_def)
  show "map (swap key fresh) sys = sys" using dist by (induction sys) (auto simp: swap_def)
qed

section \<open>The live map\<close>

lemma message_keys_dom: "fst ` set (message_keys i ms live) = set (nonzero (map m_fence ms)) \<union> fst ` set live"
  by (induction i ms live rule: message_keys.induct) (auto simp: dom_update)

lemma message_keys_distinct: "distinct (map fst live) \<Longrightarrow> distinct (map fst (message_keys i ms live))"
  by (induction i ms live rule: message_keys.induct) (auto simp: distinct_update)

lemma message_keys_owner:
  assumes "map_of (message_keys i ms live) key = Some owner"
  shows "(key \<noteq> [] \<and> (\<exists>j<length ms. m_fence (ms ! j) = key \<and> owner = int (i + j))) \<or> map_of live key = Some owner"
  using assms
proof (induction i ms live rule: message_keys.induct)
  case (2 i m ms live)
  let ?live = "if m_fence m \<noteq> [] then AList.update (m_fence m) (int i) live else live"
  from 2 have "(key \<noteq> [] \<and> (\<exists>j<length ms. m_fence (ms ! j) = key \<and> owner = int (Suc i + j))) \<or> map_of ?live key = Some owner"
    by (simp split: if_splits)
  then show ?case
  proof
    assume "key \<noteq> [] \<and> (\<exists>j<length ms. m_fence (ms ! j) = key \<and> owner = int (Suc i + j))"
    then show ?thesis by (auto intro!: exI [of _ "Suc _"])
  next
    assume "map_of ?live key = Some owner"
    then show ?thesis by (auto simp: update_conv' split: if_splits)
  qed
qed simp

lemma system_keys_fold:
  "fst ` set (fold (\<lambda>k live. AList.update k systemOwner live) sys live) = set sys \<union> fst ` set live"
  "distinct (map fst live) \<Longrightarrow> distinct (map fst (fold (\<lambda>k live. AList.update k systemOwner live) sys live))"
  "map_of (fold (\<lambda>k live. AList.update k systemOwner live) sys live) key = (if key \<in> set sys then Some systemOwner else map_of live key)"
  by (induction sys arbitrary: live) (auto simp: dom_update distinct_update update_conv')

lemma live_dom: "fst ` set (liveFenceKeys st advisory) = live_keys st advisory"
  by (cases advisory) (auto simp: liveFenceKeys_def live_keys_def key_list_def system_keys_fold(1) message_keys_dom dom_update Let_def)

lemma live_distinct: "distinct (map fst (liveFenceKeys st advisory))"
  by (auto simp: liveFenceKeys_def Let_def message_keys_distinct distinct_update split: option.split intro!: system_keys_fold(2))

lemma live_owns:
  assumes "map_of (liveFenceKeys st advisory) key = Some owner" "[] \<notin> set (st_systemKeys st)"
  shows "owns (fences st) advisory (st_systemKeys st) key owner"
proof -
  have "key \<in> set (st_systemKeys st) \<and> owner = systemOwner \<or> (advisory = Some key \<and> key \<noteq> [] \<and> owner = advisoryOwner) \<or>
        map_of (message_keys 0 (st_Messages st) []) key = Some owner"
    using assms(1) by (auto simp: liveFenceKeys_def Let_def system_keys_fold(3) update_conv' split: if_splits option.splits)
  then show ?thesis
    using assms(2) message_keys_owner [of 0 "st_Messages st" "[]" key owner] by (auto simp: owns_def advisoryOwner_def systemOwner_def)
qed

section \<open>Rotation\<close>

definition key_blind :: "Message list \<Rightarrow> Message list" where
  "key_blind ms = map (\<lambda>m. m\<lparr>m_fence := []\<rparr>) ms"

abbreviation view_keys :: "rotation \<Rightarrow> string list" where
  "view_keys w \<equiv> key_list (fences (ro_st w)) (ro_advisory w) (st_systemKeys (ro_st w))"

abbreviation view_unshared :: "rotation \<Rightarrow> bool" where
  "view_unshared w \<equiv> unshared (fences (ro_st w)) (ro_advisory w) (st_systemKeys (ro_st w))"

abbreviation view_owns :: "rotation \<Rightarrow> string \<times> int \<Rightarrow> bool" where
  "view_owns w x \<equiv> owns (fences (ro_st w)) (ro_advisory w) (st_systemKeys (ro_st w)) (fst x) (snd x)"

lemma key_blind_update: "i < length ms \<Longrightarrow> key_blind (ms[i := (ms ! i)\<lparr>m_fence := f\<rparr>]) = key_blind ms"
  by (intro nth_equalityI) (auto simp: key_blind_def nth_list_update)

text \<open>One rotation renames one key, everywhere and nothing else.\<close>

lemma rotate_view:
  fixes rnd :: "nat \<Rightarrow> string"
  assumes "view_unshared w" "view_owns w (key, owner)"
  defines "fresh \<equiv> promptfence_New rnd (ro_drawn w)" and "w' \<equiv> rotateFenceKey rnd (key, owner) w"
  shows "fences (ro_st w') = map (swap key fresh) (fences (ro_st w))"
    "ro_advisory w' = map_option (swap key fresh) (ro_advisory w)"
    "st_systemKeys (ro_st w') = map (swap key fresh) (st_systemKeys (ro_st w))"
    "ro_drawn w' = Suc (ro_drawn w)"
    "key_blind (st_Messages (ro_st w')) = key_blind (st_Messages (ro_st w))"
proof -
  have dist: "distinct (view_keys w)" using assms(1) by (simp add: unshared_def)
  have same: "key \<notin> set xs \<Longrightarrow> map (swap key fresh) xs = xs" for xs by (induction xs) (auto simp: swap_def)
  consider "owner = advisoryOwner" | "owner = systemOwner" | "owner \<noteq> advisoryOwner" "owner \<noteq> systemOwner" by blast
  then have "fences (ro_st w') = map (swap key fresh) (fences (ro_st w)) \<and>
    ro_advisory w' = map_option (swap key fresh) (ro_advisory w) \<and>
    st_systemKeys (ro_st w') = map (swap key fresh) (st_systemKeys (ro_st w)) \<and>
    key_blind (st_Messages (ro_st w')) = key_blind (st_Messages (ro_st w))"
  proof cases
    case 1
    then have a: "ro_advisory w = Some key" "key \<noteq> []" using assms(2) by (auto simp: owns_def)
    then have "key \<notin> set (fences (ro_st w))" "key \<notin> set (st_systemKeys (ro_st w))" using dist by (auto simp: key_list_def)
    then show ?thesis using 1 a same by (auto simp: w'_def rotateFenceKey_def Let_def fresh_def [symmetric] swap_def)
  next
    case 2
    then have a: "key \<in> set (st_systemKeys (ro_st w))" "key \<noteq> []" using assms(2) by (auto simp: owns_def advisoryOwner_def systemOwner_def)
    then have "key \<notin> set (fences (ro_st w))" "ro_advisory w \<noteq> Some key" using dist by (auto simp: key_list_def)
    then show ?thesis using 2 same
      by (cases "ro_advisory w") (auto simp: w'_def rotateFenceKey_def Let_def fresh_def [symmetric] swap_def advisoryOwner_def systemOwner_def)
  next
    case 3
    note p = owner_place [OF assms(1) assms(2) [simplified] 3, of fresh]
    have "nat owner < length (st_Messages (ro_st w))" using assms(2) 3 by (auto simp: owns_def)
    then show ?thesis using 3 unfolding p
      by (auto simp: w'_def rotateFenceKey_def Let_def fresh_def [symmetric] map_update key_blind_update)
  qed
  then show "fences (ro_st w') = map (swap key fresh) (fences (ro_st w))" "ro_advisory w' = map_option (swap key fresh) (ro_advisory w)"
    "st_systemKeys (ro_st w') = map (swap key fresh) (st_systemKeys (ro_st w))" "key_blind (st_Messages (ro_st w')) = key_blind (st_Messages (ro_st w))"
    by auto
  show "ro_drawn w' = Suc (ro_drawn w)" by (simp add: w'_def rotateFenceKey_def Let_def)
qed

text \<open>The keys that calls \<open>k\<close> to \<open>n - 1\<close> of the generator give are new: distinct, not empty, and none of the given ones.\<close>

definition new_keys :: "(nat \<Rightarrow> string) \<Rightarrow> nat \<Rightarrow> nat \<Rightarrow> string set \<Rightarrow> bool" where
  "new_keys rnd k n K \<longleftrightarrow>
     distinct (map (promptfence_New rnd) [k..<n]) \<and> (\<forall>i \<in> {k..<n}. promptfence_New rnd i \<noteq> [] \<and> promptfence_New rnd i \<notin> K)"

lemma new_keys_mono: "new_keys rnd k n K \<Longrightarrow> k \<le> k' \<Longrightarrow> n' \<le> n \<Longrightarrow> K' \<subseteq> K \<Longrightarrow> new_keys rnd k' n' K'"
  by (auto simp: new_keys_def distinct_map inj_on_def)

lemma new_keys_step:
  assumes "new_keys rnd k n K" "k < n" "K' \<subseteq> K"
  shows "new_keys rnd (Suc k) n (insert (promptfence_New rnd k) K')"
proof -
  let ?g = "promptfence_New rnd"
  have "map ?g [k..<n] = ?g k # map ?g [Suc k..<n]" using assms(2) by (simp add: upt_conv_Cons)
  then have "distinct (?g k # map ?g [Suc k..<n])" using assms(1) unfolding new_keys_def by metis
  then have d: "distinct (map ?g [Suc k..<n])" "\<forall>i \<in> {Suc k..<n}. ?g i \<noteq> ?g k" by (auto simp del: upt_Suc simp: image_iff)
  have "?g i \<noteq> [] \<and> ?g i \<notin> K'" if "i \<in> {Suc k..<n}" for i using assms(1,3) that unfolding new_keys_def by force
  then show ?thesis using d unfolding new_keys_def by blast
qed

lemma rotate_keys_view:
  fixes rnd :: "nat \<Rightarrow> string"
  assumes "view_unshared w" "\<And>x. x \<in> set xs \<Longrightarrow> view_owns w x" "distinct (map fst xs)"
    and "new_keys rnd (ro_drawn w) (ro_drawn w + length xs) (set (view_keys w))"
  defines "w' \<equiv> rotate_keys rnd xs w"
  shows "view_unshared w' \<and> ro_drawn w' = ro_drawn w + length xs \<and> key_blind (st_Messages (ro_st w')) = key_blind (st_Messages (ro_st w)) \<and>
    set (view_keys w') = (set (view_keys w) - fst ` set xs) \<union> promptfence_New rnd ` {ro_drawn w..<ro_drawn w + length xs}"
  using assms(1-4) unfolding w'_def
proof (induction xs arbitrary: w)
  case (Cons x xs)
  obtain key owner where x: "x = (key, owner)" by (cases x)
  let ?v = "rotateFenceKey rnd x w" and ?f = "promptfence_New rnd (ro_drawn w)"
  have o: "view_owns w (key, owner)" using Cons.prems(2) [of x] x by simp
  note v = rotate_view [OF Cons.prems(1) o, of rnd, folded x]
  have f: "?f \<noteq> []" "?f \<notin> set (view_keys w)" using Cons.prems(4) by (auto simp: new_keys_def)
  have k: "key \<noteq> []" "key \<in> set (view_keys w)" using o owns_listed [of "fences (ro_st w)" "ro_advisory w" _ key owner] by (auto simp: owns_def)
  note s = swap_step [OF Cons.prems(1) k(2,1) f]
  have "view_unshared ?v" using s(1) by (simp only: v)
  moreover have vk: "set (view_keys ?v) = insert ?f (set (view_keys w) - {key})" using s(2) by (simp only: v)
  moreover have "view_owns ?v y" if "y \<in> set xs" for y
  proof -
    have "fst y \<noteq> key" using Cons.prems(3) that x by force
    then show ?thesis using owns_swap [OF Cons.prems(2) [of y], of key ?f] that unfolding v by simp
  qed
  moreover have "new_keys rnd (ro_drawn ?v) (ro_drawn ?v + length xs) (set (view_keys ?v))"
    using new_keys_step [OF Cons.prems(4), of "set (view_keys w) - {key}"] vk by (auto simp: v)
  ultimately have ih: "view_unshared (rotate_keys rnd xs ?v) \<and> ro_drawn (rotate_keys rnd xs ?v) = ro_drawn ?v + length xs \<and>
      key_blind (st_Messages (ro_st (rotate_keys rnd xs ?v))) = key_blind (st_Messages (ro_st ?v)) \<and>
      set (view_keys (rotate_keys rnd xs ?v)) = (set (view_keys ?v) - fst ` set xs) \<union> promptfence_New rnd ` {ro_drawn ?v..<ro_drawn ?v + length xs}"
    using Cons.prems(3) by (intro Cons.IH) auto
  have "?f \<notin> fst ` set xs"
    using Cons.prems(2) f(2) by (metis (no_types, lifting) imageE list.set_intros(2) owns_listed)
  moreover have "{ro_drawn w..<Suc (ro_drawn w + length xs)} = insert (ro_drawn w) {Suc (ro_drawn w)..<Suc (ro_drawn w + length xs)}" by auto
  ultimately show ?case using ih vk x v(4,5) by (auto simp: rotate_keys_def)
qed (auto simp: rotate_keys_def)

end
