(* ===== verification/Fence_Guarantees.thy ===== *)
theory Fence_Guarantees
  imports Fence_Rotation "HOL-Library.Multiset"
begin

text \<open>The scan finds exactly the quoted keys, minting keys exactly the new tool results, and the guarantees of a refresh follow.\<close>

section \<open>The scan\<close>

lemma expose_fold:
  "map_of (fold (expose live) ws ex) key = (if key \<in> set ws \<and> map_of live key \<noteq> None then map_of live key else map_of ex key)"
  by (induction ws arbitrary: ex) (auto simp: expose_def update_conv' split: option.splits)

lemma expose_fold_distinct: "distinct (map fst ex) \<Longrightarrow> distinct (map fst (fold (expose live) ws ex))"
  by (induction ws arbitrary: ex) (auto simp: expose_def distinct_update split: option.splits)

lemma windows_iff: "key \<in> set (windows n letters) \<longleftrightarrow> length key = n \<and> sublist key letters"
proof
  assume "key \<in> set (windows n letters)"
  then obtain i where i: "n \<le> length letters" "i \<le> length letters - n" "key = take n (drop i letters)"
    by (auto simp: windows_def less_Suc_eq_le simp del: upt_Suc split: if_splits)
  then have "letters = take i letters @ key @ drop n (drop i letters)" by (metis append_take_drop_id)
  then show "length key = n \<and> sublist key letters" using i unfolding sublist_def by auto
next
  assume a: "length key = n \<and> sublist key letters"
  then obtain ps ss where "letters = ps @ key @ ss" unfolding sublist_def by blast
  then show "key \<in> set (windows n letters)" using a by (auto simp: windows_def image_iff simp del: upt_Suc intro!: bexI [of _ "length ps"])
qed

lemma fold_windows: "fold (\<lambda>n. fold (expose live) (windows n l)) ns ex = fold (expose live) (concat (map (\<lambda>n. windows n l) ns)) ex"
  by (induction ns arbitrary: ex) auto

definition scan_ok :: "fenceScan \<Rightarrow> bool" where
  "scan_ok s \<longleftrightarrow> set (fs_keyLengths s) = length ` fst ` set (fs_live s) \<and> distinct (map fst (fs_exposed s)) \<and>
     map_of (fs_exposed s) \<subseteq>\<^sub>m map_of (fs_live s)"

lemma scanLayer_exposes:
  assumes "scan_ok s"
  shows "scan_ok (scanLayer s t)" "fs_live (scanLayer s t) = fs_live s" "fs_keyLengths (scanLayer s t) = fs_keyLengths s"
    "fs_remaining (scanLayer s t) = fs_remaining s"
    "map_of (fs_exposed (scanLayer s t)) key =
       (if map_of (fs_live s) key \<noteq> None \<and> sublist key (keyLetters t) then map_of (fs_live s) key else map_of (fs_exposed s) key)"
proof -
  have "map_of (fs_live s) key = Some owner \<Longrightarrow> length key \<in> set (fs_keyLengths s)" for owner
    using assms unfolding scan_ok_def by (metis image_eqI map_of_SomeD fst_conv)
  then show "map_of (fs_exposed (scanLayer s t)) key =
       (if map_of (fs_live s) key \<noteq> None \<and> sublist key (keyLetters t) then map_of (fs_live s) key else map_of (fs_exposed s) key)"
    by (auto simp: scanLayer_def fold_windows expose_fold windows_iff)
qed (use assms in \<open>auto simp: scanLayer_def scan_ok_def fold_windows expose_fold_distinct expose_fold map_le_def dom_def split: if_splits\<close>)

definition work :: "string \<Rightarrow> int" where
  "work t = sum_list (map (\<lambda>l. int (length l)) (layers t))"

lemma work_step: "work t = int (length t) + (if decodeCompatibleEscapes t = t then 0 else work (decodeCompatibleEscapes t))"
  by (simp add: work_def layers.simps [of t])

lemma work_nonneg: "0 \<le> work t"
  unfolding work_def by (intro sum_list_nonneg) auto

lemma exposes_step: "exposes key t \<longleftrightarrow> sublist key (keyLetters t) \<or> decodeCompatibleEscapes t \<noteq> t \<and> exposes key (decodeCompatibleEscapes t)"
  by (auto simp: exposes_def layers.simps [of t])

text \<open>One text: it is read to the last layer when the remaining work allows, and then exactly the live keys that it quotes are recorded.\<close>

lemma inspect_exact:
  "scan_ok s \<Longrightarrow>
   (snd (inspect s t) \<longleftrightarrow> fs_keyLengths s = [] \<or> work t \<le> fs_remaining s) \<and>
   scan_ok (fst (inspect s t)) \<and> fs_live (fst (inspect s t)) = fs_live s \<and> fs_keyLengths (fst (inspect s t)) = fs_keyLengths s \<and>
   (snd (inspect s t) \<longrightarrow> (fs_keyLengths s \<noteq> [] \<longrightarrow> fs_remaining (fst (inspect s t)) = fs_remaining s - work t) \<and>
      map_of (fs_exposed (fst (inspect s t))) key =
       (if map_of (fs_live s) key \<noteq> None \<and> exposes key t then map_of (fs_live s) key else map_of (fs_exposed s) key))"
proof (induction s t rule: inspect.induct)
  case (1 s t)
  let ?s = "scanLayer (s\<lparr>fs_remaining := fs_remaining s - int (length t)\<rparr>) t" and ?d = "decodeCompatibleEscapes t"
  have ok: "scan_ok (s\<lparr>fs_remaining := fs_remaining s - int (length t)\<rparr>)" using 1(2) by (simp add: scan_ok_def)
  note sl = scanLayer_exposes [OF ok, of t, simplified]
  consider (none) "fs_keyLengths s = []" | (limit) "fs_keyLengths s \<noteq> []" "fs_remaining s < int (length t)"
    | (last) "fs_keyLengths s \<noteq> []" "\<not> fs_remaining s < int (length t)" "?d = t"
    | (more) "fs_keyLengths s \<noteq> []" "\<not> fs_remaining s < int (length t)" "?d \<noteq> t" by blast
  then show ?case
  proof cases
    case none
    then have "fs_live s = []" using 1(2) by (auto simp: scan_ok_def)
    then show ?thesis using none 1(2) by (simp add: inspect.simps)
  next
    case limit
    then show ?thesis using 1(2) work_step [of t] work_nonneg [of ?d] by (simp add: inspect.simps [of s t])
  next
    case last
    then show ?thesis using sl work_step [of t] exposes_step [of key t] by (simp add: inspect.simps [of s t])
  next
    case more
    have e: "inspect s t = inspect ?s ?d" using more by (simp add: inspect.simps [of s t])
    show ?thesis using 1(1) [OF more sl(1)] more sl(2-) work_step [of t] exposes_step [of key t] unfolding e by auto
  qed
qed

lemma inspect_all_exact:
  "scan_ok s \<Longrightarrow>
   (snd (inspect_all s ts) \<longleftrightarrow> fs_keyLengths s = [] \<or> sum_list (map work ts) \<le> fs_remaining s \<or> ts = []) \<and>
   scan_ok (fst (inspect_all s ts)) \<and> fs_live (fst (inspect_all s ts)) = fs_live s \<and>
   (snd (inspect_all s ts) \<longrightarrow> map_of (fs_exposed (fst (inspect_all s ts))) key =
       (if map_of (fs_live s) key \<noteq> None \<and> (\<exists>t \<in> set ts. exposes key t) then map_of (fs_live s) key else map_of (fs_exposed s) key))"
proof (induction s ts rule: inspect_all.induct)
  case (2 s t ts)
  obtain s' ok where i: "inspect s t = (s', ok)" by (metis surj_pair)
  note x = inspect_exact [OF 2(2), of t key, unfolded i, simplified]
  have n: "0 \<le> sum_list (map work ts)" by (intro sum_list_nonneg) (auto simp: work_nonneg)
  show ?case
  proof (cases ok)
    case True
    then show ?thesis using 2(1) [OF i [symmetric], simplified] x i n work_nonneg [of t] by (cases "ts = []") auto
  next
    case False
    then show ?thesis using x i n by auto
  qed
qed simp

lemma newFenceScan_ok: "scan_ok (newFenceScan st advisory)" "fs_exposed (newFenceScan st advisory) = []"
  "fs_live (newFenceScan st advisory) = liveFenceKeys st advisory" "fs_remaining (newFenceScan st advisory) = maxFenceScanBytes"
  "fs_keyLengths (newFenceScan st advisory) = [] \<longleftrightarrow> live_keys st advisory = {}"
  by (auto simp: newFenceScan_def scan_ok_def Let_def image_comp simp flip: live_dom)

lemma expose_all_map:
  "distinct (map fst live) \<Longrightarrow>
   map_of (fold (\<lambda>(key, owner) ex. if owner \<notin> A then AList.update key owner ex else AList.delete key ex) live ex) key =
     (case map_of live key of Some owner \<Rightarrow> if owner \<notin> A then Some owner else None | None \<Rightarrow> map_of ex key)"
  by (induction live arbitrary: ex) (auto simp: update_conv' delete_conv' split: option.split if_splits dest: map_of_SomeD intro: rev_image_eqI)

lemma expose_all_distinct:
  "distinct (map fst ex) \<Longrightarrow>
   distinct (map fst (fold (\<lambda>(key, owner) ex. if owner \<notin> A then AList.update key owner ex else AList.delete key ex) live ex))"
  by (induction live arbitrary: ex) (auto simp: distinct_update distinct_delete)

section \<open>Minting\<close>

lemma new_keys_last:
  assumes "new_keys rnd k n K" "i \<in> {k..<n}" "j \<in> {k..<n}" "i \<noteq> j"
  shows "promptfence_New rnd i \<noteq> promptfence_New rnd j"
  using assms by (auto simp: new_keys_def distinct_map inj_on_def)

lemma mint_from_blind: "key_blind (snd (mint_from rnd k from ms)) = key_blind ms" "k \<le> fst (mint_from rnd k from ms)"
  by (induction rnd k "from" ms rule: mint_from.induct) (auto simp: key_blind_def split: prod.splits)

lemma mint_from_keys:
  "mint_from rnd k from ms = (k', ms') \<Longrightarrow> new_keys rnd k k' (set (nonzero (map m_fence ms))) \<Longrightarrow> distinct (nonzero (map m_fence ms)) \<Longrightarrow>
   k \<le> k' \<and> distinct (nonzero (map m_fence ms')) \<and> set (nonzero (map m_fence ms')) = set (nonzero (map m_fence ms)) \<union> promptfence_New rnd ` {k..<k'} \<and>
   (\<forall>m \<in> set (drop from ms'). m_Role m = ''tool'' \<longrightarrow> m_fence m \<noteq> [])"
proof (induction rnd k "from" ms arbitrary: k' ms' rule: mint_from.induct)
  case (2 rnd k "from" m ms)
  obtain ns where r: "mint_from rnd k from ms = (k', ns)" "ms' = m # ns" using 2(2) by (auto split: prod.splits)
  have n: "new_keys rnd k k' (set (nonzero (map m_fence ms)))" using 2(3) by (rule new_keys_mono) auto
  have d: "distinct (nonzero (map m_fence ms))" using 2(4) by (auto split: if_splits)
  note ih = 2(1) [OF r(1) n d]
  have "m_fence m \<noteq> [] \<Longrightarrow> m_fence m \<notin> promptfence_New rnd ` {k..<k'}" using 2(3) by (auto simp: new_keys_def)
  then show ?case using ih r 2(4) by auto
next
  case (3 rnd k m ms)
  show ?case
  proof (cases "m_Role m = ''tool'' \<and> m_fence m = []")
    case True
    then obtain ns where r: "mint_from rnd (Suc k) 0 ms = (k', ns)" "ms' = m\<lparr>m_fence := promptfence_New rnd k\<rparr> # ns" using 3(3) by (auto split: prod.splits)
    have k: "Suc k \<le> k'" using mint_from_blind(2) [of "Suc k" rnd 0 ms] r by simp
    have n: "new_keys rnd (Suc k) k' (insert (promptfence_New rnd k) (set (nonzero (map m_fence ms))))" using k by (intro new_keys_step [OF 3(4)]) auto
    then have n': "new_keys rnd (Suc k) k' (set (nonzero (map m_fence ms)))" by (rule new_keys_mono) auto
    have ih: "distinct (nonzero (map m_fence ns))" "set (nonzero (map m_fence ns)) = set (nonzero (map m_fence ms)) \<union> promptfence_New rnd ` {Suc k..<k'}"
      "\<forall>m \<in> set ns. m_Role m = ''tool'' \<longrightarrow> m_fence m \<noteq> []"
      using 3(1) [OF True r(1) n'] 3(5) by (simp_all add: True)
    have "new_keys rnd k k' (set (nonzero (map m_fence ms)))" using 3(4) by (rule new_keys_mono) (auto simp: True)
    moreover have "k \<in> {k..<k'}" using k by simp
    ultimately have f: "promptfence_New rnd k \<noteq> []" "promptfence_New rnd k \<notin> set (nonzero (map m_fence ms))"
      unfolding new_keys_def by blast+
    have "promptfence_New rnd k \<notin> promptfence_New rnd ` {Suc k..<k'}" using n unfolding new_keys_def by force
    then have "promptfence_New rnd k \<notin> set (nonzero (map m_fence ns))" using f(2) unfolding ih(2) by blast
    then have d: "distinct (nonzero (map m_fence ms'))" using ih(1) f(1) by (simp add: r(2))
    have "{k..<k'} = insert k {Suc k..<k'}" using k by auto
    then have "set (nonzero (map m_fence ms')) = set (nonzero (map m_fence (m # ms))) \<union> promptfence_New rnd ` {k..<k'}"
      using f(1) True ih(2) by (simp add: r(2))
    then show ?thesis using d k f(1) ih(3) by (simp add: r(2))
  next
    case False
    then obtain ns where r: "mint_from rnd k 0 ms = (k', ns)" "ms' = m # ns" using 3(3) by (auto split: prod.splits)
    have n: "new_keys rnd k k' (set (nonzero (map m_fence ms)))" using 3(4) by (rule new_keys_mono) auto
    have d: "distinct (nonzero (map m_fence ms))" using 3(5) by (auto split: if_splits)
    note ih = 3(2) [OF False r(1) n d]
    have "m_fence m \<noteq> [] \<Longrightarrow> m_fence m \<notin> promptfence_New rnd ` {k..<k'}" using 3(4) by (auto simp: new_keys_def)
    then show ?thesis using ih r 3(5) False by auto
  qed
qed auto

section \<open>A refresh\<close>

text \<open>A range over a map visits each entry once, in some order.\<close>

definition visits_each :: "key_order \<Rightarrow> bool" where
  "visits_each ord \<longleftrightarrow> (\<forall>xs. mset (ord xs) = mset xs)"

definition scanned_texts :: "State \<Rightarrow> nat \<Rightarrow> string list \<Rightarrow> string list" where
  "scanned_texts st from pinned = pinned @ concat (map replayedTexts (drop from (st_Messages st)))"

text \<open>The keys to be replaced after the scan, in both of its outcomes.\<close>

lemma refresh_scan:
  fixes ts :: "string list"
  assumes "inspect_all (newFenceScan st advisory) ts = (s0, ok)"
  defines "s \<equiv> if ok then s0 else expose_all {} s0"
  shows "ok \<longleftrightarrow> live_keys st advisory = {} \<or> sum_list (map work ts) \<le> maxFenceScanBytes"
    "fs_live s = liveFenceKeys st advisory" "distinct (map fst (fs_exposed s))"
    "map_of (fs_exposed s) key = (if \<not> ok \<or> (\<exists>t \<in> set ts. exposes key t) then map_of (liveFenceKeys st advisory) key else None)"
proof -
  let ?n = "newFenceScan st advisory"
  have x: "(ok \<longleftrightarrow> fs_keyLengths ?n = [] \<or> sum_list (map work ts) \<le> fs_remaining ?n \<or> ts = []) \<and>
    scan_ok s0 \<and> fs_live s0 = fs_live ?n \<and>
    (ok \<longrightarrow> map_of (fs_exposed s0) k =
       (if map_of (fs_live ?n) k \<noteq> None \<and> (\<exists>t \<in> set ts. exposes k t) then map_of (fs_live ?n) k else map_of (fs_exposed ?n) k))" for k
    using inspect_all_exact [OF newFenceScan_ok(1), of st advisory ts k] assms(1) by simp
  show "ok \<longleftrightarrow> live_keys st advisory = {} \<or> sum_list (map work ts) \<le> maxFenceScanBytes"
    using x [of key] by (cases "ts = []") (auto simp: newFenceScan_ok maxFenceScanBytes_def)
  show live: "fs_live s = liveFenceKeys st advisory" using x [of key] by (simp add: s_def expose_all_def newFenceScan_ok)
  show "distinct (map fst (fs_exposed s))" using x [of key] by (auto simp: s_def expose_all_def scan_ok_def intro: expose_all_distinct [of _ "{}", simplified])
  have l0: "scan_ok s0" "fs_live s0 = liveFenceKeys st advisory" using x [of key] by (simp_all add: newFenceScan_ok)
  then have sub: "map_of (fs_exposed s0) \<subseteq>\<^sub>m map_of (liveFenceKeys st advisory)" unfolding scan_ok_def by metis
  have d: "distinct (map fst (fs_live s0))" by (simp add: l0 live_distinct)
  show "map_of (fs_exposed s) key = (if \<not> ok \<or> (\<exists>t \<in> set ts. exposes key t) then map_of (liveFenceKeys st advisory) key else None)"
  proof (cases ok)
    case True
    then show ?thesis using x [of key] by (auto simp: s_def newFenceScan_ok)
  next
    case False
    have "map_of (fs_exposed s0) key = None" if "map_of (liveFenceKeys st advisory) key = None"
      using sub that by (metis domIff in_mono map_le_implies_dom_le)
    then show ?thesis using False x [of key] expose_all_map [OF d, of "{}" "fs_exposed s0" key]
      by (auto simp: s_def expose_all_def newFenceScan_ok split: option.splits)
  qed
qed

lemma rotate_drawn: "ro_drawn (rotate_keys rnd xs w) = ro_drawn w + length xs"
  by (induction xs arbitrary: w) (auto simp: rotate_keys_def rotateFenceKey_def Let_def)

lemma new_keys_later:
  assumes "new_keys rnd k n K" "k \<le> m"
  shows "new_keys rnd m n (K \<union> promptfence_New rnd ` {k..<m})"
proof -
  have "promptfence_New rnd i \<notin> promptfence_New rnd ` {k..<m}" if "i \<in> {m..<n}" for i
    using new_keys_last [OF assms(1), of i] that assms(2) by fastforce
  then show ?thesis using new_keys_mono [OF assms(1) assms(2) order_refl order_refl] unfolding new_keys_def by blast
qed

text \<open>Minted keys extend an unshared view.\<close>

lemma mint_view:
  assumes "mint_from rnd k from ms = (k', ms')" "unshared (map m_fence ms) a sys" "new_keys rnd k k' (set (key_list (map m_fence ms) a sys))"
  shows "unshared (map m_fence ms') a sys \<and> set (key_list (map m_fence ms') a sys) = set (key_list (map m_fence ms) a sys) \<union> promptfence_New rnd ` {k..<k'} \<and>
    (\<forall>m \<in> set (drop from ms'). m_Role m = ''tool'' \<longrightarrow> m_fence m \<noteq> [])"
proof -
  define os where "os = nonzero (case a of None \<Rightarrow> [] | Some x \<Rightarrow> [x]) @ remdups sys"
  have l: "key_list fs a sys = nonzero fs @ os" for fs by (simp add: key_list_def os_def)
  define fs fs' where "fs = nonzero (map m_fence ms)" and "fs' = nonzero (map m_fence ms')"
  have n: "new_keys rnd k k' (set fs \<union> set os)" using assms(3) by (simp add: l fs_def)
  have u: "distinct fs" "set fs \<inter> set os = {}" "distinct os" "[] \<notin> set sys" using assms(2) by (simp_all add: unshared_def l fs_def)
  have "new_keys rnd k k' (set fs)" using n by (rule new_keys_mono) auto
  then have mk: "distinct fs'" "set fs' = set fs \<union> promptfence_New rnd ` {k..<k'}" "\<forall>m \<in> set (drop from ms'). m_Role m = ''tool'' \<longrightarrow> m_fence m \<noteq> []"
    using mint_from_keys [OF assms(1)] u(1) unfolding fs_def fs'_def by blast+
  have "promptfence_New rnd ` {k..<k'} \<inter> set os = {}" using n unfolding new_keys_def by blast
  then have "set fs' \<inter> set os = {}" using mk(2) u(2) by blast
  then show ?thesis using mk u by (simp add: unshared_def l fs_def [symmetric] fs'_def [symmetric] Un_assoc Un_commute [of "set os"])
qed

lemma refresh_keys:
  fixes rnd :: "nat \<Rightarrow> string" and k "from" :: nat and pinned :: "string list"
  assumes "keys_unshared st advisory" "visits_each ord"
  defines "r \<equiv> refreshFenceKeys rnd ord k st advisory from pinned" and "ts \<equiv> scanned_texts st from pinned"
  defines "quoted \<equiv> {key \<in> live_keys st advisory. rf_limited r \<or> (\<exists>t \<in> set ts. exposes key t)}"
  assumes "new_keys rnd k (rf_drawn r) (live_keys st advisory)"
  shows "keys_unshared (rf_st r) (rf_advisory r)"
    "live_keys (rf_st r) (rf_advisory r) = (live_keys st advisory - quoted) \<union> promptfence_New rnd ` {k..<rf_drawn r}"
    "rf_rotated r = int (card quoted)"
    "rf_limited r \<longleftrightarrow> live_keys st advisory \<noteq> {} \<and> maxFenceScanBytes < sum_list (map work ts)"
    "\<forall>m \<in> set (drop from (st_Messages (rf_st r))). m_Role m = ''tool'' \<longrightarrow> m_fence m \<noteq> []"
    "key_blind (st_Messages (rf_st r)) = key_blind (st_Messages st)"
    "rf_next r = length (st_Messages st)"
proof -
  obtain s0 ok where i: "inspect_all (newFenceScan st advisory) ts = (s0, ok)" by (metis surj_pair)
  define s where "s = (if ok then s0 else expose_all {} s0)"
  note sc = refresh_scan [OF i, folded s_def]
  define xs where "xs = ord (fs_exposed s)"
  define w0 where "w0 = \<lparr>ro_st = st, ro_assembled = None, ro_advisory = advisory, ro_live = fs_live s, ro_drawn = k\<rparr>"
  define w where "w = rotate_keys rnd xs w0"
  obtain k' ms where m: "mint_from rnd (ro_drawn w) from (st_Messages (ro_st w)) = (k', ms)" by (metis surj_pair)
  have r: "rf_st r = (ro_st w)\<lparr>st_Messages := ms\<rparr>" "rf_advisory r = ro_advisory w" "rf_drawn r = k'" "rf_limited r = (\<not> ok)"
    "rf_rotated r = int (length xs)" "rf_next r = length ms"
    using i m unfolding r_def ts_def scanned_texts_def refreshFenceKeys_def
    by (simp_all add: Let_def scan_rotate_def mintFenceKeys_def flip: s_def xs_def w0_def w_def)
  have ms: "mset xs = mset (fs_exposed s)" using assms(2) by (simp add: xs_def visits_each_def)
  then have "mset (map fst xs) = mset (map fst (fs_exposed s))" by simp
  then have dx: "distinct (map fst xs)" using sc(3) mset_eq_imp_distinct_iff by blast
  have sx: "set xs = set (fs_exposed s)" using ms by (metis set_mset_mset)
  have q: "fst ` set xs = quoted"
  proof -
    have x: "key \<in> fst ` set xs \<longleftrightarrow> map_of (fs_exposed s) key \<noteq> None" for key using sx by (metis map_of_eq_None_iff)
    have l: "key \<in> live_keys st advisory \<longleftrightarrow> map_of (liveFenceKeys st advisory) key \<noteq> None" for key by (metis live_dom map_of_eq_None_iff)
    have "key \<in> fst ` set xs \<longleftrightarrow> key \<in> quoted" for key unfolding x quoted_def r(4) mem_Collect_eq l sc(4) by simp
    then show ?thesis by blast
  qed
  have own: "view_owns w0 x" if "x \<in> set xs" for x
  proof -
    have "map_of (fs_exposed s) (fst x) = Some (snd x)" using that sx sc(3) by (simp add: map_of_eq_Some_iff)
    then have "map_of (liveFenceKeys st advisory) (fst x) = Some (snd x)" by (simp add: sc(4) split: if_splits)
    then show ?thesis using live_owns assms(1) by (simp add: w0_def keys_unshared_def unshared_def)
  qed
  have u0: "view_unshared w0" "set (view_keys w0) = live_keys st advisory" "ro_drawn w0 = k"
    using assms(1) by (simp_all add: w0_def keys_unshared_def live_keys_def)
  have dr: "ro_drawn w = k + length xs" by (simp add: w_def rotate_drawn u0(3))
  have le: "k + length xs \<le> k'" using mint_from_blind(2) [of "ro_drawn w" rnd "from" "st_Messages (ro_st w)"] unfolding m by (simp add: dr)
  have nk: "new_keys rnd k k' (live_keys st advisory)" using assms(6) by (simp add: r(3))
  have rv: "view_unshared w" "key_blind (st_Messages (ro_st w)) = key_blind (st_Messages st)"
    "set (view_keys w) = (live_keys st advisory - quoted) \<union> promptfence_New rnd ` {k..<k + length xs}"
    using rotate_keys_view [OF u0(1) own dx, of rnd] new_keys_mono [OF nk order_refl le order_refl] by (simp_all add: u0 q w_def [symmetric]) (simp add: w0_def)
  have "new_keys rnd (k + length xs) k' (set (view_keys w))"
    by (rule new_keys_mono [OF new_keys_later [OF nk, of "k + length xs"]]) (auto simp: rv(3))
  then have mv: "unshared (map m_fence ms) (ro_advisory w) (st_systemKeys (ro_st w))"
    "set (key_list (map m_fence ms) (ro_advisory w) (st_systemKeys (ro_st w))) = set (view_keys w) \<union> promptfence_New rnd ` {k + length xs..<k'}"
    "\<forall>m \<in> set (drop from ms). m_Role m = ''tool'' \<longrightarrow> m_fence m \<noteq> []"
    using mint_view [OF m rv(1)] dr by auto
  have iv: "{k..<k'} = {k..<k + length xs} \<union> {k + length xs..<k'}" using le by auto
  have bl: "key_blind ms = key_blind (st_Messages st)" using mint_from_blind(1) [of rnd "ro_drawn w" "from" "st_Messages (ro_st w)"] rv(2) unfolding m by simp
  show "keys_unshared (rf_st r) (rf_advisory r)" using mv(1) by (simp add: keys_unshared_def r)
  show "live_keys (rf_st r) (rf_advisory r) = (live_keys st advisory - quoted) \<union> promptfence_New rnd ` {k..<rf_drawn r}"
  proof -
    have "live_keys (rf_st r) (rf_advisory r) = set (key_list (map m_fence ms) (ro_advisory w) (st_systemKeys (ro_st w)))" by (simp add: live_keys_def r)
    then show ?thesis unfolding mv(2) rv(3) r(3) iv image_Un by (simp add: Un_assoc)
  qed
  show "rf_rotated r = int (card quoted)" unfolding r q [symmetric] using dx by (metis distinct_card length_map list.set_map)
  show "rf_limited r \<longleftrightarrow> live_keys st advisory \<noteq> {} \<and> maxFenceScanBytes < sum_list (map work ts)" unfolding r sc(1) by auto
  show "\<forall>m \<in> set (drop from (st_Messages (rf_st r))). m_Role m = ''tool'' \<longrightarrow> m_fence m \<noteq> []" using mv(3) by (simp add: r)
  show "key_blind (st_Messages (rf_st r)) = key_blind (st_Messages st)" using bl by (simp add: r)
  show "rf_next r = length (st_Messages st)" using bl by (metis key_blind_def length_map r(6))
qed

section \<open>A refresh worked out\<close>

text \<open>A keyed tool result, an answer that quotes its key in lower case with separators and one letter escaped, and a tool result that is new.\<close>

definition sample_rnd :: "nat \<Rightarrow> string" where
  "sample_rnd n = replicate 26 (if n = 0 then CHR ''A'' else if n = 1 then CHR ''B'' else CHR ''C'')"

definition sample_message :: "string \<Rightarrow> string \<Rightarrow> string \<Rightarrow> Message" where
  "sample_message role content key = (mk_Message (mk_ChatMessage role content) Elastic)\<lparr>m_fence := key\<rparr>"

definition sample_state :: State where
  "sample_state = \<lparr>st_System = ''<<<X ZZZZZZZZZZ77'', st_DurableSummary = [],
     st_Messages = [sample_message ''tool'' ''out'' ''ABCDEFGHIJKL'', sample_message ''assistant'' (''abc-def ghi jk'' @ CHR 0x5C # ''u006c'') [], sample_message ''tool'' ''new'' []],
     st_systemKeys = [''ZZZZZZZZZZ77'']\<rparr>"

abbreviation sample_refresh :: refresh where
  "sample_refresh \<equiv> refreshFenceKeys sample_rnd (\<lambda>xs. xs) 0 sample_state (Some ''QQQQQQQQQQQQ'') 1 []"

lemma sample_unshared: "keys_unshared sample_state (Some ''QQQQQQQQQQQQ'')" by code_simp

lemma visits_each_id: "visits_each (\<lambda>xs. xs)" by (simp add: visits_each_def)

lemma sample_drawn: "rf_drawn sample_refresh = 2" by code_simp

lemma sample_keys: "promptfence_New sample_rnd 0 = ''AAAAAAAAAAAA''" "promptfence_New sample_rnd 1 = ''BBBBBBBBBBBB''" by code_simp+

lemma sample_live: "live_keys sample_state (Some ''QQQQQQQQQQQQ'') = {''ABCDEFGHIJKL'', ''QQQQQQQQQQQQ'', ''ZZZZZZZZZZ77''}" by code_simp

lemma sample_live_after:
  "live_keys (rf_st sample_refresh) (rf_advisory sample_refresh) = {''AAAAAAAAAAAA'', ''BBBBBBBBBBBB'', ''QQQQQQQQQQQQ'', ''ZZZZZZZZZZ77''}" by code_simp

lemma two_draws: "{0..<2} = {0, 1::nat}" by auto

lemma sample_new: "new_keys sample_rnd 0 (rf_drawn sample_refresh) (live_keys sample_state (Some ''QQQQQQQQQQQQ''))"
  unfolding new_keys_def sample_drawn two_draws sample_live using sample_keys by (simp add: upt_rec)

lemma sample_unquoted: "\<forall>t \<in> set (scanned_texts sample_state 1 []). \<not> exposes ''AAAAAAAAAAAA'' t" "\<forall>t \<in> set (scanned_texts sample_state 1 []). \<not> exposes ''BBBBBBBBBBBB'' t"
  by code_simp+

section \<open>The guarantees\<close>

text \<open>C7: After a refresh no two values are framed under one key, every new tool result has a key, and no live key, of a message, of the advisory or of the system prompt, is
  quoted by a text that was scanned, in any layer of its escapes and however it is spaced or cased. What the random generator has to give: new keys
  that differ from the live ones and that no scanned text already contains.\<close>

theorem fence_keys_unquotable:
  fixes rnd :: "nat \<Rightarrow> string" and k "from" :: nat and pinned :: "string list"
  assumes "keys_unshared st advisory" "visits_each ord"
  defines "r \<equiv> refreshFenceKeys rnd ord k st advisory from pinned"
  assumes "new_keys rnd k (rf_drawn r) (live_keys st advisory)"
    and "\<forall>i \<in> {k..<rf_drawn r}. \<forall>t \<in> set (scanned_texts st from pinned). \<not> exposes (promptfence_New rnd i) t"
  shows "keys_unshared (rf_st r) (rf_advisory r) \<and>
    (\<forall>m \<in> set (drop from (st_Messages (rf_st r))). m_Role m = ''tool'' \<longrightarrow> m_fence m \<noteq> []) \<and>
    (\<forall>key \<in> live_keys (rf_st r) (rf_advisory r). \<forall>t \<in> set (scanned_texts st from pinned). \<not> exposes key t)"
  using refresh_keys [OF assms(1,2) assms(4) [unfolded r_def]] assms(5) unfolding r_def by auto

theorem fence_keys_unquotable_witness:
  "''ABCDEFGHIJKL'' \<in> live_keys sample_state (Some ''QQQQQQQQQQQQ'') \<and> keys_unshared (rf_st sample_refresh) (rf_advisory sample_refresh) \<and>
   \<not> (\<exists>key \<in> {''AAAAAAAAAAAA'', ''BBBBBBBBBBBB'', ''QQQQQQQQQQQQ'', ''ZZZZZZZZZZ77''}. \<exists>t \<in> set (scanned_texts sample_state 1 []). exposes key t)"
proof -
  have "\<forall>i \<in> {0..<rf_drawn sample_refresh}. \<forall>t \<in> set (scanned_texts sample_state 1 []). \<not> exposes (promptfence_New sample_rnd i) t"
    unfolding sample_drawn two_draws using sample_unquoted sample_keys by simp
  note x = fence_keys_unquotable [OF sample_unshared visits_each_id sample_new this, unfolded sample_live_after]
  have "''ABCDEFGHIJKL'' \<in> live_keys sample_state (Some ''QQQQQQQQQQQQ'')" unfolding sample_live by (rule insertI1)
  moreover have "\<not> (\<exists>key \<in> {''AAAAAAAAAAAA'', ''BBBBBBBBBBBB'', ''QQQQQQQQQQQQ'', ''ZZZZZZZZZZ77''}. \<exists>t \<in> set (scanned_texts sample_state 1 []). exposes key t)"
    using conjunct2 [OF conjunct2 [OF x]] by blast
  ultimately show ?thesis using conjunct1 [OF x] by blast
qed

text \<open>C14: A refresh replaces nothing more than it has to: a live key survives exactly if no scanned text quotes it and the scan stayed within its limit, the
  reported number of rotations is the number of keys that did not, the limit is reached exactly when there is a key to look for and the layers of the texts
  have more than eight megabytes, and nothing of a message but its key changes.\<close>

theorem rotation_exact:
  fixes rnd :: "nat \<Rightarrow> string" and k "from" :: nat and pinned :: "string list"
  assumes "keys_unshared st advisory" "visits_each ord"
  defines "r \<equiv> refreshFenceKeys rnd ord k st advisory from pinned" and "ts \<equiv> scanned_texts st from pinned"
  assumes "new_keys rnd k (rf_drawn r) (live_keys st advisory)"
  shows "(\<forall>key \<in> live_keys st advisory. key \<in> live_keys (rf_st r) (rf_advisory r) \<longleftrightarrow> \<not> rf_limited r \<and> (\<forall>t \<in> set ts. \<not> exposes key t)) \<and>
    rf_rotated r = int (card (live_keys st advisory - live_keys (rf_st r) (rf_advisory r))) \<and>
    (rf_limited r \<longleftrightarrow> live_keys st advisory \<noteq> {} \<and> maxFenceScanBytes < sum_list (map work ts)) \<and>
    key_blind (st_Messages (rf_st r)) = key_blind (st_Messages st) \<and> rf_next r = length (st_Messages st)"
proof -
  let ?L = "live_keys st advisory" and ?Q = "{key \<in> live_keys st advisory. rf_limited r \<or> (\<exists>t \<in> set ts. exposes key t)}"
  note k = refresh_keys [OF assms(1,2) assms(5) [unfolded r_def], folded r_def ts_def]
  have new: "promptfence_New rnd ` {k..<rf_drawn r} \<inter> ?L = {}" using assms(5) unfolding new_keys_def by blast
  have "?L - live_keys (rf_st r) (rf_advisory r) = ?Q" unfolding k(2) using new by blast
  moreover have "key \<in> live_keys (rf_st r) (rf_advisory r) \<longleftrightarrow> key \<notin> ?Q" if "key \<in> ?L" for key unfolding k(2) using new that by blast
  ultimately show ?thesis using k(3-7) by auto
qed

theorem rotation_exact_witness:
  "(\<exists>t \<in> set (scanned_texts sample_state 1 []). exposes ''ABCDEFGHIJKL'' t) \<and>
   rf_rotated sample_refresh = int (card ({''ABCDEFGHIJKL'', ''QQQQQQQQQQQQ'', ''ZZZZZZZZZZ77''} - {''AAAAAAAAAAAA'', ''BBBBBBBBBBBB'', ''QQQQQQQQQQQQ'', ''ZZZZZZZZZZ77''})) \<and>
   rf_next sample_refresh = 3"
proof -
  note x = rotation_exact [OF sample_unshared visits_each_id sample_new, unfolded sample_live sample_live_after]
  have "\<not> rf_limited sample_refresh" by code_simp
  moreover have "''ABCDEFGHIJKL'' \<notin> {''AAAAAAAAAAAA'', ''BBBBBBBBBBBB'', ''QQQQQQQQQQQQ'', ''ZZZZZZZZZZ77''}" by simp
  ultimately have e: "\<exists>t \<in> set (scanned_texts sample_state 1 []). exposes ''ABCDEFGHIJKL'' t" unfolding bspec [OF conjunct1 [OF x] insertI1] by simp
  have "length (st_Messages sample_state) = 3" by (simp add: sample_state_def)
  then have n: "rf_next sample_refresh = 3" using conjunct2 [OF conjunct2 [OF conjunct2 [OF conjunct2 [OF x]]]] by (rule trans [rotated])
  show ?thesis by (intro conjI e n conjunct1 [OF conjunct2 [OF x]])
qed

end
