(* ===== verification/Mixed_Units.thy ===== *)
theory Mixed_Units
  imports Context_Manager Context_Set
begin

text \<open>
  The allocation units of mixed assembly, \<open>agent/mixed_subjects.go\<close>: one unit per group of the recency compactor, with the structured
  anchors of completed tool chains. The objects that the source links by pointers are nested here: a unit holds its anchors, an anchor its
  subjects; \<open>mixedAnchor.set\<close>, which nothing reads, is left out. A \<open>chosen\<close> of -1 is no choice. The branch for an unknown group kind has no counterpart: the kinds are a datatype.
\<close>

definition DecisionBase :: string where "DecisionBase = ''base''"
definition DecisionFloor :: string where "DecisionFloor = ''floor''"
definition DecisionUpgrade :: string where "DecisionUpgrade = ''upgrade''"
definition DecisionOmitted :: string where "DecisionOmitted = ''omitted''"
definition OmitTokenBudget :: string where "OmitTokenBudget = ''token_budget''"
definition OmitByteCap :: string where "OmitByteCap = ''byte_cap''"
definition OmitChainEvicted :: string where "OmitChainEvicted = ''chain_evicted''"
definition omittedObservation :: string where "omittedObservation = ''context omitted for budget''"
definition durableSummarySubjectID :: string where "durableSummarySubjectID = ''durable-summary''"

definition lanePlain :: int where "lanePlain = 0"
definition laneTool :: int where "laneTool = 1"
definition laneHistory :: int where "laneHistory = 2"

datatype mixedUnitKind = unitPinned | unitUnresolved | unitPlainSpan | unitHistorySpan | unitChain

record upgradeCand =
  uc_next :: nat
  uc_dTok :: int
  uc_capOK :: bool
  uc_addsVerbatim :: bool

record mixedSubject =
  ms_ref :: SubjectRef
  ms_toolCallID :: string
  ms_lane :: int
  ms_rank :: int
  ms_alts :: "ContextAlternative list"
  ms_span :: bool
  ms_spanTokens :: int
  ms_chosen :: int
  ms_omitted :: bool
  ms_decision :: string
  ms_reason :: string
  ms_cands :: "upgradeCand list"

record mixedAnchor =
  ma_msgIdx :: nat
  ma_callID :: string
  ma_cap :: int
  ma_minVerbatim :: int
  ma_verbatimGot :: int
  ma_content :: string
  ma_tokens :: int
  ma_subjects :: "mixedSubject list"

record mixedUnit =
  mu_kind :: mixedUnitKind
  mu_msgs :: "Message list"
  mu_baseTokens :: int
  mu_anchors :: "mixedAnchor list"
  mu_subject :: "mixedSubject option"
  mu_evicted :: bool
  mu_keep :: bool

datatype mixed_error =
    MixAgent agent_error
  | MixBlankCallID | MixDuplicateCallID string | MixUnknownResult string | MixMultipleResults string
  | MixSet string set_error | MixDuplicateSubject string string string

definition new_subject :: "SubjectRef \<Rightarrow> int \<Rightarrow> mixedSubject" where
  "new_subject ref lane =
     \<lparr>ms_ref = ref, ms_toolCallID = [], ms_lane = lane, ms_rank = 0, ms_alts = [], ms_span = False, ms_spanTokens = 0, ms_chosen = - 1,
      ms_omitted = False, ms_decision = [], ms_reason = [], ms_cands = []\<rparr>"

definition spanSubject :: "nat \<Rightarrow> int \<Rightarrow> int \<Rightarrow> mixedSubject" where
  "spanSubject firstMsg lane tokens =
     (new_subject \<lparr>sr_Domain = DomainConversation, sr_ID = itoa (int firstMsg)\<rparr> lane)\<lparr>ms_span := True, ms_spanTokens := tokens\<rparr>"

fun call_ids :: "string set \<Rightarrow> ToolCall list \<Rightarrow> mixed_error + string set" where
  "call_ids ids [] = Inr ids"
| "call_ids ids (tc # tcs) =
     (if tc_ID tc = [] then Inl MixBlankCallID
      else if tc_ID tc \<in> ids then Inl (MixDuplicateCallID (tc_ID tc))
      else call_ids (insert (tc_ID tc) ids) tcs)"

fun results_answer :: "string set \<Rightarrow> string set \<Rightarrow> Message list \<Rightarrow> mixed_error option" where
  "results_answer ids answered [] = None"
| "results_answer ids answered (m # ms) =
     (let key = cm_ToolCallID (m_chat m)
      in if key = [] \<or> key \<notin> ids then Some (MixUnknownResult key)
         else if key \<in> answered then Some (MixMultipleResults key)
         else results_answer ids (insert key answered) ms)"

definition validateChainBijection :: "Message list \<Rightarrow> mixed_error option" where
  "validateChainBijection msgs =
     (case call_ids {} (m_ToolCalls (hd msgs)) of
        Inl e \<Rightarrow> Some e
      | Inr ids \<Rightarrow> results_answer ids {} (tl msgs))"

definition group_subject :: "string \<Rightarrow> ContextGroup \<Rightarrow> mixedSubject" where
  "group_subject callID g =
     (new_subject (gd_Subject (cg_Desc g)) laneTool)\<lparr>ms_toolCallID := callID, ms_rank := gd_Rank (cg_Desc g), ms_alts := cg_Alternatives g\<rparr>"

definition new_anchor :: "nat \<Rightarrow> Message \<Rightarrow> ContextSet \<Rightarrow> mixedAnchor" where
  "new_anchor j msg cs =
     \<lparr>ma_msgIdx = j, ma_callID = cm_ToolCallID (m_chat msg), ma_cap = m_OutputCap msg, ma_minVerbatim = cs_MinVerbatim cs, ma_verbatimGot = 0,
      ma_content = [], ma_tokens = 0, ma_subjects = map (group_subject (cm_ToolCallID (m_chat msg))) (cs_Groups cs)\<rparr>"

definition envelope :: "Message \<Rightarrow> Message" where
  "envelope msg = msg\<lparr>m_chat := (m_chat msg)\<lparr>cm_Content := []\<rparr>\<rparr>"

text \<open>The loop over the tool results of a chain; both flags of an addition are tested after it.\<close>

fun anchors_from :: "ContextManager \<Rightarrow> nat \<Rightarrow> int \<Rightarrow> mixedAnchor list \<Rightarrow> Message list \<Rightarrow> mixed_error + mixedAnchor list \<times> int" where
  "anchors_from m j base anchors [] = Inr (anchors, base)"
| "anchors_from m j base anchors (msg # msgs) =
     (case m_Context msg of
        None \<Rightarrow>
          (case cm_checkedMessageCost m msg of (cost, costOK) \<Rightarrow>
           case checkedTokenAdd base cost of (base, ok) \<Rightarrow>
             if \<not> costOK \<or> \<not> ok then Inl (MixAgent ErrContextExhausted) else anchors_from m (Suc j) base anchors msgs)
      | Some cs \<Rightarrow>
          (case validateContextSet (Some cs) of
             Some e \<Rightarrow> Inl (MixSet (cm_ToolCallID (m_chat msg)) e)
           | None \<Rightarrow>
               (case cm_checkedMessageCost m (envelope msg) of (cost, costOK) \<Rightarrow>
                case checkedTokenAdd base cost of (base, ok) \<Rightarrow>
                  if \<not> costOK \<or> \<not> ok then Inl (MixAgent ErrContextExhausted)
                  else anchors_from m (Suc j) base (anchors @ [new_anchor j msg cs]) msgs)))"

definition chainAnchors :: "ContextManager \<Rightarrow> Message list \<Rightarrow> mixed_error + mixedAnchor list \<times> int" where
  "chainAnchors m msgs =
     (case cm_checkedMessageCost m (hd msgs) of (base, ok) \<Rightarrow>
        if \<not> ok then Inl (MixAgent ErrContextExhausted) else anchors_from m 1 base [] (tl msgs))"

definition new_unit :: "mixedUnitKind \<Rightarrow> Message list \<Rightarrow> int \<Rightarrow> mixedAnchor list \<Rightarrow> mixedSubject option \<Rightarrow> mixedUnit" where
  "new_unit kind msgs base anchors subject =
     \<lparr>mu_kind = kind, mu_msgs = msgs, mu_baseTokens = base, mu_anchors = anchors, mu_subject = subject, mu_evicted = False, mu_keep = False\<rparr>"

definition mixedUnitFor :: "ContextManager \<Rightarrow> compactionGroup \<Rightarrow> nat \<Rightarrow> mixed_error + mixedUnit" where
  "mixedUnitFor m g first =
     (case g_kind g of
        groupPinned \<Rightarrow> Inr (new_unit unitPinned (g_msgs g) (g_tokens g) [] None)
      | groupUnresolvedTool \<Rightarrow> Inr (new_unit unitUnresolved (g_msgs g) (g_tokens g) [] None)
      | groupPlainElastic \<Rightarrow> Inr (new_unit unitPlainSpan (g_msgs g) (g_tokens g) [] (Some (spanSubject first lanePlain (g_tokens g))))
      | groupHistory \<Rightarrow> Inr (new_unit unitHistorySpan (g_msgs g) (g_tokens g) [] (Some (spanSubject first laneHistory (g_tokens g))))
      | groupCompletedTool \<Rightarrow>
          (case validateChainBijection (g_msgs g) of
             Some e \<Rightarrow> Inl e
           | None \<Rightarrow>
               (case chainAnchors m (g_msgs g) of
                  Inl e \<Rightarrow> Inl e
                | Inr (anchors, base) \<Rightarrow> Inr (new_unit unitChain (g_msgs g) base anchors (Some (spanSubject first laneTool base))))))"

fun mark_subjects :: "(string \<times> string \<times> string) set \<Rightarrow> (string \<times> string \<times> string) list \<Rightarrow> mixed_error + (string \<times> string \<times> string) set" where
  "mark_subjects seen [] = Inr seen"
| "mark_subjects seen (key # keys) =
     (if key \<in> seen then Inl (MixDuplicateSubject (fst key) (fst (snd key)) (snd (snd key))) else mark_subjects (insert key seen) keys)"

definition trace_keys :: "mixedUnit \<Rightarrow> (string \<times> string \<times> string) list" where
  "trace_keys u = concat (map (\<lambda>a. map (\<lambda>s. (ma_callID a, sr_Domain (ms_ref s), sr_ID (ms_ref s))) (ma_subjects a)) (mu_anchors u))"

fun units_from :: "ContextManager \<Rightarrow> nat \<Rightarrow> (string \<times> string \<times> string) set \<Rightarrow> compactionGroup list \<Rightarrow> mixed_error + mixedUnit list" where
  "units_from m first seen [] = Inr []"
| "units_from m first seen (g # gs) =
     (if g_overflow g then Inl (MixAgent ErrContextExhausted)
      else case mixedUnitFor m g (if m_idx (hd (g_msgs g)) > 0 then m_idx (hd (g_msgs g)) - 1 else first) of
             Inl e \<Rightarrow> Inl e
           | Inr u \<Rightarrow>
               (case mark_subjects seen (trace_keys u) of
                  Inl e \<Rightarrow> Inl e
                | Inr seen \<Rightarrow>
                    (case units_from m (first + length (g_msgs g)) seen gs of
                       Inl e \<Rightarrow> Inl e
                     | Inr us \<Rightarrow> Inr (u # us))))"

definition buildMixedUnits :: "ContextManager \<Rightarrow> State \<Rightarrow> mixed_error + mixedUnit list" where
  "buildMixedUnits m st = units_from m 0 {} (groups \<lparr>rc_Estimate = cmg_Estimate m, rc_toolResultOverhead = 0\<rparr> st)"

end
