(* ===== verification/Mixed_Alloc.thy ===== *)
theory Mixed_Alloc
  imports Mixed_Units
begin

text \<open>
  The allocator of mixed assembly, \<open>agent/mixed_alloc.go\<close>. A subject is addressed by its position (unit, anchor, subject), where the source follows
  pointers; every function returns the changed ledger and units. The two loops whose end depends on the state, the retries and the upgrades, are partial functions, so
  that a run that does not end is None; \<open>cancelled\<close> answers the checks of the context one after the other. The estimator is a function of the text:
  the case of one that answers differently for the same text, which \<open>upgradeOnce\<close> guards against, is not represented.
\<close>

definition guardedEstimate :: "(string \<Rightarrow> int) option \<Rightarrow> string \<Rightarrow> int" where
  "guardedEstimate est s =
     (if s = [] then 0
      else case est of
             Some f \<Rightarrow> if f s > 0 then f s else 1 + (go_len s - 1) div 4
           | None \<Rightarrow> 1 + (go_len s - 1) div 4)"

record mixedAllocState =
  al_budget :: int
  al_used :: int
  al_arithmeticOverflow :: bool
  al_verbatimShortfalls :: int
  al_evictedGroups :: int
  al_anchorOmissions :: int

definition fits :: "int \<Rightarrow> mixedAllocState \<Rightarrow> bool \<times> mixedAllocState" where
  "fits tokens st =
     (if al_arithmeticOverflow st then (False, st)
      else case checkedTokenAdd (al_used st) tokens of (next, ok) \<Rightarrow>
        (ok \<and> next \<le> al_budget st, if \<not> ok then st\<lparr>al_used := next, al_arithmeticOverflow := True\<rparr> else st))"

definition charge :: "int \<Rightarrow> mixedAllocState \<Rightarrow> bool \<times> mixedAllocState" where
  "charge tokens st =
     (if al_arithmeticOverflow st then (False, st)
      else case checkedTokenAdd (al_used st) tokens of (used, ok) \<Rightarrow>
        (ok, st\<lparr>al_used := used, al_arithmeticOverflow := al_arithmeticOverflow st \<or> \<not> ok\<rparr>))"

definition anchorJoined :: "mixedAnchor \<Rightarrow> string" where
  "anchorJoined a =
     (let parts = map (\<lambda>s. ca_Content (ms_alts s ! nat (ms_chosen s))) (filter (\<lambda>s. ms_chosen s \<ge> 0) (ma_subjects a))
      in if parts = [] then omittedObservation else strings_Join parts newline)"

definition set_chosen :: "nat \<Rightarrow> int \<Rightarrow> mixedAnchor \<Rightarrow> mixedAnchor" where
  "set_chosen k i a = a\<lparr>ma_subjects := (ma_subjects a)[k := (ma_subjects a ! k)\<lparr>ms_chosen := i\<rparr>]\<rparr>"

text \<open>The state of an anchor after a committed choice.\<close>

definition commit :: "nat \<Rightarrow> nat \<Rightarrow> string \<Rightarrow> string \<Rightarrow> int \<Rightarrow> mixedAnchor \<Rightarrow> mixedAnchor" where
  "commit k i decision content tokens a =
     (let s = ma_subjects a ! k; prev = ms_chosen s
      in a\<lparr>ma_content := content, ma_tokens := tokens,
           ma_verbatimGot := ma_verbatimGot a + verbatimComponents (ca_Desc (ms_alts s ! i))
             - (if prev \<ge> 0 then verbatimComponents (ca_Desc (ms_alts s ! nat prev)) else 0),
           ma_subjects := map (\<lambda>s. s\<lparr>ms_cands := []\<rparr>) ((ma_subjects a)[k := s\<lparr>ms_chosen := int i, ms_decision := decision\<rparr>])\<rparr>)"

definition tryAssign :: "ContextManager \<Rightarrow> nat \<Rightarrow> nat \<Rightarrow> string \<Rightarrow> mixedAllocState \<Rightarrow> mixedAnchor \<Rightarrow> bool \<times> mixedAllocState \<times> mixedAnchor" where
  "tryAssign m k i decision st a =
     (let content = anchorJoined (set_chosen k (int i) a)
      in if go_len content > ma_cap a then (False, st, a)
         else let nextTokens = cm_estimate m content; dTok = nextTokens - ma_tokens a
              in case fits dTok st of (ok, st) \<Rightarrow>
                   if \<not> ok then (False, st, a)
                   else (True, snd (charge dTok st), commit k i decision content nextTokens a))"

definition omitSubject :: "string \<Rightarrow> mixedSubject \<Rightarrow> mixedSubject" where
  "omitSubject reason s = s\<lparr>ms_omitted := True, ms_decision := DecisionOmitted, ms_reason := reason\<rparr>"

text \<open>The first of the given alternatives that is accepted.\<close>

fun try_first :: "ContextManager \<Rightarrow> nat \<Rightarrow> string \<Rightarrow> nat list \<Rightarrow> mixedAllocState \<Rightarrow> mixedAnchor \<Rightarrow> bool \<times> mixedAllocState \<times> mixedAnchor" where
  "try_first m k decision [] st a = (False, st, a)"
| "try_first m k decision (i # is) st a =
     (case tryAssign m k i decision st a of (ok, st, a) \<Rightarrow> if ok then (True, st, a) else try_first m k decision is st a)"

definition admitSpan :: "mixedAllocState \<Rightarrow> mixedUnit \<Rightarrow> mixedAllocState \<times> mixedUnit" where
  "admitSpan st u =
     (case fits (mu_baseTokens u) st of (ok, st) \<Rightarrow>
        if ok then (snd (charge (mu_baseTokens u) st), u\<lparr>mu_subject := map_option (\<lambda>s. s\<lparr>ms_chosen := 0, ms_decision := DecisionBase\<rparr>) (mu_subject u)\<rparr>)
        else (st\<lparr>al_evictedGroups := al_evictedGroups st + 1\<rparr>, u\<lparr>mu_subject := map_option (omitSubject OmitTokenBudget) (mu_subject u)\<rparr>))"

definition omissionReason :: "ContextManager \<Rightarrow> mixedAllocState \<Rightarrow> mixedAnchor \<Rightarrow> nat \<Rightarrow> string" where
  "omissionReason m st a k =
     (let s = ma_subjects a ! k
      in if ms_alts s = [] then ms_reason s
         else let content = anchorJoined (set_chosen k 0 a)
              in if go_len content > ma_cap a then OmitByteCap
                 else case checkedTokenAdd (al_used st) (cm_estimate m content - ma_tokens a) of (n, ok) \<Rightarrow>
                   if \<not> ok \<or> n > al_budget st then OmitTokenBudget
                   else if ms_reason s = [] then OmitTokenBudget
                   else ms_reason s)"

section \<open>One completed chain\<close>

definition verbatim_alternatives :: "mixedSubject \<Rightarrow> nat list" where
  "verbatim_alternatives s = filter (\<lambda>i. verbatimComponents (ca_Desc (ms_alts s ! i)) \<noteq> 0) [0..<length (ms_alts s)]"

text \<open>The verbatim floor of one anchor, over the subjects at the given positions.\<close>

fun floor_pass :: "ContextManager \<Rightarrow> nat list \<Rightarrow> mixedAllocState \<Rightarrow> mixedAnchor \<Rightarrow> mixedAllocState \<times> mixedAnchor" where
  "floor_pass m [] st a = (st, a)"
| "floor_pass m (k # ks) st a =
     (if ma_verbatimGot a \<ge> ma_minVerbatim a then (st, a)
      else case try_first m k DecisionFloor (verbatim_alternatives (ma_subjects a ! k)) st a of (_, st, a) \<Rightarrow> floor_pass m ks st a)"

fun base_pass :: "ContextManager \<Rightarrow> nat list \<Rightarrow> mixedAllocState \<Rightarrow> mixedAnchor \<Rightarrow> mixedAllocState \<times> mixedAnchor" where
  "base_pass m [] st a = (st, a)"
| "base_pass m (k # ks) st a =
     (if ms_chosen (ma_subjects a ! k) \<noteq> - 1 \<or> ms_omitted (ma_subjects a ! k) then base_pass m ks st a
      else case try_first m k DecisionBase [0..<length (ms_alts (ma_subjects a ! k))] st a of (admitted, st, a) \<Rightarrow>
        if admitted then base_pass m ks st a
        else let st = st\<lparr>al_anchorOmissions := al_anchorOmissions st + 1\<rparr>
             in base_pass m ks st (a\<lparr>ma_subjects := (ma_subjects a)[k := omitSubject (omissionReason m st a k) (ma_subjects a ! k)]\<rparr>))"

fun over_anchors :: "(mixedAllocState \<Rightarrow> mixedAnchor \<Rightarrow> mixedAllocState \<times> mixedAnchor) \<Rightarrow> mixedAllocState \<Rightarrow> mixedAnchor list \<Rightarrow> mixedAllocState \<times> mixedAnchor list" where
  "over_anchors f st [] = (st, [])"
| "over_anchors f st (a # as) = (case f st a of (st, a) \<Rightarrow> case over_anchors f st as of (st, as) \<Rightarrow> (st, a # as))"

definition all_positions :: "mixedAnchor \<Rightarrow> nat list" where
  "all_positions a = [0..<length (ma_subjects a)]"

definition precharge :: "ContextManager \<Rightarrow> mixedAnchor \<Rightarrow> mixedAnchor" where
  "precharge m a = a\<lparr>ma_content := omittedObservation, ma_tokens := cm_estimate m omittedObservation\<rparr>"

text \<open>The sum of the base footprint and the placeholders; a failed addition leaves its result in place for the next.\<close>

definition chain_base :: "int \<Rightarrow> mixedAnchor list \<Rightarrow> int \<times> bool" where
  "chain_base base as = foldl (\<lambda>(base, baseOK) a. case checkedTokenAdd base (ma_tokens a) of (base, ok) \<Rightarrow> (base, ok \<and> baseOK)) (base, True) as"

definition evict_chain :: "mixedUnit \<Rightarrow> mixedUnit" where
  "evict_chain u =
     u\<lparr>mu_evicted := True, mu_subject := map_option (omitSubject OmitChainEvicted) (mu_subject u),
       mu_anchors := map (\<lambda>a. a\<lparr>ma_subjects := map (omitSubject OmitChainEvicted) (ma_subjects a)\<rparr>) (mu_anchors u)\<rparr>"

definition allocateChain :: "ContextManager \<Rightarrow> mixedAllocState \<Rightarrow> mixedUnit \<Rightarrow> mixedAllocState \<times> mixedUnit" where
  "allocateChain m st u =
     (let capViolated = (\<exists>a \<in> set (mu_anchors u). go_len omittedObservation > ma_cap a);
          as = map (precharge m) (mu_anchors u);
          (base, baseOK) = chain_base (mu_baseTokens u) as;
          u = u\<lparr>mu_anchors := as\<rparr>;
          (ok, st) = (if capViolated \<or> \<not> baseOK then (False, st) else fits base st)
      in if \<not> ok
         then let st = (if \<not> baseOK then st\<lparr>al_used := base, al_arithmeticOverflow := True\<rparr> else st)
              in (st\<lparr>al_evictedGroups := al_evictedGroups st + 1\<rparr>, evict_chain u)
         else let st = snd (charge base st);
                  u = u\<lparr>mu_subject := map_option (\<lambda>s. s\<lparr>ms_chosen := 0, ms_decision := DecisionBase\<rparr>) (mu_subject u)\<rparr>;
                  (st, as) = over_anchors (\<lambda>st a. if ma_minVerbatim a \<le> 0 then (st, a) else floor_pass m (all_positions a) st a) st (mu_anchors u);
                  (st, as) = over_anchors (\<lambda>st a. base_pass m (all_positions a) st a) st as
              in (st, u\<lparr>mu_anchors := as\<rparr>))"

section \<open>Retries and upgrades\<close>

type_synonym position = "nat \<times> nat \<times> nat"

definition anchor_at :: "mixedUnit list \<Rightarrow> nat \<Rightarrow> nat \<Rightarrow> mixedAnchor" where
  "anchor_at us i j = mu_anchors (us ! i) ! j"

definition put_anchor :: "nat \<Rightarrow> nat \<Rightarrow> mixedAnchor \<Rightarrow> mixedUnit list \<Rightarrow> mixedUnit list" where
  "put_anchor i j a us = us[i := (us ! i)\<lparr>mu_anchors := (mu_anchors (us ! i))[j := a]\<rparr>]"

definition unit_positions :: "mixedUnit list \<Rightarrow> nat \<Rightarrow> position list" where
  "unit_positions us i =
     (if mu_kind (us ! i) \<noteq> unitChain \<or> mu_evicted (us ! i) then []
      else concat (map (\<lambda>j. map (\<lambda>k. (i, j, k)) (all_positions (anchor_at us i j))) [0..<length (mu_anchors (us ! i))]))"

definition positions :: "mixedUnit list \<Rightarrow> position list" where
  "positions us = concat (map (unit_positions us) [0..<length us])"

definition positions_newest :: "mixedUnit list \<Rightarrow> position list" where
  "positions_newest us = concat (map (unit_positions us) (rev [0..<length us]))"

fun retry_sweep :: "ContextManager \<Rightarrow> position list \<Rightarrow> bool \<Rightarrow> mixedAllocState \<Rightarrow> mixedUnit list \<Rightarrow> bool \<times> mixedAllocState \<times> mixedUnit list" where
  "retry_sweep m [] progress st us = (progress, st, us)"
| "retry_sweep m ((i, j, k) # ps) progress st us =
     (if \<not> ms_omitted (ma_subjects (anchor_at us i j) ! k) \<or> ms_reason (ma_subjects (anchor_at us i j) ! k) = OmitChainEvicted
      then retry_sweep m ps progress st us
      else case try_first m k DecisionBase [0..<length (ms_alts (ma_subjects (anchor_at us i j) ! k))] st (anchor_at us i j) of (ok, st, a) \<Rightarrow>
        if ok
        then retry_sweep m ps True (st\<lparr>al_anchorOmissions := al_anchorOmissions st - 1\<rparr>)
               (put_anchor i j (a\<lparr>ma_subjects := (ma_subjects a)[k := (ma_subjects a ! k)\<lparr>ms_omitted := False, ms_reason := []\<rparr>]\<rparr>) us)
        else retry_sweep m ps progress st us)"

partial_function (option) retryOmitted :: "ContextManager \<Rightarrow> mixedAllocState \<Rightarrow> mixedUnit list \<Rightarrow> (mixedAllocState \<times> mixedUnit list) option" where
  "retryOmitted m st us =
     (case retry_sweep m (positions_newest us) False st us of (progress, st, us) \<Rightarrow>
        if \<not> progress then Some (st, us) else retryOmitted m st us)"

declare retryOmitted.simps [code]

text \<open>The price of a later alternative against the current choice of its anchor.\<close>

definition price_candidate :: "ContextManager \<Rightarrow> mixedAnchor \<Rightarrow> nat \<Rightarrow> nat \<Rightarrow> upgradeCand" where
  "price_candidate m a k i =
     (let s = ma_subjects a ! k;
          joined = anchorJoined (set_chosen k (int i) a);
          capOK = (go_len joined \<le> ma_cap a)
      in \<lparr>uc_next = i, uc_dTok = (if capOK then cm_estimate m joined - ma_tokens a else 0), uc_capOK = capOK,
          uc_addsVerbatim = (verbatimComponents (ca_Desc (ms_alts s ! i)) > verbatimComponents (ca_Desc (ms_alts s ! nat (ms_chosen s))))\<rparr>)"

definition memo_candidate :: "ContextManager \<Rightarrow> nat \<Rightarrow> nat \<Rightarrow> mixedAnchor \<Rightarrow> mixedAnchor" where
  "memo_candidate m k i a =
     (let s = ma_subjects a ! k
      in if i = length (ms_cands s)
         then a\<lparr>ma_subjects := (ma_subjects a)[k := s\<lparr>ms_cands := ms_cands s @ [price_candidate m a k (nat (ms_chosen s + 1) + i)]\<rparr>]\<rparr>
         else a)"

fun candidate_scan :: "ContextManager \<Rightarrow> bool \<Rightarrow> nat \<Rightarrow> nat list \<Rightarrow> mixedAllocState \<Rightarrow> mixedAnchor \<Rightarrow> (nat \<times> int) option \<times> mixedAllocState \<times> mixedAnchor" where
  "candidate_scan m evidenceOnly k [] st a = (None, st, a)"
| "candidate_scan m evidenceOnly k (i # is) st a =
     (case memo_candidate m k i a of a \<Rightarrow>
      case ms_cands (ma_subjects a ! k) ! i of c \<Rightarrow>
        if evidenceOnly \<and> \<not> uc_addsVerbatim c then candidate_scan m evidenceOnly k is st a
        else if \<not> uc_capOK c then candidate_scan m evidenceOnly k is st a
        else case fits (uc_dTok c) st of (ok, st) \<Rightarrow>
          if \<not> ok then candidate_scan m evidenceOnly k is st a else (Some (uc_next c, uc_dTok c), st, a))"

definition upgradeCandidate :: "ContextManager \<Rightarrow> bool \<Rightarrow> nat \<Rightarrow> mixedAllocState \<Rightarrow> mixedAnchor \<Rightarrow> (nat \<times> int) option \<times> mixedAllocState \<times> mixedAnchor" where
  "upgradeCandidate m evidenceOnly k st a =
     (let s = ma_subjects a ! k
      in candidate_scan m evidenceOnly k [0..<length (ms_alts s) - nat (ms_chosen s + 1)] st a)"

type_synonym best = "(position \<times> nat \<times> int) option"

fun upgrade_scan :: "ContextManager \<Rightarrow> bool \<Rightarrow> position list \<Rightarrow> best \<Rightarrow> mixedAllocState \<Rightarrow> mixedUnit list \<Rightarrow> best \<times> mixedAllocState \<times> mixedUnit list" where
  "upgrade_scan m evidenceOnly [] best st us = (best, st, us)"
| "upgrade_scan m evidenceOnly ((i, j, k) # ps) best st us =
     (if ms_chosen (ma_subjects (anchor_at us i j) ! k) < 0 then upgrade_scan m evidenceOnly ps best st us
      else case upgradeCandidate m evidenceOnly k st (anchor_at us i j) of (c, st, a) \<Rightarrow>
        (case c of
           None \<Rightarrow> upgrade_scan m evidenceOnly ps best st (put_anchor i j a us)
         | Some (next, dTok) \<Rightarrow>
             upgrade_scan m evidenceOnly ps
               (case best of None \<Rightarrow> Some ((i, j, k), next, dTok) | Some (p, n, d) \<Rightarrow> if dTok < d then Some ((i, j, k), next, dTok) else best)
               st (put_anchor i j a us)))"

definition upgradeOnce :: "ContextManager \<Rightarrow> bool \<Rightarrow> bool \<Rightarrow> mixedAllocState \<Rightarrow> mixedUnit list \<Rightarrow> bool \<times> mixedAllocState \<times> mixedUnit list" where
  "upgradeOnce m ctxErr evidenceOnly st us =
     (if ctxErr then (False, st, us)
      else case upgrade_scan m evidenceOnly (positions us) None st us of (best, st, us) \<Rightarrow>
        (case best of
           None \<Rightarrow> (False, st, us)
         | Some ((i, j, k), next, _) \<Rightarrow>
             (case tryAssign m k next DecisionUpgrade st (anchor_at us i j) of (ok, st, a) \<Rightarrow> (ok, st, put_anchor i j a us))))"

partial_function (option) upgrade_loop :: "ContextManager \<Rightarrow> (nat \<Rightarrow> bool) \<Rightarrow> nat \<Rightarrow> mixedAllocState \<Rightarrow> mixedUnit list \<Rightarrow> (mixedAllocState \<times> mixedUnit list) option" where
  "upgrade_loop m cancelled n st us =
     (case upgradeOnce m (cancelled n) True st us of (ok, st, us) \<Rightarrow>
        if ok then Option.bind (retryOmitted m st us) (\<lambda>(st, us). upgrade_loop m cancelled (n + 1) st us)
        else case upgradeOnce m (cancelled (n + 1)) False st us of (ok, st, us) \<Rightarrow>
          if ok then Option.bind (retryOmitted m st us) (\<lambda>(st, us). upgrade_loop m cancelled (n + 2) st us)
          else Some (st, us))"

declare upgrade_loop.simps [code]

section \<open>The policy\<close>

definition refresh_anchor :: "ContextManager \<Rightarrow> mixedAllocState \<Rightarrow> mixedAnchor \<Rightarrow> mixedAnchor" where
  "refresh_anchor m st a =
     a\<lparr>ma_subjects := map (\<lambda>k. let s = ma_subjects a ! k
        in if ms_omitted s \<and> ms_reason s \<noteq> OmitChainEvicted \<and> ms_alts s \<noteq> [] then s\<lparr>ms_reason := omissionReason m st a k\<rparr> else s) (all_positions a)\<rparr>"

definition refreshOmissionReasons :: "ContextManager \<Rightarrow> mixedAllocState \<Rightarrow> mixedUnit list \<Rightarrow> mixedUnit list" where
  "refreshOmissionReasons m st us =
     map (\<lambda>u. if mu_kind u \<noteq> unitChain \<or> mu_evicted u then u else u\<lparr>mu_anchors := map (refresh_anchor m st) (mu_anchors u)\<rparr>) us"

text \<open>The must-fit reservations; a charge is tried even after a failed one, which then changes nothing.\<close>

definition reserve_must_fit :: "mixedUnit list \<Rightarrow> mixedAllocState \<Rightarrow> bool \<times> mixedAllocState" where
  "reserve_must_fit us st =
     foldl (\<lambda>(reservationsOK, st) u.
        if mu_kind u = unitPinned \<or> mu_kind u = unitUnresolved
        then (case charge (mu_baseTokens u) st of (ok, st) \<Rightarrow> (ok \<and> reservationsOK, st))
        else (reservationsOK, st)) (True, st) us"

definition allocate_unit :: "ContextManager \<Rightarrow> mixedAllocState \<Rightarrow> mixedUnit \<Rightarrow> mixedAllocState \<times> mixedUnit" where
  "allocate_unit m st u = (if mu_kind u = unitChain then allocateChain m st u else admitSpan st u)"

definition subject_omitted :: "mixedUnit \<Rightarrow> bool" where
  "subject_omitted u = (case mu_subject u of Some s \<Rightarrow> ms_omitted s | None \<Rightarrow> False)"

text \<open>The units marked to be kept, admitted before the lanes; the flag is False when one of them was lost.\<close>

fun admit_kept :: "ContextManager \<Rightarrow> mixedAllocState \<Rightarrow> mixedUnit list \<Rightarrow> bool \<times> mixedAllocState \<times> mixedUnit list" where
  "admit_kept m st [] = (True, st, [])"
| "admit_kept m st (u # us) =
     (if \<not> mu_keep u then (case admit_kept m st us of (ok, st, us) \<Rightarrow> (ok, st, u # us))
      else case allocate_unit m st u of (st, u) \<Rightarrow>
        if subject_omitted u then (False, st, u # us)
        else (case admit_kept m st us of (ok, st, us) \<Rightarrow> (ok, st, u # us)))"

text \<open>One lane, the newest unit first: the list is walked from its end.\<close>

fun admit_lane :: "ContextManager \<Rightarrow> (mixedUnit \<Rightarrow> bool) \<Rightarrow> mixedAllocState \<Rightarrow> mixedUnit list \<Rightarrow> mixedAllocState \<times> mixedUnit list" where
  "admit_lane m P st [] = (st, [])"
| "admit_lane m P st (u # us) =
     (case admit_lane m P st us of (st, us) \<Rightarrow>
        if P u then (case allocate_unit m st u of (st, u) \<Rightarrow> (st, u # us)) else (st, u # us))"

definition count_shortfalls :: "mixedUnit list \<Rightarrow> int" where
  "count_shortfalls us = int (length (filter (\<lambda>a. ma_minVerbatim a > 0 \<and> ma_verbatimGot a < ma_minVerbatim a) (concat (map mu_anchors us))))"

definition allocateMixed :: "ContextManager \<Rightarrow> (nat \<Rightarrow> bool) \<Rightarrow> mixedUnit list \<Rightarrow> int \<Rightarrow> int \<Rightarrow> (mixedAllocState \<times> mixedUnit list \<times> agent_error option) option" where
  "allocateMixed m cancelled us budget sysTokens =
     (let st = \<lparr>al_budget = budget, al_used = sysTokens, al_arithmeticOverflow = False, al_verbatimShortfalls = 0, al_evictedGroups = 0, al_anchorOmissions = 0\<rparr>;
          (reservationsOK, st) = reserve_must_fit us st
      in if \<not> reservationsOK \<or> al_used st > al_budget st then Some (st, us, Some ErrContextExhausted)
         else case admit_kept m st us of (kept, st, us) \<Rightarrow>
           if \<not> kept then Some (st, us, Some ErrContextExhausted)
           else case admit_lane m (\<lambda>u. mu_kind u = unitPlainSpan \<and> \<not> mu_keep u) st us of (st, us) \<Rightarrow>
                case admit_lane m (\<lambda>u. mu_kind u = unitChain \<and> \<not> mu_keep u) st us of (st, us) \<Rightarrow>
                case admit_lane m (\<lambda>u. mu_kind u = unitHistorySpan) st us of (st, us) \<Rightarrow>
                  Option.bind (upgrade_loop m cancelled 0 st us) (\<lambda>(st, us).
                    let us = (if \<not> al_arithmeticOverflow st then refreshOmissionReasons m st us else us);
                        st = st\<lparr>al_verbatimShortfalls := al_verbatimShortfalls st + count_shortfalls us\<rparr>
                    in Some (st, us, if al_arithmeticOverflow st then Some ErrContextExhausted else None)))"

end
