(* ===== verification/Mixed_Anchor.thy ===== *)
theory Mixed_Anchor
  imports Mixed_Alloc
begin

text \<open>
  One anchor under the allocator: the ledger of \<open>fits\<close> and \<open>charge\<close>, the invariant that the content of an anchor is the join of its chosen alternatives and its
  charge the estimate of exactly that content, the soundness of the memo of upgrade candidates, and the slack that every accepted choice uses up.
\<close>

section \<open>The ledger\<close>

text \<open>Unless the arithmetic overflowed, the ledger holds exactly \<open>c\<close>, within the budget.\<close>

definition ledger :: "mixedAllocState \<Rightarrow> int \<Rightarrow> bool" where
  "ledger st c \<longleftrightarrow> al_arithmeticOverflow st \<or> (al_used st = c \<and> c \<le> al_budget st)"

lemma ledger_fits:
  assumes "ledger st c" "fits t st = (ok, st')"
  shows "ledger st' c" "al_budget st' = al_budget st" "ok \<Longrightarrow> ledger (snd (charge t st')) (c + t)" "al_budget (snd (charge t st')) = al_budget st"
  using assms by (auto simp: fits_def charge_def ledger_def split: prod.splits if_splits)

lemma ledger_omissions [simp]: "ledger (st\<lparr>al_anchorOmissions := n\<rparr>) c = ledger st c" "ledger (st\<lparr>al_evictedGroups := n\<rparr>) c = ledger st c"
  by (auto simp: ledger_def)

section \<open>Anchors\<close>

definition subject_ok :: "mixedSubject \<Rightarrow> bool" where
  "subject_ok s \<longleftrightarrow> - 1 \<le> ms_chosen s \<and> ms_chosen s < int (length (ms_alts s))"

definition chosen_verbatim :: "mixedSubject \<Rightarrow> int" where
  "chosen_verbatim s = (if ms_chosen s \<ge> 0 then verbatimComponents (ca_Desc (ms_alts s ! nat (ms_chosen s))) else 0)"

definition memo_ok :: "ContextManager \<Rightarrow> mixedAnchor \<Rightarrow> bool" where
  "memo_ok m a \<longleftrightarrow>
     (\<forall>k < length (ma_subjects a). \<forall>i < length (ms_cands (ma_subjects a ! k)).
        ms_cands (ma_subjects a ! k) ! i = price_candidate m a k (nat (ms_chosen (ma_subjects a ! k) + 1) + i))"

definition anchor_ok :: "ContextManager \<Rightarrow> mixedAnchor \<Rightarrow> bool" where
  "anchor_ok m a \<longleftrightarrow>
     (\<forall>s \<in> set (ma_subjects a). subject_ok s) \<and> ma_content a = anchorJoined a \<and> ma_tokens a = cm_estimate m (ma_content a) \<and>
     go_len (ma_content a) \<le> ma_cap a \<and> ma_verbatimGot a = sum_list (map chosen_verbatim (ma_subjects a)) \<and> memo_ok m a"

text \<open>What no step changes of an anchor: everything but the choices and what follows from them.\<close>

definition shape :: "mixedAnchor \<Rightarrow> nat \<times> string \<times> int \<times> int \<times> (SubjectRef \<times> string \<times> int \<times> int \<times> ContextAlternative list) list" where
  "shape a = (ma_msgIdx a, ma_callID a, ma_cap a, ma_minVerbatim a, map (\<lambda>s. (ms_ref s, ms_toolCallID s, ms_lane s, ms_rank s, ms_alts s)) (ma_subjects a))"

lemma map_eq_nth: "map f xs = map g ys \<Longrightarrow> k < length xs \<Longrightarrow> f (xs ! k) = g (ys ! k)"
  using map_eq_imp_length_eq [of f xs g ys] nth_map [of k xs f] nth_map [of k ys g] by simp

lemma shape_length: "shape a' = shape a \<Longrightarrow> length (ma_subjects a') = length (ma_subjects a)"
  unfolding shape_def by (auto dest: map_eq_imp_length_eq)

lemma shape_alts: "shape a' = shape a \<Longrightarrow> k < length (ma_subjects a) \<Longrightarrow> ms_alts (ma_subjects a' ! k) = ms_alts (ma_subjects a ! k)"
  using map_eq_nth [of "\<lambda>s. (ms_ref s, ms_toolCallID s, ms_lane s, ms_rank s, ms_alts s)" "ma_subjects a'" "\<lambda>s. (ms_ref s, ms_toolCallID s, ms_lane s, ms_rank s, ms_alts s)" "ma_subjects a" k] shape_length [of a' a]
  unfolding shape_def by simp

text \<open>The joined content depends on the choices and the alternatives only.\<close>

definition choices :: "mixedAnchor \<Rightarrow> (int \<times> ContextAlternative list) list" where
  "choices a = map (\<lambda>s. (ms_chosen s, ms_alts s)) (ma_subjects a)"

lemma anchorJoined_choices: "choices a = choices b \<Longrightarrow> anchorJoined a = anchorJoined b"
proof -
  have "map (\<lambda>s. ca_Content (ms_alts s ! nat (ms_chosen s))) (filter (\<lambda>s. ms_chosen s \<ge> 0) ss) =
        map (\<lambda>(c, as). ca_Content (as ! nat c)) (filter (\<lambda>(c, as). c \<ge> 0) (map (\<lambda>s. (ms_chosen s, ms_alts s)) ss))" for ss
    by (induction ss) auto
  note p = this [of "ma_subjects a"] this [of "ma_subjects b"]
  show "choices a = choices b \<Longrightarrow> anchorJoined a = anchorJoined b" unfolding choices_def anchorJoined_def p by simp
qed

lemma choices_set_chosen: "k < length (ma_subjects a) \<Longrightarrow> choices (set_chosen k i a) = (choices a)[k := (i, ms_alts (ma_subjects a ! k))]"
  by (simp add: choices_def set_chosen_def map_update)

lemma price_candidate_cong:
  assumes "choices a = choices b" "ma_cap a = ma_cap b" "ma_tokens a = ma_tokens b" "k < length (ma_subjects a)"
  shows "price_candidate m a k i = price_candidate m b k i"
proof -
  have l: "length (ma_subjects a) = length (ma_subjects b)" using assms(1) unfolding choices_def by (rule map_eq_imp_length_eq)
  have s: "ms_chosen (ma_subjects a ! k) = ms_chosen (ma_subjects b ! k)" "ms_alts (ma_subjects a ! k) = ms_alts (ma_subjects b ! k)"
    using map_eq_nth [OF assms(1) [unfolded choices_def] assms(4)] by auto
  have "anchorJoined (set_chosen k (int i) a) = anchorJoined (set_chosen k (int i) b)"
    using assms l s by (intro anchorJoined_choices) (simp add: choices_set_chosen)
  then show ?thesis using assms s by (simp add: price_candidate_def Let_def)
qed

section \<open>A committed choice\<close>

definition slack :: "mixedAnchor \<Rightarrow> nat" where
  "slack a = sum_list (map (\<lambda>s. length (ms_alts s) - nat (ms_chosen s + 1)) (ma_subjects a))"

definition with_choice :: "mixedAnchor \<Rightarrow> nat \<Rightarrow> nat \<Rightarrow> string \<Rightarrow> mixedAnchor \<Rightarrow> bool" where
  "with_choice a k i d a' \<longleftrightarrow>
     map (\<lambda>s. (ms_chosen s, ms_omitted s, ms_reason s, ms_decision s)) (ma_subjects a') =
     (map (\<lambda>s. (ms_chosen s, ms_omitted s, ms_reason s, ms_decision s)) (ma_subjects a))[k := (int i, ms_omitted (ma_subjects a ! k), ms_reason (ma_subjects a ! k), d)]"

lemma sum_list_update':
  fixes xs :: "'a::ab_group_add list"
  shows "k < length xs \<Longrightarrow> sum_list (xs[k := x]) = sum_list xs + x - xs ! k"
  by (induction xs arbitrary: k) (auto split: nat.splits simp: algebra_simps)

lemma commit_ok:
  fixes d :: string
  assumes "anchor_ok m a" "k < length (ma_subjects a)" "i < length (ms_alts (ma_subjects a ! k))"
    and c: "c = anchorJoined (set_chosen k (int i) a)" "go_len c \<le> ma_cap a"
  defines "a' \<equiv> commit k i d c (cm_estimate m c) a"
  shows "anchor_ok m a'" "shape a' = shape a" "with_choice a k i d a'"
proof -
  let ?ss = "ma_subjects a" and ?s = "ma_subjects a ! k"
  have sub: "ma_subjects a' = map (\<lambda>s. s\<lparr>ms_cands := []\<rparr>) (?ss[k := ?s\<lparr>ms_chosen := int i, ms_decision := d\<rparr>])"
    by (simp add: a'_def commit_def Let_def)
  have ch: "choices a' = choices (set_chosen k (int i) a)"
    using assms(2) by (simp add: choices_set_chosen) (simp add: choices_def sub map_update comp_def)
  have "sum_list (map chosen_verbatim (ma_subjects a')) =
        sum_list ((map chosen_verbatim ?ss)[k := verbatimComponents (ca_Desc (ms_alts ?s ! i))])"
  proof -
    have "chosen_verbatim (s\<lparr>ms_cands := []\<rparr>) = chosen_verbatim s" for s by (simp add: chosen_verbatim_def)
    moreover have "chosen_verbatim (s\<lparr>ms_chosen := int i, ms_decision := d\<rparr>) = verbatimComponents (ca_Desc (ms_alts s ! i))" for s
      by (simp add: chosen_verbatim_def)
    ultimately show ?thesis unfolding sub by (simp add: map_update comp_def)
  qed
  also have "\<dots> = sum_list (map chosen_verbatim ?ss) + verbatimComponents (ca_Desc (ms_alts ?s ! i)) - chosen_verbatim ?s"
    using assms(2) by (simp add: sum_list_update')
  finally have v: "sum_list (map chosen_verbatim (ma_subjects a')) = ma_verbatimGot a'"
    using assms(1) by (simp add: a'_def commit_def Let_def anchor_ok_def chosen_verbatim_def)
  have "\<forall>s \<in> set (ma_subjects a'). subject_ok s"
    using assms(1-3) unfolding sub by (auto simp: anchor_ok_def subject_ok_def dest!: set_update_subset_insert [THEN subsetD])
  moreover have "memo_ok m a'" unfolding memo_ok_def sub by (auto simp: nth_list_update)
  moreover have "ma_content a' = anchorJoined a'" using anchorJoined_choices [OF ch] c by (simp add: a'_def commit_def Let_def)
  ultimately show "anchor_ok m a'" using v c(2) by (simp add: anchor_ok_def) (simp add: a'_def commit_def Let_def)
  show "shape a' = shape a" using assms(2) unfolding shape_def sub by (simp add: a'_def commit_def Let_def map_update comp_def list_update_same_conv)
  show "with_choice a k i d a'" unfolding with_choice_def sub by (simp add: map_update comp_def)
qed

section \<open>The steps of the allocator on one anchor\<close>

text \<open>\<open>c\<close> is what the ledger holds besides the anchor. A step keeps the anchor's invariant and shape and moves the ledger with the anchor's charge.\<close>

definition anchor_step :: "ContextManager \<Rightarrow> mixedAllocState \<Rightarrow> mixedAnchor \<Rightarrow> mixedAllocState \<Rightarrow> mixedAnchor \<Rightarrow> bool" where
  "anchor_step m st a st' a' \<longleftrightarrow>
     anchor_ok m a' \<and> shape a' = shape a \<and> al_budget st' = al_budget st \<and> (\<forall>c. ledger st (c + ma_tokens a) \<longrightarrow> ledger st' (c + ma_tokens a'))"

lemma anchor_step_refl: "anchor_ok m a \<Longrightarrow> anchor_step m st a st a"
  by (simp add: anchor_step_def)

lemma anchor_step_trans: "anchor_step m st a st1 a1 \<Longrightarrow> anchor_step m st1 a1 st2 a2 \<Longrightarrow> anchor_step m st a st2 a2"
  by (simp add: anchor_step_def)

lemma tryAssign_step:
  assumes "anchor_ok m a" "k < length (ma_subjects a)" "i < length (ms_alts (ma_subjects a ! k))" "tryAssign m k i d st a = (ok, st', a')"
  shows "anchor_step m st a st' a'" "if ok then with_choice a k i d a' else a' = a"
proof -
  define c where "c = anchorJoined (set_chosen k (int i) a)"
  let ?t = "cm_estimate m c" and ?b = "commit k i d c (cm_estimate m c) a"
  obtain f st1 where f: "fits (?t - ma_tokens a) st = (f, st1)" by (metis surj_pair)
  have r: "(ok, st', a') = (if ma_cap a < go_len c then (False, st, a) else if \<not> f then (False, st1, a) else (True, snd (charge (?t - ma_tokens a) st1), ?b))"
    using assms(4) f by (simp add: tryAssign_def Let_def c_def [symmetric] split: if_splits)
  have b: "ma_tokens ?b = ?t" by (simp add: commit_def Let_def)
  have l: "ledger st (x + ma_tokens a) \<Longrightarrow> ledger st1 (x + ma_tokens a) \<and> al_budget st1 = al_budget st \<and> (f \<longrightarrow> ledger (snd (charge (?t - ma_tokens a) st1)) (x + ?t))" for x
    using ledger_fits [OF _ f, of "x + ma_tokens a"] by auto
  have bud: "al_budget st1 = al_budget st" "al_budget (snd (charge (?t - ma_tokens a) st1)) = al_budget st"
    using f by (auto simp: fits_def charge_def split: prod.splits if_splits)
  show "anchor_step m st a st' a'" "if ok then with_choice a k i d a' else a' = a"
    using r l b bud assms(1) commit_ok [OF assms(1-3) c_def, of d] by (auto simp: anchor_step_def split: if_splits)
qed

text \<open>How far the allocator is with a subject.\<close>

definition fresh :: "mixedSubject \<Rightarrow> bool" where
  "fresh s \<longleftrightarrow> ms_chosen s = - 1 \<and> \<not> ms_omitted s \<and> ms_reason s = []"

definition taken :: "mixedSubject \<Rightarrow> bool" where
  "taken s \<longleftrightarrow> ms_chosen s \<ge> 0 \<and> \<not> ms_omitted s \<and> ms_reason s = [] \<and> ms_decision s \<in> {DecisionBase, DecisionFloor, DecisionUpgrade}"

definition left_out :: "mixedSubject \<Rightarrow> bool" where
  "left_out s \<longleftrightarrow> ms_chosen s = - 1 \<and> ms_omitted s \<and> ms_decision s = DecisionOmitted \<and> ms_reason s \<in> {OmitTokenBudget, OmitByteCap}"

abbreviation decided :: "mixedSubject \<Rightarrow> bool" where
  "decided s \<equiv> taken s \<or> left_out s"

lemma with_choice_nth:
  assumes "with_choice a k i d a'" "k < length (ma_subjects a)" "j < length (ma_subjects a)"
  shows "ms_chosen (ma_subjects a' ! j) = (if j = k then int i else ms_chosen (ma_subjects a ! j))"
    "ms_omitted (ma_subjects a' ! j) = ms_omitted (ma_subjects a ! j)"
    "ms_reason (ma_subjects a' ! j) = ms_reason (ma_subjects a ! j)"
    "ms_decision (ma_subjects a' ! j) = (if j = k then d else ms_decision (ma_subjects a ! j))"
proof -
  have "length (ma_subjects a') = length (ma_subjects a)"
    using arg_cong [OF assms(1) [unfolded with_choice_def], of length] by simp
  then show "ms_chosen (ma_subjects a' ! j) = (if j = k then int i else ms_chosen (ma_subjects a ! j))"
    "ms_omitted (ma_subjects a' ! j) = ms_omitted (ma_subjects a ! j)"
    "ms_reason (ma_subjects a' ! j) = ms_reason (ma_subjects a ! j)"
    "ms_decision (ma_subjects a' ! j) = (if j = k then d else ms_decision (ma_subjects a ! j))"
    using arg_cong [OF assms(1) [unfolded with_choice_def], of "\<lambda>xs. xs ! j"] assms(2,3) by (auto simp: nth_list_update split: if_splits)
qed

lemma with_choice_status:
  assumes "with_choice a k i d a'" "k < length (ma_subjects a)" "j < length (ma_subjects a)" "d \<in> {DecisionBase, DecisionFloor, DecisionUpgrade}"
  shows "j = k \<Longrightarrow> \<not> ms_omitted (ma_subjects a ! k) \<Longrightarrow> ms_reason (ma_subjects a ! k) = [] \<Longrightarrow> taken (ma_subjects a' ! k)"
    and "j \<noteq> k \<Longrightarrow> (fresh (ma_subjects a' ! j) = fresh (ma_subjects a ! j)) \<and> (taken (ma_subjects a' ! j) = taken (ma_subjects a ! j)) \<and>
       (left_out (ma_subjects a' ! j) = left_out (ma_subjects a ! j))"
  using with_choice_nth [OF assms(1-3)] assms(4) by (auto simp: fresh_def taken_def left_out_def)

lemma try_first_step:
  assumes "anchor_ok m a" "k < length (ma_subjects a)" "set is \<subseteq> {..<length (ms_alts (ma_subjects a ! k))}" "try_first m k d is st a = (ok, st', a')"
  shows "anchor_step m st a st' a' \<and> (if ok then \<exists>i \<in> set is. with_choice a k i d a' else a' = a)"
  using assms
proof (induction "is" arbitrary: st)
  case Nil
  then show ?case by (simp add: anchor_step_refl)
next
  case (Cons i "is")
  obtain ok1 st1 a1 where t: "tryAssign m k i d st a = (ok1, st1, a1)" by (metis prod_cases3)
  note s = tryAssign_step [OF Cons.prems(1,2) _ t]
  show ?case
  proof (cases ok1)
    case True
    then show ?thesis using s Cons.prems t by auto
  next
    case False
    then have "a1 = a" using s Cons.prems by auto
    then show ?thesis using Cons.IH [of st1] Cons.prems t s False anchor_step_trans [of m st a st1 a1] by auto
  qed
qed

lemma floor_pass_step:
  "anchor_ok m a \<Longrightarrow> set ks \<subseteq> {..<length (ma_subjects a)} \<Longrightarrow> \<forall>s \<in> set (ma_subjects a). fresh s \<or> taken s \<Longrightarrow> floor_pass m ks st a = (st', a') \<Longrightarrow>
   anchor_step m st a st' a' \<and> (\<forall>s \<in> set (ma_subjects a'). fresh s \<or> taken s)"
proof (induction m ks st a rule: floor_pass.induct)
  case (2 m k ks st a)
  show ?case
  proof (cases "ma_verbatimGot a \<ge> ma_minVerbatim a")
    case True
    then show ?thesis using 2 by (simp add: anchor_step_refl)
  next
    case False
    obtain ok st1 a1 where t: "try_first m k DecisionFloor (verbatim_alternatives (ma_subjects a ! k)) st a = (ok, st1, a1)" by (metis prod_cases3)
    have k: "k < length (ma_subjects a)" using 2(3) by simp
    have "set (verbatim_alternatives (ma_subjects a ! k)) \<subseteq> {..<length (ms_alts (ma_subjects a ! k))}" by (auto simp: verbatim_alternatives_def)
    from try_first_step [OF 2(2) k this t]
    have s: "anchor_step m st a st1 a1" "if ok then \<exists>i. with_choice a k i DecisionFloor a1 else a1 = a" by (auto split: if_splits)
    have l: "length (ma_subjects a1) = length (ma_subjects a)" using s(1) by (auto simp: anchor_step_def intro: shape_length)
    have "fresh (ma_subjects a1 ! j) \<or> taken (ma_subjects a1 ! j)" if "j < length (ma_subjects a)" for j
    proof (cases ok)
      case True
      then obtain i where w: "with_choice a k i DecisionFloor a1" using s(2) by auto
      have "\<not> ms_omitted (ma_subjects a ! k) \<and> ms_reason (ma_subjects a ! k) = []" using 2(4) k nth_mem [OF k] by (auto simp: fresh_def taken_def)
      then show ?thesis using with_choice_status [OF w k that] 2(4) nth_mem [OF that] by (cases "j = k") auto
    qed (use s 2(4) that in auto)
    then have "\<forall>s \<in> set (ma_subjects a1). fresh s \<or> taken s" using l by (metis in_set_conv_nth)
    moreover have "anchor_ok m a1" using s(1) by (simp add: anchor_step_def)
    ultimately have "anchor_step m st1 a1 st' a' \<and> (\<forall>s \<in> set (ma_subjects a'). fresh s \<or> taken s)"
      using 2(1) [OF False t [symmetric] refl] 2(3,5) False t l by auto
    then show ?thesis using anchor_step_trans [OF s(1)] by blast
  qed
qed (simp add: anchor_step_refl)

text \<open>Flags of a subject that no cost depends on.\<close>

definition set_flags :: "nat \<Rightarrow> bool \<Rightarrow> string \<Rightarrow> string \<Rightarrow> mixedAnchor \<Rightarrow> mixedAnchor" where
  "set_flags k om d r a = a\<lparr>ma_subjects := (ma_subjects a)[k := (ma_subjects a ! k)\<lparr>ms_omitted := om, ms_decision := d, ms_reason := r\<rparr>]\<rparr>"

lemma anchor_ok_cong:
  assumes "anchor_ok m a" "choices b = choices a" "map ms_cands (ma_subjects b) = map ms_cands (ma_subjects a)"
    "ma_content b = ma_content a" "ma_tokens b = ma_tokens a" "ma_cap b = ma_cap a" "ma_verbatimGot b = ma_verbatimGot a"
  shows "anchor_ok m b"
proof -
  have l: "length (ma_subjects b) = length (ma_subjects a)" using assms(3) by (rule map_eq_imp_length_eq)
  have n: "ms_chosen (ma_subjects b ! k) = ms_chosen (ma_subjects a ! k)" "ms_alts (ma_subjects b ! k) = ms_alts (ma_subjects a ! k)"
      "ms_cands (ma_subjects b ! k) = ms_cands (ma_subjects a ! k)" if "k < length (ma_subjects a)" for k
    using map_eq_nth [OF assms(2) [unfolded choices_def], of k] map_eq_nth [OF assms(3), of k] that l by auto
  have "subject_ok (ma_subjects b ! k)" if "k < length (ma_subjects a)" for k
    using assms(1) n [OF that] nth_mem [OF that] unfolding anchor_ok_def subject_ok_def by auto
  then have "\<forall>s \<in> set (ma_subjects b). subject_ok s" using l by (metis in_set_conv_nth)
  moreover have "map chosen_verbatim (ma_subjects b) = map chosen_verbatim (ma_subjects a)"
    using n l by (intro nth_equalityI) (auto simp: chosen_verbatim_def)
  moreover have "memo_ok m b"
    using assms(1) n l price_candidate_cong [OF assms(2,6,5)] by (auto simp: anchor_ok_def memo_ok_def)
  ultimately show ?thesis using assms anchorJoined_choices [OF assms(2)] by (auto simp: anchor_ok_def)
qed

lemma set_flags_step: "anchor_ok m a \<Longrightarrow> k < length (ma_subjects a) \<Longrightarrow> anchor_step m st a st (set_flags k om d r a)"
  unfolding anchor_step_def set_flags_def
  by (auto intro!: anchor_ok_cong [of m a] simp: choices_def shape_def map_update list_update_same_conv)

lemma omitSubject_flags: "(ma_subjects a)[k := omitSubject r (ma_subjects a ! k)] = ma_subjects (set_flags k True DecisionOmitted r a)"
  by (simp add: omitSubject_def set_flags_def)

lemma omissionReason_values:
  "ms_alts (ma_subjects a ! k) \<noteq> [] \<Longrightarrow> ms_reason (ma_subjects a ! k) \<in> {[], OmitTokenBudget, OmitByteCap} \<Longrightarrow>
   omissionReason m st a k \<in> {OmitTokenBudget, OmitByteCap}"
  by (auto simp: omissionReason_def Let_def split: prod.split)

lemma base_pass_step:
  "anchor_ok m a \<Longrightarrow> set ks \<subseteq> {..<length (ma_subjects a)} \<Longrightarrow> \<forall>s \<in> set (ma_subjects a). (fresh s \<or> decided s) \<and> ms_alts s \<noteq> [] \<Longrightarrow> base_pass m ks st a = (st', a') \<Longrightarrow>
   anchor_step m st a st' a' \<and> (\<forall>j<length (ma_subjects a). fresh (ma_subjects a' ! j) \<or> decided (ma_subjects a' ! j)) \<and>
   (\<forall>j<length (ma_subjects a). j \<in> set ks \<or> decided (ma_subjects a ! j) \<longrightarrow> decided (ma_subjects a' ! j))"
proof (induction ks arbitrary: st a)
  case Nil
  then show ?case by (auto simp: anchor_step_refl)
next
  case (Cons k ks)
  have k: "k < length (ma_subjects a)" using Cons.prems(2) by simp
  note status = Cons.prems(3) [THEN bspec, OF nth_mem]
  show ?case
  proof (cases "ms_chosen (ma_subjects a ! k) \<noteq> - 1 \<or> ms_omitted (ma_subjects a ! k)")
    case True
    then have "decided (ma_subjects a ! k)" using status [OF k] by (auto simp: fresh_def)
    then show ?thesis using Cons.IH [OF Cons.prems(1)] Cons.prems(2-4) True by auto
  next
    case False
    obtain ok st1 a1 where t: "try_first m k DecisionBase [0..<length (ms_alts (ma_subjects a ! k))] st a = (ok, st1, a1)" by (metis prod_cases3)
    have "set [0..<length (ms_alts (ma_subjects a ! k))] \<subseteq> {..<length (ms_alts (ma_subjects a ! k))}" by auto
    from try_first_step [OF Cons.prems(1) k this t]
    have s: "anchor_step m st a st1 a1" "if ok then \<exists>i. with_choice a k i DecisionBase a1 else a1 = a" by (auto split: if_splits)
    have fk: "fresh (ma_subjects a ! k)" using status [OF k] False by (auto simp: taken_def left_out_def)
    define b where "b = (if ok then a1 else set_flags k True DecisionOmitted (omissionReason m (st1\<lparr>al_anchorOmissions := al_anchorOmissions st1 + 1\<rparr>) a1 k) a1)"
    define st2 where "st2 = (if ok then st1 else st1\<lparr>al_anchorOmissions := al_anchorOmissions st1 + 1\<rparr>)"
    have run: "base_pass m ks st2 b = (st', a')"
      using Cons.prems(4) False t by (auto simp: b_def st2_def Let_def omitSubject_flags [symmetric] set_flags_def omitSubject_def split: if_splits)
    have l1: "length (ma_subjects a1) = length (ma_subjects a)" using s(1) by (auto simp: anchor_step_def intro: shape_length)
    have sb: "anchor_step m st a st2 b"
    proof (cases ok)
      case True
      then show ?thesis using s(1) by (simp add: b_def st2_def)
    next
      case f: False
      have "anchor_step m st1 a1 st1 b" using set_flags_step [of m a1 k] s(1) l1 k f by (simp add: b_def anchor_step_def)
      then show ?thesis using anchor_step_trans [OF s(1), of st1 b] f by (simp add: st2_def anchor_step_def)
    qed
    have l: "length (ma_subjects b) = length (ma_subjects a)" using sb by (auto simp: anchor_step_def intro: shape_length)
    have dk: "decided (ma_subjects b ! k)"
    proof (cases ok)
      case True
      then obtain i where "with_choice a k i DecisionBase a1" using s(2) by auto
      from with_choice_status(1) [OF this k k] show ?thesis using fk True by (simp add: b_def fresh_def)
    next
      case f: False
      then have "a1 = a" using s(2) by simp
      then show ?thesis using f fk k omissionReason_values [of a k m] status [OF k]
        by (auto simp: b_def set_flags_def left_out_def fresh_def)
    qed
    have ot: "fresh (ma_subjects b ! j) = fresh (ma_subjects a ! j) \<and> decided (ma_subjects b ! j) = decided (ma_subjects a ! j)" if "j < length (ma_subjects a)" "j \<noteq> k" for j
    proof (cases ok)
      case True
      then obtain i where "with_choice a k i DecisionBase a1" using s(2) by auto
      from with_choice_status(2) [OF this k that(1)] show ?thesis using that True by (simp add: b_def)
    next
      case f: False
      then show ?thesis using s(2) that by (simp add: b_def set_flags_def)
    qed
    have sh: "shape b = shape a" using sb by (simp add: anchor_step_def)
    have all: "\<forall>s \<in> set (ma_subjects b). (fresh s \<or> decided s) \<and> ms_alts s \<noteq> []"
    proof
      fix s assume "s \<in> set (ma_subjects b)"
      then obtain j where j: "j < length (ma_subjects a)" "s = ma_subjects b ! j" using l by (metis in_set_conv_nth)
      then show "(fresh s \<or> decided s) \<and> ms_alts s \<noteq> []" using ot [OF j(1)] dk status [OF j(1)] shape_alts [OF sh j(1)] by (cases "j = k") auto
    qed
    have ih: "anchor_step m st2 b st' a' \<and> (\<forall>j<length (ma_subjects b). fresh (ma_subjects a' ! j) \<or> decided (ma_subjects a' ! j)) \<and>
       (\<forall>j<length (ma_subjects b). j \<in> set ks \<or> decided (ma_subjects b ! j) \<longrightarrow> decided (ma_subjects a' ! j))"
      using Cons.IH [OF _ _ all run] sb Cons.prems(2) l by (simp add: anchor_step_def)
    then show ?thesis using anchor_step_trans [OF sb] l dk ot by (metis insertE list.simps(15))
  qed
qed

section \<open>The memo of upgrade candidates\<close>

text \<open>An anchor without its memo; steps of the candidate scan change nothing else.\<close>

definition forget :: "mixedAnchor \<Rightarrow> mixedAnchor" where
  "forget a = a\<lparr>ma_subjects := map (\<lambda>s. s\<lparr>ms_cands := []\<rparr>) (ma_subjects a)\<rparr>"

lemma forget_eq:
  assumes "forget b = forget a"
  shows "choices b = choices a" "shape b = shape a" "ma_cap b = ma_cap a" "ma_tokens b = ma_tokens a" "ma_content b = ma_content a" "ma_verbatimGot b = ma_verbatimGot a"
    "map (\<lambda>s. (fresh s, taken s, left_out s)) (ma_subjects b) = map (\<lambda>s. (fresh s, taken s, left_out s)) (ma_subjects a)"
    "length (ma_subjects b) = length (ma_subjects a)" "slack b = slack a"
proof -
  have s: "map (\<lambda>s. s\<lparr>ms_cands := []\<rparr>) (ma_subjects b) = map (\<lambda>s. s\<lparr>ms_cands := []\<rparr>) (ma_subjects a)"
    using assms unfolding forget_def by (metis mixedAnchor.select_convs(8) mixedAnchor.update_convs(8) mixedAnchor.surjective)
  have f: "map f (ma_subjects b) = map f (ma_subjects a)" if "\<And>s. f (s\<lparr>ms_cands := []\<rparr>) = f s" for f :: "mixedSubject \<Rightarrow> 'x"
    using arg_cong [OF s, of "map f"] that by (simp add: comp_def)
  show "choices b = choices a" unfolding choices_def by (rule f) simp
  show "map (\<lambda>s. (fresh s, taken s, left_out s)) (ma_subjects b) = map (\<lambda>s. (fresh s, taken s, left_out s)) (ma_subjects a)"
    by (rule f) (simp add: fresh_def taken_def left_out_def)
  have r: "ma_msgIdx b = ma_msgIdx a" "ma_callID b = ma_callID a" "ma_minVerbatim b = ma_minVerbatim a" "ma_cap b = ma_cap a" "ma_tokens b = ma_tokens a"
    "ma_content b = ma_content a" "ma_verbatimGot b = ma_verbatimGot a"
    using assms unfolding forget_def by (metis mixedAnchor.select_convs(1-7) mixedAnchor.update_convs(8) mixedAnchor.surjective)+
  show "shape b = shape a" unfolding shape_def r using f [of "\<lambda>s. (ms_ref s, ms_toolCallID s, ms_lane s, ms_rank s, ms_alts s)"] by simp
  show "slack b = slack a" unfolding slack_def using f [of "\<lambda>s. length (ms_alts s) - nat (ms_chosen s + 1)"] by simp
  show "ma_cap b = ma_cap a" "ma_tokens b = ma_tokens a" "ma_content b = ma_content a" "ma_verbatimGot b = ma_verbatimGot a" by (fact r)+
  show "length (ma_subjects b) = length (ma_subjects a)" using s by (rule map_eq_imp_length_eq)
qed

lemma memo_candidate_ok:
  assumes "anchor_ok m a" "k < length (ma_subjects a)" "i \<le> length (ms_cands (ma_subjects a ! k))"
  defines "b \<equiv> memo_candidate m k i a"
  shows "anchor_ok m b" "forget b = forget a" "i < length (ms_cands (ma_subjects b ! k))"
    "ms_cands (ma_subjects b ! k) ! i = price_candidate m a k (nat (ms_chosen (ma_subjects a ! k) + 1) + i)"
proof -
  let ?s = "ma_subjects a ! k" and ?c = "price_candidate m a k (nat (ms_chosen (ma_subjects a ! k) + 1) + i)"
  show fo: "forget b = forget a"
    using assms(2) by (simp add: b_def memo_candidate_def forget_def Let_def map_update list_update_same_conv)
  note e = forget_eq [OF fo]
  have sb: "ma_subjects b = (ma_subjects a)[k := ?s\<lparr>ms_cands := (if i = length (ms_cands ?s) then ms_cands ?s @ [?c] else ms_cands ?s)\<rparr>]"
    using assms(2) by (simp add: b_def memo_candidate_def Let_def)
  have old: "j < length (ms_cands (ma_subjects a ! n)) \<Longrightarrow> n < length (ma_subjects a) \<Longrightarrow> ms_cands (ma_subjects a ! n) ! j = price_candidate m a n (nat (ms_chosen (ma_subjects a ! n) + 1) + j)" for n j
    using assms(1) by (simp add: anchor_ok_def memo_ok_def)
  show i: "i < length (ms_cands (ma_subjects b ! k))" using assms(2,3) unfolding sb by auto
  show "ms_cands (ma_subjects b ! k) ! i = ?c" using assms(2,3) old [of i k] unfolding sb by (auto simp: nth_append)
  have "ms_cands (ma_subjects b ! n) ! j = price_candidate m b n (nat (ms_chosen (ma_subjects b ! n) + 1) + j)"
    if "n < length (ma_subjects a)" "j < length (ms_cands (ma_subjects b ! n))" for n j
  proof -
    have "ms_chosen (ma_subjects b ! n) = ms_chosen (ma_subjects a ! n)" using map_eq_nth [OF e(1) [unfolded choices_def]] that e(8) by simp
    moreover have "price_candidate m b n x = price_candidate m a n x" for x using price_candidate_cong [OF e(1,3,4)] that e(8) by simp
    moreover have "ms_cands (ma_subjects b ! n) ! j = price_candidate m a n (nat (ms_chosen (ma_subjects a ! n) + 1) + j)"
      using that old [of j n] old [of j k] assms(2) unfolding sb by (cases "n = k") (auto simp: nth_append less_Suc_eq split: if_splits)
    ultimately show ?thesis by simp
  qed
  then have "memo_ok m b" unfolding memo_ok_def using e(8) by simp
  moreover have "\<forall>s \<in> set (ma_subjects b). subject_ok s"
    using assms(1,2) unfolding sb by (auto simp: anchor_ok_def subject_ok_def dest!: set_update_subset_insert [THEN subsetD])
  moreover have "map chosen_verbatim (ma_subjects b) = map chosen_verbatim (ma_subjects a)"
    using assms(2) unfolding sb by (simp add: map_update list_update_same_conv chosen_verbatim_def)
  ultimately show "anchor_ok m b" using assms(1) e anchorJoined_choices [OF e(1)] by (auto simp: anchor_ok_def)
qed

text \<open>The scan without a memo: every later alternative is priced where it stands.\<close>

fun candidate_ref :: "ContextManager \<Rightarrow> bool \<Rightarrow> nat \<Rightarrow> nat list \<Rightarrow> mixedAllocState \<Rightarrow> mixedAnchor \<Rightarrow> (nat \<times> int) option \<times> mixedAllocState" where
  "candidate_ref m evidenceOnly k [] st a = (None, st)"
| "candidate_ref m evidenceOnly k (i # is) st a =
     (if evidenceOnly \<and> \<not> uc_addsVerbatim (price_candidate m a k i) \<or> \<not> uc_capOK (price_candidate m a k i) then candidate_ref m evidenceOnly k is st a
      else case fits (uc_dTok (price_candidate m a k i)) st of (ok, st) \<Rightarrow>
        if \<not> ok then candidate_ref m evidenceOnly k is st a else (Some (i, uc_dTok (price_candidate m a k i)), st))"

lemma candidate_ref_cong:
  assumes "forget b = forget a" "k < length (ma_subjects a)"
  shows "candidate_ref m e k is st b = candidate_ref m e k is st a"
proof -
  note f = forget_eq [OF assms(1)]
  have "price_candidate m b k i = price_candidate m a k i" for i using price_candidate_cong [OF f(1,3,4)] assms(2) f(8) by simp
  then show ?thesis by (induction "is" arbitrary: st) (auto split: prod.split)
qed

lemma candidate_scan_ref:
  "anchor_ok m a \<Longrightarrow> k < length (ma_subjects a) \<Longrightarrow> i \<le> length (ms_cands (ma_subjects a ! k)) \<Longrightarrow> candidate_scan m e k [i..<n] st a = (c, st', a') \<Longrightarrow>
   (c, st') = candidate_ref m e k (map ((+) (nat (ms_chosen (ma_subjects a ! k) + 1))) [i..<n]) st a \<and> anchor_ok m a' \<and> forget a' = forget a"
proof (induction "n - i" arbitrary: i st a)
  case 0
  then show ?case by auto
next
  case (Suc d)
  let ?b = "memo_candidate m k i a" and ?p = "price_candidate m a k (nat (ms_chosen (ma_subjects a ! k) + 1) + i)"
  note mc = memo_candidate_ok [OF Suc.prems(1-3)]
  note f = forget_eq [OF mc(2)]
  have up: "[i..<n] = i # [Suc i..<n]" using Suc(2) by (simp add: upt_conv_Cons)
  have ch: "ms_chosen (ma_subjects ?b ! k) = ms_chosen (ma_subjects a ! k)" using map_eq_nth [OF f(1) [unfolded choices_def]] Suc.prems(2) f(8) by simp
  have ih: "candidate_scan m e k [Suc i..<n] st1 ?b = (c, st', a') \<Longrightarrow>
      (c, st') = candidate_ref m e k (map ((+) (nat (ms_chosen (ma_subjects a ! k) + 1))) [Suc i..<n]) st1 a \<and> anchor_ok m a' \<and> forget a' = forget a" for st1
    using Suc(1) [of "Suc i" ?b st1] Suc(2) mc Suc.prems(2) f(8) ch candidate_ref_cong [OF mc(2) Suc.prems(2)] by auto
  have nx: "uc_next ?p = nat (ms_chosen (ma_subjects a ! k) + 1) + i" by (simp add: price_candidate_def Let_def)
  obtain ok st1 where ft: "fits (uc_dTok ?p) st = (ok, st1)" by (metis surj_pair)
  show ?case
    using Suc.prems(4) ih [of st] ih [of st1] mc(1,2,4) nx ft unfolding up by (auto simp: ft split: if_splits)
qed

end
