(* ===== verification/Mixed_Ledger.thy ===== *)
theory Mixed_Ledger
  imports Mixed_Anchor
begin

text \<open>
  The ledger of a whole allocation: each unit is untouched, admitted or left out, and the ledger holds exactly the cost of the must-fit and the admitted ones; no pass of the
  allocator changes that.
\<close>

section \<open>Units\<close>

definition gone :: "mixedSubject \<Rightarrow> bool" where
  "gone s \<longleftrightarrow> ms_chosen s = - 1 \<and> ms_omitted s \<and> ms_decision s = DecisionOmitted \<and> ms_reason s = OmitChainEvicted"

definition anchor_fresh :: "mixedAnchor \<Rightarrow> bool" where
  "anchor_fresh a \<longleftrightarrow> ma_verbatimGot a = 0 \<and> (\<forall>s \<in> set (ma_subjects a). fresh s \<and> ms_cands s = [] \<and> ms_alts s \<noteq> [])"

definition anchor_settled :: "ContextManager \<Rightarrow> mixedAnchor \<Rightarrow> bool" where
  "anchor_settled m a \<longleftrightarrow> anchor_ok m a \<and> (\<forall>s \<in> set (ma_subjects a). decided s \<and> ms_alts s \<noteq> [])"

definition must_fit :: "mixedUnit \<Rightarrow> bool" where
  "must_fit u \<longleftrightarrow> mu_kind u = unitPinned \<or> mu_kind u = unitUnresolved"

definition unit_fresh :: "mixedUnit \<Rightarrow> bool" where
  "unit_fresh u \<longleftrightarrow> (\<exists>s. mu_subject u = Some s \<and> fresh s) \<and> \<not> mu_evicted u \<and> (\<forall>a \<in> set (mu_anchors u). anchor_fresh a)"

definition unit_admitted :: "ContextManager \<Rightarrow> mixedUnit \<Rightarrow> bool" where
  "unit_admitted m u \<longleftrightarrow> (\<exists>s. mu_subject u = Some s \<and> taken s) \<and> \<not> mu_evicted u \<and> (\<forall>a \<in> set (mu_anchors u). anchor_settled m a)"

definition unit_gone :: "mixedUnit \<Rightarrow> bool" where
  "unit_gone u \<longleftrightarrow>
     (\<exists>s. mu_subject u = Some s \<and> (if mu_kind u = unitChain then gone s \<and> mu_evicted u else left_out s \<and> \<not> mu_evicted u)) \<and>
     (\<forall>a \<in> set (mu_anchors u). \<forall>s \<in> set (ma_subjects a). gone s)"

definition unit_ok :: "ContextManager \<Rightarrow> mixedUnit \<Rightarrow> bool" where
  "unit_ok m u \<longleftrightarrow>
     (if must_fit u then mu_subject u = None else unit_fresh u \<or> unit_admitted m u \<or> unit_gone u) \<and> (mu_kind u \<noteq> unitChain \<longrightarrow> mu_anchors u = [])"

definition unit_shape :: "mixedUnit \<Rightarrow> mixedUnitKind \<times> Message list \<times> int \<times> bool \<times> _" where
  "unit_shape u = (mu_kind u, mu_msgs u, mu_baseTokens u, mu_keep u, map shape (mu_anchors u))"

definition admitted :: "mixedUnit \<Rightarrow> bool" where
  "admitted u \<longleftrightarrow> (case mu_subject u of Some s \<Rightarrow> ms_chosen s \<ge> 0 | None \<Rightarrow> True)"

definition unit_cost :: "mixedUnit \<Rightarrow> int" where
  "unit_cost u = (if admitted u then mu_baseTokens u + sum_list (map ma_tokens (mu_anchors u)) else 0)"

section \<open>One unit\<close>

lemma over_anchors_step:
  assumes "\<And>st a st' a'. a \<in> set as \<Longrightarrow> f st a = (st', a') \<Longrightarrow> anchor_step m st a st' a' \<and> Q a'"
    and "over_anchors f st as = (st', as')"
  shows "map shape as' = map shape as \<and> (\<forall>a \<in> set as'. anchor_ok m a \<and> Q a) \<and> al_budget st' = al_budget st \<and>
    (\<forall>c. ledger st (c + sum_list (map ma_tokens as)) \<longrightarrow> ledger st' (c + sum_list (map ma_tokens as')))"
  using assms
proof (induction as arbitrary: st as')
  case (Cons a as)
  obtain st1 a1 where f: "f st a = (st1, a1)" by (metis surj_pair)
  obtain as1 where o: "over_anchors f st1 as = (st', as1)" "as' = a1 # as1" using Cons.prems(2) f by (auto split: prod.splits)
  have s: "anchor_step m st a st1 a1" "Q a1" using Cons.prems(1) [OF _ f] by auto
  note ih = Cons.IH [OF Cons.prems(1) o(1)]
  show ?case
  proof (intro conjI allI impI)
    fix c assume "ledger st (c + sum_list (map ma_tokens (a # as)))"
    then have "ledger st ((c + sum_list (map ma_tokens as)) + ma_tokens a)" by (simp add: algebra_simps)
    then have "ledger st1 ((c + sum_list (map ma_tokens as)) + ma_tokens a1)" using s(1) unfolding anchor_step_def by blast
    then have "ledger st1 ((c + ma_tokens a1) + sum_list (map ma_tokens as))" by (simp add: algebra_simps)
    then have "ledger st' ((c + ma_tokens a1) + sum_list (map ma_tokens as1))" using ih by simp
    then show "ledger st' (c + sum_list (map ma_tokens as'))" using o(2) by (simp add: algebra_simps)
  qed (use ih s o in \<open>auto simp: anchor_step_def\<close>)
qed simp

lemma chain_base_sum: "chain_base b as = (n, True) \<Longrightarrow> n = b + sum_list (map ma_tokens as)"
proof (induction as arbitrary: b)
  case (Cons a as)
  let ?f = "\<lambda>(base, baseOK) a. case checkedTokenAdd base (ma_tokens a) of (base, ok) \<Rightarrow> (base, ok \<and> baseOK)"
  have stuck: "snd (foldl ?f (x, False) ys) = False" for x ys
    by (induction ys arbitrary: x) (auto split: prod.split)
  obtain b' ok where c: "checkedTokenAdd b (ma_tokens a) = (b', ok)" by (metis surj_pair)
  have r: "foldl ?f (b', ok) as = (n, True)" using Cons.prems unfolding chain_base_def foldl.simps by (simp only: c split_conv simp_thms)
  have ok: ok using r stuck [of b' as] by (cases ok) simp_all
  have "n = b' + sum_list (map ma_tokens as)" using r ok by (intro Cons.IH) (simp add: chain_base_def)
  then show ?case using checkedTokenAdd_ok [of b "ma_tokens a" b'] c ok by simp
qed (simp add: chain_base_def)

lemma precharge_ok:
  assumes "anchor_fresh a" "go_len omittedObservation \<le> ma_cap a"
  shows "anchor_ok m (precharge m a)" "shape (precharge m a) = shape a" "ma_subjects (precharge m a) = ma_subjects a"
proof -
  have n: "filter (\<lambda>s. 0 \<le> ms_chosen s) (ma_subjects a) = []" using assms(1) by (auto simp: anchor_fresh_def fresh_def filter_empty_conv)
  have "map chosen_verbatim (ma_subjects a) = map (\<lambda>_. 0) (ma_subjects a)" using assms(1) by (auto simp: anchor_fresh_def fresh_def chosen_verbatim_def)
  from arg_cong [OF this, of sum_list] have "sum_list (map chosen_verbatim (ma_subjects a)) = 0" by (simp del: map_eq_conv)
  then show "anchor_ok m (precharge m a)"
    using assms n by (auto simp: anchor_ok_def precharge_def anchorJoined_def memo_ok_def anchor_fresh_def fresh_def subject_ok_def)
  show "shape (precharge m a) = shape a" "ma_subjects (precharge m a) = ma_subjects a" by (simp_all add: precharge_def shape_def)
qed

lemma anchor_settled_step:
  assumes "anchor_ok m a" "\<forall>s \<in> set (ma_subjects a). (fresh s \<or> taken s) \<and> ms_alts s \<noteq> []" "base_pass m (all_positions a) st a = (st', a')"
  shows "anchor_step m st a st' a' \<and> (\<forall>s \<in> set (ma_subjects a'). decided s \<and> ms_alts s \<noteq> [])"
proof -
  have "set (all_positions a) \<subseteq> {..<length (ma_subjects a)}" "\<forall>s \<in> set (ma_subjects a). (fresh s \<or> decided s) \<and> ms_alts s \<noteq> []"
    using assms(2) by (auto simp: all_positions_def)
  from base_pass_step [OF assms(1) this assms(3)]
  have b: "anchor_step m st a st' a'" "\<And>j. j < length (ma_subjects a) \<Longrightarrow> decided (ma_subjects a' ! j)"
    by (auto simp: all_positions_def)
  then have sh: "shape a' = shape a" by (simp add: anchor_step_def)
  show ?thesis
  proof (intro conjI ballI b(1))
    fix s assume "s \<in> set (ma_subjects a')"
    then obtain j where "j < length (ma_subjects a)" "s = ma_subjects a' ! j" using shape_length [OF sh] by (metis in_set_conv_nth)
    then show "decided s" "ms_alts s \<noteq> []" using b(2) shape_alts [OF sh] assms(2) nth_mem by auto
  qed
qed

lemma unit_subject_taken: "fresh s \<Longrightarrow> taken (s\<lparr>ms_chosen := 0, ms_decision := DecisionBase\<rparr>)"
  by (simp add: fresh_def taken_def)

lemma unit_subject_gone: "fresh s \<Longrightarrow> gone (omitSubject OmitChainEvicted s)"
  by (simp add: fresh_def gone_def omitSubject_def)

definition chain_passes :: "ContextManager \<Rightarrow> mixedAllocState \<Rightarrow> mixedAnchor list \<Rightarrow> mixedAllocState \<times> mixedAnchor list" where
  "chain_passes m st as =
     (case over_anchors (\<lambda>st a. if ma_minVerbatim a \<le> 0 then (st, a) else floor_pass m (all_positions a) st a) st as of
        (st, as) \<Rightarrow> over_anchors (\<lambda>st a. base_pass m (all_positions a) st a) st as)"

lemma chain_passes_step:
  assumes "\<forall>a \<in> set as. anchor_ok m a \<and> (\<forall>s \<in> set (ma_subjects a). fresh s \<and> ms_alts s \<noteq> [])" "chain_passes m st as = (st', as')"
  shows "map shape as' = map shape as \<and> (\<forall>a \<in> set as'. anchor_settled m a) \<and> al_budget st' = al_budget st \<and>
    (\<forall>c. ledger st (c + sum_list (map ma_tokens as)) \<longrightarrow> ledger st' (c + sum_list (map ma_tokens as')))"
proof -
  let ?f = "\<lambda>st a. if ma_minVerbatim a \<le> 0 then (st, a) else floor_pass m (all_positions a) st a"
  obtain st1 as1 where o: "over_anchors ?f st as = (st1, as1)" by (rule prod.exhaust)
  have ok: "a \<in> set as \<Longrightarrow> anchor_ok m a" "a \<in> set as \<Longrightarrow> s \<in> set (ma_subjects a) \<Longrightarrow> fresh s" "a \<in> set as \<Longrightarrow> s \<in> set (ma_subjects a) \<Longrightarrow> ms_alts s \<noteq> []" for a s
    using assms(1) by blast+
  let ?Q = "\<lambda>a. \<forall>s \<in> set (ma_subjects a). (fresh s \<or> taken s) \<and> ms_alts s \<noteq> []"
  have "anchor_step m st a st' a' \<and> ?Q a'" if "a \<in> set as" "?f st a = (st', a')" for st a st' a'
  proof (cases "ma_minVerbatim a \<le> 0")
    case True
    then show ?thesis using that ok(1,2,3) [OF that(1)] by (simp add: anchor_step_refl)
  next
    case False
    then have "floor_pass m (all_positions a) st a = (st', a')" using that(2) by simp
    moreover have "set (all_positions a) \<subseteq> {..<length (ma_subjects a)}" by (auto simp: all_positions_def)
    moreover have "\<forall>s \<in> set (ma_subjects a). fresh s \<or> taken s" using ok(2) [OF that(1)] by simp
    ultimately have f: "anchor_step m st a st' a'" "\<forall>s \<in> set (ma_subjects a'). fresh s \<or> taken s"
      using floor_pass_step [OF ok(1) [OF that(1)]] by blast+
    then have sh: "shape a' = shape a" by (simp add: anchor_step_def)
    have "ms_alts s \<noteq> []" if s: "s \<in> set (ma_subjects a')" for s
    proof -
      obtain j where "j < length (ma_subjects a)" "s = ma_subjects a' ! j" using s shape_length [OF sh] by (metis in_set_conv_nth)
      then show ?thesis using shape_alts [OF sh] ok(3) [OF \<open>a \<in> set as\<close> nth_mem] by simp
    qed
    then show ?thesis using f by blast
  qed
  from over_anchors_step [where Q = ?Q, OF this o]
  have one: "map shape as1 = map shape as" "\<And>a. a \<in> set as1 \<Longrightarrow> anchor_ok m a \<and> ?Q a" "al_budget st1 = al_budget st"
    "\<And>c. ledger st (c + sum_list (map ma_tokens as)) \<Longrightarrow> ledger st1 (c + sum_list (map ma_tokens as1))" by blast+
  have "over_anchors (\<lambda>st a. base_pass m (all_positions a) st a) st1 as1 = (st', as')" using assms(2) o by (simp add: chain_passes_def)
  from over_anchors_step [OF _ this, of m "\<lambda>a. \<forall>s \<in> set (ma_subjects a). decided s \<and> ms_alts s \<noteq> []"]
  have "map shape as' = map shape as1 \<and> (\<forall>a \<in> set as'. anchor_ok m a \<and> (\<forall>s \<in> set (ma_subjects a). decided s \<and> ms_alts s \<noteq> [])) \<and> al_budget st' = al_budget st1 \<and>
    (\<forall>c. ledger st1 (c + sum_list (map ma_tokens as1)) \<longrightarrow> ledger st' (c + sum_list (map ma_tokens as')))"
    using one(2) anchor_settled_step by blast
  then show ?thesis using one(1,3,4) by (simp add: anchor_settled_def)
qed

lemma allocateChain_passes:
  "allocateChain m st u =
     (let capViolated = (\<exists>a \<in> set (mu_anchors u). go_len omittedObservation > ma_cap a);
          as = map (precharge m) (mu_anchors u);
          (base, baseOK) = chain_base (mu_baseTokens u) as;
          (ok, st) = (if capViolated \<or> \<not> baseOK then (False, st) else fits base st)
      in if \<not> ok
         then let st = (if \<not> baseOK then st\<lparr>al_used := base, al_arithmeticOverflow := True\<rparr> else st)
              in (st\<lparr>al_evictedGroups := al_evictedGroups st + 1\<rparr>, evict_chain (u\<lparr>mu_anchors := as\<rparr>))
         else case chain_passes m (snd (charge base st)) as of (st, as) \<Rightarrow>
                (st, u\<lparr>mu_anchors := as, mu_subject := map_option (\<lambda>s. s\<lparr>ms_chosen := 0, ms_decision := DecisionBase\<rparr>) (mu_subject u)\<rparr>))"
  by (simp add: allocateChain_def chain_passes_def Let_def split: prod.split)

text \<open>A unit that has not been touched is admitted, at its cost, or left out at no cost.\<close>

definition unit_step :: "ContextManager \<Rightarrow> mixedAllocState \<Rightarrow> mixedUnit \<Rightarrow> mixedAllocState \<Rightarrow> mixedUnit \<Rightarrow> bool" where
  "unit_step m st u st' u' \<longleftrightarrow>
     unit_shape u' = unit_shape u \<and> (unit_admitted m u' \<or> unit_gone u') \<and> al_budget st' = al_budget st \<and> (\<forall>c. ledger st c \<longrightarrow> ledger st' (c + unit_cost u'))"

lemma fits_budget: "fits t st = (ok, st') \<Longrightarrow> al_budget st' = al_budget st" "al_budget (snd (charge t st)) = al_budget st"
  by (auto simp: fits_def charge_def split: prod.splits if_splits)

lemma admitSpan_step:
  assumes "mu_subject u = Some s" "fresh s" "\<not> mu_evicted u" "mu_anchors u = []" "mu_kind u \<noteq> unitChain" "admitSpan st u = (st', u')"
  shows "unit_step m st u st' u'"
proof -
  obtain ok st1 where f: "fits (mu_baseTokens u) st = (ok, st1)" by (rule prod.exhaust)
  show ?thesis
  proof (cases ok)
    case True
    then have u: "u' = u\<lparr>mu_subject := Some (s\<lparr>ms_chosen := 0, ms_decision := DecisionBase\<rparr>)\<rparr>" "st' = snd (charge (mu_baseTokens u) st1)"
      using assms f by (auto simp: admitSpan_def)
    then have "unit_cost u' = mu_baseTokens u" using assms(4) by (simp add: unit_cost_def admitted_def)
    moreover have "unit_admitted m u'" using assms u unit_subject_taken [of s] by (simp add: unit_admitted_def)
    ultimately show ?thesis using u f True ledger_fits(3,4) [OF _ f] fits_budget(1) [OF f] by (auto simp: unit_step_def unit_shape_def fits_budget(2))
  next
    case False
    then have u: "u' = u\<lparr>mu_subject := Some (omitSubject OmitTokenBudget s)\<rparr>" "st' = st1\<lparr>al_evictedGroups := al_evictedGroups st1 + 1\<rparr>"
      using assms f by (auto simp: admitSpan_def)
    then have "unit_cost u' = 0" using assms(2) by (simp add: unit_cost_def admitted_def omitSubject_def fresh_def)
    moreover have "unit_gone u'" using assms u by (auto simp: unit_gone_def left_out_def omitSubject_def fresh_def)
    ultimately show ?thesis using u f ledger_fits(1) [OF _ f] fits_budget(1) [OF f] by (simp add: unit_step_def unit_shape_def)
  qed
qed

lemma evict_chain_gone:
  assumes "mu_subject u = Some s" "fresh s" "\<forall>a \<in> set (mu_anchors u). \<forall>s \<in> set (ma_subjects a). fresh s" "mu_kind u = unitChain"
  shows "unit_gone (evict_chain u)" "unit_cost (evict_chain u) = 0" "unit_shape (evict_chain u) = unit_shape u"
proof -
  show "unit_gone (evict_chain u)" using assms unit_subject_gone by (auto simp: evict_chain_def unit_gone_def)
  show "unit_cost (evict_chain u) = 0" using assms(1,2) by (simp add: evict_chain_def unit_cost_def admitted_def omitSubject_def fresh_def)
  show "unit_shape (evict_chain u) = unit_shape u" by (simp add: evict_chain_def unit_shape_def shape_def omitSubject_def)
qed

lemma allocateChain_step:
  assumes "mu_subject u = Some s" "fresh s" "\<not> mu_evicted u" "\<forall>a \<in> set (mu_anchors u). anchor_fresh a" "mu_kind u = unitChain" "allocateChain m st u = (st', u')"
  shows "unit_step m st u st' u'"
proof -
  define as where "as = map (precharge m) (mu_anchors u)"
  define capViolated where "capViolated \<longleftrightarrow> (\<exists>a \<in> set (mu_anchors u). go_len omittedObservation > ma_cap a)"
  obtain base baseOK where b: "chain_base (mu_baseTokens u) as = (base, baseOK)" by (rule prod.exhaust)
  obtain ok st1 where f: "(if capViolated \<or> \<not> baseOK then (False, st) else fits base st) = (ok, st1)" by (rule prod.exhaust)
  have sh: "map shape as = map shape (mu_anchors u)" by (simp add: as_def precharge_def shape_def)
  have fr: "\<forall>a \<in> set as. \<forall>s \<in> set (ma_subjects a). fresh s \<and> ms_alts s \<noteq> []" using assms(4) by (auto simp: as_def precharge_def anchor_fresh_def)
  have l1: "ledger st c \<Longrightarrow> ledger st1 c" for c using f ledger_fits(1) [of st c base ok st1] by (auto split: if_splits)
  have b1: "al_budget st1 = al_budget st" using f fits_budget(1) [of base st ok st1] by (auto split: if_splits)
  show ?thesis
  proof (cases ok)
    case False
    then have u: "u' = evict_chain (u\<lparr>mu_anchors := as\<rparr>)"
        "st' = (if baseOK then st1 else st1\<lparr>al_used := base, al_arithmeticOverflow := True\<rparr>)\<lparr>al_evictedGroups := al_evictedGroups st1 + 1\<rparr>"
      using assms(6) b f unfolding allocateChain_passes as_def [symmetric] capViolated_def [symmetric] by (auto simp: Let_def)
    show ?thesis using evict_chain_gone [of "u\<lparr>mu_anchors := as\<rparr>" s] assms fr l1 b1 sh u by (auto simp: unit_step_def unit_shape_def ledger_def)
  next
    case True
    then have t: "baseOK" "\<not> capViolated" "fits base st = (True, st1)" using f by (auto split: if_splits)
    obtain st2 as2 where p: "chain_passes m (snd (charge base st1)) as = (st2, as2)" by (rule prod.exhaust)
    have u: "st' = st2" "u' = u\<lparr>mu_anchors := as2, mu_subject := Some (s\<lparr>ms_chosen := 0, ms_decision := DecisionBase\<rparr>)\<rparr>"
      using assms(1,6) b f True p unfolding allocateChain_passes as_def [symmetric] capViolated_def [symmetric] by (auto simp: Let_def)
    have "\<forall>a \<in> set as. anchor_ok m a" using precharge_ok(1) assms(4) t(2) by (fastforce simp: as_def capViolated_def)
    then have ps: "map shape as2 = map shape as" "\<forall>a \<in> set as2. anchor_settled m a" "al_budget st2 = al_budget st"
        "\<And>c. ledger (snd (charge base st1)) (c + sum_list (map ma_tokens as)) \<Longrightarrow> ledger st2 (c + sum_list (map ma_tokens as2))"
      using chain_passes_step [OF _ p] fr b1 by (auto simp: fits_budget)
    have base: "base = mu_baseTokens u + sum_list (map ma_tokens as)" using chain_base_sum b t(1) by simp
    have "ledger st2 (c + unit_cost u')" if "ledger st c" for c
    proof -
      have "ledger (snd (charge base st1)) ((c + mu_baseTokens u) + sum_list (map ma_tokens as))"
        using ledger_fits(3) [OF that t(3)] base by (simp add: algebra_simps)
      from ps(4) [OF this] show ?thesis using u(2) by (simp add: unit_cost_def admitted_def algebra_simps)
    qed
    moreover have "unit_admitted m u'" using u(2) unit_subject_taken [OF assms(2)] ps(2) assms(3) by (simp add: unit_admitted_def)
    moreover have "unit_shape u' = unit_shape u" using u(2) ps(1) sh by (simp add: unit_shape_def)
    ultimately show ?thesis using u ps(3) by (simp add: unit_step_def)
  qed
qed

lemma allocate_unit_step:
  assumes "unit_fresh u" "mu_kind u \<noteq> unitChain \<longrightarrow> mu_anchors u = []" "allocate_unit m st u = (st', u')"
  shows "unit_step m st u st' u'"
  using assms admitSpan_step [of u _ st st' u' m] allocateChain_step [of u _ m st st' u'] by (auto simp: allocate_unit_def unit_fresh_def split: if_splits)

end
