(* ===== verification/Mixed_Passes.thy ===== *)
theory Mixed_Passes
  imports Mixed_Ledger
begin

text \<open>
  The passes of the allocator over all units: the admission lanes, the retries and the upgrades. Each moves the ledger by exactly what it changes in the cost of the units, and
  every accepted choice of the two loops uses up slack, so that they end.
\<close>

definition total :: "mixedUnit list \<Rightarrow> int" where
  "total us = sum_list (map unit_cost us)"

lemma total_simps [simp]: "total [] = 0" "total (u # us) = unit_cost u + total us"
  by (simp_all add: total_def)

lemma fresh_cost: "unit_fresh u \<Longrightarrow> unit_cost u = 0"
  by (auto simp: unit_fresh_def unit_cost_def admitted_def fresh_def)

section \<open>Admission\<close>

definition lane_step :: "ContextManager \<Rightarrow> (mixedUnit \<Rightarrow> bool) \<Rightarrow> mixedAllocState \<Rightarrow> mixedUnit list \<Rightarrow> mixedAllocState \<Rightarrow> mixedUnit list \<Rightarrow> bool" where
  "lane_step m P st us st' us' \<longleftrightarrow>
     list_all2 (\<lambda>u u'. if P u then unit_shape u' = unit_shape u \<and> (unit_admitted m u' \<or> unit_gone u') else u' = u) us us' \<and>
     al_budget st' = al_budget st \<and> (\<forall>c. ledger st (c + total us) \<longrightarrow> ledger st' (c + total us'))"

definition admissible :: "(mixedUnit \<Rightarrow> bool) \<Rightarrow> mixedUnit \<Rightarrow> bool" where
  "admissible P u \<longleftrightarrow> (P u \<longrightarrow> unit_fresh u \<and> (mu_kind u \<noteq> unitChain \<longrightarrow> mu_anchors u = []))"

lemma lane_step_skip: "\<not> P u \<Longrightarrow> lane_step m P st us st' us' \<Longrightarrow> lane_step m P st (u # us) st' (u # us')"
  by (auto simp: lane_step_def add.assoc [symmetric])

lemma admit_lane_step:
  "\<forall>u \<in> set us. admissible P u \<Longrightarrow> admit_lane m P st us = (st', us') \<Longrightarrow> lane_step m P st us st' us'"
proof (induction us arbitrary: st' us')
  case (Cons u us)
  obtain st1 us1 where r: "admit_lane m P st us = (st1, us1)" by (rule prod.exhaust)
  have ih: "lane_step m P st us st1 us1" using Cons r by simp
  show ?case
  proof (cases "P u")
    case True
    obtain u1 where a: "allocate_unit m st1 u = (st', u1)" "us' = u1 # us1" using Cons.prems(2) r True by (auto split: prod.splits)
    have f: "unit_fresh u" "mu_kind u \<noteq> unitChain \<longrightarrow> mu_anchors u = []" using Cons.prems(1) True by (simp_all add: admissible_def)
    note s = allocate_unit_step [OF f a(1), unfolded unit_step_def]
    have "ledger st' (c + total us')" if "ledger st (c + total (u # us))" for c
    proof -
      have "ledger st1 (c + total us1)" using ih that fresh_cost [OF f(1)] by (simp add: lane_step_def)
      then have "ledger st' (c + total us1 + unit_cost u1)" using s by blast
      then show ?thesis using a(2) by (simp add: algebra_simps)
    qed
    then show ?thesis using s ih a(2) True by (simp add: lane_step_def)
  next
    case False
    then show ?thesis using lane_step_skip [OF _ ih] Cons.prems(2) r by auto
  qed
qed (simp add: lane_step_def)

lemma admit_kept_step:
  "\<forall>u \<in> set us. admissible mu_keep u \<Longrightarrow> admit_kept m st us = (True, st', us') \<Longrightarrow> lane_step m mu_keep st us st' us'"
proof (induction us arbitrary: st us')
  case (Cons u us)
  show ?case
  proof (cases "mu_keep u")
    case True
    obtain st1 u1 where a: "allocate_unit m st u = (st1, u1)" by (rule prod.exhaust)
    obtain us1 where r: "admit_kept m st1 us = (True, st', us1)" "us' = u1 # us1"
      using Cons.prems(2) a True by (auto split: prod.splits if_splits)
    have f: "unit_fresh u" "mu_kind u \<noteq> unitChain \<longrightarrow> mu_anchors u = []" using Cons.prems(1) True by (simp_all add: admissible_def)
    note s = allocate_unit_step [OF f a, unfolded unit_step_def]
    have ih: "lane_step m mu_keep st1 us st' us1" using Cons r(1) by simp
    have "ledger st' (c + total us')" if "ledger st (c + total (u # us))" for c
    proof -
      have "ledger st1 (c + total us + unit_cost u1)" using s that fresh_cost [OF f(1)] by simp
      then have "ledger st1 ((c + unit_cost u1) + total us)" by (simp add: algebra_simps)
      then have "ledger st' ((c + unit_cost u1) + total us1)" using ih by (simp add: lane_step_def)
      then show ?thesis using r(2) by (simp add: algebra_simps)
    qed
    then show ?thesis using s ih r(2) True by (simp add: lane_step_def)
  next
    case False
    obtain us1 where r: "admit_kept m st us = (True, st', us1)" "us' = u # us1" using Cons.prems(2) False by (auto split: prod.splits if_splits)
    have "lane_step m mu_keep st us st' us1" using Cons r(1) by simp
    then show ?thesis using lane_step_skip [of mu_keep, OF False] r(2) by simp
  qed
qed (simp add: lane_step_def)

section \<open>Settled units\<close>

definition unit_settled :: "ContextManager \<Rightarrow> mixedUnit \<Rightarrow> bool" where
  "unit_settled m u \<longleftrightarrow> (if must_fit u then mu_subject u = None else unit_admitted m u \<or> unit_gone u) \<and> (mu_kind u \<noteq> unitChain \<longrightarrow> mu_anchors u = [])"

definition layout :: "mixedUnit list \<Rightarrow> _" where
  "layout us = map (\<lambda>u. (unit_shape u, mu_evicted u, mu_subject u)) us"

definition units_slack :: "mixedUnit list \<Rightarrow> nat" where
  "units_slack us = sum_list (map (\<lambda>u. sum_list (map slack (mu_anchors u))) us)"

definition units_step :: "ContextManager \<Rightarrow> mixedAllocState \<Rightarrow> mixedUnit list \<Rightarrow> mixedAllocState \<Rightarrow> mixedUnit list \<Rightarrow> bool" where
  "units_step m st us st' us' \<longleftrightarrow>
     layout us' = layout us \<and> (\<forall>u \<in> set us'. unit_settled m u) \<and> al_budget st' = al_budget st \<and> (\<forall>c. ledger st (c + total us) \<longrightarrow> ledger st' (c + total us'))"

lemma units_step_refl: "\<forall>u \<in> set us. unit_settled m u \<Longrightarrow> units_step m st us st us"
  by (simp add: units_step_def)

lemma units_step_trans: "units_step m st us st1 us1 \<Longrightarrow> units_step m st1 us1 st2 us2 \<Longrightarrow> units_step m st us st2 us2"
  by (simp add: units_step_def)

text \<open>A position names a subject of a chain that was admitted.\<close>

fun valid_pos :: "mixedUnit list \<Rightarrow> position \<Rightarrow> bool" where
  "valid_pos us (i, j, k) \<longleftrightarrow>
     i < length us \<and> mu_kind (us ! i) = unitChain \<and> \<not> mu_evicted (us ! i) \<and> j < length (mu_anchors (us ! i)) \<and> k < length (ma_subjects (anchor_at us i j))"

lemma valid_positions: "p \<in> set (positions us) \<union> set (positions_newest us) \<Longrightarrow> valid_pos us p"
  by (auto simp: positions_def positions_newest_def unit_positions_def all_positions_def split: if_splits)

lemma layout_nth:
  assumes "layout us' = layout us" "i < length us"
  shows "length us' = length us" "unit_shape (us' ! i) = unit_shape (us ! i)" "mu_evicted (us' ! i) = mu_evicted (us ! i)"
proof -
  show l: "length us' = length us" using assms(1) unfolding layout_def by (rule map_eq_imp_length_eq)
  show "unit_shape (us' ! i) = unit_shape (us ! i)" "mu_evicted (us' ! i) = mu_evicted (us ! i)"
    using map_eq_nth [OF assms(1) [unfolded layout_def], of i] assms(2) l by auto
qed

lemma unit_shape_anchor:
  assumes "unit_shape u' = unit_shape u"
  shows "length (mu_anchors u') = length (mu_anchors u)" "j < length (mu_anchors u) \<Longrightarrow> shape (mu_anchors u' ! j) = shape (mu_anchors u ! j)" "mu_kind u' = mu_kind u"
proof -
  have m: "map shape (mu_anchors u') = map shape (mu_anchors u)" using assms by (simp add: unit_shape_def)
  show l: "length (mu_anchors u') = length (mu_anchors u)" using m by (rule map_eq_imp_length_eq)
  show "j < length (mu_anchors u) \<Longrightarrow> shape (mu_anchors u' ! j) = shape (mu_anchors u ! j)" using map_eq_nth [OF m] l by simp
  show "mu_kind u' = mu_kind u" using assms by (simp add: unit_shape_def)
qed

lemma valid_pos_layout:
  assumes "layout us' = layout us" "valid_pos us p"
  shows "valid_pos us' p"
proof -
  obtain i j k where p: "p = (i, j, k)" by (rule prod_cases3)
  then have i: "i < length us" "j < length (mu_anchors (us ! i))" using assms(2) by simp_all
  note l = layout_nth [OF assms(1) i(1)]
  note u = unit_shape_anchor(1,3) [OF l(2)] unit_shape_anchor(2) [OF l(2) i(2)]
  show ?thesis using assms(2) p l u shape_length [OF u(3)] by (simp add: anchor_at_def)
qed

lemma valid_pos_settled:
  assumes "valid_pos us (i, j, k)" "\<forall>u \<in> set us. unit_settled m u"
  shows "unit_admitted m (us ! i)" "anchor_settled m (anchor_at us i j)" "anchor_ok m (anchor_at us i j)" "admitted (us ! i)"
proof -
  have i: "i < length us" "mu_kind (us ! i) = unitChain" "\<not> mu_evicted (us ! i)" "j < length (mu_anchors (us ! i))" using assms(1) by simp_all
  then have "unit_settled m (us ! i)" using assms(2) by simp
  then show a: "unit_admitted m (us ! i)" using i by (auto simp: unit_settled_def must_fit_def unit_gone_def split: if_splits)
  show "anchor_settled m (anchor_at us i j)" using a i(4) by (simp add: unit_admitted_def anchor_at_def)
  then show "anchor_ok m (anchor_at us i j)" by (simp add: anchor_settled_def)
  show "admitted (us ! i)" using a by (auto simp: unit_admitted_def admitted_def taken_def)
qed

lemma int_sum_update: "k < length xs \<Longrightarrow> int (sum_list (xs[k := x])) = int (sum_list xs) + int x - int (xs ! k)"
  by (induction xs arbitrary: k) (auto split: nat.splits)

lemma put_anchor_step:
  assumes v: "valid_pos us (i, j, k)" and s: "\<forall>u \<in> set us. unit_settled m u"
    and a: "anchor_step m st (anchor_at us i j) st' a'" "anchor_settled m a'"
  shows "units_step m st us st' (put_anchor i j a' us)"
    "int (units_slack (put_anchor i j a' us)) = int (units_slack us) + int (slack a') - int (slack (anchor_at us i j))"
    "anchor_at (put_anchor i j a' us) i' j' = (if i' = i \<and> j' = j then a' else anchor_at us i' j')"
proof -
  let ?u = "us ! i" and ?u' = "(us ! i)\<lparr>mu_anchors := (mu_anchors (us ! i))[j := a']\<rparr>"
  have i: "i < length us" "j < length (mu_anchors ?u)" using v by simp_all
  note ad = valid_pos_settled [OF v s]
  have sh: "shape a' = shape (anchor_at us i j)" using a(1) by (simp add: anchor_step_def)
  have us: "unit_shape ?u' = unit_shape ?u" using i(2) sh by (simp add: unit_shape_def map_update list_update_same_conv anchor_at_def)
  have "unit_admitted m ?u'" using ad(1) a(2) by (auto simp: unit_admitted_def dest!: set_update_subset_insert [THEN subsetD])
  moreover have "\<not> must_fit ?u'" "mu_kind ?u' = unitChain" using v by (simp_all add: must_fit_def)
  ultimately have "unit_settled m ?u'" by (simp add: unit_settled_def)
  then have set: "\<forall>u \<in> set (put_anchor i j a' us). unit_settled m u" using s by (auto simp: put_anchor_def dest!: set_update_subset_insert [THEN subsetD])
  have lay: "layout (put_anchor i j a' us) = layout us" using i(1) us by (simp add: layout_def put_anchor_def map_update list_update_same_conv)
  have "admitted ?u'" using ad(4) by (simp add: admitted_def)
  then have "unit_cost ?u' = unit_cost ?u + ma_tokens a' - ma_tokens (anchor_at us i j)"
    using ad(4) i(2) by (simp add: unit_cost_def map_update sum_list_update' anchor_at_def)
  then have tot: "total (put_anchor i j a' us) = total us + ma_tokens a' - ma_tokens (anchor_at us i j)"
    using i(1) by (simp add: total_def put_anchor_def map_update sum_list_update')
  have "ledger st' (c + total (put_anchor i j a' us))" if "ledger st (c + total us)" for c
  proof -
    have "ledger st ((c + total us - ma_tokens (anchor_at us i j)) + ma_tokens (anchor_at us i j))" using that by simp
    then have "ledger st' ((c + total us - ma_tokens (anchor_at us i j)) + ma_tokens a')" using a(1) unfolding anchor_step_def by blast
    then show ?thesis unfolding tot by (simp add: algebra_simps)
  qed
  then show "units_step m st us st' (put_anchor i j a' us)" using lay set a(1) by (simp add: units_step_def anchor_step_def)
  show "int (units_slack (put_anchor i j a' us)) = int (units_slack us) + int (slack a') - int (slack (anchor_at us i j))"
    using i by (simp add: units_slack_def put_anchor_def map_update int_sum_update anchor_at_def)
  show "anchor_at (put_anchor i j a' us) i' j' = (if i' = i \<and> j' = j then a' else anchor_at us i' j')"
    using i by (auto simp: put_anchor_def anchor_at_def nth_list_update)
qed

section \<open>Slack\<close>

lemma choice_slack:
  assumes "with_choice a k i d a'" "shape a' = shape a" "k < length (ma_subjects a)" "i < length (ms_alts (ma_subjects a ! k))"
    "ms_chosen (ma_subjects a ! k) < int i" "subject_ok (ma_subjects a ! k)"
  shows "slack a' < slack a"
proof -
  let ?f = "\<lambda>s. length (ms_alts s) - nat (ms_chosen s + 1)"
  note l = shape_length [OF assms(2)]
  have "map ?f (ma_subjects a') = (map ?f (ma_subjects a))[k := length (ms_alts (ma_subjects a ! k)) - Suc i]"
  proof (rule nth_equalityI)
    fix j assume "j < length (map ?f (ma_subjects a'))"
    then have j: "j < length (ma_subjects a)" using l by simp
    show "map ?f (ma_subjects a') ! j = (map ?f (ma_subjects a))[k := length (ms_alts (ma_subjects a ! k)) - Suc i] ! j"
      using j l with_choice_nth(1) [OF assms(1,3) j] shape_alts [OF assms(2) j] by (auto simp: nth_list_update nat_add_distrib)
  qed (simp add: l)
  then have "slack a' = sum_list ((map ?f (ma_subjects a))[k := length (ms_alts (ma_subjects a ! k)) - Suc i])" by (simp add: slack_def)
  also have "\<dots> = slack a + (length (ms_alts (ma_subjects a ! k)) - Suc i) - ?f (ma_subjects a ! k)"
    using assms(3) by (simp add: slack_def sum_list_update)
  moreover have "?f (ma_subjects a ! k) \<le> slack a" unfolding slack_def using assms(3) by (intro elem_le_sum_list [of k "map ?f (ma_subjects a)", simplified]) 
  moreover have "length (ms_alts (ma_subjects a ! k)) - Suc i < ?f (ma_subjects a ! k)" using assms(4-6) by (auto simp: subject_ok_def)
  ultimately show ?thesis by linarith
qed

text \<open>A choice moves an anchor on, and the units with it.\<close>

lemma flags_slack: "k < length (ma_subjects a) \<Longrightarrow> slack (set_flags k om d r a) = slack a"
  unfolding slack_def set_flags_def by (rule arg_cong [of _ _ sum_list]) (auto intro!: nth_equalityI simp: nth_list_update)

lemma settled_update:
  assumes "anchor_settled m a" "anchor_ok m a'" "shape a' = shape a" "k < length (ma_subjects a)" "decided (ma_subjects a' ! k)"
    "\<And>j. j < length (ma_subjects a) \<Longrightarrow> j \<noteq> k \<Longrightarrow> decided (ma_subjects a' ! j) = decided (ma_subjects a ! j)"
  shows "anchor_settled m a'"
  unfolding anchor_settled_def
proof (intro conjI ballI assms(2))
  fix s assume "s \<in> set (ma_subjects a')"
  then obtain j where j: "j < length (ma_subjects a)" "s = ma_subjects a' ! j" using shape_length [OF assms(3)] by (metis in_set_conv_nth)
  have "decided (ma_subjects a ! j)" "ms_alts (ma_subjects a ! j) \<noteq> []" using assms(1) nth_mem [OF j(1)] unfolding anchor_settled_def by blast+
  then show "decided s" "ms_alts s \<noteq> []" using j assms(5) assms(6) [OF j(1)] shape_alts [OF assms(3) j(1)] by (cases "j = k"; simp)+
qed

section \<open>Retries\<close>

lemma retry_anchor:
  assumes "anchor_settled m a" "k < length (ma_subjects a)" "ms_omitted (ma_subjects a ! k)"
    and t: "try_first m k DecisionBase [0..<length (ms_alts (ma_subjects a ! k))] st a = (ok, st', a')"
  defines "b \<equiv> (if ok then a'\<lparr>ma_subjects := (ma_subjects a')[k := (ma_subjects a' ! k)\<lparr>ms_omitted := False, ms_reason := []\<rparr>]\<rparr> else a')"
  shows "anchor_step m st a st' b" "anchor_settled m b" "if ok then slack b < slack a else b = a"
proof -
  have ok: "anchor_ok m a" and sk: "decided (ma_subjects a ! k)" "subject_ok (ma_subjects a ! k)"
    using assms(1) nth_mem [OF assms(2)] by (auto simp: anchor_settled_def anchor_ok_def)
  then have ck: "ms_chosen (ma_subjects a ! k) = - 1" using assms(3) by (auto simp: taken_def left_out_def)
  have "set [0..<length (ms_alts (ma_subjects a ! k))] \<subseteq> {..<length (ms_alts (ma_subjects a ! k))}" by auto
  note s = try_first_step [OF ok assms(2) this t]
  have "anchor_step m st a st' b \<and> anchor_settled m b \<and> (if ok then slack b < slack a else b = a)"
  proof (cases ok)
    case True
    then obtain i where i: "i < length (ms_alts (ma_subjects a ! k))" "with_choice a k i DecisionBase a'" using s by auto
    have a1: "anchor_step m st a st' a'" using s by simp
    then have sh: "anchor_ok m a'" "shape a' = shape a" by (simp_all add: anchor_step_def)
    have l: "length (ma_subjects a') = length (ma_subjects a)" by (rule shape_length [OF sh(2)])
    have bf: "b = set_flags k False (ms_decision (ma_subjects a' ! k)) [] a'" using True by (simp add: b_def set_flags_def)
    then have b2: "anchor_step m st' a' st' b" using set_flags_step [OF sh(1)] l assms(2) by simp
    have nth: "j < length (ma_subjects a) \<Longrightarrow> j \<noteq> k \<Longrightarrow> ma_subjects b ! j = ma_subjects a' ! j" for j by (simp add: bf set_flags_def)
    have "taken (ma_subjects b ! k)" using assms(2) l with_choice_nth [OF i(2) assms(2) assms(2)] by (simp add: bf set_flags_def taken_def)
    moreover have "decided (ma_subjects b ! j) = decided (ma_subjects a ! j)" if "j < length (ma_subjects a)" "j \<noteq> k" for j
      using with_choice_status(2) [OF i(2) assms(2) that(1)] that nth by simp
    moreover have "anchor_ok m b" "shape b = shape a" using b2 sh by (simp_all add: anchor_step_def)
    ultimately have "anchor_settled m b" using settled_update [OF assms(1) _ _ assms(2)] by blast
    moreover have "slack b < slack a" using choice_slack [OF i(2) sh(2) assms(2) i(1) _ sk(2)] ck flags_slack [of k a'] l assms(2) by (simp add: bf)
    ultimately show ?thesis using anchor_step_trans [OF a1 b2] True by simp
  next
    case False
    then show ?thesis using s assms(1) by (auto simp: b_def)
  qed
  then show "anchor_step m st a st' b" "anchor_settled m b" "if ok then slack b < slack a else b = a" by simp_all
qed

lemma put_same: "valid_pos us (i, j, k) \<Longrightarrow> put_anchor i j (anchor_at us i j) us = us"
  by (simp add: put_anchor_def anchor_at_def)

lemma retry_sweep_step:
  "\<forall>p \<in> set ps. valid_pos us p \<Longrightarrow> \<forall>u \<in> set us. unit_settled m u \<Longrightarrow> retry_sweep m ps g st us = (g', st', us') \<Longrightarrow>
   units_step m st us st' us' \<and> units_slack us' \<le> units_slack us \<and> (g' \<longrightarrow> g \<or> units_slack us' < units_slack us)"
proof (induction m ps g st us rule: retry_sweep.induct)
  case (2 m i j k ps progress st us)
  let ?a = "anchor_at us i j"
  have v: "valid_pos us (i, j, k)" using 2(4) by simp
  show ?case
  proof (cases "\<not> ms_omitted (ma_subjects ?a ! k) \<or> ms_reason (ma_subjects ?a ! k) = OmitChainEvicted")
    case True
    then show ?thesis using 2(1) [OF True] 2(4-6) by simp
  next
    case False
    obtain ok st1 a1 where t: "try_first m k DecisionBase [0..<length (ms_alts (ma_subjects ?a ! k))] st ?a = (ok, st1, a1)" by (rule prod_cases3)
    define b where "b = (if ok then a1\<lparr>ma_subjects := (ma_subjects a1)[k := (ma_subjects a1 ! k)\<lparr>ms_omitted := False, ms_reason := []\<rparr>]\<rparr> else a1)"
    define st2 where "st2 = (if ok then st1\<lparr>al_anchorOmissions := al_anchorOmissions st1 - 1\<rparr> else st1)"
    have k: "k < length (ma_subjects ?a)" using v by simp
    have om: "ms_omitted (ma_subjects ?a ! k)" using False by simp
    note r = retry_anchor [OF valid_pos_settled(2) [OF v 2(5)] k om t, folded b_def]
    have st: "anchor_step m st ?a st2 b" using r(1) by (simp add: st2_def anchor_step_def)
    note pa = put_anchor_step [OF v 2(5) st r(2)]
    have nx: "retry_sweep m ps (progress \<or> ok) st2 (put_anchor i j b us) = (g', st', us')"
      using 2(6) False t r(3) put_same [OF v] by (auto simp: b_def st2_def split: if_splits)
    have lay: "layout (put_anchor i j b us) = layout us" "\<forall>u \<in> set (put_anchor i j b us). unit_settled m u" using pa(1) by (simp_all add: units_step_def)
    have vs: "\<forall>p \<in> set ps. valid_pos (put_anchor i j b us) p" using 2(4) valid_pos_layout [OF lay(1)] by simp
    have ih: "units_step m st2 (put_anchor i j b us) st' us' \<and> units_slack us' \<le> units_slack (put_anchor i j b us) \<and>
        (g' \<longrightarrow> (progress \<or> ok) \<or> units_slack us' < units_slack (put_anchor i j b us))"
    proof (cases ok)
      case True
      then show ?thesis using 2(2) [OF False t [symmetric] refl True] vs lay(2) nx by (simp add: b_def st2_def)
    next
      case f: False
      then show ?thesis using 2(3) [OF False t [symmetric] refl f] 2(4,5) nx r(3) put_same [OF v] by (simp add: st2_def)
    qed
    have "units_slack (put_anchor i j b us) \<le> units_slack us" "ok \<Longrightarrow> units_slack (put_anchor i j b us) < units_slack us"
      using pa(2) r(3) by (auto split: if_splits)
    then show ?thesis using ih units_step_trans [OF pa(1)] by (auto intro: less_le_trans le_less_trans order_trans)
  qed
qed (simp add: units_step_refl)

lemma retryOmitted_returns:
  "\<forall>u \<in> set us. unit_settled m u \<Longrightarrow> \<exists>st' us'. retryOmitted m st us = Some (st', us') \<and> units_step m st us st' us' \<and> units_slack us' \<le> units_slack us"
proof (induction "units_slack us" arbitrary: st us rule: less_induct)
  case less
  obtain g st1 us1 where r: "retry_sweep m (positions_newest us) False st us = (g, st1, us1)" by (rule prod_cases3)
  have "\<forall>p \<in> set (positions_newest us). valid_pos us p" using valid_positions by blast
  note s = retry_sweep_step [OF this less.prems r]
  show ?case
  proof (cases g)
    case True
    then have "units_slack us1 < units_slack us" "\<forall>u \<in> set us1. unit_settled m u" using s by (auto simp: units_step_def)
    from less.hyps [OF this] obtain st' us' where "retryOmitted m st1 us1 = Some (st', us')" "units_step m st1 us1 st' us'" "units_slack us' \<le> units_slack us1" by blast
    then show ?thesis using r True s units_step_trans [of m st us st1 us1 st' us'] by (subst retryOmitted.simps) auto
  next
    case False
    then show ?thesis using r s by (subst retryOmitted.simps) auto
  qed
qed

section \<open>Upgrades\<close>

lemma upgradeCandidate_scan:
  assumes "anchor_ok m a" "k < length (ma_subjects a)" "upgradeCandidate m e k st a = (c, st', a')"
  shows "(c, st') = candidate_ref m e k [nat (ms_chosen (ma_subjects a ! k) + 1)..<length (ms_alts (ma_subjects a ! k))] st a" "anchor_ok m a'" "forget a' = forget a"
proof -
  let ?x = "nat (ms_chosen (ma_subjects a ! k) + 1)" and ?n = "length (ms_alts (ma_subjects a ! k))"
  have "subject_ok (ma_subjects a ! k)" using assms(1) nth_mem [OF assms(2)] by (auto simp: anchor_ok_def)
  then have "?x \<le> ?n" by (auto simp: subject_ok_def)
  then have m: "map ((+) ?x) [0..<?n - ?x] = [?x..<?n]" by (intro nth_equalityI) auto
  have "candidate_scan m e k [0..<?n - ?x] st a = (c, st', a')" using assms(3) by (simp add: upgradeCandidate_def Let_def)
  from candidate_scan_ref [OF assms(1,2) _ this]
  show "(c, st') = candidate_ref m e k [?x..<?n] st a" "anchor_ok m a'" "forget a' = forget a" unfolding m by simp_all
qed

lemma candidate_ref_result:
  "candidate_ref m e k is st a = (c, st') \<Longrightarrow>
   (\<forall>n d. c = Some (n, d) \<longrightarrow> n \<in> set is) \<and> al_budget st' = al_budget st \<and> (\<forall>x. ledger st x \<longrightarrow> ledger st' x)"
proof (induction "is" arbitrary: st)
  case (Cons i "is")
  obtain ok st1 where f: "fits (uc_dTok (price_candidate m a k i)) st = (ok, st1)" by (rule prod.exhaust)
  have "al_budget st1 = al_budget st" "ledger st x \<Longrightarrow> ledger st1 x" for x using fits_budget(1) [OF f] ledger_fits(1) [OF _ f] by simp_all
  then show ?case using Cons.prems f Cons.IH [of st] Cons.IH [of st1] by (auto split: if_splits)
qed simp

lemma forget_settled:
  assumes "anchor_settled m a" "anchor_ok m b" "forget b = forget a"
  shows "anchor_settled m b"
proof -
  note f = forget_eq [OF assms(3)]
  have "decided (ma_subjects b ! j) \<and> ms_alts (ma_subjects b ! j) \<noteq> []" if j: "j < length (ma_subjects a)" for j
  proof -
    have "decided (ma_subjects a ! j)" "ms_alts (ma_subjects a ! j) \<noteq> []" using assms(1) nth_mem [OF j] unfolding anchor_settled_def by blast+
    then show ?thesis using map_eq_nth [OF f(7), of j] shape_alts [OF f(2) j] j f(8) by auto
  qed
  then show ?thesis using assms(2) f(8) unfolding anchor_settled_def by (metis in_set_conv_nth)
qed

text \<open>The scan keeps everything but the memos, and what it finds is a later alternative of a subject with a choice.\<close>

definition same_choices :: "mixedUnit list \<Rightarrow> mixedUnit list \<Rightarrow> bool" where
  "same_choices us' us \<longleftrightarrow> (\<forall>i j. forget (anchor_at us' i j) = forget (anchor_at us i j))"

fun best_ok :: "mixedUnit list \<Rightarrow> best \<Rightarrow> bool" where
  "best_ok us None \<longleftrightarrow> True"
| "best_ok us (Some ((i, j, k), n, d)) \<longleftrightarrow>
     valid_pos us (i, j, k) \<and> 0 \<le> ms_chosen (ma_subjects (anchor_at us i j) ! k) \<and> ms_chosen (ma_subjects (anchor_at us i j) ! k) < int n \<and>
     n < length (ms_alts (ma_subjects (anchor_at us i j) ! k))"

lemma same_choices_nth:
  assumes "same_choices us' us" "k < length (ma_subjects (anchor_at us i j))"
  shows "ms_chosen (ma_subjects (anchor_at us' i j) ! k) = ms_chosen (ma_subjects (anchor_at us i j) ! k)"
    "ms_alts (ma_subjects (anchor_at us' i j) ! k) = ms_alts (ma_subjects (anchor_at us i j) ! k)"
proof -
  have f: "forget (anchor_at us' i j) = forget (anchor_at us i j)" using assms(1) by (simp add: same_choices_def)
  show "ms_chosen (ma_subjects (anchor_at us' i j) ! k) = ms_chosen (ma_subjects (anchor_at us i j) ! k)"
    "ms_alts (ma_subjects (anchor_at us' i j) ! k) = ms_alts (ma_subjects (anchor_at us i j) ! k)"
    using map_eq_nth [OF forget_eq(1) [OF f, unfolded choices_def], of k] assms(2) forget_eq(8) [OF f] by auto
qed

lemma best_ok_same:
  assumes "best_ok us best" "same_choices us' us" "layout us' = layout us"
  shows "best_ok us' best"
proof (cases best)
  case (Some b)
  obtain i j k n d where b: "b = ((i, j, k), n, d)" by (metis surj_pair)
  have v: "valid_pos us (i, j, k)" using assms(1) Some b by simp
  then have k: "k < length (ma_subjects (anchor_at us i j))" by simp
  show ?thesis unfolding Some b best_ok.simps using valid_pos_layout [OF assms(3) v] same_choices_nth [OF assms(2) k] assms(1) Some b by simp
qed simp

lemma upgrade_scan_step:
  "\<forall>p \<in> set ps. valid_pos us p \<Longrightarrow> \<forall>u \<in> set us. unit_settled m u \<Longrightarrow> best_ok us best \<Longrightarrow> upgrade_scan m e ps best st us = (best', st', us') \<Longrightarrow>
   units_step m st us st' us' \<and> units_slack us' = units_slack us \<and> best_ok us' best'"
proof (induction ps arbitrary: best st us)
  case (Cons p ps)
  obtain i j k where p: "p = (i, j, k)" by (rule prod_cases3)
  let ?a = "anchor_at us i j"
  have v: "valid_pos us (i, j, k)" using Cons.prems(1) p by simp
  then have k: "k < length (ma_subjects ?a)" by simp
  show ?case
  proof (cases "ms_chosen (ma_subjects ?a ! k) < 0")
    case True
    then have "upgrade_scan m e ps best st us = (best', st', us')" using Cons.prems(4) p by simp
    then show ?thesis using Cons.IH [OF _ Cons.prems(2,3)] Cons.prems(1) by simp
  next
    case False
    obtain c st1 b where u: "upgradeCandidate m e k st ?a = (c, st1, b)" by (rule prod_cases3)
    note vs = valid_pos_settled [OF v Cons.prems(2)]
    note s = upgradeCandidate_scan [OF vs(3) k u]
    note r = candidate_ref_result [OF s(1) [symmetric]]
    note fe = forget_eq [OF s(3)]
    define us1 where "us1 = put_anchor i j b us"
    define best1 where "best1 = (case c of None \<Rightarrow> best | Some (nx, dTok) \<Rightarrow> (case best of None \<Rightarrow> Some ((i, j, k), nx, dTok) | Some (p, n, d) \<Rightarrow> if dTok < d then Some ((i, j, k), nx, dTok) else best))"
    have run: "upgrade_scan m e ps best1 st1 us1 = (best', st', us')"
      using Cons.prems(4) False u p by (auto simp: us1_def best1_def split: option.splits)
    have "anchor_step m st ?a st1 b" using r s(2) fe(2,4) by (simp add: anchor_step_def)
    note pa = put_anchor_step [OF v Cons.prems(2) this forget_settled [OF vs(2) s(2,3)], folded us1_def]
    have lay: "layout us1 = layout us" "\<forall>u \<in> set us1. unit_settled m u" using pa(1) by (simp_all add: units_step_def)
    have sc: "same_choices us1 us" using pa(3) s(3) by (simp add: same_choices_def)
    have "best_ok us (Some ((i, j, k), nx, d))" if "c = Some (nx, d)" for nx d
      using r that v False by (auto simp: nat_less_iff not_less)
    then have "best_ok us best1" using Cons.prems(3) by (auto simp: best1_def simp del: best_ok.simps split: option.split)
    note b1 = best_ok_same [OF this sc lay(1)]
    have "\<forall>p \<in> set ps. valid_pos us1 p" using Cons.prems(1) valid_pos_layout [OF lay(1)] by simp
    from Cons.IH [OF this lay(2) b1 run] show ?thesis using units_step_trans [OF pa(1)] pa(2) fe(9) by simp
  qed
qed (simp add: units_step_refl)

lemma upgradeOnce_step:
  assumes "\<forall>u \<in> set us. unit_settled m u" "upgradeOnce m x e st us = (ok, st', us')"
  shows "units_step m st us st' us' \<and> units_slack us' \<le> units_slack us \<and> (ok \<longrightarrow> units_slack us' < units_slack us)"
proof (cases x)
  case True
  then show ?thesis using assms by (auto simp: upgradeOnce_def units_step_refl)
next
  case False
  obtain best st1 us1 where r: "upgrade_scan m e (positions us) None st us = (best, st1, us1)" by (rule prod_cases3)
  have "\<forall>p \<in> set (positions us). valid_pos us p" using valid_positions by blast
  from upgrade_scan_step [OF this assms(1) _ r]
  have s: "units_step m st us st1 us1" "units_slack us1 = units_slack us" "best_ok us1 best" by simp_all
  show ?thesis
  proof (cases best)
    case None
    then show ?thesis using s r assms(2) False by (auto simp: upgradeOnce_def)
  next
    case (Some b)
    obtain i j k n d where b: "b = ((i, j, k), n, d)" by (metis surj_pair)
    let ?a = "anchor_at us1 i j"
    have v: "valid_pos us1 (i, j, k)" "0 \<le> ms_chosen (ma_subjects ?a ! k)" "ms_chosen (ma_subjects ?a ! k) < int n" "n < length (ms_alts (ma_subjects ?a ! k))"
      using s(3) Some b by auto
    then have k: "k < length (ma_subjects ?a)" by simp
    obtain ok' st2 a2 where t: "tryAssign m k n DecisionUpgrade st1 ?a = (ok', st2, a2)" by (rule prod_cases3)
    have res: "ok = ok'" "st' = st2" "us' = put_anchor i j a2 us1" using assms(2) False r Some b t by (auto simp: upgradeOnce_def)
    have se: "\<forall>u \<in> set us1. unit_settled m u" using s(1) by (simp add: units_step_def)
    note vs = valid_pos_settled [OF v(1) se]
    note ta = tryAssign_step [OF vs(3) k v(4) t]
    have dk: "decided (ma_subjects ?a ! k)" "subject_ok (ma_subjects ?a ! k)" using vs(2,3) nth_mem [OF k] by (auto simp: anchor_settled_def anchor_ok_def)
    then have tk: "\<not> ms_omitted (ma_subjects ?a ! k)" "ms_reason (ma_subjects ?a ! k) = []" using v(2) by (auto simp: taken_def left_out_def)
    have sh: "anchor_ok m a2" "shape a2 = shape ?a" using ta(1) by (simp_all add: anchor_step_def)
    have "anchor_settled m a2 \<and> (if ok then slack a2 < slack ?a else a2 = ?a)"
    proof (cases ok)
      case True
      then have w: "with_choice ?a k n DecisionUpgrade a2" using ta(2) res by simp
      have "taken (ma_subjects a2 ! k)" using with_choice_status(1) [OF w k k] tk by simp
      then have "anchor_settled m a2" using settled_update [OF vs(2) sh k] with_choice_status(2) [OF w k] by simp
      then show ?thesis using choice_slack [OF w sh(2) k v(4,3) dk(2)] True by simp
    qed (use ta(2) res vs(2) in auto)
    then have a2: "anchor_settled m a2" "if ok then slack a2 < slack ?a else a2 = ?a" by simp_all
    note pa = put_anchor_step [OF v(1) se ta(1) a2(1)]
    show ?thesis using units_step_trans [OF s(1) pa(1)] pa(2) s(2) a2(2) res by (auto split: if_splits)
  qed
qed

lemma upgrade_loop_returns:
  "\<forall>u \<in> set us. unit_settled m u \<Longrightarrow> \<exists>st' us'. upgrade_loop m cancelled n st us = Some (st', us') \<and> units_step m st us st' us'"
proof (induction "units_slack us" arbitrary: n st us rule: less_induct)
  case less
  have again: "\<exists>st' us'. Option.bind (retryOmitted m st1 us1) (\<lambda>(st, us). upgrade_loop m cancelled n1 st us) = Some (st', us') \<and> units_step m st us st' us'"
    if s1: "units_step m st us st1 us1" "units_slack us1 < units_slack us" for st1 us1 n1
  proof -
    have "\<forall>u \<in> set us1. unit_settled m u" using s1(1) by (simp add: units_step_def)
    from retryOmitted_returns [OF this] obtain st2 us2 where r: "retryOmitted m st1 us1 = Some (st2, us2)" "units_step m st1 us1 st2 us2" "units_slack us2 \<le> units_slack us1" by blast
    have "units_slack us2 < units_slack us" "\<forall>u \<in> set us2. unit_settled m u" using r s1 by (simp_all add: units_step_def)
    from less.hyps [OF this] obtain st' us' where "upgrade_loop m cancelled n1 st2 us2 = Some (st', us')" "units_step m st2 us2 st' us'" by blast
    then show ?thesis using r units_step_trans [OF units_step_trans [OF s1(1) r(2)]] by auto
  qed
  obtain ok1 st1 us1 where u1: "upgradeOnce m (cancelled n) True st us = (ok1, st1, us1)" by (rule prod_cases3)
  note s1 = upgradeOnce_step [OF less.prems u1]
  show ?case
  proof (cases ok1)
    case True
    then show ?thesis using again [of st1 us1 "n + 1"] s1 u1 by (subst upgrade_loop.simps) simp
  next
    case False
    obtain ok2 st2 us2 where u2: "upgradeOnce m (cancelled (n + 1)) False st1 us1 = (ok2, st2, us2)" by (rule prod_cases3)
    have "\<forall>u \<in> set us1. unit_settled m u" using s1 by (simp add: units_step_def)
    note s2 = upgradeOnce_step [OF this u2]
    have s12: "units_step m st us st2 us2" using s1 s2 units_step_trans by blast
    show ?thesis using False u1 u2 s12 again [OF s12, of "n + 2"] s1 s2 by (subst upgrade_loop.simps) auto
  qed
qed

end
