(* ===== verification/Mixed_Assemble.thy ===== *)
theory Mixed_Assemble
  imports Mixed_Alloc
begin

text \<open>
  Mixed assembly, \<open>agent/mixed_assemble.go\<close>: the choice between the two assembly paths, the structured pipeline, materialization and the trace. The zero trace, with its
  nil slice of subjects, is None. The outer option is the one of the allocator: None would be an assembly that does not end; \<open>cancelled\<close> answers the context checks of its first and its second pass.
\<close>

record ContextSubjectTrace =
  cst_Subject :: SubjectRef
  cst_ToolCallID :: string
  cst_Lane :: int
  cst_Rank :: int
  cst_Omitted :: bool
  cst_EffectiveDepth :: Depth
  cst_Representations :: "RepresentationDesc list"
  cst_EstimatedTokens :: int
  cst_Bytes :: int
  cst_Decision :: string
  cst_OmissionReason :: string

record ContextAssemblyTrace =
  cat_MaxTokens :: int
  cat_EstimatedTokensUsed :: int
  cat_EstimatedTokensFree :: int
  cat_SelectedSubjects :: int
  cat_RenderedSubjects :: int
  cat_OmittedSubjects :: int
  cat_VerbatimShortfalls :: int
  cat_Subjects :: "ContextSubjectTrace list"

definition spanRepresentations :: "RepresentationDesc list" where
  "spanRepresentations = [\<lparr>rd_Depth = DepthL2, rd_Kind = RepresentationVerbatim\<rparr>]"

definition summaryRepresentations :: "RepresentationDesc list" where
  "summaryRepresentations = [\<lparr>rd_Depth = DepthL1, rd_Kind = RepresentationCompact\<rparr>]"

definition hasStructuredAnchor :: "State \<Rightarrow> bool" where
  "hasStructuredAnchor st \<longleftrightarrow> (\<exists>msg \<in> set (st_Messages st). m_Context msg \<noteq> None)"

section \<open>Materialization\<close>

definition materializeSkip :: "mixedUnit \<Rightarrow> bool" where
  "materializeSkip u =
     (case mu_kind u of
        unitPlainSpan \<Rightarrow> subject_omitted u
      | unitHistorySpan \<Rightarrow> subject_omitted u
      | unitChain \<Rightarrow> mu_evicted u
      | _ \<Rightarrow> False)"

definition detachContext :: "Message \<Rightarrow> Message" where
  "detachContext msg = msg\<lparr>m_Context := None\<rparr>"

definition anchorFor :: "mixedUnit \<Rightarrow> nat \<Rightarrow> mixedAnchor option" where
  "anchorFor u i = List.find (\<lambda>a. ma_msgIdx a = i) (mu_anchors u)"

definition anchorAttrib :: "mixedAnchor \<Rightarrow> RetrievalAttribution option" where
  "anchorAttrib a =
     (let sources = concat (map (\<lambda>s. if ms_chosen s < 0 then []
            else case ca_Attrib (ms_alts s ! nat (ms_chosen s)) of Some x \<Rightarrow> ra_Sources x | None \<Rightarrow> []) (ma_subjects a))
      in if sources = [] then None else Some \<lparr>ra_Sources = sources\<rparr>)"

definition materialize_message :: "mixedUnit \<Rightarrow> nat \<Rightarrow> Message \<Rightarrow> Message" where
  "materialize_message u i msg =
     detachContext
       (case anchorFor u i of
          Some a \<Rightarrow> msg\<lparr>m_chat := (m_chat msg)\<lparr>cm_Content := ma_content a\<rparr>, m_Attrib := anchorAttrib a\<rparr>
        | None \<Rightarrow> msg)"

definition materialize_unit :: "mixedUnit \<Rightarrow> Message list" where
  "materialize_unit u = (if materializeSkip u then [] else map (\<lambda>(i, msg). materialize_message u i msg) (enumerate 0 (mu_msgs u)))"

definition materializeMixed :: "string \<Rightarrow> Message option \<Rightarrow> mixedUnit list \<Rightarrow> State" where
  "materializeMixed system summary us =
     \<lparr>st_System = system, st_DurableSummary = [],
      st_Messages = (case summary of Some msg \<Rightarrow> [detachContext msg] | None \<Rightarrow> []) @ concat (map materialize_unit us),
      st_systemKeys = []\<rparr>"

section \<open>The trace\<close>

definition newSubjectRow :: "mixedSubject \<Rightarrow> ContextSubjectTrace" where
  "newSubjectRow s =
     \<lparr>cst_Subject = ms_ref s, cst_ToolCallID = ms_toolCallID s, cst_Lane = ms_lane s, cst_Rank = ms_rank s, cst_Omitted = ms_omitted s,
      cst_EffectiveDepth = DepthInvalid, cst_Representations = [], cst_EstimatedTokens = 0, cst_Bytes = 0,
      cst_Decision = ms_decision s, cst_OmissionReason = ms_reason s\<rparr>"

definition spanBytes :: "mixedUnit \<Rightarrow> int" where
  "spanBytes u = sum_list (map (\<lambda>(i, msg). if anchorFor u i \<noteq> None then 0 else go_len (m_Content msg)) (enumerate 0 (mu_msgs u)))"

definition spanRow :: "mixedUnit \<Rightarrow> mixedSubject \<Rightarrow> ContextSubjectTrace" where
  "spanRow u s =
     (if ms_omitted s then newSubjectRow s
      else (newSubjectRow s)\<lparr>cst_EffectiveDepth := DepthL2, cst_Representations := spanRepresentations,
              cst_EstimatedTokens := ms_spanTokens s, cst_Bytes := spanBytes u\<rparr>)"

definition anchorRow :: "ContextManager \<Rightarrow> mixedSubject \<Rightarrow> ContextSubjectTrace" where
  "anchorRow m s =
     (if ms_omitted s \<or> ms_chosen s < 0 then newSubjectRow s
      else let alt = ms_alts s ! nat (ms_chosen s)
           in (newSubjectRow s)\<lparr>cst_EffectiveDepth := AlternativeDesc_Depth (ca_Desc alt), cst_Representations := ad_Representations (ca_Desc alt),
                cst_EstimatedTokens := cm_estimate m (ca_Content alt), cst_Bytes := go_len (ca_Content alt)\<rparr>)"

definition summary_row :: "ContextManager \<Rightarrow> Message \<Rightarrow> ContextSubjectTrace" where
  "summary_row m msg =
     \<lparr>cst_Subject = \<lparr>sr_Domain = DomainConversation, sr_ID = durableSummarySubjectID\<rparr>, cst_ToolCallID = [], cst_Lane = lanePlain, cst_Rank = 0,
      cst_Omitted = False, cst_EffectiveDepth = DepthL1, cst_Representations = summaryRepresentations,
      cst_EstimatedTokens = cm_messageCost m msg, cst_Bytes = go_len (m_Content msg), cst_Decision = DecisionBase, cst_OmissionReason = []\<rparr>"

definition unit_rows :: "ContextManager \<Rightarrow> mixedUnit \<Rightarrow> ContextSubjectTrace list" where
  "unit_rows m u =
     (case mu_subject u of Some s \<Rightarrow> [spanRow u s] | None \<Rightarrow> [])
     @ concat (map (\<lambda>a. map (anchorRow m) (ma_subjects a)) (mu_anchors u))"

definition fillMixedTrace :: "ContextManager \<Rightarrow> mixedUnit list \<Rightarrow> Message option \<Rightarrow> mixedAllocState \<Rightarrow> int \<Rightarrow> int \<Rightarrow> ContextAssemblyTrace" where
  "fillMixedTrace m us summary alloc maxTokens used =
     (let rows = (case summary of Some msg \<Rightarrow> [summary_row m msg] | None \<Rightarrow> []) @ concat (map (unit_rows m) us)
      in \<lparr>cat_MaxTokens = maxTokens, cat_EstimatedTokensUsed = used, cat_EstimatedTokensFree = fst (checkedTokenSub maxTokens used),
          cat_SelectedSubjects = go_len rows, cat_RenderedSubjects = int (length (filter (\<lambda>r. \<not> cst_Omitted r) rows)),
          cat_OmittedSubjects = int (length (filter cst_Omitted rows)), cat_VerbatimShortfalls = al_verbatimShortfalls alloc, cat_Subjects = rows\<rparr>)"

section \<open>The pipeline\<close>

definition mustFitCause :: "ContextManager \<Rightarrow> State \<Rightarrow> mixedUnit list \<Rightarrow> int \<Rightarrow> int \<Rightarrow> PressureCause" where
  "mustFitCause m stMat us toolSchemaTokens allocUsed =
     (let unresolved = foldl (\<lambda>n u. if mu_kind u = unitUnresolved then saturatedTokenAdd n (mu_baseTokens u) else n) 0 us;
          pinnedRemainder = fst (checkedTokenSub allocUsed unresolved)
      in if unresolved > toolSchemaTokens \<and> unresolved > pinnedRemainder then CauseToolOutput
         else pinnedOverflowCause m stMat toolSchemaTokens)"

definition anchor_selected :: "mixedAnchor \<Rightarrow> bool" where
  "anchor_selected a \<longleftrightarrow> (\<exists>s \<in> set (ma_subjects a). ms_chosen s \<ge> 0)"

definition preservesNewestContent :: "mixedUnit list \<Rightarrow> mixedUnit list \<Rightarrow> bool" where
  "preservesNewestContent full low \<longleftrightarrow>
     (\<forall>(f, u) \<in> set (zip full low). mu_keep u \<longrightarrow>
        (\<forall>(b, a) \<in> set (zip (mu_anchors f) (mu_anchors u)). \<not> (anchor_selected b \<and> \<not> anchor_selected a)))"

text \<open>The newest unit of the current run, from the end back to the goal.\<close>

fun mark_newest :: "mixedUnit list \<Rightarrow> mixedUnit list" where
  "mark_newest [] = []"
| "mark_newest (u # rest) =
     (if mu_kind u = unitPinned then u # rest
      else if mu_kind u = unitChain \<or> mu_kind u = unitPlainSpan then u\<lparr>mu_keep := True\<rparr> # rest
      else u # mark_newest rest)"

definition keep_newest :: "mixedUnit list \<Rightarrow> mixedUnit list" where
  "keep_newest us = rev (mark_newest (rev us))"

type_synonym assembled = "State \<times> Pressure \<times> ContextAssemblyTrace option \<times> mixed_error option"

text \<open>The second allocation against the low-water mark, taken over only if it succeeds and loses nothing of the newest unit.\<close>

definition low_water_pass :: "ContextManager \<Rightarrow> (nat \<Rightarrow> nat \<Rightarrow> bool) \<Rightarrow> State \<Rightarrow> int \<Rightarrow> int \<Rightarrow> mixedAllocState \<times> mixedUnit list \<Rightarrow> (mixedAllocState \<times> mixedUnit list) option" where
  "low_water_pass m cancelled st stateBudget sysTokens full =
     (case lowWaterMark stateBudget (cmg_CompactionLowWater m) of (water, ok) \<Rightarrow>
        if ok \<and> al_evictedGroups (fst full) > 0
        then (case buildMixedUnits m st of
                Inl _ \<Rightarrow> Some full
              | Inr us \<Rightarrow>
                  Option.bind (allocateMixed m (cancelled 1) (keep_newest us) water sysTokens) (\<lambda>(low, us, err).
                    Some (if err = None \<and> preservesNewestContent (snd full) us then (low, us) else full)))
        else Some full)"

definition account_mixed :: "ContextManager \<Rightarrow> PressureThresholds \<Rightarrow> int \<Rightarrow> TokenBudget \<Rightarrow> int \<Rightarrow> string \<Rightarrow> Message option \<Rightarrow> mixedAllocState \<Rightarrow> mixedUnit list \<Rightarrow> assembled" where
  "account_mixed m thresholds toolSchemaTokens budget stateBudget system summary alloc us =
     (let out = materializeMixed system summary us;
          (used, usedOK) = checkedTotalTokens m out 0;
          (after, afterOK) = checkedTokenAdd used toolSchemaTokens;
          shed = (al_evictedGroups alloc > 0 \<or> al_anchorOmissions alloc > 0);
          compactions = (if shed then 1 else 0);
          exhausted = (\<not> usedOK \<or> \<not> afterOK \<or> after > tb_Input budget);
          usedPct = usedFraction after (tb_Input budget);
          (level, mitigation) = Classify thresholds usedPct exhausted shed;
          buckets = pressureBuckets m out toolSchemaTokens;
          cause = buckets_dominantCause buckets;
          buckets = (if \<not> usedOK \<or> \<not> afterOK then zero_buckets else buckets);
          pressure = \<lparr>pr_UsedPct = usedPct, pr_Evicted = al_evictedGroups alloc, pr_Compactions = compactions, pr_AnchorOmissions = al_anchorOmissions alloc,
            pr_InputTokens = after, pr_InputBudget = tb_Input budget, pr_Level = level, pr_Cause = cause, pr_Mitigation = mitigation, pr_Buckets = buckets\<rparr>
      in if exhausted then (out, pressure, None, Some (MixAgent ErrContextExhausted))
         else (out, pressure, Some (fillMixedTrace m us summary alloc stateBudget used), None))"

definition allocate_and_account :: "ContextManager \<Rightarrow> (nat \<Rightarrow> nat \<Rightarrow> bool) \<Rightarrow> State \<Rightarrow> State \<Rightarrow> int \<Rightarrow> TokenBudget \<Rightarrow> mixedUnit list \<Rightarrow> Message option \<Rightarrow> int \<Rightarrow> int \<Rightarrow> assembled option" where
  "allocate_and_account m cancelled st stMat toolSchemaTokens budget us summary sysTokens stateBudget =
     Option.bind (allocateMixed m (cancelled 0) us stateBudget sysTokens) (\<lambda>(alloc, us, err).
       case err of
         Some e \<Rightarrow>
           let reserved = saturatedTokenAdd (al_used alloc) toolSchemaTokens;
               cause = (if al_arithmeticOverflow alloc then dominantCause m stMat toolSchemaTokens
                        else mustFitCause m stMat us toolSchemaTokens (al_used alloc))
           in Some (stMat, halt_pressure reserved (tb_Input budget) (usedFraction reserved (tb_Input budget)) cause, None, Some (MixAgent e))
       | None \<Rightarrow>
           Option.bind (low_water_pass m cancelled st stateBudget sysTokens (alloc, us)) (\<lambda>(alloc, us).
             Some (account_mixed m (thresholds_normalize (tb_Thresholds budget)) toolSchemaTokens budget stateBudget (st_System stMat) summary alloc us)))"

definition assembleMixed :: "(string \<Rightarrow> string) \<Rightarrow> (nat \<Rightarrow> nat \<Rightarrow> bool) \<Rightarrow> ContextManager \<Rightarrow> State \<Rightarrow> int \<Rightarrow> TokenBudget \<Rightarrow> assembled option" where
  "assembleMixed quote cancelled m0 st toolSchemaTokens budget =
     (let m = m0\<lparr>cmg_Estimate := Some (guardedEstimate (cmg_Estimate m0))\<rparr>;
          hadSummary = (TrimSpace (st_DurableSummary st) \<noteq> []);
          stMat = materializeDurableSummary quote st;
          input = tb_Input budget;
          (pinned, pinnedOK) = checkedPinnedTokens m stMat toolSchemaTokens
      in if \<not> pinnedOK \<or> pinned > input
         then Some (stMat, halt_pressure pinned input (usedFraction pinned input) (pinnedOverflowCause m stMat toolSchemaTokens), None, Some (MixAgent ErrContextExhausted))
         else case buildMixedUnits m st of
                Inl e \<Rightarrow>
                  Some (if e = MixAgent ErrContextExhausted
                        then let tokens = fst (checkedTotalTokens m stMat toolSchemaTokens)
                             in (stMat, halt_pressure tokens input (usedFraction tokens input) (dominantCause m stMat toolSchemaTokens), None, Some e)
                        else (stMat, zero_pressure, None, Some e))
              | Inr us \<Rightarrow>
                  let sysTokens = saturatedTokenAdd (cm_estimate m (st_System stMat)) (cmg_advisoryTokens m);
                      summary = (if hadSummary then Some (hd (st_Messages stMat)) else None);
                      (sysTokens, summaryOK) =
                        (case summary of
                           None \<Rightarrow> (sysTokens, True)
                         | Some msg \<Rightarrow>
                             (case cm_checkedMessageCost m msg of (cost, costOK) \<Rightarrow>
                              case checkedTokenAdd sysTokens cost of (sysTokens, addOK) \<Rightarrow> (sysTokens, costOK \<and> addOK)))
                  in if \<not> summaryOK
                     then Some (stMat, halt_pressure sysTokens input (F_Fin 1) CausePinned, None, Some (MixAgent ErrContextExhausted))
                     else case checkedTokenSub input toolSchemaTokens of (stateBudget, stateBudgetOK) \<Rightarrow>
                            if \<not> stateBudgetOK
                            then Some (stMat, halt_pressure stateBudget input (F_Fin 1) CauseToolSchema, None, Some (MixAgent ErrContextExhausted))
                            else allocate_and_account m cancelled st stMat toolSchemaTokens budget us summary sysTokens stateBudget)"

definition AssembleWithTrace :: "(string \<Rightarrow> string) \<Rightarrow> (nat \<Rightarrow> nat \<Rightarrow> bool) \<Rightarrow> ContextManager \<Rightarrow> State \<Rightarrow> int \<Rightarrow> TokenBudget \<Rightarrow> assembled option" where
  "AssembleWithTrace quote cancelled m st toolSchemaTokens budget =
     (if cmg_Mixed m \<and> \<not> is_nil (cmg_Compactor m) then Some (st, zero_pressure, None, Some (MixAgent ErrMixedCompactor))
      else if \<not> cmg_Mixed m \<or> \<not> hasStructuredAnchor st
      then (case assembleLegacy quote m st toolSchemaTokens budget of (out, pressure, err) \<Rightarrow> Some (out, pressure, None, map_option MixAgent err))
      else assembleMixed quote cancelled m st toolSchemaTokens budget)"

end
