(* ===== verification/Mixed_Guarantees.thy ===== *)
theory Mixed_Guarantees
  imports Mixed_Passes Mixed_Assemble
begin

text \<open>
  What mixed assembly guarantees: it always ends, the ledger of a successful allocation is exactly the cost of what is kept, within the budget, every anchor carries the join
  of its choices, and every subject of the trace is decided. The memo of upgrade candidates never changes an answer.
\<close>

section \<open>The units that are built\<close>

definition unit_built :: "mixedUnit \<Rightarrow> bool" where
  "unit_built u \<longleftrightarrow>
     (if must_fit u then mu_subject u = None \<and> \<not> mu_keep u else unit_fresh u) \<and> (mu_kind u \<noteq> unitChain \<longrightarrow> mu_anchors u = []) \<and>
     (mu_keep u \<longrightarrow> mu_kind u = unitChain \<or> mu_kind u = unitPlainSpan)"

lemma group_has_alternatives: "validateContextSet (Some cs) = None \<Longrightarrow> g \<in> set (cs_Groups cs) \<Longrightarrow> cg_Alternatives g \<noteq> []"
  by (auto simp: validateContextSet_def set_groups_from_iff list_all_iff group_ok_def split: if_splits option.splits)

lemma new_anchor_fresh: "validateContextSet (Some cs) = None \<Longrightarrow> anchor_fresh (new_anchor j msg cs)"
  using group_has_alternatives by (auto simp: anchor_fresh_def new_anchor_def group_subject_def new_subject_def fresh_def)

lemma anchors_from_fresh:
  "anchors_from m j base as msgs = Inr (as', base') \<Longrightarrow> \<forall>a \<in> set as. anchor_fresh a \<Longrightarrow> \<forall>a \<in> set as'. anchor_fresh a"
  by (induction m j base as msgs rule: anchors_from.induct) (auto split: option.splits prod.splits if_splits simp: new_anchor_fresh)

lemma mixedUnitFor_built:
  assumes "mixedUnitFor m g first = Inr u"
  shows "unit_built u"
proof -
  have s: "fresh (spanSubject i l t)" for i l t by (simp add: spanSubject_def new_subject_def fresh_def)
  show ?thesis
    using assms s anchors_from_fresh [of m 1 _ "[]" "tl (g_msgs g)"]
    by (auto simp: mixedUnitFor_def unit_built_def must_fit_def new_unit_def unit_fresh_def chainAnchors_def split: compactionGroupKind.splits option.splits sum.splits prod.splits if_splits)
qed

lemma units_from_built: "units_from m first seen gs = Inr us \<Longrightarrow> u \<in> set us \<Longrightarrow> unit_built u"
  by (induction m first seen gs arbitrary: us rule: units_from.induct) (auto split: if_splits sum.splits dest: mixedUnitFor_built)

lemma built: "buildMixedUnits m st = Inr us \<Longrightarrow> \<forall>u \<in> set us. unit_built u"
  using units_from_built unfolding buildMixedUnits_def by blast

lemma mark_newest_built: "\<forall>u \<in> set us. unit_built u \<Longrightarrow> \<forall>u \<in> set (mark_newest us). unit_built u"
proof (induction us)
  case (Cons u us)
  have "mu_kind u = unitChain \<or> mu_kind u = unitPlainSpan \<Longrightarrow> unit_built (u\<lparr>mu_keep := True\<rparr>)"
    using Cons.prems by (auto simp: unit_built_def must_fit_def unit_fresh_def)
  then show ?case using Cons by simp
qed simp

lemma keep_newest_built: "\<forall>u \<in> set us. unit_built u \<Longrightarrow> \<forall>u \<in> set (keep_newest us). unit_built u"
  unfolding keep_newest_def using mark_newest_built [of "rev us"] by simp

section \<open>One allocation\<close>

lemma built_cost: "unit_built u \<Longrightarrow> unit_cost u = (if must_fit u then mu_baseTokens u else 0)"
  using fresh_cost [of u] by (auto simp: unit_built_def unit_cost_def admitted_def must_fit_def)

lemma reserve_must_fit_exact:
  assumes "\<forall>u \<in> set us. unit_built u" "\<not> al_arithmeticOverflow st" "reserve_must_fit us st = (True, st')"
  shows "al_used st' = al_used st + total us" "\<not> al_arithmeticOverflow st'" "al_budget st' = al_budget st"
proof -
  let ?f = "\<lambda>(reservationsOK, st) u. if mu_kind u = unitPinned \<or> mu_kind u = unitUnresolved
        then (case charge (mu_baseTokens u) st of (ok, st) \<Rightarrow> (ok \<and> reservationsOK, st)) else (reservationsOK, st)"
  have stuck: "fst (foldl ?f (False, x) us) = False" for x us by (induction us arbitrary: x) (auto split: prod.split)
  have "al_used st' = al_used st + total us \<and> \<not> al_arithmeticOverflow st' \<and> al_budget st' = al_budget st"
    using assms unfolding reserve_must_fit_def
  proof (induction us arbitrary: st)
    case (Cons u us)
    obtain ok st1 where s: "?f (True, st) u = (ok, st1)" by (rule prod.exhaust)
    then have run: "foldl ?f (ok, st1) us = (True, st')" using Cons.prems(3) by simp
    then have "ok" using stuck [of st1 us] by (cases ok) simp_all
    then have "al_used st1 = al_used st + unit_cost u" "\<not> al_arithmeticOverflow st1" "al_budget st1 = al_budget st"
      using s Cons.prems(1,2) built_cost [of u] by (auto simp: charge_def must_fit_def split: if_splits prod.splits)
    then show ?case using Cons.IH [of st1] Cons.prems(1) run \<open>ok\<close> by simp
  qed simp
  then show "al_used st' = al_used st + total us" "\<not> al_arithmeticOverflow st'" "al_budget st' = al_budget st" by simp_all
qed

lemma lane_step_nth:
  assumes "lane_step m P st us st' us'" "n < length us"
  shows "length us' = length us"
    "if P (us ! n) then unit_shape (us' ! n) = unit_shape (us ! n) \<and> (unit_admitted m (us' ! n) \<or> unit_gone (us' ! n)) else us' ! n = us ! n"
proof -
  have l: "list_all2 (\<lambda>u u'. if P u then unit_shape u' = unit_shape u \<and> (unit_admitted m u' \<or> unit_gone u') else u' = u) us us'" using assms(1) by (simp add: lane_step_def)
  show "length us' = length us" using list_all2_lengthD [OF l] by simp
  show "if P (us ! n) then unit_shape (us' ! n) = unit_shape (us ! n) \<and> (unit_admitted m (us' ! n) \<or> unit_gone (us' ! n)) else us' ! n = us ! n"
    using list_all2_nthD [OF l assms(2)] by (simp only:)
qed

lemma lane_step_trans:
  assumes "lane_step m P st us st1 us1" "lane_step m Q st1 us1 st2 us2" "\<And>u. P u \<Longrightarrow> \<not> Q u" "\<And>u u'. unit_shape u' = unit_shape u \<Longrightarrow> Q u' = Q u"
  shows "lane_step m (\<lambda>u. P u \<or> Q u) st us st2 us2"
proof -
  have l: "length us1 = length us" "length us2 = length us1" using assms(1,2) by (auto simp: lane_step_def dest: list_all2_lengthD)
  have "list_all2 (\<lambda>u u'. if P u \<or> Q u then unit_shape u' = unit_shape u \<and> (unit_admitted m u' \<or> unit_gone u') else u' = u) us us2"
    unfolding list_all2_conv_all_nth
  proof (intro conjI allI impI)
    fix n assume "n < length us"
    then show "if P (us ! n) \<or> Q (us ! n) then unit_shape (us2 ! n) = unit_shape (us ! n) \<and> (unit_admitted m (us2 ! n) \<or> unit_gone (us2 ! n)) else us2 ! n = us ! n"
      using lane_step_nth(2) [OF assms(1), of n] lane_step_nth(2) [OF assms(2), of n] l assms(3) [of "us ! n"] assms(4) [of "us1 ! n" "us ! n"]
      by (cases "P (us ! n)"; cases "Q (us ! n)") simp_all
  qed (simp add: l)
  then show ?thesis using assms(1,2) by (simp add: lane_step_def)
qed

lemma lane_step_admissible:
  assumes "lane_step m P st us st1 us1" "\<forall>u \<in> set us. unit_built u" "\<And>u. Q u \<Longrightarrow> \<not> must_fit u" "\<And>u. P u \<Longrightarrow> \<not> Q u" "\<And>u u'. unit_shape u' = unit_shape u \<Longrightarrow> Q u' = Q u"
  shows "\<forall>u \<in> set us1. admissible Q u"
proof
  fix u' assume "u' \<in> set us1"
  moreover have "length us1 = length us" using assms(1) by (auto simp: lane_step_def dest: list_all2_lengthD)
  ultimately obtain n where n: "n < length us" "u' = us1 ! n" by (auto simp: in_set_conv_nth)
  have b: "unit_built (us ! n)" using assms(2) n by simp
  show "admissible Q u'"
  proof (cases "P (us ! n)")
    case True
    then have "\<not> Q u'" using lane_step_nth(2) [OF assms(1) n(1)] n(2) assms(4) [of "us ! n"] assms(5) [of u' "us ! n"] by simp
    then show ?thesis by (simp add: admissible_def)
  next
    case False
    then have "u' = us ! n" using lane_step_nth(2) [OF assms(1) n(1)] n(2) by simp
    then show ?thesis using b assms(3) [of u'] by (auto simp: admissible_def unit_built_def)
  qed
qed

lemma refresh_anchor_settled:
  assumes "anchor_settled m a"
  shows "anchor_settled m (refresh_anchor m st a)" "shape (refresh_anchor m st a) = shape a" "ma_tokens (refresh_anchor m st a) = ma_tokens a"
proof -
  let ?g = "\<lambda>k. let s = ma_subjects a ! k in if ms_omitted s \<and> ms_reason s \<noteq> OmitChainEvicted \<and> ms_alts s \<noteq> [] then s\<lparr>ms_reason := omissionReason m st a k\<rparr> else s"
  have sub: "ma_subjects (refresh_anchor m st a) = map ?g [0..<length (ma_subjects a)]" by (simp add: refresh_anchor_def all_positions_def)
  have same: "map f (ma_subjects (refresh_anchor m st a)) = map f (ma_subjects a)" if "\<And>s r. f (s\<lparr>ms_reason := r\<rparr>) = f s" for f :: "mixedSubject \<Rightarrow> 'x"
    unfolding sub using that by (intro nth_equalityI) (simp_all add: Let_def)
  have ch: "choices (refresh_anchor m st a) = choices a" unfolding choices_def by (rule same) simp
  have "map ms_cands (ma_subjects (refresh_anchor m st a)) = map ms_cands (ma_subjects a)" by (rule same) simp
  then have "anchor_ok m (refresh_anchor m st a)" using assms ch anchor_ok_cong [of m a "refresh_anchor m st a"] by (simp add: anchor_settled_def) (simp add: refresh_anchor_def)
  moreover have "decided (?g k) \<and> ms_alts (?g k) \<noteq> []" if k: "k < length (ma_subjects a)" for k
  proof -
    have d: "decided (ma_subjects a ! k)" "ms_alts (ma_subjects a ! k) \<noteq> []" using assms nth_mem [OF k] unfolding anchor_settled_def by blast+
    have "omissionReason m st a k \<in> {OmitTokenBudget, OmitByteCap}" if "left_out (ma_subjects a ! k)" using omissionReason_values [OF d(2)] that by (auto simp: left_out_def)
    then show ?thesis using d by (auto simp: Let_def left_out_def taken_def)
  qed
  ultimately show "anchor_settled m (refresh_anchor m st a)" unfolding anchor_settled_def sub by auto
  show "shape (refresh_anchor m st a) = shape a" unfolding shape_def using same [of "\<lambda>s. (ms_ref s, ms_toolCallID s, ms_lane s, ms_rank s, ms_alts s)"] by (simp add: refresh_anchor_def)
  show "ma_tokens (refresh_anchor m st a) = ma_tokens a" by (simp add: refresh_anchor_def)
qed

definition refresh_unit :: "ContextManager \<Rightarrow> mixedAllocState \<Rightarrow> mixedUnit \<Rightarrow> mixedUnit" where
  "refresh_unit m st u = (if mu_kind u \<noteq> unitChain \<or> mu_evicted u then u else u\<lparr>mu_anchors := map (refresh_anchor m st) (mu_anchors u)\<rparr>)"

lemma refresh_unit_settled:
  assumes "unit_settled m u"
  shows "unit_settled m (refresh_unit m st u) \<and> unit_shape (refresh_unit m st u) = unit_shape u \<and> unit_cost (refresh_unit m st u) = unit_cost u \<and> mu_subject (refresh_unit m st u) = mu_subject u"
proof (cases "mu_kind u \<noteq> unitChain \<or> mu_evicted u")
  case True
  then show ?thesis using assms by (simp add: refresh_unit_def)
next
  case False
  then have a: "unit_admitted m u" using assms by (auto simp: unit_settled_def must_fit_def unit_gone_def)
  then have s: "\<forall>a \<in> set (mu_anchors u). anchor_settled m a" by (simp add: unit_admitted_def)
  have r: "refresh_unit m st u = u\<lparr>mu_anchors := map (refresh_anchor m st) (mu_anchors u)\<rparr>" using False by (simp add: refresh_unit_def)
  have "unit_admitted m (refresh_unit m st u)" using a refresh_anchor_settled(1) by (auto simp: r unit_admitted_def)
  then have "unit_settled m (refresh_unit m st u)" using False by (simp add: unit_settled_def r must_fit_def)
  moreover have "map (shape \<circ> refresh_anchor m st) (mu_anchors u) = map shape (mu_anchors u)" "map (ma_tokens \<circ> refresh_anchor m st) (mu_anchors u) = map ma_tokens (mu_anchors u)"
    using s refresh_anchor_settled(2,3) by auto
  ultimately show ?thesis by (simp add: r unit_shape_def unit_cost_def admitted_def del: map_eq_conv)
qed

text \<open>What a successful allocation leaves behind.\<close>

definition allocated :: "ContextManager \<Rightarrow> int \<Rightarrow> int \<Rightarrow> mixedUnit list \<Rightarrow> mixedAllocState \<Rightarrow> mixedUnit list \<Rightarrow> bool" where
  "allocated m budget sysTokens us st' us' \<longleftrightarrow>
     al_used st' = sysTokens + total us' \<and> al_used st' \<le> budget \<and> (\<forall>u \<in> set us'. unit_settled m u) \<and> map unit_shape us' = map unit_shape us"

lemma refresh_allocated:
  assumes "\<forall>u \<in> set us. unit_settled m u"
  shows "(\<forall>u \<in> set (refreshOmissionReasons m st us). unit_settled m u) \<and> map unit_shape (refreshOmissionReasons m st us) = map unit_shape us \<and>
    total (refreshOmissionReasons m st us) = total us"
proof -
  have r: "refreshOmissionReasons m st us = map (refresh_unit m st) us" by (simp add: refreshOmissionReasons_def refresh_unit_def)
  have "map (unit_shape \<circ> refresh_unit m st) us = map unit_shape us" "map (unit_cost \<circ> refresh_unit m st) us = map unit_cost us"
    using assms refresh_unit_settled by auto
  then show ?thesis using assms refresh_unit_settled unfolding r total_def by (auto simp del: map_eq_conv)
qed

lemma lane_step_keep:
  "\<forall>u \<in> set us. unit_built u \<Longrightarrow> lane_step m mu_keep st us st' us' \<Longrightarrow> lane_step m (\<lambda>u. mu_keep u \<and> mu_kind u \<noteq> unitHistorySpan) st us st' us'"
  unfolding lane_step_def by (auto elim!: list.rel_mono_strong simp: unit_built_def split: if_splits)

lemma lanes_settled:
  assumes "lane_step m (\<lambda>u. \<not> must_fit u) st us st' us'" "\<forall>u \<in> set us. unit_built u"
  shows "\<forall>u \<in> set us'. unit_settled m u" "map unit_shape us' = map unit_shape us"
proof -
  have len: "length us' = length us" using assms(1) by (auto simp: lane_step_def dest: list_all2_lengthD)
  note n = lane_step_nth(2) [OF assms(1)]
  have "unit_shape (us' ! i) = unit_shape (us ! i)" if "i < length us" for i using n [OF that] by (cases "must_fit (us ! i)") simp_all
  then show "map unit_shape us' = map unit_shape us" using len by (intro nth_equalityI) simp_all
  have "unit_settled m (us' ! i)" if i: "i < length us" for i
  proof (cases "must_fit (us ! i)")
    case True
    then show ?thesis using n [OF i] assms(2) nth_mem [OF i] by (auto simp: unit_built_def unit_settled_def)
  next
    case False
    have b: "unit_built (us ! i)" using assms(2) i by simp
    have s: "unit_shape (us' ! i) = unit_shape (us ! i)" "unit_admitted m (us' ! i) \<or> unit_gone (us' ! i)" using n [OF i] False by auto
    have "mu_kind (us' ! i) \<noteq> unitChain \<longrightarrow> mu_anchors (us' ! i) = []" using b s(1) by (auto simp: unit_built_def unit_shape_def)
    moreover have "\<not> must_fit (us' ! i)" using False s(1) by (simp add: must_fit_def unit_shape_def)
    ultimately show ?thesis using s(2) by (simp add: unit_settled_def)
  qed
  then show "\<forall>u \<in> set us'. unit_settled m u" using len by (metis in_set_conv_nth)
qed

text \<open>The four lanes together touch every unit that is not must-fit.\<close>

lemma lanes_step:
  assumes b: "\<forall>u \<in> set us. unit_built u" and k: "admit_kept m st us = (True, st1, us1)"
    and p: "admit_lane m (\<lambda>u. mu_kind u = unitPlainSpan \<and> \<not> mu_keep u) st1 us1 = (st2, us2)"
    and c: "admit_lane m (\<lambda>u. mu_kind u = unitChain \<and> \<not> mu_keep u) st2 us2 = (st3, us3)"
    and h: "admit_lane m (\<lambda>u. mu_kind u = unitHistorySpan) st3 us3 = (st4, us4)"
  shows "lane_step m (\<lambda>u. \<not> must_fit u) st us st4 us4"
proof -
  let ?K = "\<lambda>u. mu_keep u \<and> mu_kind u \<noteq> unitHistorySpan" and ?P = "\<lambda>u. mu_kind u = unitPlainSpan \<and> \<not> mu_keep u"
    and ?C = "\<lambda>u. mu_kind u = unitChain \<and> \<not> mu_keep u" and ?H = "\<lambda>u. mu_kind u = unitHistorySpan"
  have shp: "unit_shape u' = unit_shape u \<Longrightarrow> ?P u' = ?P u" "unit_shape u' = unit_shape u \<Longrightarrow> ?C u' = ?C u" "unit_shape u' = unit_shape u \<Longrightarrow> ?H u' = ?H u" for u u'
    by (simp_all add: unit_shape_def)
  have "\<forall>u \<in> set us. admissible mu_keep u" using b by (auto simp: admissible_def unit_built_def split: if_splits)
  note s1 = lane_step_keep [OF b admit_kept_step [OF this k]]
  have "\<forall>u \<in> set us1. admissible ?P u" by (rule lane_step_admissible [OF s1 b]) (auto simp: must_fit_def unit_shape_def)
  note s2 = lane_step_trans [OF s1 admit_lane_step [OF this p] _ shp(1)]
  have s2: "lane_step m (\<lambda>u. ?K u \<or> ?P u) st us st2 us2" by (rule s2) auto
  have "\<forall>u \<in> set us2. admissible ?C u" by (rule lane_step_admissible [OF s2 b]) (auto simp: must_fit_def unit_shape_def)
  note s3 = lane_step_trans [OF s2 admit_lane_step [OF this c] _ shp(2)]
  have s3: "lane_step m (\<lambda>u. (?K u \<or> ?P u) \<or> ?C u) st us st3 us3" by (rule s3) auto
  have "\<forall>u \<in> set us3. admissible ?H u" by (rule lane_step_admissible [OF s3 b]) (auto simp: must_fit_def unit_shape_def)
  note s4 = lane_step_trans [OF s3 admit_lane_step [OF this h] _ shp(3)]
  have s4: "lane_step m (\<lambda>u. ((?K u \<or> ?P u) \<or> ?C u) \<or> ?H u) st us st4 us4" by (rule s4) auto
  have "(((?K u \<or> ?P u) \<or> ?C u) \<or> ?H u) = (\<not> must_fit u)" if "u \<in> set us" for u
    using b that by (cases "mu_kind u") (auto simp: must_fit_def unit_built_def)
  then show ?thesis using s4 unfolding lane_step_def by (auto elim!: list.rel_mono_strong split: if_splits)
qed

lemma allocateMixed_outcome:
  assumes "\<forall>u \<in> set us. unit_built u"
  shows "\<exists>st' us' err. allocateMixed m cancelled us budget sysTokens = Some (st', us', err) \<and> (err = None \<longrightarrow> allocated m budget sysTokens us st' us')"
proof -
  define st where "st = \<lparr>al_budget = budget, al_used = sysTokens, al_arithmeticOverflow = False, al_verbatimShortfalls = 0, al_evictedGroups = 0, al_anchorOmissions = 0\<rparr>"
  obtain r st0 where r: "reserve_must_fit us st = (r, st0)" by (rule prod.exhaust)
  obtain kept st1 us1 where k: "admit_kept m st0 us = (kept, st1, us1)" by (rule prod_cases3)
  obtain st2 us2 where p: "admit_lane m (\<lambda>u. mu_kind u = unitPlainSpan \<and> \<not> mu_keep u) st1 us1 = (st2, us2)" by (rule prod.exhaust)
  obtain st3 us3 where c: "admit_lane m (\<lambda>u. mu_kind u = unitChain \<and> \<not> mu_keep u) st2 us2 = (st3, us3)" by (rule prod.exhaust)
  obtain st4 us4 where h: "admit_lane m (\<lambda>u. mu_kind u = unitHistorySpan) st3 us3 = (st4, us4)" by (rule prod.exhaust)
  note unfold = allocateMixed_def st_def [symmetric] Let_def r split_conv k p c h
  show ?thesis
  proof (cases "r \<and> al_used st0 \<le> al_budget st0 \<and> kept")
    case False
    then show ?thesis unfolding unfold by auto
  next
    case True
    have r0: "al_used st0 = sysTokens + total us" "\<not> al_arithmeticOverflow st0" "al_budget st0 = budget"
      using reserve_must_fit_exact [OF assms, of st st0] r True by (auto simp: st_def)
    then have l0: "ledger st0 (sysTokens + total us)" using True by (simp add: ledger_def)
    have ls: "lane_step m (\<lambda>u. \<not> must_fit u) st0 us st4 us4" using lanes_step [OF assms _ p c h] k True by simp
    then have l4: "ledger st4 (sysTokens + total us4)" "al_budget st4 = budget" using l0 r0(3) by (simp_all add: lane_step_def)
    note se = lanes_settled [OF ls assms]
    from upgrade_loop_returns [OF se(1)] obtain st5 us5 where u: "upgrade_loop m cancelled 0 st4 us4 = Some (st5, us5)" "units_step m st4 us4 st5 us5" by blast
    have l5: "ledger st5 (sysTokens + total us5)" "al_budget st5 = budget" "\<forall>u \<in> set us5. unit_settled m u" "layout us5 = layout us4"
      using u(2) l4 by (simp_all add: units_step_def)
    have sh: "map unit_shape us5 = map unit_shape us" using arg_cong [OF l5(4), of "map fst"] se(2) by (simp add: layout_def comp_def)
    show ?thesis unfolding unfold using True u(1) l5 refresh_allocated [OF l5(3), of st5] sh by (auto simp: ledger_def allocated_def)
  qed
qed

section \<open>The whole assembly\<close>

lemma low_water_outcome:
  assumes "allocated m stateBudget sysTokens us0 (fst full) (snd full)"
  shows "\<exists>al us. low_water_pass m cancelled st stateBudget sysTokens full = Some (al, us) \<and>
    ((al, us) = full \<or>
     (\<exists>us1. buildMixedUnits m st = Inr us1 \<and> allocateMixed m (cancelled 1) (keep_newest us1) (fst (lowWaterMark stateBudget (cmg_CompactionLowWater m))) sysTokens = Some (al, us, None) \<and>
       allocated m (fst (lowWaterMark stateBudget (cmg_CompactionLowWater m))) sysTokens (keep_newest us1) al us \<and> preservesNewestContent (snd full) us))"
proof (cases "buildMixedUnits m st")
  case (Inr us1)
  obtain water ok where w: "lowWaterMark stateBudget (cmg_CompactionLowWater m) = (water, ok)" by (rule prod.exhaust)
  from allocateMixed_outcome [OF keep_newest_built [OF built [OF Inr]], of m "cancelled 1" water sysTokens]
  obtain al us err where a: "allocateMixed m (cancelled 1) (keep_newest us1) water sysTokens = Some (al, us, err)" "err = None \<longrightarrow> allocated m water sysTokens (keep_newest us1) al us" by blast
  then show ?thesis by (cases full) (auto simp: low_water_pass_def w Inr)
qed (cases full, auto simp: low_water_pass_def split: prod.split)

lemma allocate_and_account_outcome:
  assumes "buildMixedUnits m st = Inr us"
  shows "\<exists>out. allocate_and_account m cancelled st stMat k budget us summary sysTokens stateBudget = Some out \<and>
    (\<forall>tr. fst (snd (snd out)) = Some tr \<longrightarrow> (\<exists>al us'. out = account_mixed m (thresholds_normalize (tb_Thresholds budget)) k budget stateBudget (st_System stMat) summary al us' \<and> (\<forall>u \<in> set us'. unit_settled m u)))"
proof -
  from allocateMixed_outcome [OF built [OF assms], of m "cancelled 0" stateBudget sysTokens]
  obtain al us1 err where a: "allocateMixed m (cancelled 0) us stateBudget sysTokens = Some (al, us1, err)" "err = None \<longrightarrow> allocated m stateBudget sysTokens us al us1" by blast
  show ?thesis
  proof (cases err)
    case None
    then have "allocated m stateBudget sysTokens us (fst (al, us1)) (snd (al, us1))" using a by simp
    from low_water_outcome [OF this, of cancelled st] obtain al2 us2 where l: "low_water_pass m cancelled st stateBudget sysTokens (al, us1) = Some (al2, us2)" "\<forall>u \<in> set us2. unit_settled m u"
      using a None by (auto simp: allocated_def)
    then show ?thesis using a(1) None by (auto simp: allocate_and_account_def)
  qed (use a(1) in \<open>auto simp: allocate_and_account_def Let_def\<close>)
qed

definition row_decided :: "ContextSubjectTrace \<Rightarrow> bool" where
  "row_decided r \<longleftrightarrow>
     (if cst_Omitted r
      then cst_Decision r = DecisionOmitted \<and> cst_OmissionReason r \<in> {OmitTokenBudget, OmitByteCap, OmitChainEvicted} \<and> cst_Representations r = [] \<and> cst_EstimatedTokens r = 0 \<and> cst_Bytes r = 0
      else cst_Decision r \<in> {DecisionBase, DecisionFloor, DecisionUpgrade} \<and> cst_OmissionReason r = [])"

lemma spanRow_decided: "taken s \<or> left_out s \<or> gone s \<Longrightarrow> row_decided (spanRow u s)"
  by (auto simp: spanRow_def newSubjectRow_def row_decided_def taken_def left_out_def gone_def)

lemma anchorRow_decided: "taken s \<or> left_out s \<or> gone s \<Longrightarrow> row_decided (anchorRow m s)"
  by (auto simp: anchorRow_def newSubjectRow_def row_decided_def taken_def left_out_def gone_def Let_def)

lemma unit_rows_decided:
  assumes "unit_settled m u" "r \<in> set (unit_rows m' u)"
  shows "row_decided r"
proof -
  have s: "taken s \<or> left_out s \<or> gone s" if "mu_subject u = Some s" for s
    using assms(1) that by (auto simp: unit_settled_def unit_admitted_def unit_gone_def split: if_splits)
  have "taken s \<or> left_out s \<or> gone s" if "a \<in> set (mu_anchors u)" "s \<in> set (ma_subjects a)" for a s
    using assms(1) that by (auto simp: unit_settled_def unit_admitted_def unit_gone_def anchor_settled_def must_fit_def split: if_splits)
  then show ?thesis using s assms(2) by (auto simp: unit_rows_def spanRow_decided anchorRow_decided split: option.splits)
qed

lemma fillMixedTrace_decided:
  assumes "\<forall>u \<in> set us. unit_settled m u" "r \<in> set (cat_Subjects (fillMixedTrace m' us summary al x y))"
  shows "row_decided r"
proof -
  have "row_decided (summary_row m' msg)" for msg by (simp add: summary_row_def row_decided_def)
  then show ?thesis using assms unit_rows_decided by (auto simp: fillMixedTrace_def Let_def split: option.splits)
qed

text \<open>C9: Assembling a prompt always ends: whatever the conversation, the estimator, the budget and the moments at which the context is cancelled, the retry and upgrade
  loops of mixed assembly stop and a result, or an error, is returned.\<close>

theorem assembly_ends: "\<exists>out. AssembleWithTrace quote cancelled m st toolSchemaTokens budget = Some out"
proof -
  let ?m = "m\<lparr>cmg_Estimate := Some (guardedEstimate (cmg_Estimate m))\<rparr>"
  have "\<exists>out. assembleMixed quote cancelled m st toolSchemaTokens budget = Some out"
  proof (cases "buildMixedUnits ?m st")
    case (Inr us)
    note a = allocate_and_account_outcome [OF this]
    then have "\<exists>out. allocate_and_account ?m cancelled st stMat k b us sm sy sb = Some out" for stMat k b sm sy sb by blast
    then show ?thesis unfolding assembleMixed_def Let_def Inr by (auto split: prod.split sum.split)
  qed (auto simp: assembleMixed_def Let_def split: prod.split)
  then show ?thesis by (auto simp: AssembleWithTrace_def split: prod.split)
qed

end
