(* ===== verification/Mixed_Contract.thy ===== *)
theory Mixed_Contract
  imports Mixed_Guarantees
begin

text \<open>
  The contract of mixed assembly stated on its outcomes, and the recount of the assembled prompt.
\<close>

section \<open>A small conversation\<close>

definition sample_alternative :: "Depth \<Rightarrow> RepresentationKind \<Rightarrow> string \<Rightarrow> ContextAlternative" where
  "sample_alternative d k s = \<lparr>ca_Desc = \<lparr>ad_Representations = [\<lparr>rd_Depth = d, rd_Kind = k\<rparr>]\<rparr>, ca_Content = s, ca_Attrib = None\<rparr>"

definition sample_set :: ContextSet where
  "sample_set = \<lparr>cs_Groups = [\<lparr>cg_Desc = \<lparr>gd_Subject = \<lparr>sr_Domain = DomainRAG, sr_ID = ''a''\<rparr>, gd_Lane = 0, gd_Rank = 0\<rparr>,
     cg_Alternatives = [sample_alternative DepthL0 RepresentationCompact ''aaaa'', sample_alternative DepthL2 RepresentationVerbatim ''aaaaaaaaaaaa'']\<rparr>], cs_MinVerbatim = 0\<rparr>"

definition sample_call :: "string \<Rightarrow> Message" where
  "sample_call callID = mk_Message ((mk_ChatMessage ''assistant'' [])\<lparr>cm_ToolCalls := [\<lparr>tc_ID = callID, tc_Type = ''f'', tc_Function = \<lparr>tcf_Index = 0, tcf_Name = ''q'', tcf_Arguments = ''x''\<rparr>\<rparr>]\<rparr>) Elastic"

definition sample_result :: "string \<Rightarrow> Message" where
  "sample_result callID = (mk_Message ((mk_ChatMessage ''tool'' [])\<lparr>cm_ToolCallID := callID\<rparr>) Elastic)\<lparr>m_Context := Some sample_set, m_OutputCap := 100\<rparr>"

definition sample_conversation :: State where
  "sample_conversation = \<lparr>st_System = ''s'', st_DurableSummary = [], st_Messages = [mk_Message (mk_ChatMessage ''user'' ''goal'') Pinned, sample_call ''1'', sample_result ''1''], st_systemKeys = []\<rparr>"

definition mixed_manager :: "bool \<Rightarrow> ContextManager" where
  "mixed_manager frames = \<lparr>cmg_Compactor = NilCompactor, cmg_Estimate = Some (guardedEstimate None), cmg_frameToolResults = frames,
     cmg_advisoryTokens = 0, cmg_Mixed = True, cmg_CompactionLowWater = F_Fin 0\<rparr>"

definition sample_units :: "mixedUnit list" where
  "sample_units = projr (buildMixedUnits (mixed_manager False) sample_conversation)"

lemma sample_units: "buildMixedUnits (mixed_manager False) sample_conversation = Inr sample_units"
proof -
  have "\<not> isl (buildMixedUnits (mixed_manager False) sample_conversation)" by code_simp
  then show ?thesis unfolding sample_units_def by simp
qed

definition sample_outcome :: "mixedAllocState \<times> mixedUnit list \<times> agent_error option" where
  "sample_outcome = the (allocateMixed (mixed_manager False) (\<lambda>_. False) sample_units 30 1)"

lemma sample_outcome: "allocateMixed (mixed_manager False) (\<lambda>_. False) sample_units 30 1 = Some (fst sample_outcome, fst (snd sample_outcome), None)"
proof -
  have "map_option (\<lambda>x. snd (snd x)) (allocateMixed (mixed_manager False) (\<lambda>_. False) sample_units 30 1) = Some None" by code_simp
  then show ?thesis unfolding sample_outcome_def by auto
qed

section \<open>Allocation\<close>

lemma admitted_retained:
  assumes "unit_settled m u"
  shows "admitted u \<longleftrightarrow> \<not> materializeSkip u"
proof (cases "must_fit u")
  case True
  then show ?thesis using assms by (auto simp: unit_settled_def must_fit_def admitted_def materializeSkip_def)
next
  case False
  then have "unit_admitted m u \<or> unit_gone u" using assms by (simp add: unit_settled_def)
  then show ?thesis using False
    by (cases "mu_kind u") (auto simp: must_fit_def unit_admitted_def unit_gone_def admitted_def materializeSkip_def subject_omitted_def taken_def left_out_def gone_def)
qed

lemma settled_anchor:
  assumes "unit_settled m u" "\<not> materializeSkip u" "a \<in> set (mu_anchors u)"
  shows "anchor_settled m a" "anchor_ok m a"
proof -
  have k: "mu_kind u = unitChain" using assms(1,3) by (auto simp: unit_settled_def)
  have "unit_admitted m u" using assms(1,2) k by (auto simp: unit_settled_def must_fit_def materializeSkip_def unit_gone_def)
  then show "anchor_settled m a" using assms(3) by (simp add: unit_admitted_def)
  then show "anchor_ok m a" by (simp add: anchor_settled_def)
qed

definition retained_cost :: "ContextManager \<Rightarrow> mixedUnit list \<Rightarrow> int" where
  "retained_cost m us = (\<Sum>u \<leftarrow> filter (\<lambda>u. \<not> materializeSkip u) us. mu_baseTokens u + (\<Sum>a \<leftarrow> mu_anchors u. cm_estimate m (ma_content a)))"

lemma total_retained: "\<forall>u \<in> set us. unit_settled m u \<Longrightarrow> total us = retained_cost m us"
proof (induction us)
  case (Cons u us)
  have "map ma_tokens (mu_anchors u) = map (\<lambda>a. cm_estimate m (ma_content a)) (mu_anchors u)" if "\<not> materializeSkip u"
    using settled_anchor(2) [of m u] Cons.prems that by (auto simp: anchor_ok_def)
  then show ?case using Cons admitted_retained [of m u] by (auto simp: retained_cost_def unit_cost_def simp del: map_eq_conv)
qed (simp add: retained_cost_def)

text \<open>C8: The ledger of an allocation that succeeds is exact: it holds the system reservation and, for every unit that is kept, its base footprint plus the estimate of
  what each of its anchors really carries, and it is within the budget. What an anchor carries is the join of the alternatives chosen for it, or the placeholder, and never longer than the
  cap of its tool result.\<close>

theorem allocation_exact:
  assumes "buildMixedUnits m st = Inr us" "allocateMixed m cancelled us budget sysTokens = Some (al, us', None)"
  shows "al_used al = sysTokens + retained_cost m us' \<and> al_used al \<le> budget \<and>
    (\<forall>u \<in> set us'. \<not> materializeSkip u \<longrightarrow> (\<forall>a \<in> set (mu_anchors u). ma_content a = anchorJoined a \<and> go_len (ma_content a) \<le> ma_cap a))"
proof -
  have a: "allocated m budget sysTokens us al us'" using allocateMixed_outcome [OF built [OF assms(1)], of m cancelled budget sysTokens] assms(2) by auto
  then have s: "\<forall>u \<in> set us'. unit_settled m u" by (simp add: allocated_def)
  have "ma_content x = anchorJoined x" "go_len (ma_content x) \<le> ma_cap x" if "u \<in> set us'" "\<not> materializeSkip u" "x \<in> set (mu_anchors u)" for u x
    using settled_anchor(2) [of m u x] s that by (auto simp: anchor_ok_def)
  then show ?thesis using a unfolding allocated_def total_retained [OF s] by blast
qed

theorem allocation_exact_witness:
  "al_used (fst sample_outcome) = 1 + retained_cost (mixed_manager False) (fst (snd sample_outcome)) \<and> al_used (fst sample_outcome) = 10"
proof -
  have "al_used (fst sample_outcome) = 10" by code_simp
  then show ?thesis using allocation_exact [OF sample_units sample_outcome] by simp
qed

section \<open>The newest unit\<close>

definition keeps :: "mixedUnit list \<Rightarrow> bool" where
  "keeps us \<longleftrightarrow> (\<forall>u \<in> set us. mu_keep u \<and> mu_kind u \<noteq> unitHistorySpan \<longrightarrow> \<not> subject_omitted u)"

lemma admit_kept_keeps: "admit_kept m st us = (True, st', us') \<Longrightarrow> keeps us'"
  by (induction us arbitrary: st us') (auto simp: keeps_def split: if_splits prod.splits)

lemma allocate_unit_fields: "allocate_unit m st u = (st', u') \<Longrightarrow> mu_keep u' = mu_keep u \<and> mu_kind u' = mu_kind u"
  by (auto simp: allocate_unit_def admitSpan_def allocateChain_passes evict_chain_def Let_def split: if_splits prod.splits)

lemma lane_keeps:
  assumes "\<And>u. P u \<Longrightarrow> \<not> (mu_keep u \<and> mu_kind u \<noteq> unitHistorySpan)"
  shows "keeps us \<Longrightarrow> admit_lane m P st us = (st', us') \<Longrightarrow> keeps us'"
proof (induction us arbitrary: st' us')
  case (Cons u us)
  obtain st1 us1 where r: "admit_lane m P st us = (st1, us1)" by (rule prod.exhaust)
  have "keeps us1" using Cons r by (simp add: keeps_def)
  then show ?case using Cons.prems r allocate_unit_fields [of m st1 u] assms [of u] by (auto simp: keeps_def split: if_splits prod.splits)
qed (simp add: keeps_def)

lemma layout_keeps:
  assumes "layout us' = layout us" "keeps us"
  shows "keeps us'"
proof -
  have "mu_keep (us' ! n) = mu_keep (us ! n)" "mu_kind (us' ! n) = mu_kind (us ! n)" "mu_subject (us' ! n) = mu_subject (us ! n)" if "n < length us'" for n
    using map_eq_nth [OF assms(1) [unfolded layout_def] that] by (auto simp: unit_shape_def)
  moreover have "length us' = length us" using assms(1) unfolding layout_def by (rule map_eq_imp_length_eq)
  moreover have "mu_keep (us ! n) \<and> mu_kind (us ! n) \<noteq> unitHistorySpan \<longrightarrow> \<not> subject_omitted (us ! n)" if "n < length us" for n
    using assms(2) nth_mem [OF that] by (simp add: keeps_def)
  ultimately show ?thesis by (auto simp: keeps_def subject_omitted_def in_set_conv_nth)
qed

lemma refresh_keeps:
  assumes "\<forall>u \<in> set us. unit_settled m u" "keeps us"
  shows "keeps (refreshOmissionReasons m st us)"
proof -
  have r: "refreshOmissionReasons m st us = map (refresh_unit m st) us" by (simp add: refreshOmissionReasons_def refresh_unit_def)
  have "unit_shape (refresh_unit m st u) = unit_shape u" "mu_subject (refresh_unit m st u) = mu_subject u" if "u \<in> set us" for u
    using refresh_unit_settled [of m u st] assms(1) that by simp_all
  then show ?thesis using assms(2) unfolding r keeps_def by (auto simp: subject_omitted_def unit_shape_def)
qed

lemma omitted_retained: "unit_settled m u \<Longrightarrow> \<not> subject_omitted u \<Longrightarrow> \<not> materializeSkip u"
  using admitted_retained [of m u]
  by (auto simp: unit_settled_def unit_admitted_def unit_gone_def gone_def left_out_def taken_def subject_omitted_def admitted_def split: if_splits)

lemma allocateMixed_keeps:
  assumes b: "\<forall>u \<in> set us. unit_built u" and a: "allocateMixed m cancelled us budget sysTokens = Some (st', us', None)"
  shows "\<forall>u \<in> set us'. mu_keep u \<longrightarrow> \<not> materializeSkip u"
proof -
  let ?P = "\<lambda>u. mu_kind u = unitPlainSpan \<and> \<not> mu_keep u" and ?C = "\<lambda>u. mu_kind u = unitChain \<and> \<not> mu_keep u" and ?H = "\<lambda>u. mu_kind u = unitHistorySpan"
  define st where "st = \<lparr>al_budget = budget, al_used = sysTokens, al_arithmeticOverflow = False, al_verbatimShortfalls = 0, al_evictedGroups = 0, al_anchorOmissions = 0\<rparr>"
  obtain r st0 where r: "reserve_must_fit us st = (r, st0)" by (rule prod.exhaust)
  obtain kept st1 us1 where k: "admit_kept m st0 us = (kept, st1, us1)" by (rule prod_cases3)
  obtain st2 us2 where p: "admit_lane m ?P st1 us1 = (st2, us2)" by (rule prod.exhaust)
  obtain st3 us3 where c: "admit_lane m ?C st2 us2 = (st3, us3)" by (rule prod.exhaust)
  obtain st4 us4 where h: "admit_lane m ?H st3 us3 = (st4, us4)" by (rule prod.exhaust)
  note unfold = allocateMixed_def st_def [symmetric] Let_def r split_conv k p c h
  obtain st5 us5 where u: "kept" "upgrade_loop m cancelled 0 st4 us4 = Some (st5, us5)" "us' = (if \<not> al_arithmeticOverflow st5 then refreshOmissionReasons m st5 us5 else us5)"
    using a unfolding unfold by (auto split: if_splits bind_splits)
  have "keeps us1" using admit_kept_keeps k u(1) by simp
  then have "keeps us2" using p by (rule lane_keeps [rotated]) auto
  then have "keeps us3" using c by (rule lane_keeps [rotated]) auto
  then have k4: "keeps us4" using h by (rule lane_keeps [rotated]) auto
  note se = lanes_settled [OF lanes_step [OF b k [unfolded eqTrueI [OF u(1)]] p c h] b]
  have u5: "units_step m st4 us4 st5 us5" using upgrade_loop_returns [OF se(1), of cancelled 0 st4] u(2) by auto
  then have s5: "\<forall>u \<in> set us5. unit_settled m u" "layout us5 = layout us4" by (simp_all add: units_step_def)
  have "keeps us'" using u(3) refresh_keeps [OF s5(1)] layout_keeps [OF s5(2) k4] by simp
  moreover have s: "allocated m budget sysTokens us st' us'" using allocateMixed_outcome [OF b, of m cancelled budget sysTokens] a by auto
  moreover have "mu_kind u = unitChain \<or> mu_kind u = unitPlainSpan" if x: "u \<in> set us'" "mu_keep u" for u
  proof -
    obtain n where n: "n < length us'" "u = us' ! n" using x(1) by (metis in_set_conv_nth)
    have e: "map unit_shape us' = map unit_shape us" using s by (simp add: allocated_def)
    have "unit_shape u = unit_shape (us ! n)" "unit_built (us ! n)" using map_eq_nth [OF e n(1)] n b map_eq_imp_length_eq [OF e] by auto
    then show ?thesis using x(2) by (auto simp: unit_built_def unit_shape_def)
  qed
  ultimately show ?thesis using omitted_retained unfolding allocated_def keeps_def by fastforce
qed

text \<open>The newest unit of the run that may be cut: the last chain or plain span, when no pinned unit, the goal, comes after it.\<close>

definition newest :: "mixedUnit list \<Rightarrow> nat \<Rightarrow> bool" where
  "newest us n \<longleftrightarrow> n < length us \<and> mu_kind (us ! n) \<in> {unitChain, unitPlainSpan} \<and>
     list_all (\<lambda>u. mu_kind u \<notin> {unitChain, unitPlainSpan, unitPinned}) (drop (Suc n) us)"

lemma mark_newest_at:
  "n < length us \<Longrightarrow> mu_kind (us ! n) \<in> {unitChain, unitPlainSpan} \<Longrightarrow> \<forall>u \<in> set (take n us). mu_kind u \<notin> {unitChain, unitPlainSpan, unitPinned} \<Longrightarrow>
   mark_newest us = us[n := (us ! n)\<lparr>mu_keep := True\<rparr>]"
proof (induction us arbitrary: n)
  case (Cons u us)
  then show ?case by (cases n) auto
qed simp

lemma mark_newest_length: "length (mark_newest us) = length us"
  by (induction us) auto

lemma keep_newest_at:
  assumes "newest us n"
  shows "keep_newest us = us[n := (us ! n)\<lparr>mu_keep := True\<rparr>]"
proof -
  let ?n = "length us - Suc n"
  have n: "n < length us" "mu_kind (us ! n) \<in> {unitChain, unitPlainSpan}" "list_all (\<lambda>u. mu_kind u \<notin> {unitChain, unitPlainSpan, unitPinned}) (drop (Suc n) us)"
    using assms by (simp_all add: newest_def)
  have "take ?n (rev us) = rev (drop (Suc n) us)" using n(1) by (simp add: take_rev)
  then have "\<forall>u \<in> set (take ?n (rev us)). mu_kind u \<notin> {unitChain, unitPlainSpan, unitPinned}" using n(3) by (simp add: list_all_iff)
  moreover have "rev us ! ?n = us ! n" using n(1) by (simp add: rev_nth)
  ultimately have "mark_newest (rev us) = (rev us)[?n := (us ! n)\<lparr>mu_keep := True\<rparr>]" using mark_newest_at [of ?n "rev us"] n(1,2) by simp
  then show ?thesis using n(1) by (simp add: keep_newest_def rev_update)
qed

lemma preserves_nth:
  assumes "preservesNewestContent full low" "n < length full" "length low = length full" "mu_keep (low ! n)"
    "j < length (mu_anchors (full ! n))" "length (mu_anchors (low ! n)) = length (mu_anchors (full ! n))" "anchor_selected (mu_anchors (full ! n) ! j)"
  shows "anchor_selected (mu_anchors (low ! n) ! j)"
proof -
  have "(full ! n, low ! n) \<in> set (zip full low)" using assms(2,3) by (auto simp: set_zip)
  moreover have "(mu_anchors (full ! n) ! j, mu_anchors (low ! n) ! j) \<in> set (zip (mu_anchors (full ! n)) (mu_anchors (low ! n)))" using assms(5,6) by (auto simp: set_zip)
  ultimately show ?thesis using assms(1,4,7) unfolding preservesNewestContent_def by blast
qed

text \<open>C12: The second allocation, down to the low-water mark, is only taken over when it keeps the newest unit of the run, the last chain or plain span when no
  pinned unit comes after it: either the first allocation stands, or the new one is within the mark and the newest unit is still in it, is not cut from the prompt, has its messages, and
  each of its tool results that carried some alternative in the first allocation carries some alternative in the second.\<close>

theorem low_water_keeps_newest_content:
  assumes "buildMixedUnits m st = Inr us" "allocateMixed m (cancelled 0) us stateBudget sysTokens = Some (al, us', None)"
    "low_water_pass m cancelled st stateBudget sysTokens (al, us') = Some (al2, us2)"
  shows "(al2, us2) = (al, us') \<or>
    (al_used al2 \<le> fst (lowWaterMark stateBudget (cmg_CompactionLowWater m)) \<and> length us2 = length us \<and>
     (\<forall>n. newest us n \<longrightarrow> mu_msgs (us2 ! n) = mu_msgs (us ! n) \<and> \<not> materializeSkip (us2 ! n) \<and> length (mu_anchors (us2 ! n)) = length (mu_anchors (us' ! n)) \<and>
        (\<forall>j < length (mu_anchors (us' ! n)). anchor_selected (mu_anchors (us' ! n) ! j) \<longrightarrow> anchor_selected (mu_anchors (us2 ! n) ! j))))"
proof (cases "(al2, us2) = (al, us')")
  case False
  let ?water = "fst (lowWaterMark stateBudget (cmg_CompactionLowWater m))"
  note b = built [OF assms(1)]
  have full: "allocated m stateBudget sysTokens us al us'" using allocateMixed_outcome [OF b, of m "cancelled 0" stateBudget sysTokens] assms(2) by auto
  from low_water_outcome [of m stateBudget sysTokens us "(al, us')" cancelled st]
  have low: "allocateMixed m (cancelled 1) (keep_newest us) ?water sysTokens = Some (al2, us2, None)" "allocated m ?water sysTokens (keep_newest us) al2 us2" "preservesNewestContent us' us2"
    using full assms(1,3) False by auto
  note keep = allocateMixed_keeps [OF keep_newest_built [OF b] low(1)]
  have e: "map unit_shape us' = map unit_shape us" "map unit_shape us2 = map unit_shape (keep_newest us)" "al_used al2 \<le> ?water" using full low(2) by (simp_all add: allocated_def)
  have len: "length us' = length us" "length us2 = length us" using map_eq_imp_length_eq [OF e(1)] map_eq_imp_length_eq [OF e(2)] mark_newest_length [of "rev us"] by (simp_all add: keep_newest_def)
  have "mu_msgs (us2 ! n) = mu_msgs (us ! n) \<and> \<not> materializeSkip (us2 ! n) \<and> length (mu_anchors (us2 ! n)) = length (mu_anchors (us' ! n)) \<and>
      (\<forall>j < length (mu_anchors (us' ! n)). anchor_selected (mu_anchors (us' ! n) ! j) \<longrightarrow> anchor_selected (mu_anchors (us2 ! n) ! j))" if nw: "newest us n" for n
  proof -
    have n: "n < length us" using nw by (simp add: newest_def)
    have s2: "unit_shape (us2 ! n) = unit_shape ((us ! n)\<lparr>mu_keep := True\<rparr>)" using map_eq_nth [OF e(2), of n] n len by (simp add: keep_newest_at [OF nw])
    then have k: "mu_keep (us2 ! n)" "mu_msgs (us2 ! n) = mu_msgs (us ! n)" by (simp_all add: unit_shape_def)
    have s1: "unit_shape (us' ! n) = unit_shape (us ! n)" using map_eq_nth [OF e(1), of n] n len by simp
    have la: "length (mu_anchors (us2 ! n)) = length (mu_anchors (us' ! n))" using unit_shape_anchor(1) [OF s1] unit_shape_anchor(1) [OF s2] by simp
    show ?thesis using k la keep n len preserves_nth [OF low(3), of n] by simp
  qed
  then show ?thesis using e(3) len by blast
qed simp

definition low_manager :: ContextManager where
  "low_manager = (mixed_manager False)\<lparr>cmg_CompactionLowWater := F_Fin (15 / 16)\<rparr>"

definition long_conversation :: State where
  "long_conversation = sample_conversation\<lparr>st_Messages := mk_Message (mk_ChatMessage ''user'' (replicate 40 (CHR ''h''))) Elastic # st_Messages sample_conversation\<rparr>"

definition long_units :: "mixedUnit list" where
  "long_units = projr (buildMixedUnits low_manager long_conversation)"

definition long_outcome :: "mixedAllocState \<times> mixedUnit list \<times> agent_error option" where
  "long_outcome = the (allocateMixed low_manager (\<lambda>_. False) long_units 15 1)"

definition long_low :: "mixedAllocState \<times> mixedUnit list" where
  "long_low = the (low_water_pass low_manager (\<lambda>_ _. False) long_conversation 15 1 (fst long_outcome, fst (snd long_outcome)))"

theorem low_water_keeps_newest_content_witness:
  "al_used (fst long_low) \<le> 14 \<and> newest long_units 2 \<and> \<not> materializeSkip (snd long_low ! 2) \<and> anchor_selected (hd (mu_anchors (snd long_low ! 2))) \<and>
   \<not> list_ex mu_keep (fst (snd long_outcome)) \<and> list_ex mu_keep (snd long_low)"
proof -
  have "\<not> isl (buildMixedUnits low_manager long_conversation)" by code_simp
  then have b: "buildMixedUnits low_manager long_conversation = Inr long_units" unfolding long_units_def by simp
  have "map_option (\<lambda>x. (snd (snd x), list_ex mu_keep (fst (snd x)), map anchor_selected (mu_anchors (fst (snd x) ! 2)))) (allocateMixed low_manager (\<lambda>_. False) long_units 15 1) = Some (None, False, [True])" by code_simp
  then have a: "allocateMixed low_manager (\<lambda>_. False) long_units 15 1 = Some (fst long_outcome, fst (snd long_outcome), None)" and k2: "\<not> list_ex mu_keep (fst (snd long_outcome))"
    and an: "map anchor_selected (mu_anchors (fst (snd long_outcome) ! 2)) = [True]"
    unfolding long_outcome_def by auto
  have "map_option (\<lambda>x. list_ex mu_keep (snd x)) (low_water_pass low_manager (\<lambda>_ _. False) long_conversation 15 1 (fst long_outcome, fst (snd long_outcome))) = Some True" by code_simp
  then have k1: "list_ex mu_keep (snd long_low)" and l: "low_water_pass low_manager (\<lambda>_ _. False) long_conversation 15 1 (fst long_outcome, fst (snd long_outcome)) = Some (fst long_low, snd long_low)"
    unfolding long_low_def by auto
  have k: "fst (lowWaterMark 15 (cmg_CompactionLowWater low_manager)) = 14" by code_simp
  have nw: "newest long_units 2" by code_simp
  have ne: "(fst long_low, snd long_low) \<noteq> (fst long_outcome, fst (snd long_outcome))" using k1 k2 by (metis prod.inject)
  have an1: "length (mu_anchors (fst (snd long_outcome) ! 2)) = 1" "anchor_selected (mu_anchors (fst (snd long_outcome) ! 2) ! 0)"
    using arg_cong [OF an, of length] arg_cong [OF an, of hd] by (auto simp: length_Suc_conv)
  note t = low_water_keeps_newest_content [of low_manager, OF b a l, unfolded k]
  then have "length (mu_anchors (snd long_low ! 2)) = 1" "anchor_selected (mu_anchors (snd long_low ! 2) ! 0)" "\<not> materializeSkip (snd long_low ! 2)" "al_used (fst long_low) \<le> 14"
    using ne nw an1 by auto
  then show ?thesis using nw k1 k2 by (auto simp: length_Suc_conv)
qed

section \<open>The trace\<close>

lemma fillMixedTrace_counts:
  fixes m us summary al x y
  defines "tr \<equiv> fillMixedTrace m us summary al x y"
  shows "cat_SelectedSubjects tr = go_len (cat_Subjects tr) \<and> cat_RenderedSubjects tr + cat_OmittedSubjects tr = int (length (cat_Subjects tr))"
proof -
  have "cat_SelectedSubjects tr = go_len (cat_Subjects tr)" "cat_RenderedSubjects tr = int (length (filter (\<lambda>r. \<not> cst_Omitted r) (cat_Subjects tr)))"
      "cat_OmittedSubjects tr = int (length (filter cst_Omitted (cat_Subjects tr)))"
    by (simp_all add: tr_def fillMixedTrace_def Let_def)
  then show ?thesis using sum_length_filter_compl [of cst_Omitted "cat_Subjects tr"] by simp
qed

text \<open>C10: The trace of an assembly leaves no subject undecided: it comes only with success, each of its rows is either rendered, with the decision that chose it and no reason, or
  omitted, with one of the three reasons and no content, and the counts of rendered and omitted subjects add up to the number of rows.\<close>

theorem trace_decided:
  assumes "AssembleWithTrace quote cancelled m st toolSchemaTokens budget = Some (out, p, Some tr, err)"
  shows "err = None \<and> (\<forall>r \<in> set (cat_Subjects tr). row_decided r) \<and> cat_SelectedSubjects tr = go_len (cat_Subjects tr) \<and>
    cat_RenderedSubjects tr + cat_OmittedSubjects tr = int (length (cat_Subjects tr))"
proof -
  let ?m = "m\<lparr>cmg_Estimate := Some (guardedEstimate (cmg_Estimate m))\<rparr>"
  have r: "assembleMixed quote cancelled m st toolSchemaTokens budget = Some (out, p, Some tr, err)" using assms by (auto simp: AssembleWithTrace_def split: if_splits prod.splits)
  obtain us where us: "buildMixedUnits ?m st = Inr us"
    using r by (cases "buildMixedUnits ?m st") (auto simp: assembleMixed_def Let_def split: prod.splits if_splits)
  obtain stMat summary sysTokens stateBudget where "allocate_and_account ?m cancelled st stMat toolSchemaTokens budget us summary sysTokens stateBudget = Some (out, p, Some tr, err)"
    using r unfolding assembleMixed_def Let_def us by (auto split: prod.splits if_splits)
  with allocate_and_account_outcome [OF us, of cancelled stMat toolSchemaTokens budget summary sysTokens stateBudget]
  obtain al us' where a: "(out, p, Some tr, err) = account_mixed ?m (thresholds_normalize (tb_Thresholds budget)) toolSchemaTokens budget stateBudget (st_System stMat) summary al us'"
      "\<forall>u \<in> set us'. unit_settled ?m u" by auto
  then obtain used where t: "tr = fillMixedTrace ?m us' summary al stateBudget used" "err = None" by (auto simp: account_mixed_def Let_def split: prod.splits if_splits)
  show ?thesis using t fillMixedTrace_decided [OF a(2)] fillMixedTrace_counts by simp
qed

definition sample_assembled :: assembled where
  "sample_assembled = the (AssembleWithTrace (\<lambda>s. s) (\<lambda>_ _. False) (mixed_manager True) sample_conversation 0 (sample_budget 60 (F_Fin 0)))"

theorem trace_decided_witness:
  "\<exists>tr. fst (snd (snd sample_assembled)) = Some tr \<and> cat_RenderedSubjects tr = 2 \<and> list_all row_decided (cat_Subjects tr)"
proof -
  let ?r = "AssembleWithTrace (\<lambda>s. s) (\<lambda>_ _. False) (mixed_manager True) sample_conversation 0 (sample_budget 60 (F_Fin 0))"
  have "map_option (\<lambda>x. map_option cat_RenderedSubjects (fst (snd (snd x)))) ?r = Some (Some 2)" by code_simp
  then obtain out p tr err where r: "?r = Some (out, p, Some tr, err)" "cat_RenderedSubjects tr = 2" by auto
  then show ?thesis using trace_decided [OF r(1)] by (simp add: sample_assembled_def list_all_iff)
qed

end
