(* ===== verification/Mixed_Recount.thy ===== *)
theory Mixed_Recount
  imports Mixed_Contract
begin

text \<open>
  The recount of the assembled prompt in \<open>assembleMixed\<close>: it is the ledger of the allocator plus the frames of tool results that stand in units other than completed
  chains, which the units are priced without.
\<close>

section \<open>Prices of units\<close>

definition frame_overhead :: "ContextManager \<Rightarrow> int" where
  "frame_overhead m = rc_toolResultOverhead (costCompactor m)"

definition unframed :: "ContextManager \<Rightarrow> RecencyCompactor" where
  "unframed m = \<lparr>rc_Estimate = cmg_Estimate m, rc_toolResultOverhead = 0\<rparr>"

lemma exact_cost_frame: "exact_cost (costCompactor m) x = exact_cost (unframed m) x + (if m_Role x = ''tool'' then frame_overhead m else 0)"
proof -
  have "rc_estimate (unframed m) = cm_estimate m" by (rule ext) (simp add: unframed_def rc_estimate_def cm_estimate_def)
  then show ?thesis by (simp add: exact_cost_def frame_overhead_def tool_call_costs_def) (simp add: unframed_def)
qed

definition anchor_indices :: "mixedUnit \<Rightarrow> nat set" where
  "anchor_indices u = ma_msgIdx ` set (mu_anchors u)"

definition chain_price :: "ContextManager \<Rightarrow> nat set \<Rightarrow> nat \<Rightarrow> Message list \<Rightarrow> int" where
  "chain_price m I j msgs = (\<Sum>(i, msg) \<leftarrow> enumerate j msgs. exact_cost (costCompactor m) (if i \<in> I then envelope msg else msg))"

definition unit_priced :: "ContextManager \<Rightarrow> mixedUnit \<Rightarrow> bool" where
  "unit_priced m u \<longleftrightarrow>
     (if mu_kind u = unitChain
      then mu_baseTokens u = chain_price m (anchor_indices u) 0 (mu_msgs u) \<and> distinct (map ma_msgIdx (mu_anchors u)) \<and> anchor_indices u \<subseteq> {..<length (mu_msgs u)}
      else mu_baseTokens u = (\<Sum>msg \<leftarrow> mu_msgs u. exact_cost (unframed m) msg) \<and> mu_anchors u = [])"

lemma enumerate_bounds: "(i, x) \<in> set (enumerate j xs) \<Longrightarrow> j \<le> i \<and> i < j + length xs"
  by (auto simp: in_set_enumerate_eq)

lemma chain_price_cong: "(\<And>i. j \<le> i \<Longrightarrow> i < j + length msgs \<Longrightarrow> i \<in> I \<longleftrightarrow> i \<in> J) \<Longrightarrow> chain_price m I j msgs = chain_price m J j msgs"
  unfolding chain_price_def by (rule arg_cong [of _ _ sum_list]) (auto dest: enumerate_bounds)

lemma chain_price_Cons: "chain_price m I j (msg # msgs) = exact_cost (costCompactor m) (if j \<in> I then envelope msg else msg) + chain_price m I (Suc j) msgs"
  by (simp add: chain_price_def)

lemma anchors_from_priced:
  "anchors_from m j base as msgs = Inr (as', base') \<Longrightarrow>
   \<exists>bs. as' = as @ bs \<and> base' = base + chain_price m (ma_msgIdx ` set bs) j msgs \<and> distinct (map ma_msgIdx bs) \<and> ma_msgIdx ` set bs \<subseteq> {j..<j + length msgs}"
proof (induction msgs arbitrary: j base as)
  case Nil
  then show ?case by (auto simp: chain_price_def)
next
  case (Cons msg msgs)
  show ?case
  proof (cases "m_Context msg")
    case None
    then obtain cost where c: "cm_checkedMessageCost m msg = (cost, True)" "anchors_from m (Suc j) (base + cost) as msgs = Inr (as', base')"
      using Cons.prems by (auto split: prod.splits if_splits)
    from Cons.IH [OF c(2)] obtain bs where b: "as' = as @ bs" "base' = base + cost + chain_price m (ma_msgIdx ` set bs) (Suc j) msgs" "distinct (map ma_msgIdx bs)"
      "ma_msgIdx ` set bs \<subseteq> {Suc j..<Suc j + length msgs}" by blast
    have "j \<notin> ma_msgIdx ` set bs" using b(4) by auto
    moreover have "cost = exact_cost (costCompactor m) msg" using c(1) by (auto simp: cm_checkedMessageCost_def dest: checkedMessageCost_ok)
    ultimately show ?thesis using b by (intro exI [of _ bs]) (auto simp: chain_price_Cons)
  next
    case (Some cs)
    then obtain cost where c: "cm_checkedMessageCost m (envelope msg) = (cost, True)" "anchors_from m (Suc j) (base + cost) (as @ [new_anchor j msg cs]) msgs = Inr (as', base')"
      using Cons.prems by (auto split: prod.splits if_splits option.splits)
    from Cons.IH [OF c(2)] obtain bs where b: "as' = as @ new_anchor j msg cs # bs" "base' = base + cost + chain_price m (ma_msgIdx ` set bs) (Suc j) msgs" "distinct (map ma_msgIdx bs)"
      "ma_msgIdx ` set bs \<subseteq> {Suc j..<Suc j + length msgs}" by auto
    have i: "ma_msgIdx (new_anchor j msg cs) = j" by (simp add: new_anchor_def)
    have "chain_price m (insert j (ma_msgIdx ` set bs)) (Suc j) msgs = chain_price m (ma_msgIdx ` set bs) (Suc j) msgs" by (rule chain_price_cong) auto
    moreover have "cost = exact_cost (costCompactor m) (envelope msg)" using c(1) by (auto simp: cm_checkedMessageCost_def dest: checkedMessageCost_ok)
    ultimately show ?thesis using b i by (intro exI [of _ "new_anchor j msg cs # bs"]) (auto simp: chain_price_Cons)
  qed
qed

lemma mixedUnitFor_priced:
  assumes "mixedUnitFor m g first = Inr u" "g_tokens g = (\<Sum>msg \<leftarrow> g_msgs g. exact_cost (unframed m) msg)" "g_msgs g \<noteq> []"
  shows "unit_priced m u"
proof (cases "g_kind g = groupCompletedTool")
  case True
  then obtain as base where c: "chainAnchors m (g_msgs g) = Inr (as, base)" and u: "u = new_unit unitChain (g_msgs g) base as (Some (spanSubject first laneTool base))"
    using assms(1) by (auto simp: mixedUnitFor_def split: option.splits sum.splits)
  obtain x xs where g: "g_msgs g = x # xs" using assms(3) by (cases "g_msgs g") auto
  obtain b0 where b0: "cm_checkedMessageCost m x = (b0, True)" "anchors_from m 1 b0 [] xs = Inr (as, base)" using c g by (auto simp: chainAnchors_def split: prod.splits if_splits)
  from anchors_from_priced [OF b0(2)] have p: "base = b0 + chain_price m (ma_msgIdx ` set as) 1 xs" "distinct (map ma_msgIdx as)" "ma_msgIdx ` set as \<subseteq> {1..<1 + length xs}" by auto
  have "0 \<notin> ma_msgIdx ` set as" using p(3) by auto
  moreover have "b0 = exact_cost (costCompactor m) x" using b0(1) by (auto simp: cm_checkedMessageCost_def dest: checkedMessageCost_ok)
  ultimately show ?thesis using p g by (auto simp: unit_priced_def u new_unit_def anchor_indices_def chain_price_Cons)
qed (use assms in \<open>auto simp: mixedUnitFor_def unit_priced_def new_unit_def split: compactionGroupKind.splits\<close>)

lemma units_from_priced:
  "units_from m first seen gs = Inr us \<Longrightarrow> \<forall>g \<in> set gs. made_group (unframed m) msgs g \<Longrightarrow> u \<in> set us \<Longrightarrow> unit_priced m u"
proof (induction m first seen gs arbitrary: us rule: units_from.induct)
  case (2 m first seen g gs)
  let ?id = "if m_idx (hd (g_msgs g)) > 0 then m_idx (hd (g_msgs g)) - 1 else first"
  obtain v seen' vs where s: "\<not> g_overflow g" "mixedUnitFor m g ?id = Inr v" "mark_subjects seen (trace_keys v) = Inr seen'"
      "units_from m (first + length (g_msgs g)) seen' gs = Inr vs" "us = v # vs"
    using 2(2) by (auto split: if_splits sum.splits)
  have mg: "made_group (unframed m) msgs g" using 2(3) by simp
  then obtain i fp where i: "i < length msgs" "g = mk_group (unframed m) msgs fp i (group_end msgs i)" by (auto simp: made_group_def)
  then have "g_msgs g \<noteq> []" using group_end_bounds(1) [of i msgs] by (auto simp: mk_group_def slice_def)
  then have "unit_priced m v" using mixedUnitFor_priced [OF s(2)] made_group_facts(2) [OF mg s(1)] by simp
  then show ?case using 2(1) [OF s(1,2,3,4)] 2(3,4) s(5) by auto
qed simp

lemma built_priced: "buildMixedUnits m st = Inr us \<Longrightarrow> \<forall>u \<in> set us. unit_priced m u"
  using units_from_priced [of m 0 "{}" "groups (unframed m) st" us "st_Messages st"] groups_made [of _ "unframed m" st]
  unfolding buildMixedUnits_def unframed_def by blast

lemma priced_shape:
  assumes "unit_shape u' = unit_shape u" "unit_priced m u"
  shows "unit_priced m u'"
proof -
  have s: "map shape (mu_anchors u') = map shape (mu_anchors u)" "mu_kind u' = mu_kind u" "mu_msgs u' = mu_msgs u" "mu_baseTokens u' = mu_baseTokens u"
    using assms(1) by (simp_all add: unit_shape_def)
  have "map ma_msgIdx (mu_anchors u') = map ma_msgIdx (mu_anchors u)" using arg_cong [OF s(1), of "map fst"] by (simp add: shape_def comp_def)
  moreover from this have "anchor_indices u' = anchor_indices u" unfolding anchor_indices_def by (metis list.set_map)
  ultimately show ?thesis using assms(2) s by (auto simp: unit_priced_def)
qed

section \<open>The materialized prompt\<close>

lemma find_index_sum:
  fixes f :: "'a \<Rightarrow> nat" and w :: "'a \<Rightarrow> int"
  shows "distinct (map f xs) \<Longrightarrow> f ` set xs \<subseteq> {..<n} \<Longrightarrow>
    (\<Sum>i \<leftarrow> [0..<n]. case List.find (\<lambda>x. f x = i) xs of Some x \<Rightarrow> w x | None \<Rightarrow> 0) = (\<Sum>x \<leftarrow> xs. w x)"
proof (induction xs)
  case (Cons x xs)
  let ?g = "\<lambda>xs i. case List.find (\<lambda>x. f x = i) xs of Some x \<Rightarrow> w x | None \<Rightarrow> 0"
  have none: "List.find (\<lambda>y. f y = f x) xs = None" using Cons.prems(1) by (auto simp: find_None_iff image_iff)
  have "?g (x # xs) i = (if i = f x then w x else 0) + ?g xs i" for i using none by auto
  then have "(\<Sum>i \<leftarrow> [0..<n]. ?g (x # xs) i) = (\<Sum>i \<leftarrow> [0..<n]. if i = f x then w x else 0) + (\<Sum>i \<leftarrow> [0..<n]. ?g xs i)"
    by (simp only: sum_list_addf)
  moreover have "(\<Sum>i \<leftarrow> [0..<n]. if i = f x then w x else 0) = w x" using Cons.prems(2) by (simp add: interv_sum_list_conv_sum_set_nat)
  ultimately show ?case using Cons by simp
qed (simp add: interv_sum_list_conv_sum_set_nat)

lemma anchorFor_None: "anchorFor u i = None \<longleftrightarrow> i \<notin> anchor_indices u"
  by (auto simp: anchorFor_def anchor_indices_def find_None_iff image_iff)

lemma materialize_message_cost:
  assumes "cm_estimate m [] = 0"
  shows "exact_cost (costCompactor m) (materialize_message u i msg) =
    exact_cost (costCompactor m) (if i \<in> anchor_indices u then envelope msg else msg) + (case anchorFor u i of Some a \<Rightarrow> cm_estimate m (ma_content a) | None \<Rightarrow> 0)"
  using assms anchorFor_None [of u i]
  by (cases "anchorFor u i") (auto simp: materialize_message_def detachContext_def envelope_def exact_cost_def)

lemma sum_enumerate_fst: "(\<Sum>(i, x) \<leftarrow> enumerate 0 xs. g i) = (\<Sum>i \<leftarrow> [0..<length xs]. g i)" for g :: "nat \<Rightarrow> int"
proof -
  have "map (\<lambda>(i, x). g i) (enumerate 0 xs) = map g [0..<length xs]" by (rule nth_equalityI) (auto simp: nth_enumerate_eq)
  then show ?thesis by (simp only:)
qed

definition tool_messages :: "mixedUnit \<Rightarrow> int" where
  "tool_messages u = int (length (filter (\<lambda>msg. m_Role msg = ''tool'') (mu_msgs u)))"

lemma materialize_unit_cost:
  assumes "unit_priced m u" "\<not> materializeSkip u" "cm_estimate m [] = 0"
  shows "(\<Sum>x \<leftarrow> materialize_unit u. exact_cost (costCompactor m) x) =
    mu_baseTokens u + (\<Sum>a \<leftarrow> mu_anchors u. cm_estimate m (ma_content a)) + (if mu_kind u = unitChain then 0 else frame_overhead m * tool_messages u)"
proof (cases "mu_kind u = unitChain")
  case True
  let ?w = "\<lambda>a. cm_estimate m (ma_content a)"
  have p: "mu_baseTokens u = chain_price m (anchor_indices u) 0 (mu_msgs u)" "distinct (map ma_msgIdx (mu_anchors u))" "ma_msgIdx ` set (mu_anchors u) \<subseteq> {..<length (mu_msgs u)}"
    using assms(1) True by (simp_all add: unit_priced_def anchor_indices_def)
  have "(\<Sum>x \<leftarrow> materialize_unit u. exact_cost (costCompactor m) x) =
      (\<Sum>(i, msg) \<leftarrow> enumerate 0 (mu_msgs u). exact_cost (costCompactor m) (if i \<in> anchor_indices u then envelope msg else msg) + (case anchorFor u i of Some a \<Rightarrow> ?w a | None \<Rightarrow> 0))"
    using assms(2) by (simp add: materialize_unit_def comp_def case_prod_unfold materialize_message_cost [OF assms(3)])
  also have "\<dots> = chain_price m (anchor_indices u) 0 (mu_msgs u) + (\<Sum>(i, msg) \<leftarrow> enumerate 0 (mu_msgs u). case anchorFor u i of Some a \<Rightarrow> ?w a | None \<Rightarrow> 0)"
    unfolding chain_price_def by (simp add: case_prod_unfold sum_list_addf)
  also have "(\<Sum>(i, msg) \<leftarrow> enumerate 0 (mu_msgs u). case anchorFor u i of Some a \<Rightarrow> ?w a | None \<Rightarrow> 0) = (\<Sum>a \<leftarrow> mu_anchors u. ?w a)"
    unfolding sum_enumerate_fst anchorFor_def by (rule find_index_sum [OF p(2,3)])
  finally show ?thesis using True p(1) by simp
next
  case False
  then have p: "mu_baseTokens u = (\<Sum>msg \<leftarrow> mu_msgs u. exact_cost (unframed m) msg)" "mu_anchors u = []" using assms(1) by (simp_all add: unit_priced_def)
  have "map (exact_cost (costCompactor m)) (materialize_unit u) = map (exact_cost (costCompactor m)) (mu_msgs u)"
    using assms(2) p(2) by (intro nth_equalityI) (auto simp: materialize_unit_def nth_enumerate_eq materialize_message_cost [OF assms(3)] anchorFor_def anchor_indices_def)
  then have "(\<Sum>x \<leftarrow> materialize_unit u. exact_cost (costCompactor m) x) = (\<Sum>x \<leftarrow> mu_msgs u. exact_cost (costCompactor m) x)" by (simp del: map_eq_conv)
  moreover have "(\<Sum>x \<leftarrow> xs. exact_cost (costCompactor m) x) = (\<Sum>x \<leftarrow> xs. exact_cost (unframed m) x) + frame_overhead m * int (length (filter (\<lambda>msg. m_Role msg = ''tool'') xs))" for xs
    by (induction xs) (auto simp: exact_cost_frame algebra_simps)
  ultimately show ?thesis using False p by (simp add: tool_messages_def)
qed

definition framed_spans :: "mixedUnit list \<Rightarrow> int" where
  "framed_spans us = (\<Sum>u \<leftarrow> filter (\<lambda>u. \<not> materializeSkip u \<and> mu_kind u \<noteq> unitChain) us. tool_messages u)"

lemma materialized_cost:
  assumes "cm_estimate m [] = 0"
  shows "\<forall>u \<in> set us. unit_priced m u \<Longrightarrow>
    (\<Sum>x \<leftarrow> concat (map materialize_unit us). exact_cost (costCompactor m) x) = retained_cost m us + frame_overhead m * framed_spans us"
proof (induction us)
  case (Cons u us)
  then show ?case using materialize_unit_cost [of m u, OF _ _ assms]
    by (cases "materializeSkip u") (auto simp: retained_cost_def framed_spans_def materialize_unit_def algebra_simps)
qed (simp add: retained_cost_def framed_spans_def)

lemma allocated_priced:
  assumes "allocated m budget sysTokens us al us'" "\<forall>u \<in> set us. unit_priced m u"
  shows "\<forall>u \<in> set us'. unit_priced m u"
proof
  fix u assume "u \<in> set us'"
  then obtain n where n: "n < length us'" "u = us' ! n" by (metis in_set_conv_nth)
  have e: "map unit_shape us' = map unit_shape us" using assms(1) by (simp add: allocated_def)
  have "unit_shape u = unit_shape (us ! n)" "n < length us" using map_eq_nth [OF e n(1)] n map_eq_imp_length_eq [OF e] by auto
  then show "unit_priced m u" using assms(2) priced_shape by simp
qed

definition summary_cost :: "ContextManager \<Rightarrow> Message option \<Rightarrow> int" where
  "summary_cost m summary = (case summary of Some msg \<Rightarrow> exact_cost (costCompactor m) msg | None \<Rightarrow> 0)"

lemma recount:
  assumes "allocated m budget sysTokens us al us'" "\<forall>u \<in> set us. unit_priced m u" "cm_estimate m [] = 0"
  shows "state_cost (costCompactor m) (materializeMixed system summary us') =
    cm_estimate m system + summary_cost m summary + (al_used al - sysTokens) + frame_overhead m * framed_spans us'"
proof -
  have "exact_cost (costCompactor m) (detachContext msg) = exact_cost (costCompactor m) msg" for msg by (simp add: detachContext_def exact_cost_def)
  moreover have "al_used al = sysTokens + retained_cost m us'" using assms(1) total_retained by (simp add: allocated_def)
  ultimately show ?thesis using materialized_cost [OF assms(3) allocated_priced [OF assms(1,2)]]
    by (simp add: materializeMixed_def state_cost_def summary_cost_def split: option.split)
qed

text \<open>C11: After an allocation that succeeded, the recount of the prompt is the allocator's ledger plus one frame for every tool result in a kept unit that is not a completed
  chain, and assembly ends in exhaustion exactly when that exceeds the budget. So without frames, or without such a result, an assembly that gets this far always succeeds; with them it can
  fail although the allocator kept within its budget and could have dropped more.\<close>

theorem recount_decides:
  assumes "buildMixedUnits m st = Inr us" "allocateMixed m cancelled us stateBudget sysTokens = Some (al, us', None)"
    and "cm_estimate m [] = 0" "nonneg_manager m toolSchemaTokens" "tb_Input budget \<le> MaxInt"
    and "sysTokens = cm_estimate m system + cmg_advisoryTokens m + summary_cost m summary" "stateBudget = tb_Input budget - toolSchemaTokens"
  shows "snd (snd (snd (account_mixed m thresholds toolSchemaTokens budget stateBudget system summary al us'))) =
    (if al_used al + frame_overhead m * framed_spans us' \<le> stateBudget then None else Some (MixAgent ErrContextExhausted))"
proof -
  let ?out = "materializeMixed system summary us'"
  have a: "allocated m stateBudget sysTokens us al us'" using allocateMixed_outcome [OF built [OF assms(1)], of m cancelled stateBudget sysTokens] assms(2) by auto
  have sys: "st_System ?out = system" by (simp add: materializeMixed_def)
  have cost: "prompt_cost m ?out 0 = al_used al + frame_overhead m * framed_spans us'"
    using recount [OF a built_priced [OF assms(1)] assms(3), of system summary] assms(6) by (simp add: prompt_cost_def)
  obtain used usedOK where u: "checkedTotalTokens m ?out 0 = (used, usedOK)" by (rule prod.exhaust)
  obtain after afterOK where f: "checkedTokenAdd used toolSchemaTokens = (after, afterOK)" by (rule prod.exhaust)
  have nn: "nonneg_manager m 0" "0 \<le> toolSchemaTokens" using assms(4) by (simp_all add: nonneg_manager_def)
  have "(\<not> usedOK \<or> \<not> afterOK \<or> after > tb_Input budget) \<longleftrightarrow> \<not> prompt_cost m ?out 0 \<le> stateBudget"
  proof (cases "prompt_cost m ?out 0 \<le> stateBudget")
    case True
    then have "used = prompt_cost m ?out 0 \<and> usedOK" using checkedTotalTokens_total [OF nn(1), of ?out] assms(5,7) nn(2) u by simp
    moreover from this True have "after = used + toolSchemaTokens \<and> afterOK" using f checkedTokenAdd_nonneg [OF nn(2), of used] assms(5,7) by simp
    ultimately show ?thesis using True assms(7) by simp
  next
    case False
    then show ?thesis using checkedTotalTokens_ok(1) [of m ?out 0 used] u f assms(7) by (cases usedOK; cases afterOK) auto
  qed
  then show ?thesis by (simp add: account_mixed_def Let_def u f cost split: prod.split)
qed

section \<open>A ledger that is too short\<close>

definition open_conversation :: State where
  "open_conversation = sample_conversation\<lparr>st_Messages := st_Messages sample_conversation @
     [mk_Message ((mk_ChatMessage ''assistant'' [])\<lparr>cm_ToolCalls := [\<lparr>tc_ID = ''2'', tc_Type = ''f'', tc_Function = \<lparr>tcf_Index = 0, tcf_Name = ''q'', tcf_Arguments = ''x''\<rparr>\<rparr>,
        \<lparr>tc_ID = ''3'', tc_Type = ''f'', tc_Function = \<lparr>tcf_Index = 0, tcf_Name = ''q'', tcf_Arguments = ''x''\<rparr>\<rparr>]\<rparr>) Elastic,
      mk_Message ((mk_ChatMessage ''tool'' ''r'')\<lparr>cm_ToolCallID := ''2''\<rparr>) Elastic]\<rparr>"

definition open_units :: "mixedUnit list" where
  "open_units = projr (buildMixedUnits (mixed_manager True) open_conversation)"

definition open_outcome :: "mixedAllocState \<times> mixedUnit list \<times> agent_error option" where
  "open_outcome = the (allocateMixed (mixed_manager True) (\<lambda>_. False) open_units 50 1)"

lemma mixed_manager_nonneg: "nonneg_manager (mixed_manager b) 0"
proof -
  have "0 \<le> cm_estimate (mixed_manager b) s \<and> cm_estimate (mixed_manager b) s \<le> MaxInt" for s
    using default_costs_nonneg [of 0, unfolded nonneg_costs_def rc_estimate_def default_estimate_def, simplified, rule_format, of s]
    by (cases "s = []") (simp_all add: cm_estimate_def mixed_manager_def guardedEstimate_def)
  then show ?thesis by (simp add: nonneg_manager_def) (simp add: mixed_manager_def)
qed

lemma open_outcome:
  "buildMixedUnits (mixed_manager True) open_conversation = Inr open_units"
  "allocateMixed (mixed_manager True) (\<lambda>_. False) open_units 50 1 = Some (fst open_outcome, fst (snd open_outcome), None)"
  "al_used (fst open_outcome) = 44" "framed_spans (fst (snd open_outcome)) = 1"
proof -
  have "\<not> isl (buildMixedUnits (mixed_manager True) open_conversation)" by code_simp
  then show "buildMixedUnits (mixed_manager True) open_conversation = Inr open_units" unfolding open_units_def by simp
  have "map_option (\<lambda>x. (snd (snd x), al_used (fst x), framed_spans (fst (snd x)))) (allocateMixed (mixed_manager True) (\<lambda>_. False) open_units 50 1) = Some (None, 44, 1)" by code_simp
  then show "allocateMixed (mixed_manager True) (\<lambda>_. False) open_units 50 1 = Some (fst open_outcome, fst (snd open_outcome), None)"
    "al_used (fst open_outcome) = 44" "framed_spans (fst (snd open_outcome)) = 1" unfolding open_outcome_def by auto
qed

theorem recount_decides_witness:
  "snd (snd (snd (account_mixed (mixed_manager True) zero_thresholds 0 (sample_budget 50 (F_Fin 0)) 50 ''s'' None (fst open_outcome) (fst (snd open_outcome))))) = Some (MixAgent ErrContextExhausted)"
proof -
  have e: "cm_estimate (mixed_manager True) [] = 0" "frame_overhead (mixed_manager True) = 24" "tb_Input (sample_budget 50 (F_Fin 0)) = 50"
    "(1::int) = cm_estimate (mixed_manager True) ''s'' + cmg_advisoryTokens (mixed_manager True) + summary_cost (mixed_manager True) None" "(50::int) \<le> MaxInt" by code_simp+
  have "snd (snd (snd (account_mixed (mixed_manager True) zero_thresholds 0 (sample_budget 50 (F_Fin 0)) 50 ''s'' None (fst open_outcome) (fst (snd open_outcome))))) =
      (if al_used (fst open_outcome) + frame_overhead (mixed_manager True) * framed_spans (fst (snd open_outcome)) \<le> 50 then None else Some (MixAgent ErrContextExhausted))"
    by (rule recount_decides [OF open_outcome(1,2) e(1) mixed_manager_nonneg _ e(4)]) (simp_all add: e(3,5))
  then show ?thesis by (simp add: open_outcome(3,4) e(2))
qed

text \<open>An assembly can be refused although a prompt fits: with frames on, a conversation whose newest tool call is unanswered is priced at 44 of 50 tokens, no unit is
  given up, and the recount of 68 tokens then ends the assembly as exhausted; without the completed chain the same prompt has 36 tokens.\<close>

theorem frames_exhaust_budget:
  "map_option (\<lambda>x. (snd (snd (snd x)), pr_InputTokens (fst (snd x)), pr_Evicted (fst (snd x))))
     (AssembleWithTrace (\<lambda>s. s) (\<lambda>_ _. False) (mixed_manager True) open_conversation 0 (sample_budget 50 (F_Fin 0))) = Some (Some (MixAgent ErrContextExhausted), 68, 0) \<and>
   map_option (\<lambda>x. (snd (snd x), al_used (fst x))) (allocateMixed (mixed_manager True) (\<lambda>_. False) open_units 50 1) = Some (None, 44) \<and>
   prompt_cost (mixed_manager True) (open_conversation\<lparr>st_Messages := hd (st_Messages open_conversation) # drop 3 (st_Messages open_conversation)\<rparr>) 0 = 36"
proof (intro conjI)
  show "map_option (\<lambda>x. (snd (snd x), al_used (fst x))) (allocateMixed (mixed_manager True) (\<lambda>_. False) open_units 50 1) = Some (None, 44)" using open_outcome(2,3) by simp
qed code_simp+

end
