(* ===== verification/Mixed_Memo.thy ===== *)
theory Mixed_Memo
  imports Mixed_Contract
begin

text \<open>
  The memo of upgrade candidates, \<open>upgradeCand\<close> in \<open>agent/mixed_alloc.go\<close>, is only a cache: the allocator is compared with a reference allocator that has no memo and prices
  every later alternative again, at every turn, against the current choices. Both runs are followed side by side, related by equality of the units without their memos.
\<close>

section \<open>An allocator without a memo\<close>

definition candidate_afresh :: "ContextManager \<Rightarrow> bool \<Rightarrow> nat \<Rightarrow> mixedAllocState \<Rightarrow> mixedAnchor \<Rightarrow> (nat \<times> int) option \<times> mixedAllocState" where
  "candidate_afresh m evidenceOnly k st a =
     candidate_ref m evidenceOnly k [nat (ms_chosen (ma_subjects a ! k) + 1)..<length (ms_alts (ma_subjects a ! k))] st a"

fun plain_scan :: "ContextManager \<Rightarrow> bool \<Rightarrow> position list \<Rightarrow> best \<Rightarrow> mixedAllocState \<Rightarrow> mixedUnit list \<Rightarrow> best \<times> mixedAllocState" where
  "plain_scan m evidenceOnly [] best st us = (best, st)"
| "plain_scan m evidenceOnly ((i, j, k) # ps) best st us =
     (if ms_chosen (ma_subjects (anchor_at us i j) ! k) < 0 then plain_scan m evidenceOnly ps best st us
      else case candidate_afresh m evidenceOnly k st (anchor_at us i j) of (c, st) \<Rightarrow>
        plain_scan m evidenceOnly ps
          (case c of
             None \<Rightarrow> best
           | Some (n, dTok) \<Rightarrow> (case best of None \<Rightarrow> Some ((i, j, k), n, dTok) | Some (_, _, d) \<Rightarrow> if dTok < d then Some ((i, j, k), n, dTok) else best))
          st us)"

definition plain_once :: "ContextManager \<Rightarrow> bool \<Rightarrow> bool \<Rightarrow> mixedAllocState \<Rightarrow> mixedUnit list \<Rightarrow> bool \<times> mixedAllocState \<times> mixedUnit list" where
  "plain_once m ctxErr evidenceOnly st us =
     (if ctxErr then (False, st, us)
      else case plain_scan m evidenceOnly (positions us) None st us of
             (None, st) \<Rightarrow> (False, st, us)
           | (Some ((i, j, k), n, _), st) \<Rightarrow>
               (case tryAssign m k n DecisionUpgrade st (anchor_at us i j) of (ok, st, a) \<Rightarrow> (ok, st, put_anchor i j a us)))"

partial_function (option) plain_loop :: "ContextManager \<Rightarrow> (nat \<Rightarrow> bool) \<Rightarrow> nat \<Rightarrow> mixedAllocState \<Rightarrow> mixedUnit list \<Rightarrow> (mixedAllocState \<times> mixedUnit list) option" where
  "plain_loop m cancelled n st us =
     (case plain_once m (cancelled n) True st us of (ok, st, us) \<Rightarrow>
        if ok then Option.bind (retryOmitted m st us) (\<lambda>(st, us). plain_loop m cancelled (n + 1) st us)
        else case plain_once m (cancelled (n + 1)) False st us of (ok, st, us) \<Rightarrow>
          if ok then Option.bind (retryOmitted m st us) (\<lambda>(st, us). plain_loop m cancelled (n + 2) st us)
          else Some (st, us))"

declare plain_loop.simps [code]

text \<open>The passes of \<open>allocateMixed\<close>, with the loop without a memo in place of its upgrades.\<close>

definition plain_allocateMixed :: "ContextManager \<Rightarrow> (nat \<Rightarrow> bool) \<Rightarrow> mixedUnit list \<Rightarrow> int \<Rightarrow> int \<Rightarrow> (mixedAllocState \<times> mixedUnit list \<times> agent_error option) option" where
  "plain_allocateMixed m cancelled us budget sysTokens =
     (let st = \<lparr>al_budget = budget, al_used = sysTokens, al_arithmeticOverflow = False, al_verbatimShortfalls = 0, al_evictedGroups = 0, al_anchorOmissions = 0\<rparr>;
          (reservationsOK, st) = reserve_must_fit us st
      in if \<not> reservationsOK \<or> al_used st > al_budget st then Some (st, us, Some ErrContextExhausted)
         else case admit_kept m st us of (kept, st, us) \<Rightarrow>
           if \<not> kept then Some (st, us, Some ErrContextExhausted)
           else case admit_lane m (\<lambda>u. mu_kind u = unitPlainSpan \<and> \<not> mu_keep u) st us of (st, us) \<Rightarrow>
                case admit_lane m (\<lambda>u. mu_kind u = unitChain \<and> \<not> mu_keep u) st us of (st, us) \<Rightarrow>
                case admit_lane m (\<lambda>u. mu_kind u = unitHistorySpan) st us of (st, us) \<Rightarrow>
                  Option.bind (plain_loop m cancelled 0 st us) (\<lambda>(st, us).
                    let us = (if \<not> al_arithmeticOverflow st then refreshOmissionReasons m st us else us);
                        st = st\<lparr>al_verbatimShortfalls := al_verbatimShortfalls st + count_shortfalls us\<rparr>
                    in Some (st, us, if al_arithmeticOverflow st then Some ErrContextExhausted else None)))"

section \<open>Steps that do not look at the memo\<close>

lemma forget_simps [simp]:
  "ma_cap (forget a) = ma_cap a" "ma_tokens (forget a) = ma_tokens a" "ma_minVerbatim (forget a) = ma_minVerbatim a" "ma_verbatimGot (forget a) = ma_verbatimGot a"
  "length (ma_subjects (forget a)) = length (ma_subjects a)" "forget (forget a) = forget a"
  by (simp_all add: forget_def comp_def)

lemma forget_nth [simp]: "k < length (ma_subjects a) \<Longrightarrow> ma_subjects (forget a) ! k = (ma_subjects a ! k)\<lparr>ms_cands := []\<rparr>"
  by (simp add: forget_def)

lemma forget_choices [simp]: "choices (forget a) = choices a"
  by (simp add: forget_def choices_def)

lemma joined_forget [simp]: "k < length (ma_subjects a) \<Longrightarrow> anchorJoined (set_chosen k i (forget a)) = anchorJoined (set_chosen k i a)"
  by (rule anchorJoined_choices) (simp add: choices_set_chosen)

lemma commit_forget: "k < length (ma_subjects a) \<Longrightarrow> commit k i d c t (forget a) = forget (commit k i d c t a)"
  by (simp add: commit_def Let_def) (simp add: forget_def comp_def map_update)

lemma tryAssign_forget:
  "k < length (ma_subjects a) \<Longrightarrow> tryAssign m k i d st (forget a) = (case tryAssign m k i d st a of (ok, st, a) \<Rightarrow> (ok, st, forget a))"
  by (simp add: tryAssign_def Let_def commit_forget split: prod.split)

lemma tryAssign_subjects: "tryAssign m k i d st a = (ok, st', a') \<Longrightarrow> length (ma_subjects a') = length (ma_subjects a)"
  by (auto simp: tryAssign_def commit_def Let_def split: if_splits prod.splits)

lemma try_first_subjects: "try_first m k d is st a = (ok, st', a') \<Longrightarrow> length (ma_subjects a') = length (ma_subjects a)"
  by (induction "is" arbitrary: st a) (auto dest: tryAssign_subjects split: if_splits prod.splits)

lemma try_first_forget:
  "k < length (ma_subjects a) \<Longrightarrow> try_first m k d is st (forget a) = (case try_first m k d is st a of (ok, st, a) \<Rightarrow> (ok, st, forget a))"
proof (induction "is" arbitrary: st a)
  case (Cons i "is")
  obtain ok st1 a1 where t: "tryAssign m k i d st a = (ok, st1, a1)" by (rule prod_cases3)
  have "k < length (ma_subjects a1)" using tryAssign_subjects [OF t] Cons.prems by simp
  then show ?case using Cons.IH [of a1 st1] Cons.prems t by (simp add: tryAssign_forget)
qed simp

lemma omissionReason_forget: "k < length (ma_subjects a) \<Longrightarrow> omissionReason m st (forget a) k = omissionReason m st a k"
  by (simp add: omissionReason_def Let_def split: prod.split)

lemma refresh_anchor_forget: "refresh_anchor m st (forget a) = forget (refresh_anchor m st a)"
proof -
  have "map (\<lambda>k. let s = ma_subjects (forget a) ! k in if ms_omitted s \<and> ms_reason s \<noteq> OmitChainEvicted \<and> ms_alts s \<noteq> [] then s\<lparr>ms_reason := omissionReason m st (forget a) k\<rparr> else s) (all_positions (forget a)) =
      map (\<lambda>s. s\<lparr>ms_cands := []\<rparr>) (ma_subjects (refresh_anchor m st a))"
    by (rule nth_equalityI) (simp_all add: refresh_anchor_def all_positions_def omissionReason_forget Let_def)
  then show ?thesis unfolding refresh_anchor_def by (simp only:) (simp add: forget_def)
qed

section \<open>Units without their memos\<close>

definition forget_unit :: "mixedUnit \<Rightarrow> mixedUnit" where
  "forget_unit u = u\<lparr>mu_anchors := map forget (mu_anchors u)\<rparr>"

abbreviation forget_units :: "mixedUnit list \<Rightarrow> mixedUnit list" where
  "forget_units \<equiv> map forget_unit"

definition sim :: "mixedUnit list \<Rightarrow> mixedUnit list \<Rightarrow> bool" where
  "sim us vs \<longleftrightarrow> forget_units us = forget_units vs"

lemma forget_unit_simps [simp]: "mu_kind (forget_unit u) = mu_kind u" "mu_evicted (forget_unit u) = mu_evicted u" "mu_anchors (forget_unit u) = map forget (mu_anchors u)"
  by (simp_all add: forget_unit_def)

lemma sim_refl [simp]: "sim us us"
  by (simp add: sim_def)

lemma sim_nth:
  assumes "sim us vs" "i < length us"
  shows "length vs = length us" "mu_kind (vs ! i) = mu_kind (us ! i)" "mu_evicted (vs ! i) = mu_evicted (us ! i)"
    "map forget (mu_anchors (vs ! i)) = map forget (mu_anchors (us ! i))" "length (mu_anchors (vs ! i)) = length (mu_anchors (us ! i))"
proof -
  show l: "length vs = length us" using map_eq_imp_length_eq [OF assms(1) [unfolded sim_def]] by simp
  have e: "forget_unit (vs ! i) = forget_unit (us ! i)" using map_eq_nth [OF assms(1) [unfolded sim_def] assms(2)] by simp
  show "mu_kind (vs ! i) = mu_kind (us ! i)" using arg_cong [OF e, of mu_kind] by simp
  show "mu_evicted (vs ! i) = mu_evicted (us ! i)" using arg_cong [OF e, of mu_evicted] by simp
  show f: "map forget (mu_anchors (vs ! i)) = map forget (mu_anchors (us ! i))" using arg_cong [OF e, of mu_anchors] by simp
  show "length (mu_anchors (vs ! i)) = length (mu_anchors (us ! i))" using f by (rule map_eq_imp_length_eq)
qed

lemma sim_anchor:
  assumes "sim us vs" "i < length us" "j < length (mu_anchors (us ! i))"
  shows "forget (anchor_at vs i j) = forget (anchor_at us i j)"
  using map_eq_nth [OF sim_nth(4) [OF assms(1,2)], of j] sim_nth(5) [OF assms(1,2)] assms(3) by (simp add: anchor_at_def)

lemma forget_subject:
  assumes "forget b = forget a" "k < length (ma_subjects a)"
  shows "(ma_subjects b ! k)\<lparr>ms_cands := []\<rparr> = (ma_subjects a ! k)\<lparr>ms_cands := []\<rparr>"
  using arg_cong [OF assms(1), of "\<lambda>x. ma_subjects x ! k"] assms(2) forget_eq(8) [OF assms(1)] by (simp add: forget_def)

lemma forget_fields:
  assumes "forget b = forget a" "k < length (ma_subjects a)"
  shows "ms_chosen (ma_subjects b ! k) = ms_chosen (ma_subjects a ! k)" "ms_alts (ma_subjects b ! k) = ms_alts (ma_subjects a ! k)"
    "ms_omitted (ma_subjects b ! k) = ms_omitted (ma_subjects a ! k)" "ms_reason (ma_subjects b ! k) = ms_reason (ma_subjects a ! k)"
proof -
  note e = forget_subject [OF assms]
  show "ms_chosen (ma_subjects b ! k) = ms_chosen (ma_subjects a ! k)" using arg_cong [OF e, of ms_chosen] by simp
  show "ms_alts (ma_subjects b ! k) = ms_alts (ma_subjects a ! k)" using arg_cong [OF e, of ms_alts] by simp
  show "ms_omitted (ma_subjects b ! k) = ms_omitted (ma_subjects a ! k)" using arg_cong [OF e, of ms_omitted] by simp
  show "ms_reason (ma_subjects b ! k) = ms_reason (ma_subjects a ! k)" using arg_cong [OF e, of ms_reason] by simp
qed

lemma sim_positions:
  assumes "sim us vs"
  shows "positions vs = positions us" "positions_newest vs = positions_newest us"
proof -
  have l: "length vs = length us" using map_eq_imp_length_eq [OF assms [unfolded sim_def]] by simp
  have "unit_positions vs i = unit_positions us i" if i: "i < length us" for i
  proof -
    note s = sim_nth [OF assms i]
    have "all_positions (anchor_at vs i j) = all_positions (anchor_at us i j)" if "j < length (mu_anchors (us ! i))" for j
      using forget_eq(8) [OF sim_anchor [OF assms i that]] by (simp add: all_positions_def)
    then show ?thesis unfolding unit_positions_def s by (auto intro!: arg_cong [of _ _ concat])
  qed
  then show "positions vs = positions us" "positions_newest vs = positions_newest us"
    unfolding positions_def positions_newest_def l by (auto intro!: arg_cong [of _ _ concat])
qed

lemma put_anchor_forget: "forget_units (put_anchor i j a us) = put_anchor i j (forget a) (forget_units us)"
  by (cases "i < length us") (simp_all add: put_anchor_def map_update forget_unit_def list_update_beyond)

lemma sim_put: "sim us vs \<Longrightarrow> forget b = forget a \<Longrightarrow> sim (put_anchor i j a us) (put_anchor i j b vs)"
  by (simp add: sim_def put_anchor_forget)

lemma sim_put_left:
  assumes "sim us vs" "i < length us" "j < length (mu_anchors (us ! i))" "forget a = forget (anchor_at us i j)"
  shows "sim (put_anchor i j a us) vs"
proof -
  have "put_anchor i j (anchor_at us i j) us = us" by (simp add: put_anchor_def anchor_at_def)
  then show ?thesis using assms put_anchor_forget [of i j "anchor_at us i j" us] by (simp add: sim_def put_anchor_forget)
qed

lemma sim_refresh: "sim us vs \<Longrightarrow> sim (refreshOmissionReasons m st us) (refreshOmissionReasons m st vs)"
proof -
  have "forget_unit (refresh_unit m st u) = refresh_unit m st (forget_unit u)" for u
    by (simp add: refresh_unit_def forget_unit_def comp_def refresh_anchor_forget)
  then have "forget_units (refreshOmissionReasons m st xs) = map (refresh_unit m st) (forget_units xs)" for xs
    by (simp add: refreshOmissionReasons_def refresh_unit_def)
  from this [of us] this [of vs] show "sim us vs \<Longrightarrow> sim (refreshOmissionReasons m st us) (refreshOmissionReasons m st vs)" unfolding sim_def by (simp only:)
qed

lemma sim_shortfalls: "sim us vs \<Longrightarrow> count_shortfalls us = count_shortfalls vs"
proof -
  have "filter (\<lambda>a. ma_minVerbatim a > 0 \<and> ma_verbatimGot a < ma_minVerbatim a) (map forget as) = map forget (filter (\<lambda>a. ma_minVerbatim a > 0 \<and> ma_verbatimGot a < ma_minVerbatim a) as)" for as
    by (induction as) auto
  then have "count_shortfalls xs = count_shortfalls (forget_units xs)" for xs
    by (induction xs) (simp_all add: count_shortfalls_def)
  then show "sim us vs \<Longrightarrow> count_shortfalls us = count_shortfalls vs" unfolding sim_def by metis
qed

section \<open>The retries, side by side\<close>

lemma try_first_sim:
  assumes "forget b = forget a" "k < length (ma_subjects a)" "try_first m k d is st a = (ok, st', a')"
  shows "\<exists>b'. try_first m k d is st b = (ok, st', b') \<and> forget b' = forget a'"
proof -
  obtain ok1 st1 b1 where b: "try_first m k d is st b = (ok1, st1, b1)" by (rule prod_cases3)
  have "k < length (ma_subjects b)" using assms(2) forget_eq(8) [OF assms(1)] by simp
  from try_first_forget [OF this, of m d "is" st] try_first_forget [OF assms(2), of m d "is" st]
  show ?thesis using assms(1,3) b by simp
qed

lemma tryAssign_sim:
  assumes "forget b = forget a" "k < length (ma_subjects a)" "tryAssign m k i d st a = (ok, st', a')"
  shows "\<exists>b'. tryAssign m k i d st b = (ok, st', b') \<and> forget b' = forget a'"
proof -
  obtain ok1 st1 b1 where b: "tryAssign m k i d st b = (ok1, st1, b1)" by (rule prod_cases3)
  have "k < length (ma_subjects b)" using assms(2) forget_eq(8) [OF assms(1)] by simp
  from tryAssign_forget [OF this, of m i d st] tryAssign_forget [OF assms(2), of m i d st]
  show ?thesis using assms(1,3) b by simp
qed

lemma taken_back_sim:
  assumes "forget b = forget a" "k < length (ma_subjects a)"
  shows "forget (b\<lparr>ma_subjects := (ma_subjects b)[k := (ma_subjects b ! k)\<lparr>ms_omitted := False, ms_reason := []\<rparr>]\<rparr>) =
    forget (a\<lparr>ma_subjects := (ma_subjects a)[k := (ma_subjects a ! k)\<lparr>ms_omitted := False, ms_reason := []\<rparr>]\<rparr>)"
proof -
  let ?f = "\<lambda>c. c\<lparr>ma_subjects := (ma_subjects c)[k := (ma_subjects c ! k)\<lparr>ms_omitted := False, ms_reason := []\<rparr>]\<rparr>"
  have "forget (?f c) = ?f (forget c)" if "k < length (ma_subjects c)" for c using that by (cases "ma_subjects c ! k") (simp add: forget_def map_update)
  from this [of a] this [of b] show ?thesis using assms forget_eq(8) [OF assms(1)] by (simp only:)
qed

lemma retry_sweep_sim:
  "sim us vs \<Longrightarrow> \<forall>p \<in> set ps. valid_pos us p \<Longrightarrow> \<forall>u \<in> set us. unit_settled m u \<Longrightarrow> retry_sweep m ps g st us = (g', st', us') \<Longrightarrow>
   \<exists>vs'. retry_sweep m ps g st vs = (g', st', vs') \<and> sim us' vs'"
proof (induction ps arbitrary: g st us vs)
  case (Cons p ps)
  obtain i j k where p: "p = (i, j, k)" by (rule prod_cases3)
  let ?a = "anchor_at us i j" and ?b = "anchor_at vs i j"
  let ?f = "\<lambda>c. c\<lparr>ma_subjects := (ma_subjects c)[k := (ma_subjects c ! k)\<lparr>ms_omitted := False, ms_reason := []\<rparr>]\<rparr>"
  have v: "valid_pos us (i, j, k)" using Cons.prems(2) p by simp
  then have k: "k < length (ma_subjects ?a)" by simp
  have fo: "forget ?b = forget ?a" using sim_anchor [OF Cons.prems(1)] v by simp
  note ff = forget_fields [OF fo k]
  show ?case
  proof (cases "\<not> ms_omitted (ma_subjects ?a ! k) \<or> ms_reason (ma_subjects ?a ! k) = OmitChainEvicted")
    case True
    then show ?thesis using Cons.IH [OF Cons.prems(1) _ Cons.prems(3)] Cons.prems(2,4) p ff by auto
  next
    case False
    obtain ok st1 a1 where t: "try_first m k DecisionBase [0..<length (ms_alts (ma_subjects ?a ! k))] st ?a = (ok, st1, a1)" by (rule prod_cases3)
    from try_first_sim [OF fo k t] obtain b1 where tb: "try_first m k DecisionBase [0..<length (ms_alts (ma_subjects ?a ! k))] st ?b = (ok, st1, b1)" "forget b1 = forget a1" by blast
    show ?thesis
    proof (cases ok)
      case True
      note r = retry_anchor [OF valid_pos_settled(2) [OF v Cons.prems(3)] k _ t]
      have s: "anchor_step m st ?a st1 (?f a1)" "anchor_settled m (?f a1)" using r(1,2) False True by simp_all
      note pa = put_anchor_step(1) [OF v Cons.prems(3) s, unfolded units_step_def]
      have "k < length (ma_subjects a1)" using try_first_subjects [OF t] k by simp
      note sp = sim_put [OF Cons.prems(1) taken_back_sim [OF tb(2) this]]
      have "\<forall>p \<in> set ps. valid_pos (put_anchor i j (?f a1) us) p" using Cons.prems(2) pa valid_pos_layout by simp
      then show ?thesis using Cons.IH [OF sp] pa Cons.prems(4) False True t tb(1) ff p by simp
    next
      case f: False
      then show ?thesis using Cons.IH [OF Cons.prems(1) _ Cons.prems(3)] Cons.prems(2,4) False t tb(1) ff p by simp
    qed
  qed
qed simp

lemma retryOmitted_sim:
  "sim us vs \<Longrightarrow> \<forall>u \<in> set us. unit_settled m u \<Longrightarrow> retryOmitted m st us = Some (st', us') \<Longrightarrow> \<exists>vs'. retryOmitted m st vs = Some (st', vs') \<and> sim us' vs'"
proof (induction "units_slack us" arbitrary: st us vs rule: less_induct)
  case less
  obtain g st1 us1 where r: "retry_sweep m (positions_newest us) False st us = (g, st1, us1)" by (rule prod_cases3)
  have v: "\<forall>p \<in> set (positions_newest us). valid_pos us p" using valid_positions by blast
  from retry_sweep_sim [OF less.prems(1) v less.prems(2) r] sim_positions(2) [OF less.prems(1)]
  obtain vs1 where rv: "retry_sweep m (positions_newest vs) False st vs = (g, st1, vs1)" "sim us1 vs1" by auto
  note s = retry_sweep_step [OF v less.prems(2) r]
  show ?case
  proof (cases g)
    case True
    then have "retryOmitted m st1 us1 = Some (st', us')" using less.prems(3) r by (subst (asm) retryOmitted.simps) simp
    moreover have "units_slack us1 < units_slack us" "\<forall>u \<in> set us1. unit_settled m u" using s True by (auto simp: units_step_def)
    ultimately obtain vs' where "retryOmitted m st1 vs1 = Some (st', vs')" "sim us' vs'" using less.hyps [of us1 vs1 st1] rv(2) by blast
    then show ?thesis using rv(1) True by (subst retryOmitted.simps) simp
  next
    case False
    then have "st' = st1" "us' = us1" using less.prems(3) r by (subst (asm) retryOmitted.simps, simp)+
    then show ?thesis using rv False by (subst retryOmitted.simps) simp
  qed
qed

section \<open>The upgrades, side by side\<close>

lemma candidate_afresh_sim:
  assumes "forget b = forget a" "k < length (ma_subjects a)" "anchor_ok m a" "upgradeCandidate m e k st a = (c, st', a')"
  shows "candidate_afresh m e k st b = (c, st')" "forget a' = forget a"
proof -
  note s = upgradeCandidate_scan [OF assms(3,2,4)]
  show "forget a' = forget a" by (fact s(3))
  show "candidate_afresh m e k st b = (c, st')"
    using s(1) forget_fields [OF assms(1,2)] by (simp add: candidate_afresh_def candidate_ref_cong [OF assms(1,2)])
qed

lemma upgrade_scan_sim:
  "sim us vs \<Longrightarrow> \<forall>p \<in> set ps. valid_pos us p \<Longrightarrow> \<forall>u \<in> set us. unit_settled m u \<Longrightarrow> upgrade_scan m e ps best st us = (best', st', us') \<Longrightarrow>
   plain_scan m e ps best st vs = (best', st') \<and> sim us' vs"
proof (induction ps arbitrary: best st us)
  case (Cons p ps)
  obtain i j k where p: "p = (i, j, k)" by (rule prod_cases3)
  let ?a = "anchor_at us i j" and ?b = "anchor_at vs i j"
  have v: "valid_pos us (i, j, k)" using Cons.prems(2) p by simp
  then have k: "k < length (ma_subjects ?a)" "i < length us" "j < length (mu_anchors (us ! i))" by simp_all
  have fo: "forget ?b = forget ?a" using sim_anchor [OF Cons.prems(1) k(2,3)] .
  note ff = forget_fields [OF fo k(1)]
  show ?case
  proof (cases "ms_chosen (ma_subjects ?a ! k) < 0")
    case True
    then show ?thesis using Cons.IH [OF Cons.prems(1) _ Cons.prems(3), of best st] Cons.prems(2,4) p ff by simp
  next
    case False
    obtain c st1 a1 where u: "upgradeCandidate m e k st ?a = (c, st1, a1)" by (rule prod_cases3)
    note vs = valid_pos_settled [OF v Cons.prems(3)]
    note pc = candidate_afresh_sim [OF fo k(1) vs(3) u]
    note s = upgradeCandidate_scan [OF vs(3) k(1) u]
    define best1 where "best1 = (case c of None \<Rightarrow> best | Some (n, dTok) \<Rightarrow> (case best of None \<Rightarrow> Some ((i, j, k), n, dTok) | Some (p, n', d) \<Rightarrow> if dTok < d then Some ((i, j, k), n, dTok) else best))"
    have run: "upgrade_scan m e ps best1 st1 (put_anchor i j a1 us) = (best', st', us')"
      using Cons.prems(4) False u p by (auto simp: best1_def split: option.splits)
    have "anchor_step m st ?a st1 a1" using candidate_ref_result [OF s(1) [symmetric]] s(2) forget_eq(2,4) [OF s(3)] by (simp add: anchor_step_def)
    note pa = put_anchor_step(1) [OF v Cons.prems(3) this forget_settled [OF vs(2) s(2,3)], unfolded units_step_def]
    have "\<forall>p \<in> set ps. valid_pos (put_anchor i j a1 us) p" using Cons.prems(2) pa valid_pos_layout by simp
    from Cons.IH [OF sim_put_left [OF Cons.prems(1) k(2,3) pc(2)] this _ run] pa
    have "plain_scan m e ps best1 st1 vs = (best', st') \<and> sim us' vs" by blast
    then show ?thesis using False ff pc(1) p by (simp add: best1_def)
  qed
qed simp

lemma upgradeOnce_sim:
  assumes "sim us vs" "\<forall>u \<in> set us. unit_settled m u" "upgradeOnce m x e st us = (ok, st', us')"
  shows "\<exists>vs'. plain_once m x e st vs = (ok, st', vs') \<and> sim us' vs'"
proof (cases x)
  case True
  then show ?thesis using assms by (simp add: upgradeOnce_def plain_once_def)
next
  case False
  obtain best st1 us1 where r: "upgrade_scan m e (positions us) None st us = (best, st1, us1)" by (rule prod_cases3)
  have v: "\<forall>p \<in> set (positions us). valid_pos us p" using valid_positions by blast
  note s = upgrade_scan_sim [OF assms(1) v assms(2) r, folded sim_positions(1) [OF assms(1)]]
  note st = upgrade_scan_step [OF v assms(2) _ r]
  show ?thesis
  proof (cases best)
    case None
    then show ?thesis using s r assms(3) False by (simp add: upgradeOnce_def plain_once_def)
  next
    case (Some b)
    obtain i j k n d where b: "b = ((i, j, k), n, d)" by (metis surj_pair)
    have v1: "valid_pos us1 (i, j, k)" using st Some b by simp
    obtain st2 a2 where t: "tryAssign m k n DecisionUpgrade st1 (anchor_at us1 i j) = (ok, st2, a2)" "st' = st2" "us' = put_anchor i j a2 us1"
      using assms(3) False r Some b by (auto simp: upgradeOnce_def split: prod.splits)
    have "forget (anchor_at vs i j) = forget (anchor_at us1 i j)" using sim_anchor [of us1 vs i j] s v1 by simp
    from tryAssign_sim [OF this _ t(1)] obtain b2 where "tryAssign m k n DecisionUpgrade st1 (anchor_at vs i j) = (ok, st2, b2)" "forget b2 = forget a2" using v1 by auto
    then show ?thesis using s sim_put [of us1 vs b2 a2 i j] False Some b t(2,3) by (simp add: plain_once_def)
  qed
qed

lemma upgrade_loop_sim:
  "sim us vs \<Longrightarrow> \<forall>u \<in> set us. unit_settled m u \<Longrightarrow> upgrade_loop m cancelled n st us = Some (st', us') \<Longrightarrow> \<exists>vs'. plain_loop m cancelled n st vs = Some (st', vs') \<and> sim us' vs'"
proof (induction "units_slack us" arbitrary: n st us vs rule: less_induct)
  case less
  have again: "\<exists>vs'. Option.bind (retryOmitted m st1 vs1) (\<lambda>(st, us). plain_loop m cancelled n1 st us) = Some (st', vs') \<and> sim us' vs'"
    if s1: "sim us1 vs1" "\<forall>u \<in> set us1. unit_settled m u" "units_slack us1 < units_slack us"
      and run: "Option.bind (retryOmitted m st1 us1) (\<lambda>(st, us). upgrade_loop m cancelled n1 st us) = Some (st', us')" for st1 us1 vs1 n1
  proof -
    from retryOmitted_returns [OF s1(2)] obtain st2 us2 where r: "retryOmitted m st1 us1 = Some (st2, us2)" "units_step m st1 us1 st2 us2" "units_slack us2 \<le> units_slack us1" by blast
    from retryOmitted_sim [OF s1(1,2) r(1)] obtain vs2 where rv: "retryOmitted m st1 vs1 = Some (st2, vs2)" "sim us2 vs2" by blast
    have "units_slack us2 < units_slack us" "\<forall>u \<in> set us2. unit_settled m u" using r s1(3) by (simp_all add: units_step_def)
    from less.hyps [OF this(1) rv(2) this(2)] run r(1) show ?thesis using rv(1) by simp
  qed
  obtain ok1 st1 us1 where u1: "upgradeOnce m (cancelled n) True st us = (ok1, st1, us1)" by (rule prod_cases3)
  from upgradeOnce_sim [OF less.prems(1,2) u1] obtain vs1 where p1: "plain_once m (cancelled n) True st vs = (ok1, st1, vs1)" "sim us1 vs1" by blast
  note s1 = upgradeOnce_step [OF less.prems(2) u1]
  have se1: "\<forall>u \<in> set us1. unit_settled m u" using s1 by (simp add: units_step_def)
  show ?case
  proof (cases ok1)
    case True
    then have "Option.bind (retryOmitted m st1 us1) (\<lambda>(st, us). upgrade_loop m cancelled (n + 1) st us) = Some (st', us')"
      using less.prems(3) u1 by (subst (asm) upgrade_loop.simps) simp
    from again [OF p1(2) se1 _ this] show ?thesis using s1 True p1(1) by (subst plain_loop.simps) simp
  next
    case False
    obtain ok2 st2 us2 where u2: "upgradeOnce m (cancelled (n + 1)) False st1 us1 = (ok2, st2, us2)" by (rule prod_cases3)
    from upgradeOnce_sim [OF p1(2) se1 u2] obtain vs2 where p2: "plain_once m (cancelled (n + 1)) False st1 vs1 = (ok2, st2, vs2)" "sim us2 vs2" by blast
    note s2 = upgradeOnce_step [OF se1 u2]
    have se2: "\<forall>u \<in> set us2. unit_settled m u" using s2 by (simp add: units_step_def)
    show ?thesis
    proof (cases ok2)
      case True
      then have "Option.bind (retryOmitted m st2 us2) (\<lambda>(st, us). upgrade_loop m cancelled (n + 2) st us) = Some (st', us')"
        using less.prems(3) u1 u2 False by (subst (asm) upgrade_loop.simps) simp
      from again [OF p2(2) se2 _ this] show ?thesis using s1 s2 True False p1(1) p2(1) by (subst plain_loop.simps) simp
    next
      case f: False
      then have "st' = st2" "us' = us2" using less.prems(3) u1 u2 False by (subst (asm) upgrade_loop.simps, simp)+
      then show ?thesis using p1(1) p2 False f by (subst plain_loop.simps) simp
    qed
  qed
qed

section \<open>The whole allocation\<close>

lemma plain_allocateMixed_sim:
  assumes "\<forall>u \<in> set us. unit_built u" "allocateMixed m cancelled us budget sysTokens = Some (al, us', err)"
  shows "\<exists>vs'. plain_allocateMixed m cancelled us budget sysTokens = Some (al, vs', err) \<and> sim us' vs'"
proof -
  define st where "st = \<lparr>al_budget = budget, al_used = sysTokens, al_arithmeticOverflow = False, al_verbatimShortfalls = 0, al_evictedGroups = 0, al_anchorOmissions = 0\<rparr>"
  obtain r st0 where r: "reserve_must_fit us st = (r, st0)" by (rule prod.exhaust)
  obtain kept st1 us1 where k: "admit_kept m st0 us = (kept, st1, us1)" by (rule prod_cases3)
  obtain st2 us2 where p: "admit_lane m (\<lambda>u. mu_kind u = unitPlainSpan \<and> \<not> mu_keep u) st1 us1 = (st2, us2)" by (rule prod.exhaust)
  obtain st3 us3 where c: "admit_lane m (\<lambda>u. mu_kind u = unitChain \<and> \<not> mu_keep u) st2 us2 = (st3, us3)" by (rule prod.exhaust)
  obtain st4 us4 where h: "admit_lane m (\<lambda>u. mu_kind u = unitHistorySpan) st3 us3 = (st4, us4)" by (rule prod.exhaust)
  note unfold = allocateMixed_def plain_allocateMixed_def st_def [symmetric] Let_def r split_conv k p c h
  show ?thesis
  proof (cases "r \<and> al_used st0 \<le> al_budget st0 \<and> kept")
    case False
    then show ?thesis using assms(2) unfolding unfold by (auto split: if_splits)
  next
    case True
    note se = lanes_settled(1) [OF lanes_step [OF assms(1) _ p c h] assms(1)]
    have se: "\<forall>u \<in> set us4. unit_settled m u" using se [of st0] k True by simp
    from upgrade_loop_returns [OF this] obtain st5 us5 where u: "upgrade_loop m cancelled 0 st4 us4 = Some (st5, us5)" by blast
    from upgrade_loop_sim [OF sim_refl se u] obtain vs5 where v: "plain_loop m cancelled 0 st4 us4 = Some (st5, vs5)" "sim us5 vs5" by blast
    show ?thesis
      using assms(2) True u v sim_refresh [OF v(2), of m st5] sim_shortfalls [OF v(2)] sim_shortfalls [OF sim_refresh [OF v(2), of m st5]]
      unfolding unfold by auto
  qed
qed

text \<open>C13: The memo of upgrade candidates is only a cache: on the units of a conversation, as they are built for the first allocation or marked for the second, the allocator gives
  exactly what an allocator without a memo gives, which prices every later alternative again, at every turn of the loop, against the current choices. The ledger with all its counts, the error and
  every choice, content, decision and reason of the units are the same; only the memo itself is left out of the comparison.\<close>

theorem memo_is_cache:
  assumes "buildMixedUnits m st = Inr us" "vs = us \<or> vs = keep_newest us"
  shows "map_option (\<lambda>(al, us, err). (al, forget_units us, err)) (allocateMixed m cancelled vs budget sysTokens) =
    map_option (\<lambda>(al, us, err). (al, forget_units us, err)) (plain_allocateMixed m cancelled vs budget sysTokens)"
proof -
  have b: "\<forall>u \<in> set vs. unit_built u" using assms(2) built [OF assms(1)] keep_newest_built [OF built [OF assms(1)]] by blast
  from allocateMixed_outcome [OF b] obtain al us' err where a: "allocateMixed m cancelled vs budget sysTokens = Some (al, us', err)" by blast
  from plain_allocateMixed_sim [OF b a] show ?thesis using a by (auto simp: sim_def)
qed

definition twin_set :: "string \<Rightarrow> string \<Rightarrow> ContextSet" where
  "twin_set s t = \<lparr>cs_Groups = map (\<lambda>x. \<lparr>cg_Desc = \<lparr>gd_Subject = \<lparr>sr_Domain = DomainRAG, sr_ID = x\<rparr>, gd_Lane = 0, gd_Rank = 0\<rparr>,
     cg_Alternatives = [sample_alternative DepthL0 RepresentationCompact x, sample_alternative DepthL2 RepresentationVerbatim (concat (replicate 8 x))]\<rparr>) [s, t], cs_MinVerbatim = 0\<rparr>"

definition twin_conversation :: State where
  "twin_conversation = sample_conversation\<lparr>st_Messages := [mk_Message (mk_ChatMessage ''user'' ''goal'') Pinned, sample_call ''1'', (sample_result ''1'')\<lparr>m_Context := Some (twin_set ''aaa'' ''bb'')\<rparr>]\<rparr>"

definition twin_units :: "mixedUnit list" where
  "twin_units = projr (buildMixedUnits (mixed_manager False) twin_conversation)"

text \<open>Two subjects of one tool result, both upgraded, so that the second is priced against the first's new content.\<close>

theorem memo_is_cache_witness:
  "\<exists>al us' vs'. allocateMixed (mixed_manager False) (\<lambda>_. False) twin_units 40 1 = Some (al, us', None) \<and>
     plain_allocateMixed (mixed_manager False) (\<lambda>_. False) twin_units 40 1 = Some (al, vs', None) \<and> forget_units us' = forget_units vs' \<and>
     map ms_chosen (ma_subjects (hd (mu_anchors (vs' ! 1)))) = [1, 1]"
proof -
  have "\<not> isl (buildMixedUnits (mixed_manager False) twin_conversation)" by code_simp
  then have b: "buildMixedUnits (mixed_manager False) twin_conversation = Inr twin_units" unfolding twin_units_def by simp
  have "map_option (\<lambda>x. (snd (snd x), map ms_chosen (ma_subjects (hd (mu_anchors (fst (snd x) ! 1)))))) (plain_allocateMixed (mixed_manager False) (\<lambda>_. False) twin_units 40 1) = Some (None, [1, 1])" by code_simp
  then show ?thesis using memo_is_cache [of "mixed_manager False", OF b disjI1 [OF refl], of "\<lambda>_. False" 40 1] by auto
qed

end
