(* ===== verification/Spec2Isabelle.thy ===== *)
theory Spec2Isabelle
  imports Context_Manager Run_Budget Slot_Admission Conversation_Compress Route_Guarantees Chain_Guarantees Router_Config Plan_Stream Dispatch_Gates Dispatch_Parallel
    Fence_Guarantees Fence_Projection Mixed_Recount Mixed_Memo
begin

text \<open>
  \<^bold>\<open>Verification of the core of go-llm.\<close>

  The program is a Go library and runtime for language models. A \<^emph>\<open>router\<close> (package \<open>provider\<close>) decides which model of which
  provider serves a request and protects providers that fail; an \<^emph>\<open>agent\<close> (package \<open>agent\<close>) runs a model in a loop with tools,
  under a token budget and inside a context window; package \<open>conversation\<close> keeps dialogues within their window. Around these
  are stores, protocol servers and command line programs. The development models the decision logic of these three
  packages.

  \<^bold>\<open>Shared theories.\<close>
  \<^item> \<open>Prelude\<close>: Go integers with their bounds, durations and times, reachability, lemmas on lists and association lists.
  \<^item> \<open>Go_Int\<close>: plain \<open>int\<close> arithmetic that wraps around at 64 bits, where the code adds without a check: the cost sums of the conversation package, the number of
    fallbacks of a chain, the window left for output, the count behind a feedback score.
  \<^item> \<open>Go_Float\<close>: binary64 values as rationals with rounding to nearest even and the special values. Overflow to infinity and fused
    multiply-add, which the Go specification permits on some targets, are not represented.
  \<^item> \<open>Go_Strings\<close>, \<open>Go_Json\<close>, \<open>Go_Sha256\<close>: the parts of the standard library that the code calls: trimming, joining, cutting and number
    formatting; the scanner behind \<open>json.Valid\<close>; SHA-256. A string is the list of its bytes.
  \<^item> \<open>Cache_Interface\<close>: the contract of a bounded cache as a locale, interpreted on the sticky cache.

  \<^bold>\<open>Routing.\<close>
  \<^item> \<open>Circuit_Breaker\<close> (\<open>provider/circuit_breaker.go\<close>, \<open>router_errors.go\<close>): the breaker's state machine, options, snapshot, and which
    errors count as infrastructure failures. Invariant of every history, at most one probe per trip.
  \<^item> \<open>Sticky_Cache\<close> (\<open>provider/router_sticky.go\<close>): entries with time to live, eviction. Bound, least recently used eviction, coherence.
  \<^item> \<open>Router_Health\<close> (\<open>provider/router.go\<close>): breakers by provider and the recording of results; a half-open breaker whose probe is not
    reported never recovers.
  \<^item> \<open>Slot_Admission\<close> (\<open>provider/admission.go\<close>): permits per model as interleaved callers: capacity, exact gauges, no lost wake-up.
  \<^item> \<open>Provider_Registry\<close> (\<open>provider/registry.go\<close>): providers and the model index, refining sets of names and a relation.
  \<^item> \<open>Routing_Request\<close> (\<open>routing_request.go\<close>, \<open>types.go\<close>, \<open>model_profile.go\<close>): requests, capabilities, selectors, sticky keys, profiles.
  \<^item> \<open>Route_Scoring\<close> (\<open>token_budget.go\<close>, \<open>router_score.go\<close>, \<open>router.go\<close>): budget decisions, scores, ranking through the locale
    \<open>strict_ranking\<close>, the feedback snapshot. Scores are numbers in the unit interval, the ranking is deterministic.
  \<^item> \<open>Model_Candidates\<close> (\<open>model_registry.go\<close>, \<open>router.go\<close>): where candidates come from. The answers of the profile cache, of the providers and
    of the capability probes during one route are the record \<open>model_source\<close>.
  \<^item> \<open>Router_Plan\<close>, \<open>Router_Chain\<close>, \<open>Router_Route\<close> (\<open>router.go\<close>, \<open>router_chain.go\<close>): one scoring pass, plans, chain routing and \<open>Route\<close>. The state is
    \<open>router_health\<close> (breakers and sticky cache); the configuration is the record \<open>Router\<close>; the readings of clock and context during a
    route are the record \<open>route_env\<close>.
  \<^item> \<open>Route_Guarantees\<close>, \<open>Chain_Guarantees\<close>: what each error of \<open>Route\<close> means, one probe per route, affinity, and the exact order
    of a chain: the executable models of each selector in its turn, then the recommended ones, every model once. A limit of \<open>MaxInt\<close> fallbacks makes chain routing panic.
  \<^item> \<open>Router_Config\<close> (\<open>router.go\<close>): options, \<open>NewRouter\<close>, \<open>Close\<close>, observers.
  \<^item> \<open>Plan_Outcome\<close>, \<open>Plan_Execution\<close>, \<open>Plan_Stream\<close> (\<open>route_plan.go\<close>, \<open>route_errors.go\<close>, \<open>routing_feedback.go\<close>): executing a plan with its fallbacks,
    without and with streaming. Attempts, outcomes and feedback batches are values; the gates, the providers and the caller's callback are functions
    of the environment records \<open>call_env\<close>, \<open>embed_env\<close> and \<open>stream_env\<close>; permits, calls and signals form a log of events. The exact
    walk, at most one permit at a time, no text of two models in one stream, a final chunk is authoritative, and an error of the caller's
    callback that counts against the provider. The chunk types are instances of the locale \<open>chunk_kind\<close>.

  \<^bold>\<open>Agent.\<close>
  \<^item> \<open>Token_Arith\<close>, \<open>Agent_Types\<close>: checked and saturating token counts; messages, transcript state, history validation.
  \<^item> \<open>Compactor\<close> (\<open>agent/compactor.go\<close>): groups, classes and the recency compactor, equal to a greedy specification.
  \<^item> \<open>Pressure_Levels\<close>, \<open>Context_Manager\<close> (\<open>agent/pressure.go\<close>, \<open>context_manager.go\<close>, \<open>fence.go\<close>): accounting and assembly of a prompt. The
    assembled prompt is within the budget, keeps what is pinned, and assembly fails exactly when the pinned part does not fit.
  \<^item> \<open>Run_Budget\<close> (\<open>agent/run_budget.go\<close>): a forest of token allowances with reservations; exact accounts under every interleaving.
  \<^item> \<open>Tool_Governor\<close> (\<open>agent/tool.go\<close>, \<open>dispatch_parallel.go\<close>, \<open>orchestrator.go\<close>): effects and approval, the tool registry, the concurrency
    check, the restraint governor and the provenance of results.
  \<^item> \<open>Context_Depth\<close> (\<open>contextdepth/contextdepth.go\<close>): depths and kinds of retrieved representations.
  \<^item> \<open>Interceptor_Chain\<close> (\<open>agent/interceptor.go\<close>): interceptors around input, output and tool calls. The state of a run is \<open>interceptorRun\<close>; its
    invariant is an instance of the locale \<open>run_invariant\<close>. The risk score is the saturating sum of bounded risks, a block by an interceptor that guards
    protected text leaves no free text behind, and the gate in front of a tool call follows the highest verdict exactly.
  \<^item> \<open>Context_Set\<close> (\<open>agent/context_set.go\<close>): which structured results are accepted.
  \<^item> \<open>Tool_Dispatch\<close> (\<open>agent/dispatch.go\<close>, \<open>dispatch_parallel.go\<close>, \<open>verify.go\<close>): preparation, approval, invocation and recording of tool calls, the serial and
    the concurrent path, verification. The state shared through pointers is the record \<open>dispatch\<close>; tools, approver, observers, verifier, context and budget
    answer through \<open>dispatch_env\<close>, with answers that may change at every question. \<open>Dispatch_Transcript\<close>: no call of an orderly ended batch is left unanswered.
    \<open>Dispatch_Gates\<close>: a tool runs only behind its gates, and a result never gains trust. \<open>Dispatch_Parallel\<close>: both paths show the model the same.

  \<^item> \<open>Go_Utf8\<close>, \<open>Fence_Text\<close>, \<open>Fence_Keys\<close> (\<open>agent/fencekeys.go\<close>, \<open>internal/promptfence\<close>): the keys that frame untrusted text. How a text is read for keys, through
    layers of escapes, on the UTF-8 decoding of the standard library; minting, scanning within a byte limit, rotation. The random source and the order of map ranges are
    arguments. \<open>Fence_Rotation\<close>, \<open>Fence_Guarantees\<close>, \<open>Fence_Projection\<close>: the layers end, a quoted key is found, after a refresh no live key is quoted by what was scanned and no two
    values share one, and nothing is rotated without need.
  \<^item> \<open>Mixed_Units\<close>, \<open>Mixed_Alloc\<close>, \<open>Mixed_Assemble\<close> (\<open>agent/mixed_subjects.go\<close>, \<open>mixed_alloc.go\<close>, \<open>mixed_assemble.go\<close>): structured assembly. Units, anchors and subjects, which the
    source links by pointers, are nested records, and a step addresses a subject by its position. \<open>Mixed_Anchor\<close>, \<open>Mixed_Ledger\<close>, \<open>Mixed_Passes\<close>: the ledger, the invariant of an
    anchor and the slack that every accepted choice uses up, carried through one choice, one unit and all passes. \<open>Mixed_Guarantees\<close>, \<open>Mixed_Contract\<close>, \<open>Mixed_Recount\<close>: assembly
    always ends, the ledger of a successful allocation is exact and within the budget, every subject of the trace is decided, the low-water
    pass keeps the newest unit of the run, and the final recount is the ledger plus the frames that units other than chains are priced without. \<open>Mixed_Memo\<close>: the allocator
    gives what an allocator without the memo of upgrade prices gives.

  \<^bold>\<open>Conversation.\<close>
  \<^item> \<open>Conversation_Trim\<close>, \<open>Conversation_Compress\<close> (\<open>conversation/trim.go\<close>, \<open>compress.go\<close>): trimming to a token budget and to recent exchanges
    without tearing tool chains; the rolling summary. Costs wrap around as in the code; what is stated of exact costs has the range it needs as a hypothesis.

  \<^bold>\<open>Conventions.\<close> A mutex-protected method is one atomic function on the state; where a method drops its lock in between, its critical
  sections are separate functions and the theorems quantify over the interleavings. Ranging over a Go map takes the iteration order as an argument. Errors are values that
  keep the layers which \<open>errors.Is\<close> inspects; texts of wrapped errors are reduced to a tag. Loops are structural recursions or have a
  measure; the retry and upgrade loops of the mixed allocator, whose end depends on the state, are partial functions with None for a run that does not end, and are
  proved to return. No fuel is used.

  \<^bold>\<open>Not modelled.\<close> Storage (SQL), HTTP clients and servers, protocol glue, command line programs, process execution, configuration files: their
  behaviour is that of the libraries they call. Left for later: the agent's run
  loop, which puts the modelled parts of the agent together, the profile merge of the model registry, the prefetch cache (a second instance of the bounded
  cache), the completion budget, transcript stitching and the canonical form of signed documents.
\<close>

end
